(* ===== verification/Prelude.thy ===== *)
theory Prelude
  imports Main "HOL-Library.Word"
begin

unbundle bit_operations_syntax

text \<open>
  Shared vocabulary of the development: the machine types of the C sources, the outcome of a
  kernel routine (a value, a fault, or no return), the cell memory of the kernel address space,
  and the generic facts on words, lists and loops that the component theories use.
\<close>

section \<open>Machine types\<close>

type_synonym u8 = "8 word"
type_synonym u16 = "16 word"
type_synonym u32 = "32 word"
type_synonym u64 = "64 word"
type_synonym s32 = "32 word"
type_synonym ptr = u64

abbreviation NULL :: ptr where
  "NULL \<equiv> 0"

text \<open>
  Kernel memory as the page-table and allocator code sees it: 8-byte cells addressed by the
  virtual address of the cell.
\<close>

type_synonym cells = "u64 \<Rightarrow> u64"

text \<open>\<^verbatim>\<open>-1\<close> returned as a \<^verbatim>\<open>uint64_t\<close>.\<close>

abbreviation FAILED :: u64 where
  "FAILED \<equiv> - 1"

section \<open>Outcomes of kernel routines\<close>

text \<open>
  A routine returns a value, does something the C standard leaves undefined or that stops the
  machine (\<open>Fault\<close>), or never returns (\<open>NoReturn\<close>: a lock that nobody releases, a loop that does
  not end).
\<close>

datatype kerror = NullDeref | OutOfBounds | DivideByZero | BadShift | Overflow | UseAfterFree | Halted

datatype 'a outcome = Ret 'a | Fault kerror | NoReturn

primrec obind :: "'a outcome \<Rightarrow> ('a \<Rightarrow> 'b outcome) \<Rightarrow> 'b outcome" where
  "obind (Ret a) f = f a"
| "obind (Fault e) f = Fault e"
| "obind NoReturn f = NoReturn"

primrec of_opt :: "'a option \<Rightarrow> 'a outcome" where
  "of_opt None = NoReturn"
| "of_opt (Some a) = Ret a"

primrec returns :: "'a outcome \<Rightarrow> bool" where
  "returns (Ret a) = True"
| "returns (Fault e) = False"
| "returns NoReturn = False"

lemma obind_eq_Ret [simp]: "obind x f = Ret b \<longleftrightarrow> (\<exists>a. x = Ret a \<and> f a = Ret b)"
  by (cases x) auto

lemma obind_assoc: "obind (obind x f) g = obind x (\<lambda>a. obind (f a) g)"
  by (cases x) auto

lemma of_opt_eq_Ret [simp]: "of_opt x = Ret a \<longleftrightarrow> x = Some a"
  by (cases x) auto

lemma returns_iff: "returns x \<longleftrightarrow> (\<exists>a. x = Ret a)"
  by (cases x) auto

text \<open>Reading an object through a pointer.\<close>

definition deref :: "(ptr \<Rightarrow> 'a option) \<Rightarrow> ptr \<Rightarrow> 'a outcome" where
  "deref h p = (case h p of None \<Rightarrow> Fault NullDeref | Some x \<Rightarrow> Ret x)"

lemma deref_eq_Ret [simp]: "deref h p = Ret x \<longleftrightarrow> h p = Some x"
  by (simp add: deref_def split: option.splits)

lemma deref_None [simp]: "h p = None \<Longrightarrow> deref h p = Fault NullDeref"
  by (simp add: deref_def)

lemma deref_Some [simp]: "h p = Some x \<Longrightarrow> deref h p = Ret x"
  by (simp add: deref_def)

section \<open>Automation\<close>

named_theorems layout_simps \<open>address arithmetic of frames, tables and slots\<close>
named_theorems flag_simps \<open>bit tests on page-table entries and masks\<close>

section \<open>Words\<close>

lemma unat_plus_one_less: "unat (x + 1) = Suc (unat x)" if "x < y" for x y :: "'a::len word"
proof -
  have "unat x < unat y" using that by (simp add: word_less_nat_alt)
  then have "Suc (unat x) < 2 ^ LENGTH('a)"
    using unsigned_less [of y, where ?'a = nat] by linarith
  then show ?thesis by (simp add: unat_word_ariths)
qed

lemma unat_add_exact:
  "unat (x + y) = unat x + unat y" if "unat x + unat y < 2 ^ 64" for x y :: u64
  using that by (simp add: unat_word_ariths)

lemma unat_mult_exact:
  "unat (x * y) = unat x * unat y" if "unat x * unat y < 2 ^ 64" for x y :: u64
  using that by (simp add: unat_word_ariths)

lemma unat_sub_exact: "unat (x - y) = unat x - unat y" if "unat y \<le> unat x" for x y :: u64
  using that by (simp add: unat_sub word_le_nat_alt)

lemma u64_unat_bound: "unat (x :: u64) < 18446744073709551616"
  using unsigned_less [of x, where ?'a = nat] by simp

lemma unat_of_nat_u64 [simp]: "n < 2 ^ 64 \<Longrightarrow> unat (of_nat n :: u64) = n"
  by (simp add: unat_of_nat take_bit_nat_eq_self)

lemma word_eq_of_unat: "unat x = unat y \<Longrightarrow> x = y" for x y :: "'a::len word"
  by (simp add: word_unat_eq_iff)

lemma unat_round:
  fixes a b :: u64
  assumes "b \<noteq> 0" "unat a + unat b \<le> 2 ^ 64"
  shows "unat (a + (b - 1)) = unat a + unat b - 1"
proof -
  have b: "unat b \<noteq> 0" using assms(1) by (simp add: unat_eq_zero)
  then have "unat (b - 1) = unat b - 1" by (simp add: unat_sub_exact)
  then show ?thesis using assms b by (subst unat_add_exact) auto
qed

lemma unat_power_two: "k < 64 \<Longrightarrow> unat (2 ^ k :: u64) = 2 ^ k"
proof -
  assume "k < 64"
  then have "(2::nat) ^ k < 2 ^ 64" by (intro power_strict_increasing) auto
  then have "unat (of_nat (2 ^ k) :: u64) = 2 ^ k" by (rule unat_of_nat_u64)
  then show ?thesis by simp
qed

lemma unat_FAILED [simp]: "unat FAILED = 18446744073709551615"
  by (simp add: unsigned_minus_1_eq_mask mask_eq_exp_minus_1)

text \<open>Alignment is kept by wrapping arithmetic, since powers of two divide the modulus.\<close>

lemma dvd_unat_add: "(2::nat) ^ k dvd unat (x + y)"
  if "k \<le> 64" "2 ^ k dvd unat x" "2 ^ k dvd unat y" for x y :: u64
proof -
  have "(2::nat) ^ k dvd 2 ^ 64" using that(1) by (rule le_imp_power_dvd)
  then show ?thesis using that(2,3) unfolding unat_word_ariths by (simp add: dvd_mod)
qed

lemma dvd_unat_minus: "(2::nat) ^ k dvd unat (- y)" if "k \<le> 64" "2 ^ k dvd unat y" for y :: u64
proof -
  have "(2::nat) ^ k dvd 2 ^ 64" using that(1) by (rule le_imp_power_dvd)
  moreover have "unat (- y) = (2 ^ 64 - unat y) mod 2 ^ 64"
    using unat_sub_if' [of 0 y] by (simp add: unat_sub_if_size word_size)
  ultimately show ?thesis using that(2) by (simp only: dvd_mod_iff dvd_diff_nat)
qed

lemma dvd_unat_sub: "(2::nat) ^ k dvd unat (x - y)"
  if "k \<le> 64" "2 ^ k dvd unat x" "2 ^ k dvd unat y" for x y :: u64
  using dvd_unat_add [OF that(1,2) dvd_unat_minus [OF that(1,3)]] by simp

lemma page_aligned_8: "4096 dvd unat x \<Longrightarrow> 8 dvd unat x" for x :: u64
  by (erule dvd_trans [rotated]) simp

end
