(* ===== verification/Fayt.thy ===== *)
theory Fayt
  imports Prelude
begin

unbundle bit_operations_syntax

text \<open>
  The kernel is linked against the support library \<open>fayt\<close>, a git submodule whose sources are not
  part of the repository. Its macros and routines are parameters of the model: the record \<open>fayt\<close>
  has one field per routine the kernel calls, every definition that calls one takes the record as
  an argument, and \<open>fayt_laws\<close> collects what the callers rely on. \<open>fayt_ref\<close> is one instance that
  satisfies the laws; it is used only to evaluate examples and to show that the laws can hold.

  The lock type is a type parameter. \<open>spinlock\<close> is \<open>None\<close> where acquiring does not return.
\<close>

record 'l fayt =
  DIV_ROUNDUP :: "u64 \<Rightarrow> u64 \<Rightarrow> u64"
  ALIGN_UP :: "u64 \<Rightarrow> u64 \<Rightarrow> u64"
  BIT_TEST :: "u8 list \<Rightarrow> u64 \<Rightarrow> bool"
  BIT_SET :: "u8 list \<Rightarrow> u64 \<Rightarrow> u8 list"
  BIT_CLEAR :: "u8 list \<Rightarrow> u64 \<Rightarrow> u8 list"
  memset8 :: "u8 list \<Rightarrow> u8 \<Rightarrow> u64 \<Rightarrow> u8 list"
  memset64 :: "u64 \<Rightarrow> u64 \<Rightarrow> u64 \<Rightarrow> cells \<Rightarrow> cells"
  spinlock :: "'l \<Rightarrow> 'l option"
  spinrelease :: "'l \<Rightarrow> 'l"
  lock_zero :: 'l

section \<open>What the kernel relies on\<close>

definition div_roundup_law :: "'l fayt \<Rightarrow> bool" where
  "div_roundup_law F \<longleftrightarrow> (\<forall>a b. b \<noteq> 0 \<longrightarrow> unat a + unat b \<le> 2 ^ 64 \<longrightarrow>
     unat (DIV_ROUNDUP F a b) = (unat a + unat b - 1) div unat b)"

definition align_up_law :: "'l fayt \<Rightarrow> bool" where
  "align_up_law F \<longleftrightarrow> (\<forall>a k. k < 64 \<longrightarrow> unat a + 2 ^ k \<le> 2 ^ 64 \<longrightarrow>
     unat (ALIGN_UP F a (2 ^ k)) = (unat a + 2 ^ k - 1) div 2 ^ k * 2 ^ k)"

definition in_bitmap :: "u8 list \<Rightarrow> u64 \<Rightarrow> bool" where
  "in_bitmap bm i \<longleftrightarrow> unat i < 8 * length bm"

definition bit_laws :: "'l fayt \<Rightarrow> bool" where
  "bit_laws F \<longleftrightarrow>
     (\<forall>bm i. length (BIT_SET F bm i) = length bm \<and> length (BIT_CLEAR F bm i) = length bm) \<and>
     (\<forall>bm i j. in_bitmap bm i \<longrightarrow> in_bitmap bm j \<longrightarrow>
        BIT_TEST F (BIT_SET F bm i) j = (j = i \<or> BIT_TEST F bm j) \<and>
        BIT_TEST F (BIT_CLEAR F bm i) j = (j \<noteq> i \<and> BIT_TEST F bm j)) \<and>
     (\<forall>n i. in_bitmap (replicate n 0) i \<longrightarrow> \<not> BIT_TEST F (replicate n 0) i)"

definition memset8_law :: "'l fayt \<Rightarrow> bool" where
  "memset8_law F \<longleftrightarrow> (\<forall>xs v n. length xs = unat n \<longrightarrow> memset8 F xs v n = replicate (unat n) v)"

definition memset64_law :: "'l fayt \<Rightarrow> bool" where
  "memset64_law F \<longleftrightarrow> (\<forall>a v n m x. 8 dvd unat (x - a) \<longrightarrow>
     memset64 F a v n m x = (if unat (x - a) < 8 * unat n then v else m x))"

definition lock_free :: "'l fayt \<Rightarrow> 'l \<Rightarrow> bool" where
  "lock_free F l \<longleftrightarrow> spinlock F l \<noteq> None"

definition lock_laws :: "'l fayt \<Rightarrow> bool" where
  "lock_laws F \<longleftrightarrow>
     (\<forall>l l'. spinlock F l = Some l' \<longrightarrow> \<not> lock_free F l') \<and>
     (\<forall>l. lock_free F (spinrelease F l)) \<and>
     lock_free F (lock_zero F)"

definition fayt_laws :: "'l fayt \<Rightarrow> bool" where
  "fayt_laws F \<longleftrightarrow> div_roundup_law F \<and> align_up_law F \<and> bit_laws F \<and> memset8_law F \<and>
     memset64_law F \<and> lock_laws F"

subsection \<open>The laws in the form the proofs use\<close>

lemma DIV_ROUNDUP_exact:
  "fayt_laws F \<Longrightarrow> b \<noteq> 0 \<Longrightarrow> unat a + unat b \<le> 2 ^ 64 \<Longrightarrow>
    unat (DIV_ROUNDUP F a b) = (unat a + unat b - 1) div unat b"
  unfolding fayt_laws_def div_roundup_law_def by blast

lemma ALIGN_UP_exact:
  "fayt_laws F \<Longrightarrow> k < 64 \<Longrightarrow> unat a + 2 ^ k \<le> 2 ^ 64 \<Longrightarrow>
    unat (ALIGN_UP F a (2 ^ k)) = (unat a + 2 ^ k - 1) div 2 ^ k * 2 ^ k"
  unfolding fayt_laws_def align_up_law_def by blast

lemma length_BIT [simp]:
  assumes "fayt_laws F"
  shows "length (BIT_SET F bm i) = length bm" and "length (BIT_CLEAR F bm i) = length bm"
  using assms unfolding fayt_laws_def bit_laws_def by blast+

lemma in_bitmap_BIT [simp]:
  assumes "fayt_laws F"
  shows "in_bitmap (BIT_SET F bm i) = in_bitmap bm" and "in_bitmap (BIT_CLEAR F bm i) = in_bitmap bm"
  using assms by (auto simp: in_bitmap_def fun_eq_iff)

lemma BIT_TEST_update:
  assumes "fayt_laws F" "in_bitmap bm i" "in_bitmap bm j"
  shows "BIT_TEST F (BIT_SET F bm i) j = (j = i \<or> BIT_TEST F bm j)"
    and "BIT_TEST F (BIT_CLEAR F bm i) j = (j \<noteq> i \<and> BIT_TEST F bm j)"
  using assms unfolding fayt_laws_def bit_laws_def by blast+

lemma BIT_TEST_zero:
  "fayt_laws F \<Longrightarrow> in_bitmap (replicate n 0) i \<Longrightarrow> \<not> BIT_TEST F (replicate n 0) i"
  unfolding fayt_laws_def bit_laws_def by blast

lemma memset8_exact:
  "fayt_laws F \<Longrightarrow> length xs = unat n \<Longrightarrow> memset8 F xs v n = replicate (unat n) v"
  unfolding fayt_laws_def memset8_law_def by blast

lemma memset64_exact:
  "fayt_laws F \<Longrightarrow> 8 dvd unat (x - a) \<Longrightarrow>
    memset64 F a v n m x = (if unat (x - a) < 8 * unat n then v else m x)"
  unfolding fayt_laws_def memset64_law_def by blast

lemma lock_free_release [simp]: "fayt_laws F \<Longrightarrow> lock_free F (spinrelease F l)"
  unfolding fayt_laws_def lock_laws_def by blast

lemma lock_free_zero [simp]: "fayt_laws F \<Longrightarrow> lock_free F (lock_zero F)"
  unfolding fayt_laws_def lock_laws_def by blast

lemma spinlock_held: "fayt_laws F \<Longrightarrow> spinlock F l = Some l' \<Longrightarrow> spinlock F l' = None"
  unfolding fayt_laws_def lock_laws_def lock_free_def by blast

lemma lock_free_iff: "lock_free F l \<longleftrightarrow> (\<exists>l'. spinlock F l = Some l')"
  by (auto simp: lock_free_def)

section \<open>An instance that satisfies the laws\<close>

definition fayt_ref :: "bool fayt" where
  "fayt_ref = \<lparr>
     DIV_ROUNDUP = (\<lambda>a b. (a + (b - 1)) div b),
     ALIGN_UP = (\<lambda>a b. (a + (b - 1)) div b * b),
     BIT_TEST = (\<lambda>bm i. bit (bm ! unat (i div 8)) (unat (i mod 8))),
     BIT_SET = (\<lambda>bm i. bm[unat (i div 8) := Bit_Operations.set_bit (unat (i mod 8)) (bm ! unat (i div 8))]),
     BIT_CLEAR = (\<lambda>bm i. bm[unat (i div 8) := unset_bit (unat (i mod 8)) (bm ! unat (i div 8))]),
     memset8 = (\<lambda>xs v n. replicate (unat n) v @ drop (unat n) xs),
     memset64 = (\<lambda>a v n m x. if unat (x - a) < 8 * unat n then v else m x),
     spinlock = (\<lambda>l. if l then None else Some True),
     spinrelease = (\<lambda>_. False),
     lock_zero = False\<rparr>"

lemma div_roundup_ref: "div_roundup_law fayt_ref"
  by (auto simp: div_roundup_law_def fayt_ref_def unat_div unat_round)

lemma align_up_ref: "align_up_law fayt_ref"
  unfolding align_up_law_def
proof (intro allI impI)
  fix a :: u64 and k :: nat
  assume k: "k < 64" and le: "unat a + 2 ^ k \<le> 2 ^ 64"
  have p: "unat (2 ^ k :: u64) = 2 ^ k" using k by (rule unat_power_two)
  have nz: "(2 ^ k :: u64) \<noteq> 0" using k by (simp add: unat_eq_zero[symmetric] p)
  let ?s = "a + (2 ^ k - 1)"
  have s: "unat ?s = unat a + 2 ^ k - 1" using unat_round [OF nz, of a] le p by simp
  have "unat (?s div 2 ^ k * 2 ^ k) = unat ?s div 2 ^ k * 2 ^ k"
  proof (subst unat_mult_exact)
    have "unat ?s div 2 ^ k * 2 ^ k \<le> unat ?s" by (rule div_times_less_eq_dividend)
    also have "\<dots> < 2 ^ 64" using u64_unat_bound [of ?s] by simp
    finally show "unat (?s div 2 ^ k) * unat (2 ^ k :: u64) < 2 ^ 64"
      by (simp add: unat_div p)
  qed (simp add: unat_div p)
  then show "unat (ALIGN_UP fayt_ref a (2 ^ k)) = (unat a + 2 ^ k - 1) div 2 ^ k * 2 ^ k"
    by (simp add: fayt_ref_def s)
qed

lemma bit_pos_eq: "i div 8 = j div 8 \<Longrightarrow> i mod 8 = j mod 8 \<Longrightarrow> i = j" for i j :: u64
  by (metis div_mult_mod_eq)

lemma bit_pos_ref:
  assumes "in_bitmap bm i"
  shows "unat (i div 8) < length bm" and "unat (i mod 8) < 8"
  using assms by (simp_all add: in_bitmap_def unat_div unat_mod)

lemma bit_update_ref:
  assumes "in_bitmap bm i" "in_bitmap bm j"
  shows "BIT_TEST fayt_ref (BIT_SET fayt_ref bm i) j = (j = i \<or> BIT_TEST fayt_ref bm j)"
    and "BIT_TEST fayt_ref (BIT_CLEAR fayt_ref bm i) j = (j \<noteq> i \<and> BIT_TEST fayt_ref bm j)"
proof -
  define a b p q where "a = unat (i div 8)" and "b = unat (j div 8)"
    and "p = unat (i mod 8)" and "q = unat (j mod 8)"
  have r: "a < length bm" "b < length bm" "p < 8" "q < 8"
    using bit_pos_ref [OF assms(1)] bit_pos_ref [OF assms(2)] by (simp_all add: a_def b_def p_def q_def)
  have eq: "i = j \<longleftrightarrow> a = b \<and> p = q"
    using bit_pos_eq [of i j] by (auto simp: a_def b_def p_def q_def intro: word_eq_of_unat)
  have sb: "bit (bm[a := Bit_Operations.set_bit p (bm ! a)] ! b) q = (a = b \<and> p = q \<or> bit (bm ! b) q)"
    using r by (cases "a = b") (auto simp: bit_set_bit_iff)
  have ub: "bit (bm[a := unset_bit p (bm ! a)] ! b) q = (\<not> (a = b \<and> p = q) \<and> bit (bm ! b) q)"
    using r by (cases "a = b") (auto simp: bit_unset_bit_iff)
  show "BIT_TEST fayt_ref (BIT_SET fayt_ref bm i) j = (j = i \<or> BIT_TEST fayt_ref bm j)"
    using sb eq by (auto simp: fayt_ref_def a_def b_def p_def q_def)
  show "BIT_TEST fayt_ref (BIT_CLEAR fayt_ref bm i) j = (j \<noteq> i \<and> BIT_TEST fayt_ref bm j)"
    using ub eq by (auto simp: fayt_ref_def a_def b_def p_def q_def)
qed

lemma bit_laws_ref: "bit_laws fayt_ref"
proof -
  have "length (BIT_SET fayt_ref bm i) = length bm \<and> length (BIT_CLEAR fayt_ref bm i) = length bm" for bm i
    by (simp add: fayt_ref_def)
  moreover have "\<not> BIT_TEST fayt_ref (replicate n 0) i" if "in_bitmap (replicate n 0) i" for n i
    using bit_pos_ref(1) [OF that] by (simp add: fayt_ref_def)
  ultimately show ?thesis
    unfolding bit_laws_def using bit_update_ref by blast
qed

lemma fayt_laws_ref: "fayt_laws fayt_ref"
  unfolding fayt_laws_def
  using div_roundup_ref align_up_ref bit_laws_ref
  by (auto simp: memset8_law_def memset64_law_def lock_laws_def lock_free_def fayt_ref_def)

end
