(* ===== verification/Pmm.thy ===== *)
theory Pmm
  imports Fayt
begin

unbundle bit_operations_syntax

text \<open>
  The physical frame allocator, \<^verbatim>\<open>kernel/core/physical.c\<close>. A \<open>pmm_module\<close> manages one usable
  region of the boot memory map with a bitmap, one bit per 4 KiB frame. The C list
  \<^verbatim>\<open>root_module -> next -> ...\<close> is the list \<open>modules\<close> of the kernel state; the memory map entry a
  module points to is stored by value, since it is not written after \<^verbatim>\<open>pmm_init\<close>. A module
  keeps the address of its own struct (\<open>self\<close>) and of its bitmap (\<open>bitmap_ptr\<close>) beside the
  bitmap's bytes, so that the layout of the boot-time buffer can be stated. Modules and bitmaps are objects of
  their own, not cells of \<open>memory\<close>: what writes them changes no cell, and what writes \<open>memory\<close> changes no bitmap. The
  lemmas therefore do not cover a kernel whose bitmaps run past the boot-time buffer into frames that are handed out.

  Loops follow the C text on 64-bit words. The scan over candidate positions advances by
  \<^verbatim>\<open>align\<close>, which may be 0, so it is a partial function; that it returns for the alignments the
  kernel uses is a lemma.
\<close>

abbreviation PAGE_SIZE :: u64 where
  "PAGE_SIZE \<equiv> 0x1000"

section \<open>State\<close>

record limine_memmap_entry =
  me_base :: u64
  me_length :: u64
  me_type :: u64

definition LIMINE_MEMMAP_USABLE :: u64 where
  "LIMINE_MEMMAP_USABLE = 0"

record 'l pmm_module =
  self :: u64
  mmap_entry :: limine_memmap_entry
  bitmap_size :: u64
  bitmap_entry_cnt :: u64
  last_free :: u64
  bitmap_ptr :: u64
  bitmap :: "u8 list"
  module_lock :: 'l

abbreviation module_base :: "'l pmm_module \<Rightarrow> u64" where
  "module_base m \<equiv> me_base (mmap_entry m)"

text \<open>
  The part of the kernel state the memory managers share: the offset of the direct map, the
  allocator's modules and the memory cells.
\<close>

record 'l kstate =
  HIGH_VMA :: u64
  modules :: "'l pmm_module list"
  memory :: cells

section \<open>Allocation in one module\<close>

text \<open>
  The inner loop over \<^verbatim>\<open>j\<close> (lines 55 to 79): it meets a taken frame (\<open>Conflict\<close>), reaches
  \<^verbatim>\<open>++count == cnt\<close> (\<open>Found j count\<close>), or runs out of indices (\<open>Exhausted\<close>, only when \<^verbatim>\<open>cnt\<close> is 0).
\<close>

datatype run = Conflict | Exhausted | Found u64 u64

function pmm_run :: "'l fayt \<Rightarrow> u8 list \<Rightarrow> u64 \<Rightarrow> u64 \<Rightarrow> u64 \<Rightarrow> u64 \<Rightarrow> run" where
  "pmm_run F bm i cnt j count =
     (if j < i + cnt then
        if BIT_TEST F bm j then Conflict
        else if count + 1 = cnt then Found j (count + 1)
        else pmm_run F bm i cnt (j + 1) (count + 1)
      else Exhausted)"
  by pat_completeness auto
termination
  by (relation "measure (\<lambda>(F, bm, i, cnt, j, count). unat (i + cnt) - unat j)")
     (auto simp: unat_plus_one_less word_less_nat_alt)

function pmm_set_bits :: "'l fayt \<Rightarrow> u8 list \<Rightarrow> u64 \<Rightarrow> u64 \<Rightarrow> u64 \<Rightarrow> u8 list" where
  "pmm_set_bits F bm i z count =
     (if z < count then pmm_set_bits F (BIT_SET F bm (i + z)) i (z + 1) count else bm)"
  by pat_completeness auto
termination
  by (relation "measure (\<lambda>(F, bm, i, z, count). unat count - unat z)")
     (auto simp: unat_plus_one_less word_less_nat_alt)

function pmm_next_free :: "'l fayt \<Rightarrow> u8 list \<Rightarrow> u64 \<Rightarrow> u64 \<Rightarrow> u64" where
  "pmm_next_free F bm z entry_cnt =
     (if z < entry_cnt then
        if \<not> BIT_TEST F bm z then z else pmm_next_free F bm (z + 1) entry_cnt
      else 0)"
  by pat_completeness auto
termination
  by (relation "measure (\<lambda>(F, bm, z, n). unat n - unat z)")
     (auto simp: unat_plus_one_less word_less_nat_alt)

declare pmm_run.simps [simp del] pmm_set_bits.simps [simp del] pmm_next_free.simps [simp del]

definition pmm_take :: "'l fayt \<Rightarrow> 'l pmm_module \<Rightarrow> u64 \<Rightarrow> u64 \<Rightarrow> u64 \<Rightarrow> 'l pmm_module" where
  "pmm_take F m i j count =
     (let bm = pmm_set_bits F (bitmap m) i 0 count
      in m\<lparr>bitmap := bm, last_free := pmm_next_free F bm j (bitmap_entry_cnt m)\<rparr>)"

partial_function (option) pmm_scan ::
  "'l fayt \<Rightarrow> 'l pmm_module \<Rightarrow> u64 \<Rightarrow> u64 \<Rightarrow> u64 \<Rightarrow> u64 \<Rightarrow> (u64 \<times> 'l pmm_module) option" where
  "pmm_scan F m cnt align alloc_base i =
     (if i < bitmap_entry_cnt m then
        if bitmap_entry_cnt m < i + cnt then Some (FAILED, m)
        else (case pmm_run F (bitmap m) i cnt i 0 of
            Conflict \<Rightarrow> pmm_scan F m cnt align (alloc_base + align * PAGE_SIZE) (i + align)
          | Exhausted \<Rightarrow> pmm_scan F m cnt align alloc_base (i + align)
          | Found j count \<Rightarrow> Some (alloc_base, pmm_take F m i j count))
      else Some (FAILED, m))"

definition pmm_module_alloc ::
  "'l fayt \<Rightarrow> 'l pmm_module \<Rightarrow> u64 \<Rightarrow> u64 \<Rightarrow> (u64 \<times> 'l pmm_module) outcome" where
  "pmm_module_alloc F m cnt align =
     obind (of_opt (spinlock F (module_lock m))) (\<lambda>l.
       let m = m\<lparr>module_lock := l\<rparr>;
           alloc_base = ALIGN_UP F (module_base m + last_free m * PAGE_SIZE) (align * PAGE_SIZE);
           bit_base = (alloc_base - module_base m) div PAGE_SIZE
       in obind (of_opt (pmm_scan F m cnt align alloc_base bit_base)) (\<lambda>(a, m).
            Ret (a, m\<lparr>module_lock := spinrelease F (module_lock m)\<rparr>)))"

section \<open>Freeing in one module\<close>

function pmm_clear_bits :: "'l fayt \<Rightarrow> u8 list \<Rightarrow> u64 \<Rightarrow> u64 \<Rightarrow> u8 list outcome" where
  "pmm_clear_bits F bm i n =
     (if i < n then
        if in_bitmap bm i then pmm_clear_bits F (BIT_CLEAR F bm i) (i + 1) n else Fault OutOfBounds
      else Ret bm)"
  by pat_completeness auto
termination
  by (relation "measure (\<lambda>(F, bm, i, n). unat n - unat i)")
     (auto simp: unat_plus_one_less word_less_nat_alt)

declare pmm_clear_bits.simps [simp del]

definition pmm_module_free :: "'l fayt \<Rightarrow> 'l pmm_module \<Rightarrow> u64 \<Rightarrow> u64 \<Rightarrow> 'l pmm_module outcome" where
  "pmm_module_free F m base cnt =
     obind (of_opt (spinlock F (module_lock m))) (\<lambda>l.
       obind (pmm_clear_bits F (bitmap m) (DIV_ROUNDUP F base PAGE_SIZE)
                (DIV_ROUNDUP F base PAGE_SIZE + cnt)) (\<lambda>bm.
         Ret (m\<lparr>bitmap := bm, module_lock := spinrelease F l\<rparr>)))"

section \<open>Allocation and freeing over all modules\<close>

fun pmm_alloc_from ::
  "'l fayt \<Rightarrow> u64 \<Rightarrow> u64 \<Rightarrow> 'l pmm_module list \<Rightarrow> (u64 \<times> 'l pmm_module list) outcome" where
  "pmm_alloc_from F cnt align [] = Ret (FAILED, [])"
| "pmm_alloc_from F cnt align (m # ms) =
     obind (pmm_module_alloc F m cnt align) (\<lambda>(a, m').
       if a = FAILED then
         obind (pmm_alloc_from F cnt align ms) (\<lambda>(a', ms'). Ret (a', m' # ms'))
       else Ret (a, m' # ms))"

definition pmm_alloc :: "'l fayt \<Rightarrow> 'l kstate \<Rightarrow> u64 \<Rightarrow> u64 \<Rightarrow> (u64 \<times> 'l kstate) outcome" where
  "pmm_alloc F s cnt align =
     (if modules s = [] then Fault NullDeref
      else obind (pmm_alloc_from F cnt align (modules s)) (\<lambda>(a, ms).
        let s = s\<lparr>modules := ms\<rparr> in
        if a = FAILED then Ret (FAILED, s)
        else Ret (a, s\<lparr>memory := memset64 F (a + HIGH_VMA s) 0 (cnt * PAGE_SIZE div 8) (memory s)\<rparr>)))"

fun pmm_free_from ::
  "'l fayt \<Rightarrow> u64 \<Rightarrow> u64 \<Rightarrow> 'l pmm_module list \<Rightarrow> 'l pmm_module list outcome" where
  "pmm_free_from F base cnt [] = Ret []"
| "pmm_free_from F base cnt (m # ms) =
     (if module_base m \<le> base \<and>
         module_base m + cnt * PAGE_SIZE \<le> module_base m + bitmap_entry_cnt m * PAGE_SIZE
      then obind (pmm_module_free F m (base - module_base m) cnt) (\<lambda>m'. Ret (m' # ms))
      else obind (pmm_free_from F base cnt ms) (\<lambda>ms'. Ret (m # ms')))"

definition pmm_free :: "'l fayt \<Rightarrow> 'l kstate \<Rightarrow> u64 \<Rightarrow> u64 \<Rightarrow> 'l kstate outcome" where
  "pmm_free F s base cnt =
     (if modules s = [] then Fault NullDeref
      else obind (pmm_free_from F base cnt (modules s)) (\<lambda>ms. Ret (s\<lparr>modules := ms\<rparr>)))"

section \<open>Frames and ownership\<close>

definition mod_pages :: "'l pmm_module \<Rightarrow> nat" where
  "mod_pages m = unat (bitmap_entry_cnt m)"

definition taken :: "'l fayt \<Rightarrow> u8 list \<Rightarrow> nat \<Rightarrow> bool" where
  "taken F bm k \<longleftrightarrow> BIT_TEST F bm (of_nat k)"

definition frame_addr :: "'l pmm_module \<Rightarrow> nat \<Rightarrow> u64" where
  "frame_addr m k = module_base m + of_nat k * PAGE_SIZE"

definition mod_taken :: "'l fayt \<Rightarrow> 'l pmm_module \<Rightarrow> nat set" where
  "mod_taken F m = {k. k < mod_pages m \<and> taken F (bitmap m) k}"

definition module_geo :: "'l pmm_module \<Rightarrow> bool" where
  "module_geo m \<longleftrightarrow>
     4096 dvd unat (module_base m) \<and>
     unat (module_base m) + 4096 * mod_pages m \<le> 2 ^ 52 \<and>
     mod_pages m \<le> 8 * length (bitmap m) \<and>
     unat (last_free m) \<le> mod_pages m"

definition module_wf :: "'l fayt \<Rightarrow> 'l pmm_module \<Rightarrow> bool" where
  "module_wf F m \<longleftrightarrow> module_geo m \<and> lock_free F (module_lock m)"

definition fits :: "'l fayt \<Rightarrow> 'l pmm_module \<Rightarrow> nat \<Rightarrow> nat \<Rightarrow> bool" where
  "fits F m c i \<longleftrightarrow> i + c \<le> mod_pages m \<and> (\<forall>k. i \<le> k \<longrightarrow> k < i + c \<longrightarrow> \<not> taken F (bitmap m) k)"

lemma mod_pages_bound: "module_geo m \<Longrightarrow> mod_pages m \<le> 2 ^ 40"
  by (simp add: module_geo_def)

lemma in_bitmap_of_nat:
  "k < 8 * length bm \<Longrightarrow> k < 2 ^ 64 \<Longrightarrow> in_bitmap bm (of_nat k)"
  by (simp add: in_bitmap_def)

subsection \<open>The loops\<close>

lemma pmm_run_eq:
  assumes "unat i + unat cnt < 2 ^ 64" and "unat j = unat i + unat count" and "count < cnt"
  shows "pmm_run F bm i cnt j count =
     (if \<exists>k. unat j \<le> k \<and> k < unat i + unat cnt \<and> taken F bm k then Conflict
      else Found (i + cnt - 1) cnt)"
  using assms
proof (induction F bm i cnt j count rule: pmm_run.induct)
  case (1 F bm i cnt j count)
  have s: "unat (i + cnt) = unat i + unat cnt" using 1(2) by (rule unat_add_exact)
  have lt: "j < i + cnt" using 1(3,4) s by (simp add: word_less_nat_alt)
  have j1: "unat (j + 1) = Suc (unat j)" using lt by (rule unat_plus_one_less)
  have c1: "unat (count + 1) = Suc (unat count)" using 1(4) by (rule unat_plus_one_less)
  show ?case
  proof (cases "BIT_TEST F bm j")
    case True
    then have "taken F bm (unat j)" by (simp add: taken_def)
    moreover have "unat j < unat i + unat cnt" using lt s by (simp add: word_less_nat_alt)
    ultimately show ?thesis using True lt by (subst pmm_run.simps) auto
  next
    case False
    then have nt: "\<not> taken F bm (unat j)" by (simp add: taken_def)
    show ?thesis
    proof (cases "count + 1 = cnt")
      case True
      then have "unat cnt = Suc (unat count)" using c1 by simp
      then have only: "k = unat j" if "unat j \<le> k" "k < unat i + unat cnt" for k
        using that 1(3) by simp
      have "j = i + cnt - 1"
      proof -
        have "unat (i + count) = unat i + unat count"
          using 1(2,4) by (intro unat_add_exact) (simp add: word_less_nat_alt)
        then have "j = i + count" using 1(3) by (intro word_eq_of_unat) simp
        then show ?thesis using True by (metis add.assoc add_diff_cancel)
      qed
      then show ?thesis using True lt False only nt by (subst pmm_run.simps) auto
    next
      case False
      have "count + 1 < cnt"
        using False 1(4) c1 by (metis Suc_leI le_neq_implies_less word_eq_of_unat word_less_nat_alt)
      then have IH: "pmm_run F bm i cnt (j + 1) (count + 1) =
          (if \<exists>k. unat (j + 1) \<le> k \<and> k < unat i + unat cnt \<and> taken F bm k then Conflict
           else Found (i + cnt - 1) cnt)"
        using 1(1) lt \<open>\<not> BIT_TEST F bm j\<close> False 1(2,3) j1 c1 by simp
      have "(\<exists>k. unat (j + 1) \<le> k \<and> k < unat i + unat cnt \<and> taken F bm k) \<longleftrightarrow>
          (\<exists>k. unat j \<le> k \<and> k < unat i + unat cnt \<and> taken F bm k)"
        using nt j1 by (metis Suc_leD Suc_leI le_neq_implies_less)
      then show ?thesis using IH lt \<open>\<not> BIT_TEST F bm j\<close> False by (subst pmm_run.simps) simp
    qed
  qed
qed

lemma pmm_set_bits_spec:
  assumes "fayt_laws F" and "unat i + unat count \<le> 8 * length bm" and "unat i + unat count < 2 ^ 64"
    and "z \<le> count"
  shows "length (pmm_set_bits F bm i z count) = length bm \<and>
    (\<forall>k. k < 8 * length bm \<longrightarrow> k < 2 ^ 64 \<longrightarrow>
      taken F (pmm_set_bits F bm i z count) k =
        (unat i + unat z \<le> k \<and> k < unat i + unat count \<or> taken F bm k))"
  using assms
proof (induction F bm i z count rule: pmm_set_bits.induct)
  case (1 F bm i z count)
  show ?case
  proof (cases "z < count")
    case False
    then have "z = count" using 1(5) by simp
    then show ?thesis by (subst (1 2) pmm_set_bits.simps) auto
  next
    case True
    have z1: "unat (z + 1) = Suc (unat z)" using True by (rule unat_plus_one_less)
    have zlt: "unat z < unat count" using True by (simp add: word_less_nat_alt)
    have iz: "unat (i + z) = unat i + unat z"
      using 1(4) zlt by (intro unat_add_exact) simp
    let ?b = "BIT_SET F bm (i + z)"
    have le: "z + 1 \<le> count" using z1 zlt by (simp add: word_le_nat_alt)
    have IH: "length (pmm_set_bits F ?b i (z + 1) count) = length ?b \<and>
      (\<forall>k. k < 8 * length ?b \<longrightarrow> k < 2 ^ 64 \<longrightarrow>
        taken F (pmm_set_bits F ?b i (z + 1) count) k =
          (unat i + unat (z + 1) \<le> k \<and> k < unat i + unat count \<or> taken F ?b k))"
      using 1(1) [OF True 1(2)] 1(2-4) le by simp
    have ib: "in_bitmap bm (i + z)" using iz 1(3) zlt by (simp add: in_bitmap_def)
    have tb: "taken F ?b k = (k = unat i + unat z \<or> taken F bm k)"
      if "k < 8 * length bm" "k < 2 ^ 64" for k
    proof -
      have "of_nat k = i + z \<longleftrightarrow> k = unat i + unat z"
        using that iz by (metis of_nat_unat ucast_id unat_of_nat_u64)
      then show ?thesis
        using BIT_TEST_update(1) [OF 1(2) ib in_bitmap_of_nat [OF that]] by (simp add: taken_def)
    qed
    show ?thesis using IH True z1 zlt tb 1(2) by (subst (1 2) pmm_set_bits.simps) auto
  qed
qed

lemma pmm_next_free_spec:
  "if \<exists>k\<ge>unat z. k < unat n \<and> \<not> taken F bm k
   then unat z \<le> unat (pmm_next_free F bm z n) \<and> unat (pmm_next_free F bm z n) < unat n \<and>
        \<not> taken F bm (unat (pmm_next_free F bm z n)) \<and>
        (\<forall>k. unat z \<le> k \<longrightarrow> k < unat (pmm_next_free F bm z n) \<longrightarrow> taken F bm k)
   else pmm_next_free F bm z n = 0"
proof (induction F bm z n rule: pmm_next_free.induct)
  case (1 F bm z n)
  show ?case
  proof (cases "z < n")
    case False
    then show ?thesis by (subst (1 2 3 4 5) pmm_next_free.simps) (auto simp: word_less_nat_alt)
  next
    case True
    have z1: "unat (z + 1) = Suc (unat z)" using True by (rule unat_plus_one_less)
    have zn: "unat z < unat n" using True by (simp add: word_less_nat_alt)
    show ?thesis
    proof (cases "BIT_TEST F bm z")
      case False
      then have "\<not> taken F bm (unat z)" by (simp add: taken_def)
      moreover have "pmm_next_free F bm z n = z" using True False by (subst pmm_next_free.simps) simp
      ultimately show ?thesis using zn by auto
    next
      case t: True
      then have tz: "taken F bm (unat z)" by (simp add: taken_def)
      have e: "pmm_next_free F bm z n = pmm_next_free F bm (z + 1) n"
        using True t by (subst pmm_next_free.simps) simp
      have q: "(\<exists>k\<ge>unat (z + 1). k < unat n \<and> \<not> taken F bm k) \<longleftrightarrow> (\<exists>k\<ge>unat z. k < unat n \<and> \<not> taken F bm k)"
        using tz z1 by (metis Suc_leD Suc_leI le_neq_implies_less)
      have "unat z \<le> k \<Longrightarrow> k \<noteq> unat z \<Longrightarrow> unat (z + 1) \<le> k" for k using z1 by simp
      then show ?thesis using 1 [OF True] t tz unfolding e q
        by (smt (verit, best) Suc_leD z1)
    qed
  qed
qed
lemma pmm_run_fits:
  assumes "module_geo m" and "0 < unat cnt" and "unat i + unat cnt \<le> mod_pages m"
  shows "pmm_run F (bitmap m) i cnt i 0 =
    (if fits F m (unat cnt) (unat i) then Found (i + cnt - 1) cnt else Conflict)"
proof -
  have "unat i + unat cnt < 2 ^ 64"
    using assms(3) mod_pages_bound [OF assms(1)] by simp
  then have "pmm_run F (bitmap m) i cnt i 0 =
      (if \<exists>k. unat i \<le> k \<and> k < unat i + unat cnt \<and> taken F (bitmap m) k then Conflict
       else Found (i + cnt - 1) cnt)"
    using assms(2) by (intro pmm_run_eq) (auto simp: word_less_nat_alt)
  then show ?thesis using assms(3) by (auto simp: fits_def)
qed

text \<open>
  First fit: the scan returns the first position among \<open>i, i + align, i + 2 * align, ...\<close> where
  the request fits, and fails if there is none. In particular it returns.
\<close>

definition first_fit :: "'l fayt \<Rightarrow> 'l pmm_module \<Rightarrow> nat \<Rightarrow> nat \<Rightarrow> nat \<Rightarrow> nat \<Rightarrow> bool" where
  "first_fit F m c A i p \<longleftrightarrow>
     fits F m c p \<and> (\<exists>t. p = i + t * A \<and> (\<forall>u<t. \<not> fits F m c (i + u * A)))"

lemma first_fit_here: "fits F m c i \<Longrightarrow> first_fit F m c A i i"
  unfolding first_fit_def by (auto intro: exI [of _ 0])

lemma first_fit_next:
  "\<not> fits F m c i \<Longrightarrow> first_fit F m c A (i + A) p \<Longrightarrow> first_fit F m c A i p"
proof -
  assume nf: "\<not> fits F m c i" and ff: "first_fit F m c A (i + A) p"
  then obtain t where t: "p = i + A + t * A" "\<forall>u<t. \<not> fits F m c (i + A + u * A)" and f: "fits F m c p"
    by (auto simp: first_fit_def)
  have "\<not> fits F m c (i + u * A)" if "u < Suc t" for u
    using nf t(2) that by (cases u) (auto simp: add.assoc)
  then show ?thesis unfolding first_fit_def using t(1) f by (auto intro!: exI [of _ "Suc t"])
qed

lemma no_fit_next:
  "\<not> fits F m c i \<Longrightarrow> \<forall>t. \<not> fits F m c (i + A + t * A) \<Longrightarrow> \<not> fits F m c (i + t * A)"
  by (cases t) (auto simp: add.assoc)

text \<open>One turn of the scan: past the end, at a free run, at a conflict.\<close>

lemma pmm_scan_out:
  assumes "mod_pages m < unat i + unat cnt" "unat (i + cnt) = unat i + unat cnt"
  shows "pmm_scan F m cnt align base i = Some (FAILED, m)"
  using assms by (subst pmm_scan.simps) (simp add: word_less_nat_alt mod_pages_def)

lemma pmm_scan_inside:
  assumes "unat i + unat cnt \<le> mod_pages m" "unat (i + cnt) = unat i + unat cnt" "0 < unat cnt"
  shows "i < bitmap_entry_cnt m" "\<not> bitmap_entry_cnt m < i + cnt"
  using assms by (auto simp: word_less_nat_alt mod_pages_def)

lemma pmm_scan_fit:
  assumes "module_geo m" "0 < unat cnt" "unat (i + cnt) = unat i + unat cnt" "fits F m (unat cnt) (unat i)"
  shows "pmm_scan F m cnt align base i = Some (base, pmm_take F m i (i + cnt - 1) cnt)"
proof -
  have le: "unat i + unat cnt \<le> mod_pages m" using assms(4) by (simp add: fits_def)
  show ?thesis using pmm_scan_inside [OF le assms(3,2)] pmm_run_fits [OF assms(1,2) le] assms(4) by (subst pmm_scan.simps) simp
qed

lemma pmm_scan_conflict:
  assumes "module_geo m" "0 < unat cnt" "unat (i + cnt) = unat i + unat cnt" "unat i + unat cnt \<le> mod_pages m" "\<not> fits F m (unat cnt) (unat i)"
  shows "pmm_scan F m cnt align base i = pmm_scan F m cnt align (base + align * PAGE_SIZE) (i + align)"
  using pmm_scan_inside [OF assms(4,3,2)] pmm_run_fits [OF assms(1,2,4)] assms(5) by (subst pmm_scan.simps) simp

lemma pmm_scan_spec:
  assumes wf: "module_geo m" and c: "0 < unat cnt" "unat cnt \<le> 2 ^ 52"
    and A: "0 < unat align" "unat align \<le> 2 ^ 52" and i: "unat i \<le> 2 ^ 53"
  shows "\<exists>a m'. pmm_scan F m cnt align (module_base m + i * PAGE_SIZE) i = Some (a, m') \<and>
    (a = FAILED \<and> m' = m \<and> (\<forall>t. \<not> fits F m (unat cnt) (unat i + t * unat align)) \<or>
     (\<exists>p. first_fit F m (unat cnt) (unat align) (unat i) p \<and> a = frame_addr m p \<and>
        m' = pmm_take F m (of_nat p) (of_nat p + cnt - 1) cnt))"
  using i
proof (induction "mod_pages m - unat i" arbitrary: i rule: less_induct)
  case (less i)
  have ic: "unat (i + cnt) = unat i + unat cnt"
    using less.prems c(2) by (intro unat_add_exact) simp
  consider (out) "mod_pages m < unat i + unat cnt" | (fit) "fits F m (unat cnt) (unat i)"
    | (conflict) "unat i + unat cnt \<le> mod_pages m" "\<not> fits F m (unat cnt) (unat i)"
    by fastforce
  then show ?case
  proof cases
    case out
    then have "\<not> fits F m (unat cnt) (unat i + t * unat align)" for t by (simp add: fits_def)
    then show ?thesis using pmm_scan_out [OF out ic] by auto
  next
    case fit
    have "module_base m + i * PAGE_SIZE = frame_addr m (unat i)" by (simp add: frame_addr_def)
    then show ?thesis using pmm_scan_fit [OF wf c(1) ic fit] first_fit_here [OF fit]
      by (intro exI conjI disjI2) auto
  next
    case conflict
    have ii: "unat i < mod_pages m" using conflict(1) c(1) by simp
    have ia: "unat (i + align) = unat i + unat align"
      using A(2) ii mod_pages_bound [OF wf] by (intro unat_add_exact) simp
    have base: "module_base m + i * PAGE_SIZE + align * PAGE_SIZE = module_base m + (i + align) * PAGE_SIZE"
      by (simp add: algebra_simps)
    have "pmm_scan F m cnt align (module_base m + i * PAGE_SIZE) i =
        pmm_scan F m cnt align (module_base m + (i + align) * PAGE_SIZE) (i + align)"
      unfolding base [symmetric] by (rule pmm_scan_conflict [OF wf c(1) ic conflict])
    moreover have "mod_pages m - unat (i + align) < mod_pages m - unat i" "unat (i + align) \<le> 2 ^ 53"
      using ii ia A mod_pages_bound [OF wf] by simp_all
    ultimately show ?thesis
      using less.hyps [of "i + align"] ia conflict(2)
        first_fit_next [OF conflict(2), of "unat align"] no_fit_next [OF conflict(2), of "unat align"]
      by (smt (verit, best))
  qed
qed

lemma pmm_take_spec:
  assumes laws: "fayt_laws F" and wf: "module_geo m" and f: "fits F m (unat cnt) p" and c: "0 < unat cnt"
  defines "m' \<equiv> pmm_take F m (of_nat p) (of_nat p + cnt - 1) cnt"
  shows "mmap_entry m' = mmap_entry m" "bitmap_entry_cnt m' = bitmap_entry_cnt m"
    "module_lock m' = module_lock m" "self m' = self m" "bitmap_ptr m' = bitmap_ptr m" "bitmap_size m' = bitmap_size m"
    "length (bitmap m') = length (bitmap m)"
    "\<And>k. k < mod_pages m \<Longrightarrow> taken F (bitmap m') k = (p \<le> k \<and> k < p + unat cnt \<or> taken F (bitmap m) k)"
    "last_free m' = pmm_next_free F (bitmap m') (of_nat p + cnt - 1) (bitmap_entry_cnt m)"
proof -
  have le: "p + unat cnt \<le> mod_pages m" using f by (simp add: fits_def)
  have N: "mod_pages m \<le> 2 ^ 40" and B: "mod_pages m \<le> 8 * length (bitmap m)"
    using wf mod_pages_bound [OF wf] by (simp_all add: module_geo_def)
  have p: "unat (of_nat p :: u64) = p" using le N by simp
  let ?bm = "pmm_set_bits F (bitmap m) (of_nat p) 0 cnt"
  have s: "length ?bm = length (bitmap m) \<and>
    (\<forall>k. k < 8 * length (bitmap m) \<longrightarrow> k < 2 ^ 64 \<longrightarrow>
      taken F ?bm k = (p \<le> k \<and> k < p + unat cnt \<or> taken F (bitmap m) k))"
    using pmm_set_bits_spec [OF laws, of "of_nat p" cnt "bitmap m" 0] p le N B by simp
  have b: "bitmap m' = ?bm" by (simp add: m'_def pmm_take_def Let_def)
  show "length (bitmap m') = length (bitmap m)" using s b by simp
  show "taken F (bitmap m') k = (p \<le> k \<and> k < p + unat cnt \<or> taken F (bitmap m) k)"
    if "k < mod_pages m" for k using s b that N B by simp
  show "last_free m' = pmm_next_free F (bitmap m') (of_nat p + cnt - 1) (bitmap_entry_cnt m)"
    by (simp add: m'_def pmm_take_def Let_def)
qed (simp_all add: m'_def pmm_take_def Let_def)

lemma pmm_next_free_le: "unat (pmm_next_free F bm z n) \<le> unat n"
  using pmm_next_free_spec [of z n F bm] by (auto split: if_splits)


lemma dvd_ceil_split:
  fixes b n D :: nat
  assumes "0 < D"
  shows "D dvd (b + D - 1) div D * D" and "b \<le> (b + D - 1) div D * D" and "(b + D - 1) div D * D < b + D"
proof -
  have "(b + D - 1) = (b + D - 1) div D * D + (b + D - 1) mod D" by simp
  moreover have "(b + D - 1) mod D < D" using assms by simp
  ultimately show "b \<le> (b + D - 1) div D * D" and "(b + D - 1) div D * D < b + D" using assms by linarith+
qed simp

definition scan_start :: "'l pmm_module \<Rightarrow> nat \<Rightarrow> nat" where
  "scan_start m A =
     ((unat (module_base m) + 4096 * unat (last_free m) + 4096 * A - 1) div (4096 * A) * (4096 * A)
       - unat (module_base m)) div 4096"

lemma scan_start_spec:
  assumes geo: "module_geo m" and A: "0 < A"
  shows "4096 * A dvd unat (module_base m) + 4096 * scan_start m A"
    and "unat (last_free m) \<le> scan_start m A" and "scan_start m A < unat (last_free m) + A"
    and "unat (module_base m) + 4096 * scan_start m A =
      (unat (module_base m) + 4096 * unat (last_free m) + 4096 * A - 1) div (4096 * A) * (4096 * A)"
proof -
  let ?b = "unat (module_base m)" and ?l = "unat (last_free m)"
  let ?al = "(?b + 4096 * ?l + 4096 * A - 1) div (4096 * A) * (4096 * A)"
  have D: "0 < 4096 * A" using A by simp
  note c = dvd_ceil_split [OF D, of "?b + 4096 * ?l"]
  have "4096 dvd ?al" by simp
  moreover have "4096 dvd ?b" using geo by (simp add: module_geo_def)
  ultimately have "4096 dvd ?al - ?b" by (rule dvd_diff_nat)
  then have e: "4096 * scan_start m A = ?al - ?b" unfolding scan_start_def by simp
  then show s: "?b + 4096 * scan_start m A = ?al" using c(2) by simp
  show "4096 * A dvd ?b + 4096 * scan_start m A" unfolding s using c(1) by simp
  show "?l \<le> scan_start m A" "scan_start m A < ?l + A" using s c(2,3) by linarith+
qed

lemma scan_start_word:
  assumes laws: "fayt_laws F" and geo: "module_geo m" and k: "k \<le> 40"
  defines "ab \<equiv> ALIGN_UP F (module_base m + last_free m * PAGE_SIZE) (2 ^ k * PAGE_SIZE)"
  shows "unat ((ab - module_base m) div PAGE_SIZE) = scan_start m (2 ^ k)"
    and "ab = module_base m + (ab - module_base m) div PAGE_SIZE * PAGE_SIZE"
proof -
  let ?b = "unat (module_base m)" and ?l = "unat (last_free m)"
  have g: "?b + 4096 * mod_pages m \<le> 2 ^ 52" "?l \<le> mod_pages m" using geo by (simp_all add: module_geo_def)
  have "unat (last_free m * PAGE_SIZE) = ?l * 4096" using g by (subst unat_mult_exact) auto
  then have x: "unat (module_base m + last_free m * PAGE_SIZE) = ?b + 4096 * ?l"
    using g by (subst unat_add_exact) auto
  have al: "(2 ^ k * PAGE_SIZE :: u64) = 2 ^ (k + 12)" by (simp add: power_add)
  have p: "(2::nat) ^ (k + 12) \<le> 2 ^ 52" using k by (intro power_increasing) auto
  have "unat ab = (?b + 4096 * ?l + 2 ^ (k + 12) - 1) div 2 ^ (k + 12) * 2 ^ (k + 12)"
    unfolding ab_def al using ALIGN_UP_exact [OF laws, of "k + 12"] x k p g by simp
  also have "\<dots> = ?b + 4096 * scan_start m (2 ^ k)"
    using scan_start_spec(4) [OF geo, of "2 ^ k"] by (simp add: power_add mult.commute)
  finally have ab: "unat ab = ?b + 4096 * scan_start m (2 ^ k)" .
  then show i: "unat ((ab - module_base m) div PAGE_SIZE) = scan_start m (2 ^ k)"
    by (simp add: unat_div unat_sub_exact)
  have "unat ((ab - module_base m) div PAGE_SIZE * PAGE_SIZE) = 4096 * scan_start m (2 ^ k)"
    using ab u64_unat_bound [of ab] by (subst unat_mult_exact) (auto simp: i)
  then show "ab = module_base m + (ab - module_base m) div PAGE_SIZE * PAGE_SIZE"
    using ab u64_unat_bound [of ab] by (intro word_eq_of_unat) (subst unat_add_exact, auto)
qed

text \<open>What a successful request of \<open>c\<close> frames at index \<open>p\<close> does to the module.\<close>

definition grabbed :: "'l fayt \<Rightarrow> 'l pmm_module \<Rightarrow> nat \<Rightarrow> nat \<Rightarrow> 'l pmm_module \<Rightarrow> bool" where
  "grabbed F m c p m' \<longleftrightarrow>
     module_wf F m' \<and> mmap_entry m' = mmap_entry m \<and> bitmap_entry_cnt m' = bitmap_entry_cnt m \<and>
     (\<forall>k<mod_pages m. taken F (bitmap m') k = (p \<le> k \<and> k < p + c \<or> taken F (bitmap m) k)) \<and>
     last_free m' = pmm_next_free F (bitmap m') (of_nat p + of_nat c - 1) (bitmap_entry_cnt m)"

lemma module_geo_lock [simp]: "module_geo (m\<lparr>module_lock := l\<rparr>) = module_geo m"
  by (simp add: module_geo_def mod_pages_def)

lemma fits_lock [simp]: "fits F (m\<lparr>module_lock := l\<rparr>) = fits F m"
  by (simp add: fits_def fun_eq_iff mod_pages_def)

lemma first_fit_lock [simp]: "first_fit F (m\<lparr>module_lock := l\<rparr>) = first_fit F m"
  by (simp add: first_fit_def fun_eq_iff)

lemma frame_addr_lock [simp]: "frame_addr (m\<lparr>module_lock := l\<rparr>) = frame_addr m"
  by (simp add: frame_addr_def fun_eq_iff)

lemma mod_pages_lock [simp]: "mod_pages (m\<lparr>module_lock := l\<rparr>) = mod_pages m"
  by (simp add: mod_pages_def)

lemma pmm_take_grabbed:
  assumes laws: "fayt_laws F" and geo: "module_geo m" and f: "fits F m (unat cnt) p" and c: "0 < unat cnt"
    and m1: "m1 = pmm_take F (m\<lparr>module_lock := l\<rparr>) (of_nat p) (of_nat p + cnt - 1) cnt"
  shows "grabbed F m (unat cnt) p (m1\<lparr>module_lock := spinrelease F l'\<rparr>)"
proof -
  have g': "module_geo (m\<lparr>module_lock := l\<rparr>)" and f': "fits F (m\<lparr>module_lock := l\<rparr>) (unat cnt) p"
    using geo f by simp_all
  note t = pmm_take_spec [OF laws g' f' c, folded m1]
  have "module_geo m1"
    using geo t pmm_next_free_le [of F "bitmap m1" "of_nat p + cnt - 1" "bitmap_entry_cnt m"]
    by (simp add: module_geo_def mod_pages_def)
  then show ?thesis using t laws by (simp add: grabbed_def module_wf_def)
qed

text \<open>
  What one module answers: it returns, it fails exactly when no aligned position from
  \<open>scan_start\<close> on has room, and otherwise it hands out the first such position.
\<close>

definition module_answer :: "'l fayt \<Rightarrow> 'l pmm_module \<Rightarrow> nat \<Rightarrow> nat \<Rightarrow> u64 \<Rightarrow> 'l pmm_module \<Rightarrow> bool" where
  "module_answer F m c A a m' \<longleftrightarrow>
     (if a = FAILED then
        module_wf F m' \<and> m' = m\<lparr>module_lock := module_lock m'\<rparr> \<and>
        (\<forall>t. \<not> fits F m c (scan_start m A + t * A))
      else \<exists>p. first_fit F m c A (scan_start m A) p \<and> a = frame_addr m p \<and> grabbed F m c p m')"

lemma unat_frame_addr:
  "module_geo m \<Longrightarrow> p \<le> mod_pages m \<Longrightarrow> unat (frame_addr m p) = unat (module_base m) + 4096 * p"
proof -
  assume g: "module_geo m" and p: "p \<le> mod_pages m"
  then have b: "unat (module_base m) + 4096 * p \<le> 2 ^ 52" by (simp add: module_geo_def)
  then have "unat (of_nat p * PAGE_SIZE) = p * 4096" by (subst unat_mult_exact) auto
  then show ?thesis unfolding frame_addr_def using b by (subst unat_add_exact) auto
qed

lemma frame_addr_not_FAILED: "module_geo m \<Longrightarrow> p \<le> mod_pages m \<Longrightarrow> frame_addr m p \<noteq> FAILED"
proof
  assume g: "module_geo m" "p \<le> mod_pages m" and "frame_addr m p = FAILED"
  then have "unat (frame_addr m p) = 18446744073709551615" by simp
  then show False using unat_frame_addr [OF g] g by (simp add: module_geo_def)
qed

lemma first_fit_bound: "first_fit F m c A i p \<Longrightarrow> p + c \<le> mod_pages m"
  by (simp add: first_fit_def fits_def)

lemma pmm_module_alloc_answer:
  assumes laws: "fayt_laws F" and wf: "module_wf F m"
    and c: "0 < unat cnt" "unat cnt \<le> 2 ^ 52" and k: "k \<le> 40"
  shows "\<exists>a m'. pmm_module_alloc F m cnt (2 ^ k) = Ret (a, m') \<and> module_answer F m (unat cnt) (2 ^ k) a m'"
proof -
  have geo: "module_geo m" using wf by (simp add: module_wf_def)
  obtain l where l: "spinlock F (module_lock m) = Some l"
    using wf by (auto simp: module_wf_def lock_free_iff)
  let ?m = "m\<lparr>module_lock := l\<rparr>"
  let ?ab = "ALIGN_UP F (module_base m + last_free m * PAGE_SIZE) (2 ^ k * PAGE_SIZE)"
  let ?i = "(?ab - module_base m) div PAGE_SIZE"
  have pk: "unat (2 ^ k :: u64) = 2 ^ k" using k by (intro unat_power_two) simp
  have pk52: "(2::nat) ^ k \<le> 2 ^ 40" using k by (intro power_increasing) auto
  have i: "unat ?i = scan_start m (2 ^ k)" and ab: "?ab = module_base m + ?i * PAGE_SIZE"
    using scan_start_word [OF laws geo k] by simp_all
  have "unat ?i \<le> 2 ^ 53"
    using scan_start_spec(3) [OF geo, of "2 ^ k"] geo pk52 i by (simp add: module_geo_def)
  then obtain a m1 where scan: "pmm_scan F ?m cnt (2 ^ k) (module_base m + ?i * PAGE_SIZE) ?i = Some (a, m1)"
    and post: "a = FAILED \<and> m1 = ?m \<and> (\<forall>t. \<not> fits F m (unat cnt) (scan_start m (2 ^ k) + t * 2 ^ k)) \<or>
     (\<exists>p. first_fit F m (unat cnt) (2 ^ k) (scan_start m (2 ^ k)) p \<and> a = frame_addr m p \<and>
        m1 = pmm_take F ?m (of_nat p) (of_nat p + cnt - 1) cnt)"
    using pmm_scan_spec [of ?m cnt "2 ^ k" ?i F] geo c pk pk52 i by auto
  let ?m' = "m1\<lparr>module_lock := spinrelease F (module_lock m1)\<rparr>"
  have run: "pmm_module_alloc F m cnt (2 ^ k) = Ret (a, ?m')"
    using scan ab by (simp add: pmm_module_alloc_def l Let_def)
  from post have "module_answer F m (unat cnt) (2 ^ k) a ?m'"
  proof (elim disjE exE conjE)
    assume "a = FAILED" "m1 = ?m" "\<forall>t. \<not> fits F m (unat cnt) (scan_start m (2 ^ k) + t * 2 ^ k)"
    then show ?thesis using geo laws by (simp add: module_answer_def module_wf_def)
  next
    fix p assume ff: "first_fit F m (unat cnt) (2 ^ k) (scan_start m (2 ^ k)) p" and a: "a = frame_addr m p"
      and m1: "m1 = pmm_take F ?m (of_nat p) (of_nat p + cnt - 1) cnt"
    have "a \<noteq> FAILED" using a frame_addr_not_FAILED [OF geo] first_fit_bound [OF ff] by simp
    moreover have "grabbed F m (unat cnt) p ?m'"
      using ff by (intro pmm_take_grabbed [OF laws geo _ c(1) m1]) (simp add: first_fit_def)
    ultimately show ?thesis using ff a by (auto simp: module_answer_def)
  qed
  with run show ?thesis by blast
qed

section \<open>The allocator as a whole\<close>

definition mod_frames :: "'l pmm_module \<Rightarrow> u64 set" where
  "mod_frames m = frame_addr m ` {..<mod_pages m}"

definition mod_owned :: "'l fayt \<Rightarrow> 'l pmm_module \<Rightarrow> u64 set" where
  "mod_owned F m = frame_addr m ` mod_taken F m"

definition pmm_frames :: "'l kstate \<Rightarrow> u64 set" where
  "pmm_frames s = (\<Union>m\<in>set (modules s). mod_frames m)"

definition pmm_owned :: "'l fayt \<Rightarrow> 'l kstate \<Rightarrow> u64 set" where
  "pmm_owned F s = (\<Union>m\<in>set (modules s). mod_owned F m)"

definition pmm_inv :: "'l fayt \<Rightarrow> 'l kstate \<Rightarrow> bool" where
  "pmm_inv F s \<longleftrightarrow>
     modules s \<noteq> [] \<and> list_all (module_wf F) (modules s) \<and>
     sorted_wrt (\<lambda>m n. mod_frames m \<inter> mod_frames n = {}) (modules s) \<and>
     4096 dvd unat (HIGH_VMA s)"

definition run_frames :: "u64 \<Rightarrow> nat \<Rightarrow> u64 set" where
  "run_frames a c = (\<lambda>k. a + of_nat k * PAGE_SIZE) ` {..<c}"

subsection \<open>One module\<close>

lemma frame_addr_inj:
  assumes "module_geo m" "p \<le> mod_pages m" "q \<le> mod_pages m" "frame_addr m p = frame_addr m q"
  shows "p = q"
proof -
  have "unat (module_base m) + 4096 * p = unat (module_base m) + 4096 * q"
    using unat_frame_addr [OF assms(1,2)] unat_frame_addr [OF assms(1,3)] assms(4) by metis
  then show ?thesis by simp
qed

lemma mod_owned_subset: "mod_owned F m \<subseteq> mod_frames m"
  by (auto simp: mod_owned_def mod_frames_def mod_taken_def)

lemma run_frames_addr: "run_frames (frame_addr m p) c = frame_addr m ` {p..<p + c}"
proof -
  have "frame_addr m p + of_nat k * PAGE_SIZE = frame_addr m (p + k)" for k
    by (simp add: frame_addr_def algebra_simps)
  moreover have "{p..<p + c} = (\<lambda>k. p + k) ` {..<c}"
    using image_add_atLeastLessThan [of p 0 c] by (simp add: lessThan_atLeast0 add.commute)
  ultimately show ?thesis by (simp add: run_frames_def image_image)
qed

lemma same_module:
  assumes "m' = m\<lparr>module_lock := module_lock m'\<rparr>"
  shows "mod_frames m' = mod_frames m" "mod_owned F m' = mod_owned F m"
  by (subst assms, simp add: mod_frames_def mod_owned_def mod_taken_def)+

lemma grabbed_module:
  assumes g: "grabbed F m c p m'" and b: "p + c \<le> mod_pages m"
  shows "mod_frames m' = mod_frames m" and "mod_owned F m' = mod_owned F m \<union> run_frames (frame_addr m p) c"
proof -
  have fa: "frame_addr m' = frame_addr m" and pg: "mod_pages m' = mod_pages m"
    using g by (auto simp: grabbed_def frame_addr_def mod_pages_def fun_eq_iff)
  show "mod_frames m' = mod_frames m" by (simp add: mod_frames_def fa pg)
  have "mod_taken F m' = mod_taken F m \<union> {p..<p + c}"
    using g b by (auto simp: grabbed_def mod_taken_def pg)
  then show "mod_owned F m' = mod_owned F m \<union> run_frames (frame_addr m p) c"
    by (simp add: mod_owned_def fa image_Un run_frames_addr)
qed

lemma first_fit_fresh:
  assumes geo: "module_geo m" and ff: "first_fit F m c A i p"
  shows "run_frames (frame_addr m p) c \<subseteq> mod_frames m - mod_owned F m"
proof
  fix x assume "x \<in> run_frames (frame_addr m p) c"
  then obtain k where k: "p \<le> k" "k < p + c" and x: "x = frame_addr m k"
    unfolding run_frames_addr by auto
  have f: "fits F m c p" using ff by (simp add: first_fit_def)
  then have kp: "k < mod_pages m" and nt: "\<not> taken F (bitmap m) k"
    using k by (auto simp: fits_def)
  have "x \<notin> mod_owned F m"
  proof
    assume "x \<in> mod_owned F m"
    then obtain q where "q < mod_pages m" "taken F (bitmap m) q" "x = frame_addr m q"
      by (auto simp: mod_owned_def mod_taken_def)
    then show False using frame_addr_inj [OF geo, of k q] x kp nt by simp
  qed
  then show "x \<in> mod_frames m - mod_owned F m" using x kp by (auto simp: mod_frames_def)
qed

lemma first_fit_aligned:
  assumes geo: "module_geo m" and A: "0 < A" and c: "0 < c" and ff: "first_fit F m c A (scan_start m A) p"
  shows "4096 * A dvd unat (frame_addr m p)"
proof -
  obtain t where "p = scan_start m A + t * A" using ff by (auto simp: first_fit_def)
  then have "unat (frame_addr m p) = (unat (module_base m) + 4096 * scan_start m A) + t * (4096 * A)"
    using unat_frame_addr [OF geo, of p] first_fit_bound [OF ff] by (simp add: algebra_simps)
  then show ?thesis using scan_start_spec(1) [OF geo A] by simp
qed

subsection \<open>The module list\<close>

definition relocked :: "'l fayt \<Rightarrow> 'l pmm_module \<Rightarrow> 'l pmm_module \<Rightarrow> bool" where
  "relocked F m m' \<longleftrightarrow> module_wf F m' \<and> m' = m\<lparr>module_lock := module_lock m'\<rparr>"

definition list_answer ::
  "'l fayt \<Rightarrow> 'l pmm_module list \<Rightarrow> nat \<Rightarrow> nat \<Rightarrow> u64 \<Rightarrow> 'l pmm_module list \<Rightarrow> bool" where
  "list_answer F ms c A a ms' \<longleftrightarrow>
     (if a = FAILED then
        list_all2 (relocked F) ms ms' \<and> (\<forall>m\<in>set ms. \<forall>t. \<not> fits F m c (scan_start m A + t * A))
      else \<exists>pre m post pre' m' p. ms = pre @ m # post \<and> ms' = pre' @ m' # post \<and>
        list_all2 (relocked F) pre pre' \<and> first_fit F m c A (scan_start m A) p \<and>
        a = frame_addr m p \<and> grabbed F m c p m')"

lemma list_answer_skip:
  assumes "relocked F m m'" and "\<forall>t. \<not> fits F m c (scan_start m A + t * A)"
    and "list_answer F ms c A a ms'"
  shows "list_answer F (m # ms) c A a (m' # ms')"
proof (cases "a = FAILED")
  case True
  then show ?thesis using assms by (auto simp: list_answer_def)
next
  case False
  then obtain pre n post pre' n' p where
    "ms = pre @ n # post" "ms' = pre' @ n' # post" "list_all2 (relocked F) pre pre'"
    "first_fit F n c A (scan_start n A) p" "a = frame_addr n p" "grabbed F n c p n'"
    using assms(3) by (auto simp: list_answer_def)
  then have "m # ms = (m # pre) @ n # post \<and> m' # ms' = (m' # pre') @ n' # post \<and>
      list_all2 (relocked F) (m # pre) (m' # pre') \<and> first_fit F n c A (scan_start n A) p \<and>
      a = frame_addr n p \<and> grabbed F n c p n'" using assms(1) by simp
  then show ?thesis using False unfolding list_answer_def by (simp only: if_False) blast
qed

lemma list_answer_here:
  assumes "a \<noteq> FAILED" and "module_answer F m c A a m'"
  shows "list_answer F (m # ms) c A a (m' # ms)"
proof -
  obtain p where "first_fit F m c A (scan_start m A) p" "a = frame_addr m p" "grabbed F m c p m'"
    using assms by (auto simp: module_answer_def)
  then have "m # ms = [] @ m # ms \<and> m' # ms = [] @ m' # ms \<and> list_all2 (relocked F) [] [] \<and>
      first_fit F m c A (scan_start m A) p \<and> a = frame_addr m p \<and> grabbed F m c p m'" by simp
  then show ?thesis using assms(1) unfolding list_answer_def by (simp only: if_False) blast
qed

lemma pmm_alloc_from_answer:
  assumes laws: "fayt_laws F" and c: "0 < unat cnt" "unat cnt \<le> 2 ^ 52" and k: "k \<le> 40"
    and wf: "list_all (module_wf F) ms"
  shows "\<exists>a ms'. pmm_alloc_from F cnt (2 ^ k) ms = Ret (a, ms') \<and> list_answer F ms (unat cnt) (2 ^ k) a ms'"
  using wf
proof (induction ms)
  case Nil
  then show ?case by (simp add: list_answer_def)
next
  case (Cons m ms)
  then have wfm: "module_wf F m" by simp
  obtain a m' where run: "pmm_module_alloc F m cnt (2 ^ k) = Ret (a, m')"
    and ans: "module_answer F m (unat cnt) (2 ^ k) a m'"
    using pmm_module_alloc_answer [OF laws wfm c k] by blast
  obtain b ms' where b: "pmm_alloc_from F cnt (2 ^ k) ms = Ret (b, ms')"
    and IH: "list_answer F ms (unat cnt) (2 ^ k) b ms'" using Cons by auto
  show ?case
  proof (cases "a = FAILED")
    case True
    then have "pmm_alloc_from F cnt (2 ^ k) (m # ms) = Ret (b, m' # ms')" using run b by simp
    moreover have "list_answer F (m # ms) (unat cnt) (2 ^ k) b (m' # ms')"
      using ans True IH by (intro list_answer_skip) (auto simp: module_answer_def relocked_def)
    ultimately show ?thesis by blast
  next
    case False
    then have "pmm_alloc_from F cnt (2 ^ k) (m # ms) = Ret (a, m' # ms)" using run by simp
    then show ?thesis using list_answer_here [OF False ans] by blast
  qed
qed

lemma relocked_list:
  assumes "list_all2 (relocked F) ms ms'"
  shows "list_all (module_wf F) ms'" "map mod_frames ms' = map mod_frames ms"
    "map (mod_owned F) ms' = map (mod_owned F) ms" "length ms' = length ms"
  using assms by (induction rule: list_all2_induct) (auto simp: relocked_def dest: same_module)

lemma sorted_wrt_map_frames:
  "sorted_wrt (\<lambda>m n. mod_frames m \<inter> mod_frames n = {}) ms =
   sorted_wrt (\<lambda>A B. A \<inter> B = {}) (map mod_frames ms)"
  by (simp add: sorted_wrt_map)

lemma pmm_frames_map: "pmm_frames s = \<Union> (set (map mod_frames (modules s)))"
  by (simp add: pmm_frames_def)

lemma pmm_owned_map: "pmm_owned F s = \<Union> (set (map (mod_owned F) (modules s)))"
  by (simp add: pmm_owned_def)


subsection \<open>The kernel state\<close>

definition alloc_post :: "'l fayt \<Rightarrow> 'l kstate \<Rightarrow> nat \<Rightarrow> nat \<Rightarrow> u64 \<Rightarrow> 'l kstate \<Rightarrow> bool" where
  "alloc_post F s c D a s' \<longleftrightarrow>
     pmm_inv F s' \<and> HIGH_VMA s' = HIGH_VMA s \<and> pmm_frames s' = pmm_frames s \<and>
     (if a = FAILED then pmm_owned F s' = pmm_owned F s \<and> memory s' = memory s
      else D dvd unat a \<and> run_frames a c \<subseteq> pmm_frames s - pmm_owned F s \<and>
        pmm_owned F s' = pmm_owned F s \<union> run_frames a c \<and>
        (\<forall>x. 8 dvd unat x \<longrightarrow>
           memory s' x = (if unat (x - (a + HIGH_VMA s)) < 4096 * c then 0 else memory s x)))"

lemma list_answer_step:
  assumes laws: "fayt_laws F" and inv: "pmm_inv F s" and c: "0 < c" and A: "0 < A"
    and ans: "list_answer F (modules s) c A a ms'"
  shows "pmm_inv F (s\<lparr>modules := ms'\<rparr>)" and "pmm_frames (s\<lparr>modules := ms'\<rparr>) = pmm_frames s"
    and "a = FAILED \<Longrightarrow> pmm_owned F (s\<lparr>modules := ms'\<rparr>) = pmm_owned F s"
    and "a \<noteq> FAILED \<Longrightarrow> 4096 * A dvd unat a \<and> run_frames a c \<subseteq> pmm_frames s - pmm_owned F s \<and>
      pmm_owned F (s\<lparr>modules := ms'\<rparr>) = pmm_owned F s \<union> run_frames a c \<and> c \<le> 2 ^ 40"
proof -
  have wf: "list_all (module_wf F) (modules s)" using inv by (simp add: pmm_inv_def)
  have disj: "sorted_wrt (\<lambda>A B. A \<inter> B = {}) (map mod_frames (modules s))"
    using inv by (simp add: pmm_inv_def sorted_wrt_map_frames)
  have "map mod_frames ms' = map mod_frames (modules s) \<and> list_all (module_wf F) ms' \<and>
    (if a = FAILED then map (mod_owned F) ms' = map (mod_owned F) (modules s)
     else 4096 * A dvd unat a \<and> run_frames a c \<subseteq> pmm_frames s - pmm_owned F s \<and>
      pmm_owned F (s\<lparr>modules := ms'\<rparr>) = pmm_owned F s \<union> run_frames a c \<and> c \<le> 2 ^ 40)"
  proof (cases "a = FAILED")
    case True
    then show ?thesis using ans by (auto simp: list_answer_def dest: relocked_list)
  next
    case False
    then obtain pre m post pre' m' p where ms: "modules s = pre @ m # post" and ms': "ms' = pre' @ m' # post"
      and rel: "list_all2 (relocked F) pre pre'" and ff: "first_fit F m c A (scan_start m A) p"
      and a: "a = frame_addr m p" and g: "grabbed F m c p m'"
      using ans unfolding list_answer_def by auto
    have geo: "module_geo m" using wf ms by (simp add: module_wf_def)
    note b = first_fit_bound [OF ff]
    note gm = grabbed_module [OF g b] and rl = relocked_list [OF rel]
    have own: "mod_owned F n \<subseteq> mod_frames n" for n by (rule mod_owned_subset)
    have others: "mod_frames n \<inter> mod_frames m = {}" if "n \<in> set pre \<union> set post" for n
      using disj that unfolding ms by (auto simp: sorted_wrt_append)
    have fresh: "run_frames a c \<subseteq> mod_frames m - mod_owned F m"
      using first_fit_fresh [OF geo ff] a by simp
    then have "run_frames a c \<subseteq> pmm_frames s - pmm_owned F s"
      using others own unfolding pmm_frames_def pmm_owned_def ms by fastforce
    moreover have "\<Union> (set (map (mod_owned F) pre')) = \<Union> (set (map (mod_owned F) pre))"
      using rl(3) by simp
    then have "pmm_owned F (s\<lparr>modules := ms'\<rparr>) = pmm_owned F s \<union> run_frames a c"
      using gm(2) unfolding pmm_owned_def ms ms' a by auto
    ultimately show ?thesis
      using False ms ms' gm(1) rl(1,2) g wf a first_fit_aligned [OF geo A c ff] b mod_pages_bound [OF geo]
      by (simp add: grabbed_def)
  qed
  then show "pmm_inv F (s\<lparr>modules := ms'\<rparr>)" "pmm_frames (s\<lparr>modules := ms'\<rparr>) = pmm_frames s"
    "a = FAILED \<Longrightarrow> pmm_owned F (s\<lparr>modules := ms'\<rparr>) = pmm_owned F s"
    "a \<noteq> FAILED \<Longrightarrow> 4096 * A dvd unat a \<and> run_frames a c \<subseteq> pmm_frames s - pmm_owned F s \<and>
      pmm_owned F (s\<lparr>modules := ms'\<rparr>) = pmm_owned F s \<union> run_frames a c \<and> c \<le> 2 ^ 40"
    using inv by (auto simp: pmm_inv_def sorted_wrt_map_frames pmm_frames_map pmm_owned_map
        simp del: set_map)
qed

lemma memset_frames:
  assumes laws: "fayt_laws F" and c: "unat cnt \<le> 2 ^ 40" and a: "4096 dvd unat a" "4096 dvd unat hv"
    and x: "8 dvd unat x"
  shows "memset64 F (a + hv) 0 (cnt * PAGE_SIZE div 8) m x =
    (if unat (x - (a + hv)) < 4096 * unat cnt then 0 else m x)"
proof -
  have "4096 dvd unat (a + hv)" using dvd_unat_add [of 12 a hv] a by simp
  then have "8 dvd unat (x - (a + hv))" using dvd_unat_sub [of 3 x "a + hv"] x page_aligned_8 by simp
  moreover have "unat (cnt * PAGE_SIZE div 8) = 512 * unat cnt"
    using c by (subst unat_div, subst unat_mult_exact) auto
  ultimately show ?thesis using memset64_exact [OF laws] by simp
qed

lemma pmm_alloc_correct:
  assumes laws: "fayt_laws F" and inv: "pmm_inv F s"
    and c: "0 < unat cnt" "unat cnt \<le> 2 ^ 52" and k: "k \<le> 40"
  shows "\<exists>a s'. pmm_alloc F s cnt (2 ^ k) = Ret (a, s') \<and> alloc_post F s (unat cnt) (4096 * 2 ^ k) a s'"
proof -
  have ne: "modules s \<noteq> []" and wf: "list_all (module_wf F) (modules s)" and hv: "4096 dvd unat (HIGH_VMA s)"
    using inv by (simp_all add: pmm_inv_def)
  obtain a ms' where run: "pmm_alloc_from F cnt (2 ^ k) (modules s) = Ret (a, ms')"
    and ans: "list_answer F (modules s) (unat cnt) (2 ^ k) a ms'"
    using pmm_alloc_from_answer [OF laws c k wf] by blast
  have A: "0 < (2::nat) ^ k" by simp
  note st = list_answer_step [OF laws inv c(1) A ans]
  show ?thesis
  proof (cases "a = FAILED")
    case True
    then have "pmm_alloc F s cnt (2 ^ k) = Ret (a, s\<lparr>modules := ms'\<rparr>)"
      using ne run by (simp add: pmm_alloc_def Let_def)
    moreover have "alloc_post F s (unat cnt) (4096 * 2 ^ k) a (s\<lparr>modules := ms'\<rparr>)"
      using st(1-3) True by (simp add: alloc_post_def)
    ultimately show ?thesis by blast
  next
    case False
    let ?s = "s\<lparr>modules := ms', memory := memset64 F (a + HIGH_VMA s) 0 (cnt * PAGE_SIZE div 8) (memory s)\<rparr>"
    have "pmm_alloc F s cnt (2 ^ k) = Ret (a, ?s)"
      using ne run False by (simp add: pmm_alloc_def Let_def)
    moreover have "4096 dvd unat a" using st(4) [OF False] by (meson dvd_mult_left)
    then have "alloc_post F s (unat cnt) (4096 * 2 ^ k) a ?s"
      using st(1,2) st(4) [OF False] False hv memset_frames [OF laws]
      by (simp add: alloc_post_def pmm_inv_def pmm_frames_def pmm_owned_def)
    ultimately show ?thesis by blast
  qed
qed

subsection \<open>How many frames can still be handed out\<close>

fun pmm_room :: "'l fayt \<Rightarrow> 'l pmm_module list \<Rightarrow> nat \<Rightarrow> bool" where
  "pmm_room F ms 0 = True"
| "pmm_room F ms (Suc n) =
     (case pmm_alloc_from F 1 1 ms of
        Ret (a, ms') \<Rightarrow> a \<noteq> FAILED \<and> pmm_room F ms' n
      | _ \<Rightarrow> False)"

lemma pmm_room_mono: "pmm_room F ms n \<Longrightarrow> k \<le> n \<Longrightarrow> pmm_room F ms k"
proof (induction n arbitrary: ms k)
  case (Suc n)
  show ?case
  proof (cases k)
    case (Suc j)
    then show ?thesis using Suc.prems Suc.IH by (auto split: outcome.splits)
  qed simp
qed simp

lemma scan_start_one: "module_geo m \<Longrightarrow> scan_start m 1 = unat (last_free m)"
  using scan_start_spec(2,3) [of m 1] by simp

definition tail_free :: "'l fayt \<Rightarrow> 'l pmm_module \<Rightarrow> bool" where
  "tail_free F m \<longleftrightarrow> (\<forall>k. unat (last_free m) \<le> k \<longrightarrow> k < mod_pages m \<longrightarrow> \<not> taken F (bitmap m) k)"

text \<open>Taking the first frames of the free end leaves a free end.\<close>

lemma grabbed_tail:
  fixes cnt :: u64
  assumes tf: "tail_free F m" and g: "grabbed F m (unat cnt) (unat (last_free m)) m'"
    and c: "0 < unat cnt" "unat (last_free m) + unat cnt < mod_pages m" "unat (last_free m) + unat cnt \<le> 2 ^ 40"
  shows "tail_free F m' \<and> unat (last_free m') = unat (last_free m) + unat cnt"
proof -
  let ?l = "unat (last_free m)" and ?z = "last_free m + cnt - 1"
  have pg: "mod_pages m' = mod_pages m" using g by (simp add: grabbed_def mod_pages_def)
  have tk: "taken F (bitmap m') k = (?l \<le> k \<and> k < ?l + unat cnt \<or> taken F (bitmap m) k)" if "k < mod_pages m" for k
    using g that by (auto simp: grabbed_def)
  have lf: "last_free m' = pmm_next_free F (bitmap m') ?z (bitmap_entry_cnt m)"
    using g by (simp add: grabbed_def)
  have "unat (last_free m + cnt) = ?l + unat cnt" using c(3) by (intro unat_add_exact) simp
  then have z: "unat ?z = ?l + unat cnt - 1" using c(1) by (subst unat_sub_exact) simp_all
  have free: "\<not> taken F (bitmap m') k" if "?l + unat cnt \<le> k" "k < mod_pages m" for k
    using tk that tf by (auto simp: tail_free_def)
  have "\<exists>k\<ge>unat ?z. k < unat (bitmap_entry_cnt m) \<and> \<not> taken F (bitmap m') k"
    using free [of "?l + unat cnt"] c(2) z by (auto simp: mod_pages_def intro!: exI [of _ "?l + unat cnt"])
  then have r: "unat ?z \<le> unat (last_free m')" "\<not> taken F (bitmap m') (unat (last_free m'))"
    "\<forall>k. unat ?z \<le> k \<longrightarrow> k < unat (last_free m') \<longrightarrow> taken F (bitmap m') k"
    using pmm_next_free_spec [of ?z "bitmap_entry_cnt m" F "bitmap m'"] by (auto simp: lf)
  have "unat (last_free m') \<noteq> unat ?z" using r(2) tk [of "unat ?z"] z c by auto
  moreover have "\<not> ?l + unat cnt < unat (last_free m')" using r(3) free [of "?l + unat cnt"] c(2) z by auto
  ultimately have "unat (last_free m') = ?l + unat cnt" using r(1) z by simp
  then show ?thesis using free pg by (simp add: tail_free_def)
qed

lemma tail_free_alloc:
  assumes laws: "fayt_laws F" and wf: "module_wf F m" and tf: "tail_free F m"
    and c: "0 < unat cnt" "unat (last_free m) + unat cnt \<le> mod_pages m"
  shows "\<exists>m'. pmm_alloc_from F cnt 1 (m # ms) = Ret (frame_addr m (unat (last_free m)), m' # ms) \<and>
    module_wf F m' \<and> mod_pages m' = mod_pages m \<and> frame_addr m (unat (last_free m)) \<noteq> FAILED \<and>
    (unat (last_free m) + unat cnt < mod_pages m \<longrightarrow>
       tail_free F m' \<and> unat (last_free m') = unat (last_free m) + unat cnt)"
proof -
  let ?l = "unat (last_free m)"
  have geo: "module_geo m" using wf by (simp add: module_wf_def)
  have small: "?l + unat cnt \<le> 2 ^ 40" using mod_pages_bound [OF geo] c(2) by simp
  have f: "fits F m (unat cnt) ?l" using tf c(2) by (simp add: fits_def tail_free_def)
  obtain a m' where run: "pmm_module_alloc F m cnt 1 = Ret (a, m')" and ans: "module_answer F m (unat cnt) 1 a m'"
    using pmm_module_alloc_answer [OF laws wf c(1), of 0] small by auto
  have nf: "a \<noteq> FAILED"
  proof
    assume "a = FAILED"
    then have "\<not> fits F m (unat cnt) (scan_start m 1 + 0 * 1)" using ans unfolding module_answer_def by metis
    then show False using f scan_start_one [OF geo] by simp
  qed
  then obtain p where ff: "first_fit F m (unat cnt) 1 ?l p" and a: "a = frame_addr m p" and g: "grabbed F m (unat cnt) p m'"
    using ans scan_start_one [OF geo] by (auto simp: module_answer_def)
  obtain t where t: "p = ?l + t * 1" "\<forall>u<t. \<not> fits F m (unat cnt) (?l + u * 1)" using ff by (auto simp: first_fit_def)
  then have "t = 0" using f by (cases t) auto
  then have p: "p = ?l" using t by simp
  have "mod_pages m' = mod_pages m" using g by (simp add: grabbed_def mod_pages_def)
  then show ?thesis using run nf a p g grabbed_tail [OF tf _ c(1) _ small, of m'] by (auto simp: grabbed_def)
qed

text \<open>The modules before it do not matter: they serve a request or pass it on.\<close>

lemma alloc_from_prefix:
  assumes "fayt_laws F" "0 < unat cnt" "unat cnt \<le> 2 ^ 40"
  shows "list_all (module_wf F) ms \<Longrightarrow> \<exists>ms'. list_all (module_wf F) ms' \<and>
    ((\<exists>a. a \<noteq> FAILED \<and> pmm_alloc_from F cnt 1 (ms @ rest) = Ret (a, ms' @ rest)) \<or>
     pmm_alloc_from F cnt 1 (ms @ rest) = obind (pmm_alloc_from F cnt 1 rest) (\<lambda>(a, r). Ret (a, ms' @ r)))"
proof (induction ms)
  case Nil
  have "obind x (\<lambda>(a, r). Ret (a, r)) = x" for x :: "(u64 \<times> 'a pmm_module list) outcome" by (cases x) auto
  then show ?case by (intro exI [of _ "[]"]) simp
next
  case (Cons m ms)
  obtain a m' where r: "pmm_module_alloc F m cnt 1 = Ret (a, m')" and ans: "module_answer F m (unat cnt) 1 a m'"
    using pmm_module_alloc_answer [OF assms(1), of m cnt 0] Cons.prems assms(2,3) by auto
  have wf: "module_wf F m'" using ans by (auto simp: module_answer_def grabbed_def split: if_splits)
  show ?case
  proof (cases "a = FAILED")
    case False
    then show ?thesis using r wf Cons.prems by (intro exI [of _ "m' # ms"]) auto
  next
    case True
    obtain ms' where ms': "list_all (module_wf F) ms'" and c: "(\<exists>a. a \<noteq> FAILED \<and> pmm_alloc_from F cnt 1 (ms @ rest) = Ret (a, ms' @ rest)) \<or>
       pmm_alloc_from F cnt 1 (ms @ rest) = obind (pmm_alloc_from F cnt 1 rest) (\<lambda>(a, r). Ret (a, ms' @ r))"
      using Cons by auto
    have "pmm_alloc_from F cnt 1 ((m # ms) @ rest) = obind (pmm_alloc_from F cnt 1 (ms @ rest)) (\<lambda>(a, r). Ret (a, m' # r))"
      using r True by simp
    then show ?thesis using c ms' wf
      by (intro exI [of _ "m' # ms'"]) (auto simp: obind_assoc split_beta)
  qed
qed

lemma tail_free_room_any:
  assumes "fayt_laws F"
  shows "list_all (module_wf F) ms \<Longrightarrow> module_wf F m \<Longrightarrow> tail_free F m \<Longrightarrow> n \<le> mod_pages m - unat (last_free m) \<Longrightarrow>
    pmm_room F (ms @ m # ms2) n"
proof (induction n arbitrary: ms m)
  case (Suc n)
  let ?l = "unat (last_free m)"
  obtain ms' where ms': "list_all (module_wf F) ms'" and c: "(\<exists>a. a \<noteq> FAILED \<and> pmm_alloc_from F 1 1 (ms @ m # ms2) = Ret (a, ms' @ m # ms2)) \<or>
     pmm_alloc_from F 1 1 (ms @ m # ms2) = obind (pmm_alloc_from F 1 1 (m # ms2)) (\<lambda>(a, r). Ret (a, ms' @ r))"
    using alloc_from_prefix [OF assms _ _ Suc.prems(1), of 1 "m # ms2"] by auto
  have lt: "0 < unat (1 :: u64)" "?l + unat (1 :: u64) \<le> mod_pages m" using Suc.prems(4) by simp_all
  obtain m' where run: "pmm_alloc_from F 1 1 (m # ms2) = Ret (frame_addr m ?l, m' # ms2)"
    and wf: "module_wf F m'" and pg: "mod_pages m' = mod_pages m" and nf: "frame_addr m ?l \<noteq> FAILED"
    and nx: "?l + unat (1 :: u64) < mod_pages m \<longrightarrow> tail_free F m' \<and> unat (last_free m') = ?l + unat (1 :: u64)"
    using tail_free_alloc [OF assms Suc.prems(2,3) lt] by blast
  have "pmm_room F (ms' @ m' # ms2) n"
  proof (cases "Suc ?l < mod_pages m")
    case True
    then show ?thesis using nx wf pg ms' Suc.prems(4) by (intro Suc.IH) simp_all
  next
    case False
    then have "n = 0" using Suc.prems(4) by simp
    then show ?thesis by simp
  qed
  moreover have "pmm_room F (ms' @ m # ms2) n" using Suc.IH [OF ms' Suc.prems(2,3)] Suc.prems(4) by simp
  ultimately show ?case using c run nf by (auto simp del: pmm_alloc_from.simps)
qed simp

lemma tail_free_room:
  "fayt_laws F \<Longrightarrow> module_wf F m \<Longrightarrow> tail_free F m \<Longrightarrow> n \<le> mod_pages m - unat (last_free m) \<Longrightarrow> pmm_room F (m # ms) n"
  using tail_free_room_any [of F "[]" m n ms] by simp

text \<open>One region has \<open>n\<close> free frames at its end; the other modules may be anything.\<close>

definition tail_room :: "'l fayt \<Rightarrow> 'l kstate \<Rightarrow> nat \<Rightarrow> bool" where
  "tail_room F s n \<longleftrightarrow> n = 0 \<or> (\<exists>ms m ms2. modules s = ms @ m # ms2 \<and> list_all (module_wf F) ms \<and> module_wf F m \<and>
     tail_free F m \<and> unat (last_free m) + n \<le> mod_pages m)"

lemma tail_room_memory [simp]: "tail_room F (s\<lparr>memory := c\<rparr>) = tail_room F s"
  by (simp add: tail_room_def fun_eq_iff)

lemma tail_room_mono: "tail_room F s n \<Longrightarrow> k \<le> n \<Longrightarrow> tail_room F s k"
  unfolding tail_room_def by (cases "k = 0") (auto intro: order_trans [OF add_left_mono])

lemma tail_room_first:
  "modules s = m # ms \<Longrightarrow> module_wf F m \<Longrightarrow> tail_free F m \<Longrightarrow> unat (last_free m) + n \<le> mod_pages m \<Longrightarrow> tail_room F s n"
  by (auto simp: tail_room_def intro!: exI [of _ "[]"])

lemma tail_room_alloc:
  assumes "fayt_laws F" "tail_room F s (unat cnt + n)" "0 < unat cnt"
  shows "\<exists>a s'. pmm_alloc F s cnt 1 = Ret (a, s') \<and> a \<noteq> FAILED \<and> tail_room F s' n"
proof -
  obtain ms m ms2 where s: "modules s = ms @ m # ms2" "list_all (module_wf F) ms" "module_wf F m" "tail_free F m"
    "unat (last_free m) + (unat cnt + n) \<le> mod_pages m"
    using assms(2,3) by (auto simp: tail_room_def)
  have le: "unat (last_free m) + unat cnt \<le> mod_pages m" using s(5) by simp
  have "module_geo m" using s(3) by (simp add: module_wf_def)
  then have c: "unat cnt \<le> 2 ^ 40" using mod_pages_bound [of m] le by simp
  obtain m' where m': "pmm_alloc_from F cnt 1 (m # ms2) = Ret (frame_addr m (unat (last_free m)), m' # ms2)" "module_wf F m'"
    "mod_pages m' = mod_pages m" "frame_addr m (unat (last_free m)) \<noteq> FAILED"
    and nx: "unat (last_free m) + unat cnt < mod_pages m \<longrightarrow> tail_free F m' \<and> unat (last_free m') = unat (last_free m) + unat cnt"
    using tail_free_alloc [OF assms(1) s(3,4) assms(3) le] by blast
  obtain ms' where ms': "list_all (module_wf F) ms'" and p: "(\<exists>a. a \<noteq> FAILED \<and> pmm_alloc_from F cnt 1 (ms @ m # ms2) = Ret (a, ms' @ m # ms2)) \<or>
     pmm_alloc_from F cnt 1 (ms @ m # ms2) = obind (pmm_alloc_from F cnt 1 (m # ms2)) (\<lambda>(a, r). Ret (a, ms' @ r))"
    using alloc_from_prefix [OF assms(1,3) c s(2)] by blast
  have room: "tail_room F s' n" if "modules s' = ms' @ m # ms2" for s'
    unfolding tail_room_def using that ms' s(3-5) by (intro disjI2 exI [of _ ms'] exI [of _ m] exI [of _ ms2]) simp
  have room': "tail_room F s' n" if "modules s' = ms' @ m' # ms2" for s'
  proof (cases "n = 0")
    case False
    then show ?thesis unfolding tail_room_def using that ms' m'(2,3) nx s(5)
      by (intro disjI2 exI [of _ ms'] exI [of _ m'] exI [of _ ms2]) simp
  qed (simp add: tail_room_def)
  obtain a where a: "a \<noteq> FAILED" "\<exists>r. pmm_alloc_from F cnt 1 (modules s) = Ret (a, r) \<and> (r = ms' @ m # ms2 \<or> r = ms' @ m' # ms2)"
    using p m'(1,4) s(1) by (auto simp del: pmm_alloc_from.simps)
  then obtain r where r: "pmm_alloc_from F cnt 1 (modules s) = Ret (a, r)" "r = ms' @ m # ms2 \<or> r = ms' @ m' # ms2" by blast
  have "pmm_alloc F s cnt 1 = Ret (a, s\<lparr>modules := r, memory := memset64 F (a + HIGH_VMA s) 0 (cnt * PAGE_SIZE div 8) (memory s)\<rparr>)"
    using r(1) a(1) s(1) by (simp add: pmm_alloc_def Let_def del: pmm_alloc_from.simps)
  then show ?thesis using a(1) r(2) room room' by auto
qed

text \<open>A run first, single frames afterwards.\<close>

lemma tail_free_run_room:
  assumes "fayt_laws F" "module_wf F m" "tail_free F m" "modules s = m # ms"
    and "0 < unat cnt" "unat (last_free m) + unat cnt + n \<le> mod_pages m"
  shows "\<exists>a s'. pmm_alloc F s cnt 1 = Ret (a, s') \<and> a \<noteq> FAILED \<and> pmm_room F (modules s') n"
proof -
  let ?l = "unat (last_free m)"
  have le: "?l + unat cnt \<le> mod_pages m" using assms(6) by simp
  obtain m' where run: "pmm_alloc_from F cnt 1 (m # ms) = Ret (frame_addr m ?l, m' # ms)"
    and wf: "module_wf F m'" and pg: "mod_pages m' = mod_pages m" and nf: "frame_addr m ?l \<noteq> FAILED"
    and nx: "?l + unat cnt < mod_pages m \<longrightarrow> tail_free F m' \<and> unat (last_free m') = ?l + unat cnt"
    using tail_free_alloc [OF assms(1-3,5) le] by blast
  have "pmm_room F (m' # ms) n"
    using tail_free_room [OF assms(1) wf, of n ms] nx pg assms(6) by (cases "n = 0") auto
  then show ?thesis using run nf assms(4) by (simp add: pmm_alloc_def Let_def del: pmm_alloc_from.simps)
qed

section \<open>Freeing\<close>

lemma pmm_clear_bits_spec:
  assumes "fayt_laws F" and "unat n \<le> 8 * length bm"
  shows "\<exists>bm'. pmm_clear_bits F bm i n = Ret bm' \<and> length bm' = length bm \<and>
    (\<forall>k. k < 8 * length bm \<longrightarrow> k < 2 ^ 64 \<longrightarrow>
      taken F bm' k = (\<not> (unat i \<le> k \<and> k < unat n) \<and> taken F bm k))"
  using assms
proof (induction F bm i n rule: pmm_clear_bits.induct)
  case (1 F bm i n)
  show ?case
  proof (cases "i < n")
    case False
    then show ?thesis by (subst pmm_clear_bits.simps) (auto simp: word_less_nat_alt)
  next
    case True
    have i1: "unat (i + 1) = Suc (unat i)" using True by (rule unat_plus_one_less)
    have lt: "unat i < unat n" using True by (simp add: word_less_nat_alt)
    then have ib: "in_bitmap bm i" using 1(3) by (simp add: in_bitmap_def)
    have tb: "taken F (BIT_CLEAR F bm i) k = (k \<noteq> unat i \<and> taken F bm k)"
      if "k < 8 * length bm" "k < 2 ^ 64" for k
    proof -
      have "of_nat k = i \<longleftrightarrow> k = unat i" using that by (metis of_nat_unat ucast_id unat_of_nat_u64)
      then show ?thesis
        using BIT_TEST_update(2) [OF 1(2) ib in_bitmap_of_nat [OF that]] by (simp add: taken_def)
    qed
    obtain bm' where r: "pmm_clear_bits F (BIT_CLEAR F bm i) (i + 1) n = Ret bm'" "length bm' = length bm"
      "\<forall>k. k < 8 * length bm \<longrightarrow> k < 2 ^ 64 \<longrightarrow>
        taken F bm' k = (\<not> (unat (i + 1) \<le> k \<and> k < unat n) \<and> taken F (BIT_CLEAR F bm i) k)"
      using 1(1) [OF True ib 1(2)] 1(2,3) by auto
    then have "pmm_clear_bits F bm i n = Ret bm'" using True ib by (subst pmm_clear_bits.simps) simp
    then show ?thesis using r tb i1 lt by auto
  qed
qed

lemma pmm_clear_bits_out:
  assumes "i < n" and "8 * length bm \<le> unat i"
  shows "pmm_clear_bits F bm i n = Fault OutOfBounds"
  using assms by (subst pmm_clear_bits.simps) (simp add: in_bitmap_def)

definition accepts :: "'l pmm_module \<Rightarrow> u64 \<Rightarrow> u64 \<Rightarrow> bool" where
  "accepts m base cnt \<longleftrightarrow> module_base m \<le> base \<and>
     module_base m + cnt * PAGE_SIZE \<le> module_base m + bitmap_entry_cnt m * PAGE_SIZE"

lemma accepts_iff:
  assumes "module_geo m" and "unat cnt \<le> 2 ^ 40"
  shows "accepts m base cnt \<longleftrightarrow> unat (module_base m) \<le> unat base \<and> unat cnt \<le> mod_pages m"
proof -
  have g: "unat (module_base m) + 4096 * mod_pages m \<le> 2 ^ 52" using assms by (simp add: module_geo_def)
  have "unat (cnt * PAGE_SIZE) = unat cnt * 4096" using assms(2) by (subst unat_mult_exact) auto
  then have a: "unat (module_base m + cnt * PAGE_SIZE) = unat (module_base m) + unat cnt * 4096"
    using g assms(2) by (subst unat_add_exact) auto
  have "unat (bitmap_entry_cnt m * PAGE_SIZE) = mod_pages m * 4096"
    using g by (subst unat_mult_exact) (auto simp: mod_pages_def)
  then have b: "unat (module_base m + bitmap_entry_cnt m * PAGE_SIZE) = unat (module_base m) + mod_pages m * 4096"
    using g by (subst unat_add_exact) auto
  show ?thesis by (simp add: accepts_def word_le_nat_alt a b)
qed

lemma pmm_free_from_skip:
  "\<forall>n\<in>set pre. \<not> accepts n base cnt \<Longrightarrow> accepts m base cnt \<Longrightarrow>
    pmm_free_from F base cnt (pre @ m # post) =
    obind (pmm_module_free F m (base - module_base m) cnt) (\<lambda>m'. Ret (pre @ m' # post))"
proof (induction pre)
  case Nil
  then show ?case by (simp add: accepts_def)
next
  case (Cons n pre)
  have "\<not> (module_base n \<le> base \<and>
      module_base n + cnt * PAGE_SIZE \<le> module_base n + bitmap_entry_cnt n * PAGE_SIZE)"
    using Cons.prems(1) by (simp add: accepts_def)
  then show ?case using Cons by (auto simp: obind_assoc)
qed

lemma frame_index:
  assumes "fayt_laws F" "module_geo m" "p \<le> mod_pages m"
  shows "unat (DIV_ROUNDUP F (frame_addr m p - module_base m) PAGE_SIZE) = p"
proof -
  have u: "unat (frame_addr m p - module_base m) = 4096 * p"
    using unat_frame_addr [OF assms(2,3)] by (simp add: unat_sub_exact)
  have "4096 * p + 4096 \<le> 2 ^ 64" using assms(2,3) by (simp add: module_geo_def)
  then have "unat (DIV_ROUNDUP F (frame_addr m p - module_base m) PAGE_SIZE) = (4096 * p + 4096 - 1) div 4096"
    using DIV_ROUNDUP_exact [OF assms(1), of PAGE_SIZE "frame_addr m p - module_base m"] u by simp
  then show ?thesis by simp
qed

lemma pmm_module_free_spec:
  assumes laws: "fayt_laws F" and wf: "module_wf F m" and b: "p + unat cnt \<le> mod_pages m"
  shows "\<exists>m'. pmm_module_free F m (frame_addr m p - module_base m) cnt = Ret m' \<and> module_wf F m' \<and>
    mod_frames m' = mod_frames m \<and> mod_owned F m' = mod_owned F m - run_frames (frame_addr m p) (unat cnt)"
proof -
  have geo: "module_geo m" and N: "mod_pages m \<le> 8 * length (bitmap m)"
    using wf by (simp_all add: module_wf_def module_geo_def)
  note N40 = mod_pages_bound [OF geo]
  obtain l where l: "spinlock F (module_lock m) = Some l"
    using wf by (auto simp: module_wf_def lock_free_iff)
  let ?i = "DIV_ROUNDUP F (frame_addr m p - module_base m) PAGE_SIZE"
  have i: "unat ?i = p" using frame_index [OF laws geo] b by simp
  have n: "unat (?i + cnt) = p + unat cnt" using i b N40 by (subst unat_add_exact) auto
  obtain bm where bm: "pmm_clear_bits F (bitmap m) ?i (?i + cnt) = Ret bm" "length bm = length (bitmap m)"
    "\<forall>k. k < 8 * length (bitmap m) \<longrightarrow> k < 2 ^ 64 \<longrightarrow>
      taken F bm k = (\<not> (p \<le> k \<and> k < p + unat cnt) \<and> taken F (bitmap m) k)"
    using pmm_clear_bits_spec [OF laws, of "?i + cnt" "bitmap m" ?i] i n b N by auto
  let ?m = "m\<lparr>bitmap := bm, module_lock := spinrelease F l\<rparr>"
  have tk: "mod_taken F ?m = mod_taken F m - {p..<p + unat cnt}"
    using bm(3) N N40 by (auto simp: mod_taken_def mod_pages_def)
  have fa: "frame_addr ?m = frame_addr m" by (simp add: frame_addr_def fun_eq_iff)
  have "inj_on (frame_addr m) {..mod_pages m}"
    using frame_addr_inj [OF geo] by (auto intro!: inj_onI)
  then have "frame_addr m ` (mod_taken F m - {p..<p + unat cnt}) =
      frame_addr m ` mod_taken F m - frame_addr m ` {p..<p + unat cnt}"
    by (rule inj_on_image_set_diff) (use b in \<open>auto simp: mod_taken_def\<close>)
  then have "mod_owned F ?m = mod_owned F m - run_frames (frame_addr m p) (unat cnt)"
    unfolding mod_owned_def fa tk run_frames_addr .
  moreover have "module_wf F ?m"
    using geo laws bm(2) by (simp add: module_wf_def module_geo_def mod_pages_def)
  moreover have "mod_frames ?m = mod_frames m" unfolding mod_frames_def fa by (simp add: mod_pages_def)
  moreover have "pmm_module_free F m (frame_addr m p - module_base m) cnt = Ret ?m"
    using l bm(1) by (simp add: pmm_module_free_def)
  ultimately show ?thesis by blast
qed


text \<open>
  \<open>pmm_free\<close> hands the request to the first module that accepts it. When that is the module the
  frames come from, exactly those frames become free again.
\<close>

lemma pmm_free_correct:
  assumes laws: "fayt_laws F" and inv: "pmm_inv F s" and ms: "modules s = pre @ m # post"
    and rej: "\<forall>n\<in>set pre. \<not> accepts n (frame_addr m p) cnt" and b: "p + unat cnt \<le> mod_pages m"
  shows "\<exists>s'. pmm_free F s (frame_addr m p) cnt = Ret s' \<and> pmm_inv F s' \<and> memory s' = memory s \<and>
    HIGH_VMA s' = HIGH_VMA s \<and> pmm_frames s' = pmm_frames s \<and>
    pmm_owned F s' = pmm_owned F s - run_frames (frame_addr m p) (unat cnt)"
proof -
  have wfs: "list_all (module_wf F) (modules s)" and wf: "module_wf F m" and geo: "module_geo m"
    using inv ms by (simp_all add: pmm_inv_def module_wf_def)
  have "unat cnt \<le> 2 ^ 40" using b mod_pages_bound [OF geo] by simp
  then have acc: "accepts m (frame_addr m p) cnt"
    using accepts_iff [OF geo, of cnt] unat_frame_addr [OF geo, of p] b by simp
  obtain m' where m': "pmm_module_free F m (frame_addr m p - module_base m) cnt = Ret m'" "module_wf F m'"
    "mod_frames m' = mod_frames m" "mod_owned F m' = mod_owned F m - run_frames (frame_addr m p) (unat cnt)"
    using pmm_module_free_spec [OF laws wf b] by blast
  let ?s = "s\<lparr>modules := pre @ m' # post\<rparr>"
  have run: "pmm_free F s (frame_addr m p) cnt = Ret ?s"
    using pmm_free_from_skip [OF rej acc, of F post] m'(1) ms by (simp add: pmm_free_def)
  have inv': "pmm_inv F ?s"
    using inv wfs m'(2,3) by (simp add: pmm_inv_def ms sorted_wrt_append)
  have "run_frames (frame_addr m p) (unat cnt) \<subseteq> mod_frames m"
    using b unfolding run_frames_addr mod_frames_def by auto
  moreover have "mod_owned F n \<inter> mod_frames m = {}" if "n \<in> set pre \<union> set post" for n
    using inv that mod_owned_subset [of F n] unfolding pmm_inv_def ms by (fastforce simp: sorted_wrt_append)
  ultimately have "pmm_owned F ?s = pmm_owned F s - run_frames (frame_addr m p) (unat cnt)"
    using m'(4) unfolding pmm_owned_def ms by auto
  moreover have "pmm_frames ?s = pmm_frames s" using m'(3) by (simp add: pmm_frames_def ms)
  ultimately show ?thesis using run inv' by auto
qed

text \<open>
  The acceptance test compares \<^verbatim>\<open>mmap->base + cnt * PAGE_SIZE\<close>, not \<^verbatim>\<open>base + cnt * PAGE_SIZE\<close>, with the
  end of the region: a frame above the first region is accepted by the first region all the same.
\<close>

lemma pmm_free_out_of_bounds:
  assumes laws: "fayt_laws F" and inv: "pmm_inv F s" and ms: "modules s = m # ms"
    and c: "0 < unat cnt" "unat cnt \<le> mod_pages m"
    and up: "unat (module_base m) + 4096 * (8 * length (bitmap m)) \<le> unat a" and a: "4096 dvd unat a" "unat a < 2 ^ 52"
  shows "pmm_free F s a cnt = Fault OutOfBounds"
proof -
  have wf: "module_wf F m" and geo: "module_geo m" using inv ms by (simp_all add: pmm_inv_def module_wf_def)
  have c40: "unat cnt \<le> 2 ^ 40" using c mod_pages_bound [OF geo] by simp
  then have acc: "accepts m a cnt" using accepts_iff [OF geo, of cnt a] c up by simp
  obtain l where l: "spinlock F (module_lock m) = Some l"
    using wf by (auto simp: module_wf_def lock_free_iff)
  let ?i = "DIV_ROUNDUP F (a - module_base m) PAGE_SIZE"
  have u: "unat (a - module_base m) = unat a - unat (module_base m)" using up by (simp add: unat_sub_exact)
  have "unat ?i = (unat a - unat (module_base m) + 4096 - 1) div 4096"
    using DIV_ROUNDUP_exact [OF laws, of PAGE_SIZE "a - module_base m"] u a by simp
  then have "8 * length (bitmap m) \<le> unat ?i" "unat ?i \<le> 2 ^ 41" using up a by simp_all
  moreover from this have "?i < ?i + cnt" using c c40
    by (simp add: word_less_nat_alt unat_add_exact)
  ultimately have "pmm_clear_bits F (bitmap m) ?i (?i + cnt) = Fault OutOfBounds"
    by (intro pmm_clear_bits_out)
  then have "pmm_module_free F m (a - module_base m) cnt = Fault OutOfBounds"
    using l by (simp add: pmm_module_free_def)
  then show ?thesis
    using pmm_free_from_skip [of "[]" a cnt m F ms] acc ms by (simp add: pmm_free_def)
qed

section \<open>The interface the page-table code relies on\<close>

locale frame_allocator =
  fixes inv :: "'l kstate \<Rightarrow> bool"
    and alloc :: "'l kstate \<Rightarrow> (u64 \<times> 'l kstate) outcome"
    and owned :: "'l kstate \<Rightarrow> u64 set"
    and room :: "'l kstate \<Rightarrow> nat \<Rightarrow> bool"
  assumes inv_memory [simp]: "inv (s\<lparr>memory := c\<rparr>) = inv s"
    and owned_memory [simp]: "owned (s\<lparr>memory := c\<rparr>) = owned s"
    and room_memory [simp]: "room (s\<lparr>memory := c\<rparr>) = room s"
    and room_mono: "room s n \<Longrightarrow> k \<le> n \<Longrightarrow> room s k"
    and vma_aligned: "inv s \<Longrightarrow> 4096 dvd unat (HIGH_VMA s)"
    and owned_aligned: "inv s \<Longrightarrow> a \<in> owned s \<Longrightarrow> 4096 dvd unat a"
    and alloc_fresh: "inv s \<Longrightarrow> room s (Suc n) \<Longrightarrow>
      \<exists>a s'. alloc s = Ret (a, s') \<and> inv s' \<and> room s' n \<and> HIGH_VMA s' = HIGH_VMA s \<and>
        a \<notin> owned s \<and> owned s' = insert a (owned s) \<and> 4096 dvd unat a \<and> unat a < 2 ^ 52 \<and>
        (\<forall>x. 8 dvd unat x \<longrightarrow>
          memory s' x = (if unat (x - (a + HIGH_VMA s)) < 4096 then 0 else memory s x))"

lemma mod_frames_bound:
  "module_geo m \<Longrightarrow> a \<in> mod_frames m \<Longrightarrow> 4096 dvd unat a \<and> unat a < 2 ^ 52"
proof -
  assume geo: "module_geo m" and "a \<in> mod_frames m"
  then obtain p where "p < mod_pages m" "a = frame_addr m p" by (auto simp: mod_frames_def)
  then show ?thesis using unat_frame_addr [OF geo, of p] geo by (simp add: module_geo_def)
qed

lemma pmm_frames_bound:
  assumes "pmm_inv F s" and "a \<in> pmm_frames s"
  shows "4096 dvd unat a" and "unat a < 2 ^ 52"
  using assms mod_frames_bound
  by (auto simp: pmm_inv_def pmm_frames_def module_wf_def list_all_iff)

lemma pmm_owned_frames: "pmm_owned F s \<subseteq> pmm_frames s"
  using mod_owned_subset by (fastforce simp: pmm_owned_def pmm_frames_def)

lemma run_frames_one [simp]: "run_frames a (Suc 0) = {a}"
  by (auto simp: run_frames_def)

text \<open>
  A budget: a measure of how many single frames can still be had. Two are used: the number of allocations that succeed one
  after the other (\<open>pmm_room\<close>) and the free frames at the end of a region (\<open>tail_room\<close>), which also covers runs.
\<close>

locale frame_budget =
  fixes F :: "'l fayt" and budget :: "'l kstate \<Rightarrow> nat \<Rightarrow> bool"
  assumes budget_memory [simp]: "budget (s\<lparr>memory := c\<rparr>) = budget s"
    and budget_mono: "budget s n \<Longrightarrow> k \<le> n \<Longrightarrow> budget s k"
    and budget_alloc: "fayt_laws F \<Longrightarrow> pmm_inv F s \<Longrightarrow> budget s (Suc n) \<Longrightarrow>
      \<exists>a s'. pmm_alloc F s 1 1 = Ret (a, s') \<and> a \<noteq> FAILED \<and> budget s' n"
begin

lemma budget_fresh:
  assumes laws: "fayt_laws F" and inv: "pmm_inv F s" and room: "budget s (Suc n)"
  shows "\<exists>a s'. pmm_alloc F s 1 1 = Ret (a, s') \<and> pmm_inv F s' \<and> budget s' n \<and>
    HIGH_VMA s' = HIGH_VMA s \<and> a \<notin> pmm_owned F s \<and> pmm_owned F s' = insert a (pmm_owned F s) \<and>
    4096 dvd unat a \<and> unat a < 2 ^ 52 \<and>
    (\<forall>x. 8 dvd unat x \<longrightarrow>
      memory s' x = (if unat (x - (a + HIGH_VMA s)) < 4096 then 0 else memory s x))"
proof -
  obtain a s' where run: "pmm_alloc F s 1 1 = Ret (a, s')" "a \<noteq> FAILED" "budget s' n" using budget_alloc [OF assms] by blast
  then have post: "alloc_post F s 1 4096 a s'" using pmm_alloc_correct [OF laws inv, of 1 0] by auto
  then have "a \<in> pmm_frames s" using run(2) by (simp add: alloc_post_def)
  then show ?thesis using run post pmm_frames_bound(2) [OF inv] by (auto simp: alloc_post_def)
qed

end

interpretation singles: frame_budget F "\<lambda>s. pmm_room F (modules s)" for F :: "'l fayt"
proof (unfold_locales, goal_cases)
  case (2 s n k)
  then show ?case by (rule pmm_room_mono)
next
  case (3 s n)
  obtain a s' where run: "pmm_alloc F s 1 1 = Ret (a, s')" using pmm_alloc_correct [OF 3(1,2), of 1 0] by auto
  obtain ms' where "pmm_alloc_from F 1 1 (modules s) = Ret (a, ms')" "modules s' = ms'"
    using run by (auto simp: pmm_alloc_def Let_def split: if_splits)
  then show ?case using run 3(3) by simp
qed simp

interpretation tail: frame_budget F "tail_room F" for F :: "'l fayt"
proof (unfold_locales, goal_cases)
  case (2 s n k)
  then show ?case by (rule tail_room_mono)
next
  case (3 s n)
  then show ?case using tail_room_alloc [of F s 1 n] by simp
qed simp

interpretation pmm: frame_allocator
  "\<lambda>s. fayt_laws F \<and> pmm_inv F s" "\<lambda>s. pmm_alloc F s 1 1" "pmm_owned F" "\<lambda>s. pmm_room F (modules s)"
  for F :: "'l fayt"
proof (unfold_locales, goal_cases)
  case (4 s n k)
  then show ?case by (rule pmm_room_mono)
next
  case (6 s a)
  then show ?case using pmm_owned_frames [of F s] pmm_frames_bound(1) by blast
next
  case (7 s n)
  then show ?case using singles.budget_fresh [of F s n] by blast
qed (simp_all add: pmm_inv_def pmm_owned_def)

section \<open>A concrete allocator\<close>

text \<open>
  One usable region of \<open>n\<close> frames at 1 MiB whose first frame is taken: the state on which the
  properties below are instantiated.
\<close>

definition demo_module :: "nat \<Rightarrow> bool pmm_module" where
  "demo_module n = \<lparr>self = 0xffff800000001000,
     mmap_entry = \<lparr>me_base = 0x100000, me_length = of_nat n * 0x1000, me_type = 0\<rparr>,
     bitmap_size = of_nat (Suc (n div 8)), bitmap_entry_cnt = of_nat n, last_free = 1,
     bitmap_ptr = 0xffff800000002000, bitmap = 1 # replicate (n div 8) 0, module_lock = False\<rparr>"

definition demo :: "nat \<Rightarrow> bool kstate" where
  "demo n = \<lparr>HIGH_VMA = 0xffff800000000000, modules = [demo_module n], memory = (\<lambda>_. 0)\<rparr>"

lemma demo_pages: "n \<le> 2 ^ 39 \<Longrightarrow> mod_pages (demo_module n) = n"
  by (simp add: mod_pages_def demo_module_def)

lemma demo_taken: "n \<le> 2 ^ 39 \<Longrightarrow> k < n \<Longrightarrow> taken fayt_ref (bitmap (demo_module n)) k \<longleftrightarrow> k = 0"
proof -
  assume n: "n \<le> 2 ^ 39" "k < n"
  have q: "unat (of_nat k div 8 :: u64) = k div 8" "unat (of_nat k mod 8 :: u64) = k mod 8"
    using n by (simp_all add: unat_div unat_mod)
  have "k div 8 \<le> n div 8" using n by (intro div_le_mono) simp
  then have "bitmap (demo_module n) ! (k div 8) = (if k div 8 = 0 then 1 else 0)"
    by (auto simp: demo_module_def nth_Cons split: nat.splits)
  then show ?thesis
    using q by (auto simp: taken_def fayt_ref_def bit_1_iff)
qed

lemma demo_geo: "0 < n \<Longrightarrow> n \<le> 2 ^ 39 \<Longrightarrow> module_geo (demo_module n)"
  using demo_pages [of n] by (auto simp: module_geo_def demo_module_def)

lemma demo_wf: "0 < n \<Longrightarrow> n \<le> 2 ^ 39 \<Longrightarrow> module_wf fayt_ref (demo_module n)"
  using demo_geo [of n] by (simp add: module_wf_def demo_module_def lock_free_def fayt_ref_def)

lemma demo_inv: "0 < n \<Longrightarrow> n \<le> 2 ^ 39 \<Longrightarrow> pmm_inv fayt_ref (demo n)"
  using demo_wf [of n] by (simp add: pmm_inv_def demo_def)

lemma demo_tail_free: "n \<le> 2 ^ 39 \<Longrightarrow> tail_free fayt_ref (demo_module n)"
  using demo_taken [of n] demo_pages [of n] by (simp add: tail_free_def) (simp add: demo_module_def)

lemma demo_room: "Suc k \<le> n \<Longrightarrow> n \<le> 2 ^ 39 \<Longrightarrow> pmm_room fayt_ref (modules (demo n)) k"
  using tail_free_room [OF fayt_laws_ref demo_wf demo_tail_free, of n k "[]"] demo_pages [of n]
  by (simp add: demo_def) (simp add: demo_module_def)

lemma demo_owned: "0 < n \<Longrightarrow> n \<le> 2 ^ 39 \<Longrightarrow> pmm_owned fayt_ref (demo n) = {0x100000}"
proof -
  assume n: "0 < n" "n \<le> 2 ^ 39"
  then have "mod_taken fayt_ref (demo_module n) = {0}"
    using demo_taken [of n] demo_pages [of n] by (auto simp: mod_taken_def)
  then show ?thesis by (simp add: pmm_owned_def demo_def mod_owned_def frame_addr_def) (simp add: demo_module_def)
qed

lemma demo_vma [simp]: "HIGH_VMA (demo n) = 0xffff800000000000"
  by (simp add: demo_def)

section \<open>Properties\<close>

text \<open>C4. \<^verbatim>\<open>pmm_module_alloc\<close> returns (its scan ends) for every positive count and power-of-two
  alignment, and is first fit from the cached \<^verbatim>\<open>last_free\<close> index: it answers \<^verbatim>\<open>-1\<close> exactly when no
  aligned position from there on has the run of free frames, otherwise it takes the first one and
  marks precisely those frames.\<close>

theorem pmm_module_alloc_first_fit:
  assumes "fayt_laws F" "module_wf F m" "0 < unat cnt" "unat cnt \<le> 2 ^ 52" "k \<le> 40"
  shows "\<exists>a m'. pmm_module_alloc F m cnt (2 ^ k) = Ret (a, m') \<and>
    (if a = FAILED then
       m' = m\<lparr>module_lock := module_lock m'\<rparr> \<and> (\<forall>t. \<not> fits F m (unat cnt) (scan_start m (2 ^ k) + t * 2 ^ k))
     else \<exists>p. first_fit F m (unat cnt) (2 ^ k) (scan_start m (2 ^ k)) p \<and> a = frame_addr m p \<and>
       module_wf F m' \<and>
       (\<forall>j<mod_pages m. taken F (bitmap m') j = (p \<le> j \<and> j < p + unat cnt \<or> taken F (bitmap m) j)))"
proof -
  obtain a m' where "pmm_module_alloc F m cnt (2 ^ k) = Ret (a, m')" "module_answer F m (unat cnt) (2 ^ k) a m'"
    using pmm_module_alloc_answer [OF assms] by blast
  then show ?thesis by (auto simp: module_answer_def grabbed_def split: if_splits)
qed

theorem pmm_module_alloc_first_fit_witness:
  "module_wf fayt_ref (demo_module 64) \<and>
   (\<exists>a m'. pmm_module_alloc fayt_ref (demo_module 64) 3 (2 ^ 2) = Ret (a, m'))"
  using pmm_module_alloc_first_fit [OF fayt_laws_ref demo_wf [of 64], of 3 2] demo_wf [of 64] by auto

text \<open>C1. \<^verbatim>\<open>pmm_alloc\<close> over all modules: it returns, keeps the allocator's invariant, and either fails
  without changing ownership or memory, or hands out an aligned run of frames that lie in a usable
  region and that nobody owned, makes exactly them owned, and zeroes them (and no other cell) through
  the direct map.\<close>

theorem pmm_alloc_fresh_zeroed:
  assumes "fayt_laws F" "pmm_inv F s" "0 < unat cnt" "unat cnt \<le> 2 ^ 52" "k \<le> 40"
  shows "\<exists>a s'. pmm_alloc F s cnt (2 ^ k) = Ret (a, s') \<and> pmm_inv F s' \<and>
    (if a = FAILED then pmm_owned F s' = pmm_owned F s \<and> memory s' = memory s
     else 4096 * 2 ^ k dvd unat a \<and> run_frames a (unat cnt) \<subseteq> pmm_frames s - pmm_owned F s \<and>
       pmm_owned F s' = pmm_owned F s \<union> run_frames a (unat cnt) \<and>
       (\<forall>x. 8 dvd unat x \<longrightarrow> memory s' x =
          (if unat (x - (a + HIGH_VMA s)) < 4096 * unat cnt then 0 else memory s x)))"
  using pmm_alloc_correct [OF assms] unfolding alloc_post_def by blast

theorem pmm_alloc_fresh_zeroed_witness:
  "pmm_inv fayt_ref (demo 64) \<and> (\<exists>a s'. pmm_alloc fayt_ref (demo 64) 2 (2 ^ 1) = Ret (a, s') \<and> pmm_inv fayt_ref s')"
  using pmm_alloc_fresh_zeroed [OF fayt_laws_ref demo_inv [of 64], of 2 1] demo_inv [of 64] by auto

text \<open>Two allocations in a row that both succeed hand out disjoint runs of frames.\<close>

theorem pmm_alloc_disjoint:
  assumes "fayt_laws F" "pmm_inv F s" "0 < unat c" "unat c \<le> 2 ^ 52" "k \<le> 40"
    and "0 < unat d" "unat d \<le> 2 ^ 52" "j \<le> 40"
    and "pmm_alloc F s c (2 ^ k) = Ret (a, s1)" "a \<noteq> FAILED"
    and "pmm_alloc F s1 d (2 ^ j) = Ret (b, s2)" "b \<noteq> FAILED"
  shows "run_frames a (unat c) \<inter> run_frames b (unat d) = {}"
proof -
  have p: "alloc_post F s (unat c) (4096 * 2 ^ k) a s1"
    using pmm_alloc_correct [OF assms(1-5)] assms(9) by auto
  then have "pmm_inv F s1" by (simp add: alloc_post_def)
  then have "alloc_post F s1 (unat d) (4096 * 2 ^ j) b s2"
    using pmm_alloc_correct [OF assms(1) _ assms(6-8)] assms(11) by fastforce
  then show ?thesis using p assms(10,12) by (auto simp: alloc_post_def)
qed

lemma demo_alloc_twice:
  "\<exists>a s1 b s2. pmm_alloc fayt_ref (demo 64) 1 1 = Ret (a, s1) \<and> a \<noteq> FAILED \<and>
    pmm_alloc fayt_ref s1 1 1 = Ret (b, s2) \<and> b \<noteq> FAILED"
proof -
  have nf: "x \<noteq> FAILED" if "unat x < 2 ^ 52" for x using that by auto
  have "pmm_inv fayt_ref (demo 64)" "pmm_room fayt_ref (modules (demo 64)) (Suc (Suc 0))"
    by (rule demo_inv demo_room; simp)+
  then obtain a s1 where 1: "pmm_alloc fayt_ref (demo 64) 1 1 = Ret (a, s1)" "unat a < 2 ^ 52"
    "pmm_inv fayt_ref s1" "pmm_room fayt_ref (modules s1) (Suc 0)"
    using singles.budget_fresh [OF fayt_laws_ref] by blast
  then obtain b s2 where "pmm_alloc fayt_ref s1 1 1 = Ret (b, s2)" "unat b < 2 ^ 52"
    using singles.budget_fresh [OF fayt_laws_ref] by blast
  then show ?thesis using 1 nf by blast
qed

theorem pmm_alloc_disjoint_witness:
  "\<exists>a s1 b s2. pmm_alloc fayt_ref (demo 64) 1 1 = Ret (a, s1) \<and> pmm_alloc fayt_ref s1 1 1 = Ret (b, s2) \<and>
     run_frames a 1 \<inter> run_frames b 1 = {}"
proof -
  obtain a s1 b s2 where r: "pmm_alloc fayt_ref (demo 64) 1 1 = Ret (a, s1)" "a \<noteq> FAILED"
    "pmm_alloc fayt_ref s1 1 1 = Ret (b, s2)" "b \<noteq> FAILED" using demo_alloc_twice by blast
  have "pmm_inv fayt_ref (demo 64)" by (rule demo_inv) simp_all
  from pmm_alloc_disjoint [OF fayt_laws_ref this, of 1 0 1 0 a s1 b s2] r
  have "run_frames a 1 \<inter> run_frames b 1 = {}" by simp
  then show ?thesis using r by blast
qed

text \<open>Capacity: a region whose frames from \<^verbatim>\<open>last_free\<close> on are free serves that many single-frame
  requests in a row, one after the other, without a failure.\<close>

theorem pmm_capacity:
  assumes "fayt_laws F" "module_wf F m" "tail_free F m"
  shows "pmm_room F (m # ms) (mod_pages m - unat (last_free m))"
  using tail_free_room [OF assms] by simp

theorem pmm_capacity_witness:
  "tail_free fayt_ref (demo_module 1000) \<and> pmm_room fayt_ref [demo_module 1000] 999"
  using pmm_capacity [OF fayt_laws_ref demo_wf demo_tail_free, of 1000 "[]"] demo_tail_free [of 1000]
    demo_pages [of 1000] by (simp add: demo_module_def)

text \<open>A freed frame below \<^verbatim>\<open>last_free\<close> is not found again: when all frames from \<^verbatim>\<open>last_free\<close> on are
  taken the allocation fails, whatever is free below.\<close>

theorem pmm_module_alloc_misses_freed:
  assumes "fayt_laws F" "module_wf F m"
    and "\<And>j. unat (last_free m) \<le> j \<Longrightarrow> j < mod_pages m \<Longrightarrow> taken F (bitmap m) j"
  shows "\<exists>m'. pmm_module_alloc F m 1 1 = Ret (FAILED, m')"
proof -
  have geo: "module_geo m" using assms(2) by (simp add: module_wf_def)
  obtain a m' where r: "pmm_module_alloc F m 1 1 = Ret (a, m')" "module_answer F m 1 1 a m'"
    using pmm_module_alloc_answer [OF assms(1,2), of 1 0] by auto
  have "a = FAILED"
  proof (rule ccontr)
    assume "a \<noteq> FAILED"
    then obtain p where "first_fit F m 1 1 (unat (last_free m)) p"
      using r(2) scan_start_one [OF geo] by (auto simp: module_answer_def)
    then have "unat (last_free m) \<le> p" "p < mod_pages m" "\<not> taken F (bitmap m) p"
      by (auto simp: first_fit_def fits_def)
    then show False using assms(3) by blast
  qed
  then show ?thesis using r(1) by blast
qed

definition demo_wasted :: "bool pmm_module" where
  "demo_wasted = (demo_module 3)\<lparr>bitmap := [6]\<rparr>"

theorem pmm_module_alloc_misses_freed_witness:
  "\<not> taken fayt_ref (bitmap demo_wasted) 0 \<and> (\<exists>m'. pmm_module_alloc fayt_ref demo_wasted 1 1 = Ret (FAILED, m'))"
proof -
  have pg: "mod_pages demo_wasted = 3" by (simp add: demo_wasted_def mod_pages_def demo_module_def)
  have wf: "module_wf fayt_ref demo_wasted"
    using demo_wf [of 3] pg by (simp add: demo_wasted_def module_wf_def module_geo_def demo_module_def)
  have tk: "taken fayt_ref (bitmap demo_wasted) 1" "taken fayt_ref (bitmap demo_wasted) 2"
    "\<not> taken fayt_ref (bitmap demo_wasted) 0"
    by (simp_all add: demo_wasted_def taken_def fayt_ref_def)
  have "taken fayt_ref (bitmap demo_wasted) j" if "unat (last_free demo_wasted) \<le> j" "j < mod_pages demo_wasted" for j
  proof -
    have "j = 1 \<or> j = 2" using that pg by (auto simp: demo_wasted_def demo_module_def)
    then show ?thesis using tk by auto
  qed
  from pmm_module_alloc_misses_freed [OF fayt_laws_ref wf this] show ?thesis using tk by blast
qed

text \<open>C12. \<^verbatim>\<open>pmm_free\<close> of a run of frames, when no earlier module accepts the address: it returns, keeps the
  invariant and makes exactly those frames free; no other frame's ownership and no memory changes.\<close>

theorem pmm_free_releases:
  assumes "fayt_laws F" "pmm_inv F s" "modules s = pre @ m # post"
    and "\<forall>n\<in>set pre. \<not> accepts n (frame_addr m p) cnt" "p + unat cnt \<le> mod_pages m"
  shows "\<exists>s'. pmm_free F s (frame_addr m p) cnt = Ret s' \<and> pmm_inv F s' \<and> memory s' = memory s \<and>
    pmm_frames s' = pmm_frames s \<and>
    pmm_owned F s' = pmm_owned F s - run_frames (frame_addr m p) (unat cnt)"
  using pmm_free_correct [OF assms] by blast

theorem pmm_free_releases_witness:
  "\<exists>s'. pmm_free fayt_ref (demo 8) 0x100000 1 = Ret s' \<and> pmm_owned fayt_ref s' = {}"
proof -
  have i: "pmm_inv fayt_ref (demo 8)" by (rule demo_inv) simp_all
  have m: "modules (demo 8) = [] @ demo_module 8 # []" by (simp add: demo_def)
  have a: "frame_addr (demo_module 8) 0 = 0x100000" by (simp add: frame_addr_def demo_module_def)
  show ?thesis
    using pmm_free_releases [OF fayt_laws_ref i m, of 0 1] demo_pages [of 8] demo_owned [of 8] a
    by (auto simp: run_frames_def)
qed

text \<open>The acceptance test of \<^verbatim>\<open>pmm_free\<close> does not look at the end of the request, so a frame above the
  first region is cleared in the first region's bitmap, beyond its end.\<close>

theorem pmm_free_overruns_bitmap:
  assumes "fayt_laws F" "pmm_inv F s" "modules s = m # ms" "0 < unat cnt" "unat cnt \<le> mod_pages m"
    and "unat (module_base m) + 4096 * (8 * length (bitmap m)) \<le> unat a" "4096 dvd unat a" "unat a < 2 ^ 52"
  shows "pmm_free F s a cnt = Fault OutOfBounds"
  using pmm_free_out_of_bounds [OF assms] .

definition demo_two :: "bool kstate" where
  "demo_two = (demo 8)\<lparr>modules := [demo_module 8,
     (demo_module 8)\<lparr>mmap_entry := \<lparr>me_base = 0x200000, me_length = 0x8000, me_type = 0\<rparr>\<rparr>]\<rparr>"

theorem pmm_free_overruns_bitmap_witness:
  "0x200000 \<in> pmm_owned fayt_ref demo_two \<and> pmm_free fayt_ref demo_two 0x200000 1 = Fault OutOfBounds"
proof -
  let ?m = "(demo_module 8)\<lparr>mmap_entry := \<lparr>me_base = 0x200000, me_length = 0x8000, me_type = 0\<rparr>\<rparr>"
  have w: "module_wf fayt_ref (demo_module 8)" by (rule demo_wf) simp_all
  have w': "module_wf fayt_ref ?m" using w by (simp add: module_wf_def module_geo_def demo_module_def mod_pages_def)
  have d: "mod_frames (demo_module 8) \<inter> mod_frames ?m = {}"
  proof -
    have "unat x < 0x108000" if "x \<in> mod_frames (demo_module 8)" for x
      using that unat_frame_addr [OF demo_geo [of 8]] demo_pages [of 8]
      by (auto simp: mod_frames_def) (simp add: demo_module_def)
    moreover have "0x200000 \<le> unat x" if "x \<in> mod_frames ?m" for x
    proof -
      have "module_geo ?m" using w' by (simp add: module_wf_def)
      from unat_frame_addr [OF this] show ?thesis using that by (auto simp: mod_frames_def)
    qed
    ultimately show ?thesis by fastforce
  qed
  have i: "pmm_inv fayt_ref demo_two" using w w' d by (simp add: pmm_inv_def demo_two_def)
  have own: "0x200000 \<in> pmm_owned fayt_ref demo_two"
  proof -
    have "0 \<in> mod_taken fayt_ref ?m" using demo_taken [of 8 0] demo_pages [of 8]
      by (simp add: mod_taken_def mod_pages_def)
    then have "frame_addr ?m 0 \<in> mod_owned fayt_ref ?m" by (simp add: mod_owned_def)
    moreover have "frame_addr ?m 0 = 0x200000" by (simp add: frame_addr_def)
    ultimately show ?thesis by (simp add: pmm_owned_def demo_two_def)
  qed
  have m: "modules demo_two = demo_module 8 # [?m]" by (simp add: demo_two_def)
  have "pmm_free fayt_ref demo_two 0x200000 1 = Fault OutOfBounds"
    by (rule pmm_free_overruns_bitmap [OF fayt_laws_ref i m]) (use demo_pages [of 8] in \<open>simp_all add: demo_module_def\<close>)
  then show ?thesis using own by blast
qed

end
