(* ===== verification/Paging.thy ===== *)
theory Paging
  imports Pmm "HOL-Library.Sublist"
begin

unbundle bit_operations_syntax

text \<open>
  The x86 page tables, \<^verbatim>\<open>kernel/arch/x86/paging.c\<close> and \<^verbatim>\<open>paging.h\<close>, in their 4-level and 5-level
  forms. Tables live in the kernel's memory cells: \<^verbatim>\<open>pml3[i]\<close> is the cell at \<open>slot pml3 i\<close>, and the
  table an entry points to is reached through the direct map (\<open>pml_table\<close>). The function pointers
  \<^verbatim>\<open>map_page\<close>, \<^verbatim>\<open>page_entry\<close> and \<^verbatim>\<open>unmap_page\<close> of \<^verbatim>\<open>struct page_table\<close> are always assigned together
  by \<^verbatim>\<open>x86_paging_init\<close>, so the struct holds one tag, \<open>pt_ops\<close>. The translation buffer
  (\<^verbatim>\<open>invlpg\<close>) and \<^verbatim>\<open>cr3\<close> are not part of the memory cells and are not modelled.
\<close>

section \<open>Entries and indices\<close>

abbreviation X86_FLAGS_P :: u64 where "X86_FLAGS_P \<equiv> 0x1"
abbreviation X86_FLAGS_RW :: u64 where "X86_FLAGS_RW \<equiv> 0x2"
abbreviation X86_FLAGS_US :: u64 where "X86_FLAGS_US \<equiv> 0x4"
abbreviation X86_FLAGS_PS :: u64 where "X86_FLAGS_PS \<equiv> 0x80"
abbreviation X86_FLAGS_G :: u64 where "X86_FLAGS_G \<equiv> 0x100"
abbreviation X86_FLAGS_NX :: u64 where "X86_FLAGS_NX \<equiv> 0x8000000000000000"

definition PML_FLAGS_MASK :: u64 where
  "PML_FLAGS_MASK = NOT (X86_FLAGS_PS OR X86_FLAGS_G OR X86_FLAGS_NX)"

record pml_indices =
  pml5_index :: u16
  pml4_index :: u16
  pml3_index :: u16
  pml2_index :: u16
  pml1_index :: u16

definition compute_table_indices :: "u64 \<Rightarrow> pml_indices" where
  "compute_table_indices vaddr = \<lparr>
     pml5_index = ucast (drop_bit 48 vaddr AND 0x1ff),
     pml4_index = ucast (drop_bit 39 vaddr AND 0x1ff),
     pml3_index = ucast (drop_bit 30 vaddr AND 0x1ff),
     pml2_index = ucast (drop_bit 21 vaddr AND 0x1ff),
     pml1_index = ucast (drop_bit 12 vaddr AND 0x1ff)\<rparr>"

datatype pt_ops = Pml4Ops | Pml5Ops

record 'l page_table =
  pmlt :: u64
  pt_lock :: 'l
  ops :: pt_ops

section \<open>Table cells\<close>

definition slot :: "u64 \<Rightarrow> u16 \<Rightarrow> u64" where
  "slot tbl i = tbl + 8 * ucast i"

definition pml_read :: "'l kstate \<Rightarrow> u64 \<Rightarrow> u16 \<Rightarrow> u64" where
  "pml_read s tbl i = memory s (slot tbl i)"

definition pml_write :: "'l kstate \<Rightarrow> u64 \<Rightarrow> u16 \<Rightarrow> u64 \<Rightarrow> 'l kstate" where
  "pml_write s tbl i e = s\<lparr>memory := (memory s)(slot tbl i := e)\<rparr>"

definition table_of :: "'l kstate \<Rightarrow> u64 \<Rightarrow> u64" where
  "table_of s e = (e AND NOT 0xfff) + HIGH_VMA s"

definition pml_table :: "'l kstate \<Rightarrow> u64 \<Rightarrow> u16 \<Rightarrow> u64" where
  "pml_table s tbl i = table_of s (pml_read s tbl i)"

text \<open>
  The statement each level repeats: when entry \<open>i\<close> of \<open>tbl\<close> is not present, allocate a frame and
  write it with the given bits.
\<close>

definition pml_ensure ::
  "('l kstate \<Rightarrow> (u64 \<times> 'l kstate) outcome) \<Rightarrow> 'l kstate \<Rightarrow> u64 \<Rightarrow> u16 \<Rightarrow> u64 \<Rightarrow> 'l kstate outcome" where
  "pml_ensure alloc s tbl i bits =
     (if pml_read s tbl i AND X86_FLAGS_P = 0
      then obind (alloc s) (\<lambda>(a, s). Ret (pml_write s tbl i (a OR bits)))
      else Ret s)"

section \<open>Four levels\<close>

definition pml4_map_page ::
  "'l fayt \<Rightarrow> 'l kstate \<Rightarrow> 'l page_table \<Rightarrow> u64 \<Rightarrow> u64 \<Rightarrow> u64 \<Rightarrow>
   (u64 option \<times> 'l page_table \<times> 'l kstate) outcome" where
  "pml4_map_page F s pt vaddr paddr flags =
     (let ix = compute_table_indices vaddr;
          alloc = (\<lambda>s. pmm_alloc F s 1 1);
          bits = (flags AND PML_FLAGS_MASK) OR X86_FLAGS_RW
      in obind (of_opt (spinlock F (pt_lock pt))) (\<lambda>l.
         obind (pml_ensure alloc s (pmlt pt) (pml4_index ix) bits) (\<lambda>s.
         let pml3 = pml_table s (pmlt pt) (pml4_index ix) in
         obind (pml_ensure alloc s pml3 (pml3_index ix) bits) (\<lambda>s.
         let pml2 = pml_table s pml3 (pml3_index ix);
             unlocked = pt\<lparr>pt_lock := spinrelease F l\<rparr> in
         if flags AND X86_FLAGS_PS \<noteq> 0
         then Ret (None, unlocked, pml_write s pml2 (pml2_index ix) (paddr OR flags))
         else
         obind (pml_ensure alloc s pml2 (pml2_index ix) bits) (\<lambda>s.
         let pml1 = pml_table s pml2 (pml2_index ix);
             s = pml_write s pml1 (pml1_index ix) (paddr OR flags) in
         Ret (Some (slot pml1 (pml1_index ix)), unlocked, s))))))"

definition pml4_unmap_page ::
  "'l fayt \<Rightarrow> 'l kstate \<Rightarrow> 'l page_table \<Rightarrow> u64 \<Rightarrow> (u64 \<times> 'l page_table \<times> 'l kstate) outcome" where
  "pml4_unmap_page F s pt vaddr =
     (let ix = compute_table_indices vaddr in
      obind (of_opt (spinlock F (pt_lock pt))) (\<lambda>l.
      let unlocked = pt\<lparr>pt_lock := spinrelease F l\<rparr> in
      if pml_read s (pmlt pt) (pml4_index ix) AND X86_FLAGS_P = 0 then Ret (0, unlocked, s)
      else let pml3 = pml_table s (pmlt pt) (pml4_index ix) in
      if pml_read s pml3 (pml3_index ix) AND X86_FLAGS_P = 0 then Ret (0, unlocked, s)
      else let pml2 = pml_table s pml3 (pml3_index ix); e2 = pml_read s pml2 (pml2_index ix) in
      if (e2 AND 0xfff) AND X86_FLAGS_PS \<noteq> 0
      then Ret (0x200000, unlocked, pml_write s pml2 (pml2_index ix) (e2 AND NOT X86_FLAGS_P))
      else if e2 AND X86_FLAGS_P = 0 then Ret (0, unlocked, s)
      else let pml1 = pml_table s pml2 (pml2_index ix); e1 = pml_read s pml1 (pml1_index ix) in
      Ret (0x1000, unlocked, pml_write s pml1 (pml1_index ix) (e1 AND NOT X86_FLAGS_P))))"

definition pml4_page_entry ::
  "'l fayt \<Rightarrow> 'l kstate \<Rightarrow> 'l page_table \<Rightarrow> u64 \<Rightarrow> (u64 option \<times> 'l page_table) outcome" where
  "pml4_page_entry F s pt vaddr =
     (let ix = compute_table_indices vaddr in
      obind (of_opt (spinlock F (pt_lock pt))) (\<lambda>l.
      let unlocked = pt\<lparr>pt_lock := spinrelease F l\<rparr> in
      if pml_read s (pmlt pt) (pml4_index ix) AND X86_FLAGS_P = 0 then Ret (None, unlocked)
      else let pml3 = pml_table s (pmlt pt) (pml4_index ix) in
      if pml_read s pml3 (pml3_index ix) AND X86_FLAGS_P = 0 then Ret (None, unlocked)
      else let pml2 = pml_table s pml3 (pml3_index ix); e2 = pml_read s pml2 (pml2_index ix) in
      if e2 AND X86_FLAGS_PS \<noteq> 0 then Ret (Some (slot pml2 (pml2_index ix)), unlocked)
      else if e2 AND X86_FLAGS_P = 0 then Ret (None, unlocked)
      else let pml1 = pml_table s pml2 (pml2_index ix) in
      Ret (Some (slot pml1 (pml1_index ix)), unlocked)))"

section \<open>Five levels\<close>

definition pml5_page_entry ::
  "'l fayt \<Rightarrow> 'l kstate \<Rightarrow> 'l page_table \<Rightarrow> u64 \<Rightarrow> (u64 option \<times> 'l page_table) outcome" where
  "pml5_page_entry F s pt vaddr =
     (let ix = compute_table_indices vaddr in
      obind (of_opt (spinlock F (pt_lock pt))) (\<lambda>l.
      let unlocked = pt\<lparr>pt_lock := spinrelease F l\<rparr> in
      if pml_read s (pmlt pt) (pml5_index ix) AND X86_FLAGS_P = 0 then Ret (None, unlocked)
      else let pml4 = pml_table s (pmlt pt) (pml5_index ix) in
      if pml_read s pml4 (pml4_index ix) AND X86_FLAGS_P = 0 then Ret (None, unlocked)
      else let pml3 = pml_table s pml4 (pml4_index ix) in
      if pml_read s pml3 (pml3_index ix) AND X86_FLAGS_P = 0 then Ret (None, unlocked)
      else let pml2 = pml_table s pml3 (pml3_index ix); e2 = pml_read s pml2 (pml2_index ix) in
      if e2 AND X86_FLAGS_PS \<noteq> 0 then Ret (Some (slot pml2 (pml2_index ix)), unlocked)
      else if e2 AND X86_FLAGS_P = 0 then Ret (None, unlocked)
      else let pml1 = pml_table s pml2 (pml2_index ix) in
      Ret (Some (slot pml1 (pml1_index ix)), unlocked)))"

definition pml5_map_page ::
  "'l fayt \<Rightarrow> 'l kstate \<Rightarrow> 'l page_table \<Rightarrow> u64 \<Rightarrow> u64 \<Rightarrow> u64 \<Rightarrow>
   (u64 option \<times> 'l page_table \<times> 'l kstate) outcome" where
  "pml5_map_page F s pt vaddr paddr flags =
     (let ix = compute_table_indices vaddr;
          alloc = (\<lambda>s. pmm_alloc F s 1 1);
          bits = flags AND PML_FLAGS_MASK
      in obind (of_opt (spinlock F (pt_lock pt))) (\<lambda>l.
         obind (pml_ensure alloc s (pmlt pt) (pml5_index ix) bits) (\<lambda>s.
         let pml4 = pml_table s (pmlt pt) (pml5_index ix) in
         obind (pml_ensure alloc s pml4 (pml4_index ix) bits) (\<lambda>s.
         let pml3 = pml_table s pml4 (pml4_index ix) in
         obind (pml_ensure alloc s pml3 (pml3_index ix) bits) (\<lambda>s.
         let pml2 = pml_table s pml3 (pml3_index ix);
             unlocked = pt\<lparr>pt_lock := spinrelease F l\<rparr> in
         if flags AND X86_FLAGS_PS \<noteq> 0
         then Ret (None, unlocked, pml_write s pml2 (pml2_index ix) (paddr OR flags))
         else
         obind (pml_ensure alloc s pml2 (pml2_index ix) bits) (\<lambda>s.
         let pml1 = pml_table s pml2 (pml2_index ix);
             s = pml_write s pml1 (pml1_index ix) (paddr OR flags) in
         Ret (Some (slot pml1 (pml1_index ix)), unlocked, s)))))))"

text \<open>
  The 5-level unmap indexes the root table with \<^verbatim>\<open>pml4_index\<close> where the other two functions use
  \<^verbatim>\<open>pml5_index\<close> (lines 241 and 246).
\<close>

definition pml5_unmap_page ::
  "'l fayt \<Rightarrow> 'l kstate \<Rightarrow> 'l page_table \<Rightarrow> u64 \<Rightarrow> (u64 \<times> 'l page_table \<times> 'l kstate) outcome" where
  "pml5_unmap_page F s pt vaddr =
     (let ix = compute_table_indices vaddr in
      obind (of_opt (spinlock F (pt_lock pt))) (\<lambda>l.
      let unlocked = pt\<lparr>pt_lock := spinrelease F l\<rparr> in
      if pml_read s (pmlt pt) (pml4_index ix) AND X86_FLAGS_P = 0 then Ret (0, unlocked, s)
      else let pml4 = pml_table s (pmlt pt) (pml4_index ix) in
      if pml_read s pml4 (pml4_index ix) AND X86_FLAGS_P = 0 then Ret (0, unlocked, s)
      else let pml3 = pml_table s pml4 (pml4_index ix) in
      if pml_read s pml3 (pml3_index ix) AND X86_FLAGS_P = 0 then Ret (0, unlocked, s)
      else let pml2 = pml_table s pml3 (pml3_index ix); e2 = pml_read s pml2 (pml2_index ix) in
      if (e2 AND 0xfff) AND X86_FLAGS_PS \<noteq> 0
      then Ret (0x200000, unlocked, pml_write s pml2 (pml2_index ix) (e2 AND NOT X86_FLAGS_P))
      else if e2 AND X86_FLAGS_P = 0 then Ret (0, unlocked, s)
      else let pml1 = pml_table s pml2 (pml2_index ix); e1 = pml_read s pml1 (pml1_index ix) in
      Ret (0x1000, unlocked, pml_write s pml1 (pml1_index ix) (e1 AND NOT X86_FLAGS_P))))"

section \<open>Selecting the implementation\<close>

text \<open>\<^verbatim>\<open>x86_paging_init\<close> looks at bit 16 of \<^verbatim>\<open>ecx\<close> of \<^verbatim>\<open>cpuid\<close> leaf 7.\<close>

definition x86_paging_init :: "u64 \<Rightarrow> pt_ops" where
  "x86_paging_init cpuid_7_rcx =
     (if cpuid_7_rcx AND 0x10000 \<noteq> 0 then Pml5Ops else Pml4Ops)"

definition map_page ::
  "'l fayt \<Rightarrow> 'l kstate \<Rightarrow> 'l page_table \<Rightarrow> u64 \<Rightarrow> u64 \<Rightarrow> u64 \<Rightarrow>
   (u64 option \<times> 'l page_table \<times> 'l kstate) outcome" where
  "map_page F s pt = (case ops pt of Pml4Ops \<Rightarrow> pml4_map_page F s pt | Pml5Ops \<Rightarrow> pml5_map_page F s pt)"

definition unmap_page ::
  "'l fayt \<Rightarrow> 'l kstate \<Rightarrow> 'l page_table \<Rightarrow> u64 \<Rightarrow> (u64 \<times> 'l page_table \<times> 'l kstate) outcome" where
  "unmap_page F s pt = (case ops pt of Pml4Ops \<Rightarrow> pml4_unmap_page F s pt | Pml5Ops \<Rightarrow> pml5_unmap_page F s pt)"

definition page_entry ::
  "'l fayt \<Rightarrow> 'l kstate \<Rightarrow> 'l page_table \<Rightarrow> u64 \<Rightarrow> (u64 option \<times> 'l page_table) outcome" where
  "page_entry F s pt = (case ops pt of Pml4Ops \<Rightarrow> pml4_page_entry F s pt | Pml5Ops \<Rightarrow> pml5_page_entry F s pt)"

section \<open>Slots of a table\<close>

lemma unat_slot_offset: "i < 512 \<Longrightarrow> unat (8 * ucast i :: u64) = 8 * unat i" for i :: u16
proof -
  assume "i < 512"
  then have "unat i < 512" by (simp add: word_less_nat_alt)
  moreover from this have "unat (ucast i :: u64) = unat i"
    by (simp add: unsigned_ucast_eq take_bit_nat_eq_self)
  ultimately show ?thesis by (subst unat_mult_exact) simp_all
qed

lemma slot_offset_less: "i < 512 \<Longrightarrow> unat (8 * ucast i :: u64) < 4096" for i :: u16
  by (simp add: unat_slot_offset word_less_nat_alt)

lemma aligned_add_exact:
  assumes "4096 dvd unat (t :: u64)" "unat o' < 4096"
  shows "unat (t + o') = unat t + unat o'"
proof -
  obtain k where k: "unat t = 4096 * k" using assms(1) by blast
  then have "k < 2 ^ 52" using u64_unat_bound [of t] by simp
  then have "unat t + unat o' < 2 ^ 64" using k assms(2) by simp
  then show ?thesis by (rule unat_add_exact)
qed

lemma unat_slot:
  "4096 dvd unat t \<Longrightarrow> i < 512 \<Longrightarrow> unat (slot t i) = unat t + 8 * unat i"
  using slot_offset_less [of i] by (simp add: slot_def aligned_add_exact unat_slot_offset)

lemma slot_aligned: "4096 dvd unat t \<Longrightarrow> i < 512 \<Longrightarrow> 8 dvd unat (slot t i)"
  by (simp add: unat_slot page_aligned_8)

lemma slot_in_page:
  assumes "4096 dvd unat u" "4096 dvd unat b" "j < 512"
  shows "unat (slot u j - b) < 4096 \<longleftrightarrow> u = b"
proof -
  have c: "4096 dvd unat (u - b)" using dvd_unat_sub [of 12 u b] assms by simp
  have "slot u j - b = slot (u - b) j" by (simp add: slot_def)
  then have "unat (slot u j - b) = unat (u - b) + 8 * unat j" using c assms(3) by (simp add: unat_slot)
  moreover have "unat j < 512" using assms(3) by (simp add: word_less_nat_alt)
  moreover have "u = b" if "unat (u - b) < 4096"
    using c that by (auto simp: unat_eq_zero dest: dvd_imp_le)
  ultimately show ?thesis by auto
qed

lemma slot_inject:
  assumes "4096 dvd unat t" "4096 dvd unat u" "i < 512" "j < 512"
  shows "slot t i = slot u j \<longleftrightarrow> t = u \<and> i = j"
proof
  assume eq: "slot t i = slot u j"
  have "t = u"
    using slot_in_page [OF assms(1,2,3)] slot_in_page [OF assms(2,2,4)] eq by simp
  moreover from this have "unat i = unat j"
    using eq unat_slot [OF assms(1,3)] unat_slot [OF assms(1,4)] by simp
  ultimately show "t = u \<and> i = j" by (simp add: word_eq_of_unat)
qed simp

lemma slot_aligned_sub:
  "4096 dvd unat t \<Longrightarrow> 4096 dvd unat v \<Longrightarrow> 4096 dvd unat (t - v)" for t v :: u64
  using dvd_unat_sub [of 12 t v] by simp

section \<open>Bits of an entry\<close>

definition present :: "u64 \<Rightarrow> bool" where "present e = (e AND X86_FLAGS_P \<noteq> 0)"
definition huge :: "u64 \<Rightarrow> bool" where "huge e = (e AND X86_FLAGS_PS \<noteq> 0)"

lemma present_bit: "present e = bit e 0"
  using and_exp_eq_0_iff_not_bit [of e 0] by (simp add: present_def)

lemma huge_bit: "huge e = bit e 7"
  using and_exp_eq_0_iff_not_bit [of e 7] by (simp add: huge_def)

lemma aligned_bit: "4096 dvd unat a \<Longrightarrow> n < 12 \<Longrightarrow> \<not> bit a n" for a :: u64
proof -
  assume "4096 dvd unat a" "n < 12"
  then have "take_bit 12 (unat a) = 0" by (simp add: take_bit_eq_mod mod_eq_0_iff_dvd)
  then have "\<not> bit (take_bit 12 (unat a)) n" by simp
  then show ?thesis using \<open>n < 12\<close> by (simp add: bit_take_bit_iff bit_unsigned_iff)
qed

lemma present_or: "present (a OR b) = (present a \<or> present b)"
  by (simp add: present_bit bit_simps)

lemma huge_or: "huge (a OR b) = (huge a \<or> huge b)"
  by (simp add: huge_bit bit_simps)

lemma mask12_bit: "bit (0xfff :: u64) n = (n < 12)"
proof -
  have "mask 12 = (0xfff :: u64)" by (simp add: mask_eq_exp_minus_1)
  then have "bit (0xfff :: u64) n = bit (mask 12 :: u64) n" by (simp only:)
  also have "\<dots> = (n < 12)" by (subst bit_mask_iff) auto
  finally show ?thesis .
qed

lemma table_of_frame:
  assumes "4096 dvd unat a" "bits AND NOT 0xfff = 0"
  shows "table_of s (a OR bits) = a + HIGH_VMA s"
proof -
  have "(a OR bits) AND NOT 0xfff = a"
  proof (rule bit_word_eqI)
    fix n assume "n < LENGTH(64)"
    moreover have "bit (bits AND NOT 0xfff) n = False" using assms(2) by simp
    ultimately show "bit ((a OR bits) AND NOT 0xfff) n = bit a n"
      using aligned_bit [OF assms(1), of n] mask12_bit [of n] by (auto simp: bit_simps)
  qed
  then show ?thesis by (simp add: table_of_def)
qed

lemma table_of_aligned:
  assumes "4096 dvd unat (HIGH_VMA s)" shows "4096 dvd unat (table_of s e)"
proof -
  have "(4096::nat) dvd unat (e AND NOT 0xfff)"
  proof -
    have "take_bit 12 (e AND NOT 0xfff) = 0"
      by (rule bit_word_eqI) (auto simp: bit_simps simp flip: mask12_bit)
    then have "unat (take_bit 12 (e AND NOT 0xfff)) = 0" by simp
    then have "take_bit 12 (unat (e AND NOT 0xfff)) = 0" by (simp only: unsigned_take_bit_eq)
    then show ?thesis by (simp add: take_bit_eq_mod mod_eq_0_iff_dvd)
  qed
  then show ?thesis using dvd_unat_add [of 12 "e AND NOT 0xfff" "HIGH_VMA s"] assms
    by (simp add: table_of_def)
qed

section \<open>Walking the tables\<close>

primrec walk :: "'l kstate \<Rightarrow> u64 \<Rightarrow> u16 list \<Rightarrow> u64 option" where
  "walk s t [] = Some t"
| "walk s t (i # is) =
     (if present (pml_read s t i) \<and> \<not> huge (pml_read s t i) then walk s (pml_table s t i) is else None)"

lemma walk_snoc:
  "walk s t (p @ [i]) = (case walk s t p of None \<Rightarrow> None | Some u \<Rightarrow>
     (if present (pml_read s u i) \<and> \<not> huge (pml_read s u i) then Some (pml_table s u i) else None))"
  by (induction p arbitrary: t) auto

definition valid_path :: "u16 list \<Rightarrow> bool" where
  "valid_path p = list_all (\<lambda>i. i < 512) p"

lemma valid_path_append [simp]: "valid_path (p @ q) \<longleftrightarrow> valid_path p \<and> valid_path q"
  by (simp add: valid_path_def)

lemma valid_path_Cons [simp]: "valid_path (i # p) \<longleftrightarrow> i < 512 \<and> valid_path p"
  by (simp add: valid_path_def)

lemma valid_path_Nil [simp]: "valid_path []"
  by (simp add: valid_path_def)

text \<open>
  Well-formed tables of depth \<open>d\<close> (the number of levels below the root): every table reached lies in
  a frame the allocator has handed out, no table is reached along two paths, and entries above the
  last two levels are not huge.
\<close>

definition tables_wf :: "u64 set \<Rightarrow> nat \<Rightarrow> 'l kstate \<Rightarrow> u64 \<Rightarrow> bool" where
  "tables_wf own d s root \<longleftrightarrow>
     (\<forall>p t. valid_path p \<longrightarrow> length p \<le> d \<longrightarrow> walk s root p = Some t \<longrightarrow> t - HIGH_VMA s \<in> own) \<and>
     (\<forall>p q t. valid_path p \<longrightarrow> valid_path q \<longrightarrow> length p \<le> d \<longrightarrow> length q \<le> d \<longrightarrow>
        walk s root p = Some t \<longrightarrow> walk s root q = Some t \<longrightarrow> p = q) \<and>
     (\<forall>p t i. valid_path (p @ [i]) \<longrightarrow> length p + 2 \<le> d \<longrightarrow> walk s root p = Some t \<longrightarrow>
        present (pml_read s t i) \<longrightarrow> \<not> huge (pml_read s t i))"

lemma tables_wf_own:
  "tables_wf own d s root \<Longrightarrow> walk s root p = Some t \<Longrightarrow> valid_path p \<Longrightarrow> length p \<le> d \<Longrightarrow>
   t - HIGH_VMA s \<in> own"
  unfolding tables_wf_def by blast

lemma tables_wf_inj:
  "tables_wf own d s root \<Longrightarrow> walk s root p = Some t \<Longrightarrow> walk s root q = Some t \<Longrightarrow>
   valid_path p \<Longrightarrow> valid_path q \<Longrightarrow> length p \<le> d \<Longrightarrow> length q \<le> d \<Longrightarrow> p = q"
  unfolding tables_wf_def by blast

lemma tables_wf_upper:
  "tables_wf own d s root \<Longrightarrow> walk s root p = Some t \<Longrightarrow> valid_path p \<Longrightarrow> i < 512 \<Longrightarrow>
   length p + 2 \<le> d \<Longrightarrow> present (pml_read s t i) \<Longrightarrow> \<not> huge (pml_read s t i)"
  unfolding tables_wf_def by (metis valid_path_append valid_path_Cons valid_path_Nil)

text \<open>The frames the allocator hands out, and the direct map, are page aligned.\<close>

definition frames_aligned :: "u64 set \<Rightarrow> 'l kstate \<Rightarrow> bool" where
  "frames_aligned own s \<longleftrightarrow> (\<forall>a\<in>own. 4096 dvd unat a) \<and> 4096 dvd unat (HIGH_VMA s)"

lemma table_aligned:
  assumes "frames_aligned own s" "t - HIGH_VMA s \<in> own"
  shows "4096 dvd unat t"
  using dvd_unat_add [of 12 "t - HIGH_VMA s" "HIGH_VMA s"] assms by (simp add: frames_aligned_def)

text \<open>Two states that agree on the frames of \<open>own\<close> have the same walks through them.\<close>

definition agree_on :: "u64 set \<Rightarrow> 'l kstate \<Rightarrow> 'l kstate \<Rightarrow> bool" where
  "agree_on own s s' \<longleftrightarrow> HIGH_VMA s' = HIGH_VMA s \<and>
     (\<forall>t i. t - HIGH_VMA s \<in> own \<longrightarrow> i < 512 \<longrightarrow> pml_read s' t i = pml_read s t i)"

lemma agree_on_refl [simp]: "agree_on own s s"
  by (simp add: agree_on_def)

lemma agree_on_trans: "agree_on own s s1 \<Longrightarrow> agree_on own' s1 s2 \<Longrightarrow> own \<subseteq> own' \<Longrightarrow> agree_on own s s2"
  by (auto simp: agree_on_def)

lemma agree_on_subset: "agree_on own' s s' \<Longrightarrow> own \<subseteq> own' \<Longrightarrow> agree_on own s s'"
  by (auto simp: agree_on_def)

text \<open>What lies outside the frames of \<open>own\<close> is the same in both.\<close>

definition untouched :: "u64 set \<Rightarrow> 'l kstate \<Rightarrow> 'l kstate \<Rightarrow> bool" where
  "untouched own s s' \<longleftrightarrow>
     (\<forall>t i. 4096 dvd unat t \<longrightarrow> t - HIGH_VMA s \<notin> own \<longrightarrow> i < 512 \<longrightarrow> pml_read s' t i = pml_read s t i)"

lemma untouched_refl [simp]: "untouched own s s"
  by (simp add: untouched_def)

lemma untouched_trans:
  "untouched own s s1 \<Longrightarrow> untouched own' s1 s2 \<Longrightarrow> own \<subseteq> own' \<Longrightarrow> HIGH_VMA s1 = HIGH_VMA s \<Longrightarrow> untouched own' s s2"
  by (auto simp: untouched_def)

lemma walk_agree:
  assumes "tables_wf own d s root" "agree_on own s s'"
  shows "valid_path q \<Longrightarrow> length q \<le> d \<Longrightarrow> walk s' root q = walk s root q"
proof (induction q rule: rev_induct)
  case (snoc i q)
  then show ?case
    using assms(2) tables_wf_own [OF assms(1), of q]
    by (auto simp: walk_snoc agree_on_def pml_table_def table_of_def split: option.splits)
qed simp

lemma tables_wf_agree:
  assumes wf: "tables_wf own d s root" and ag: "agree_on own s s'" and sub: "own \<subseteq> own'"
  shows "tables_wf own' d s' root"
proof -
  note w = walk_agree [OF wf ag]
  have h: "HIGH_VMA s' = HIGH_VMA s" using ag by (simp add: agree_on_def)
  have r: "pml_read s' t i = pml_read s t i"
    if "walk s root p = Some t" "valid_path p" "length p \<le> d" "i < 512" for p t i
    using ag tables_wf_own [OF wf that(1-3)] that(4) by (simp add: agree_on_def)
  show ?thesis unfolding tables_wf_def
  proof (intro conjI allI impI)
    fix p t assume "valid_path p" "length p \<le> d" "walk s' root p = Some t"
    then show "t - HIGH_VMA s' \<in> own'" using w h tables_wf_own [OF wf, of p t] sub by auto
  next
    fix p q t
    assume "valid_path p" "valid_path q" "length p \<le> d" "length q \<le> d"
      "walk s' root p = Some t" "walk s' root q = Some t"
    then show "p = q" using w tables_wf_inj [OF wf] by simp
  next
    fix p t i
    assume "valid_path (p @ [i])" "length p + 2 \<le> d" "walk s' root p = Some t"
      "present (pml_read s' t i)"
    then show "\<not> huge (pml_read s' t i)"
      using w [of p] r [of p t i] tables_wf_upper [OF wf, of p t i] by simp
  qed
qed

section \<open>Writing one entry\<close>

lemma pml_read_write:
  assumes "4096 dvd unat t" "4096 dvd unat u" "i < 512" "j < 512"
  shows "pml_read (pml_write s t i e) u j = (if u = t \<and> j = i then e else pml_read s u j)"
  using slot_inject [OF assms(2,1,4,3)] by (simp add: pml_read_def pml_write_def)

lemma pml_write_vma [simp]: "HIGH_VMA (pml_write s t i e) = HIGH_VMA s"
  by (simp add: pml_write_def)

lemma untouched_agree:
  assumes "frames_aligned D s" "untouched own s s'" "D \<inter> own = {}" "HIGH_VMA s' = HIGH_VMA s"
  shows "agree_on D s s'"
  using assms table_aligned [OF assms(1)] by (auto simp: untouched_def agree_on_def)

lemma untouched_write:
  assumes "4096 dvd unat t" "t - HIGH_VMA s \<in> own" "i < 512"
  shows "untouched own s (pml_write s t i e)"
  using assms by (auto simp: untouched_def pml_read_write)

lemma table_of_write [simp]: "table_of (pml_write s t i e) x = table_of s x"
  by (simp add: table_of_def)

lemma table_of_cong: "HIGH_VMA s' = HIGH_VMA s \<Longrightarrow> table_of s' x = table_of s x"
  by (simp add: table_of_def)

text \<open>An entry of a reached table other than the one written keeps its value.\<close>

lemma read_other:
  assumes wf: "tables_wf own d s root" and al: "frames_aligned own s"
    and t: "walk s root p = Some t" "valid_path p" "i < 512" "length p \<le> d"
    and u: "walk s root q = Some u" "valid_path q" "j < 512" "length q \<le> d"
  shows "pml_read (pml_write s t i e) u j = (if q = p \<and> j = i then e else pml_read s u j)"
proof -
  have "4096 dvd unat t" "4096 dvd unat u"
    using table_aligned [OF al] tables_wf_own [OF wf] t u by blast+
  moreover have "q = p" if "u = t" using tables_wf_inj [OF wf t(1)] u that t by simp
  moreover have "u = t" if "q = p" using t u that by simp
  ultimately show ?thesis using t u by (auto simp: pml_read_write)
qed

lemma walk_write:
  assumes wf: "tables_wf own d s root" and al: "frames_aligned own s"
    and t: "walk s root p = Some t" "valid_path p" "i < 512" "length p \<le> d"
  shows "valid_path q \<Longrightarrow> length q \<le> d \<Longrightarrow> \<not> prefix (p @ [i]) q \<Longrightarrow>
    walk (pml_write s t i e) root q = walk s root q"
proof (induction q rule: rev_induct)
  case (snoc j q)
  then have "\<not> prefix (p @ [i]) q" "\<not> (q = p \<and> j = i)" by auto
  then show ?case
    using snoc read_other [OF wf al t, of q _ j e]
    by (auto simp: walk_snoc pml_table_def split: option.splits)
qed simp

lemma walk_write_root:
  assumes "tables_wf own d s root" "frames_aligned own s"
    "walk s root p = Some t" "valid_path p" "i < 512" "length p \<le> d"
  shows "walk (pml_write s t i e) root p = Some t"
  using walk_write [OF assms, of p e] assms by simp

lemma walk_write_at:
  assumes "tables_wf own d s root" "frames_aligned own s"
    "walk s root p = Some t" "valid_path p" "i < 512" "length p \<le> d"
  shows "walk (pml_write s t i e) root (p @ [i]) =
    (if present e \<and> \<not> huge e then Some (table_of s e) else None)"
  using walk_write_root [OF assms, of e] read_other [OF assms, of p t i e] assms
  by (simp add: walk_snoc pml_table_def)

lemma walk_None_prefix: "walk s t p = None \<Longrightarrow> prefix p q \<Longrightarrow> walk s t q = None"
proof -
  have "walk s t p = None \<Longrightarrow> walk s t (p @ r) = None" for r
    by (induction p arbitrary: t) auto
  then show "walk s t p = None \<Longrightarrow> prefix p q \<Longrightarrow> walk s t q = None" by (auto elim!: prefixE)
qed

text \<open>
  A write that adds no table: into a last-level table, or of an entry that is absent or huge into the
  level above.
\<close>

definition no_table :: "nat \<Rightarrow> u16 list \<Rightarrow> u64 \<Rightarrow> bool" where
  "no_table d p e \<longleftrightarrow> length p = d \<or> Suc (length p) = d \<and> (present e \<longrightarrow> huge e)"

lemma walk_write_no_table:
  assumes wf: "tables_wf own d s root" and al: "frames_aligned own s"
    and t: "walk s root p = Some t" "valid_path p" "i < 512" and n: "no_table d p e"
    and q: "valid_path q" "length q \<le> d"
  shows "walk (pml_write s t i e) root q = (if prefix (p @ [i]) q then None else walk s root q)"
proof -
  have l: "length p \<le> d" using n by (auto simp: no_table_def)
  show ?thesis
  proof (cases "prefix (p @ [i]) q")
    case True
    then have "length p \<noteq> d" using q(2) prefix_length_le [OF True] by auto
    then have "walk (pml_write s t i e) root (p @ [i]) = None"
      using n walk_write_at [OF wf al t l, of e] by (auto simp: no_table_def)
    then show ?thesis using True walk_None_prefix by auto
  next
    case False
    then show ?thesis using walk_write [OF wf al t l q] by simp
  qed
qed

lemma tables_wf_write:
  assumes wf: "tables_wf own d s root" and al: "frames_aligned own s"
    and t: "walk s root p = Some t" "valid_path p" "i < 512" and n: "no_table d p e"
  shows "tables_wf own d (pml_write s t i e) root"
proof -
  note w = walk_write_no_table [OF wf al t n]
  have l: "length p \<le> d" using n by (auto simp: no_table_def)
  show ?thesis unfolding tables_wf_def
  proof (intro conjI allI impI)
    fix q u assume "valid_path q" "length q \<le> d" "walk (pml_write s t i e) root q = Some u"
    then show "u - HIGH_VMA (pml_write s t i e) \<in> own"
      using w [of q] tables_wf_own [OF wf, of q u] by (auto split: if_splits)
  next
    fix q r u
    assume "valid_path q" "valid_path r" "length q \<le> d" "length r \<le> d"
      "walk (pml_write s t i e) root q = Some u" "walk (pml_write s t i e) root r = Some u"
    then show "q = r"
      using w [of q] w [of r] tables_wf_inj [OF wf, of q u r] by (auto split: if_splits)
  next
    fix q u j
    assume a: "valid_path (q @ [j])" "length q + 2 \<le> d"
      "walk (pml_write s t i e) root q = Some u" "present (pml_read (pml_write s t i e) u j)"
    then have "walk s root q = Some u" using w [of q] by (auto split: if_splits)
    moreover have "q \<noteq> p" using a(2) n by (auto simp: no_table_def)
    ultimately show "\<not> huge (pml_read (pml_write s t i e) u j)"
      using a read_other [OF wf al t l, of q u j e] tables_wf_upper [OF wf, of q u j] by auto
  qed
qed

section \<open>The translation of a page\<close>

text \<open>
  What the hardware finds for a page given by its upper indices \<open>us\<close> and its last two indices: the
  huge entry of the second level, or the last-level entry, provided all entries on the way are
  present.
\<close>

definition leaf :: "'l kstate \<Rightarrow> u64 \<Rightarrow> u16 list \<Rightarrow> u16 \<Rightarrow> u16 \<Rightarrow> u64 option" where
  "leaf s root us i2 i1 = (case walk s root us of None \<Rightarrow> None | Some t2 \<Rightarrow>
     let e2 = pml_read s t2 i2 in
     if \<not> present e2 then None
     else if huge e2 then Some e2
     else let e1 = pml_read s (table_of s e2) i1 in if present e1 then Some e1 else None)"

lemma leaf_walk:
  assumes "walk s root (us @ [i2]) = Some t1"
  shows "leaf s root us i2 i1 = (if present (pml_read s t1 i1) then Some (pml_read s t1 i1) else None)"
  using assms by (auto simp: leaf_def walk_snoc pml_table_def split: option.splits if_splits)

lemma leaf_no_walk:
  assumes "walk s root (us @ [i2]) = None"
  shows "leaf s root us i2 i1 = (case walk s root us of None \<Rightarrow> None | Some t2 \<Rightarrow>
    if present (pml_read s t2 i2) then Some (pml_read s t2 i2) else None)"
  using assms by (auto simp: leaf_def walk_snoc pml_table_def Let_def split: option.splits if_splits)

lemma leaf_cong:
  assumes "walk s' root us = walk s root us"
    and "walk s' root (us @ [i2]) = walk s root (us @ [i2])"
    and "\<And>u. walk s root us = Some u \<Longrightarrow> walk s root (us @ [i2]) = None \<Longrightarrow> pml_read s' u i2 = pml_read s u i2"
    and "\<And>u. walk s root (us @ [i2]) = Some u \<Longrightarrow> pml_read s' u i1 = pml_read s u i1"
  shows "leaf s' root us i2 i1 = leaf s root us i2 i1"
  using assms
  by (cases "walk s root (us @ [i2])") (auto simp: leaf_walk leaf_no_walk split: option.splits)

text \<open>A write into a last-level table changes the translation of one page.\<close>

lemma leaf_write_last:
  assumes wf: "tables_wf own d s root" and al: "frames_aligned own s"
    and t: "walk s root (us @ [i2]) = Some t" "valid_path (us @ [i2])" "i1 < 512"
    and d: "Suc (length us) = d"
    and v: "valid_path (vs @ [j2])" "j1 < 512" "length vs = length us"
  shows "leaf (pml_write s t i1 e) root vs j2 j1 =
    (if vs = us \<and> j2 = i2 \<and> j1 = i1 then (if present e then Some e else None) else leaf s root vs j2 j1)"
proof -
  have n: "no_table d (us @ [i2]) e" using d by (simp add: no_table_def)
  have pre: "\<not> prefix ((us @ [i2]) @ [i1]) q" if "length q \<le> d" for q
    using prefix_length_le [of "(us @ [i2]) @ [i1]" q] that d by auto
  note w = walk_write_no_table [OF wf al t n]
  have w1: "walk (pml_write s t i1 e) root (vs @ [j2]) = walk s root (vs @ [j2])"
    using w [of "vs @ [j2]"] pre [of "vs @ [j2]"] v d by simp
  have w2: "walk (pml_write s t i1 e) root vs = walk s root vs"
    using w [of vs] pre [of vs] v d by simp
  have l: "length (us @ [i2]) \<le> d" using d by simp
  show ?thesis
  proof (cases "walk s root (vs @ [j2])")
    case None
    then have "\<not> (vs = us \<and> j2 = i2)" using t by auto
    moreover have "pml_read (pml_write s t i1 e) u j2 = pml_read s u j2"
      if "walk s root vs = Some u" for u
      using read_other [OF wf al t l that, of j2 e] v d by auto
    ultimately show ?thesis
      using None w1 w2 by (auto simp: leaf_no_walk split: option.splits)
  next
    case (Some u)
    then show ?thesis
      using read_other [OF wf al t l Some, of j1 e] v d w1
      by (auto simp: leaf_walk)
  qed
qed

text \<open>
  Writing an absent or huge entry one level higher changes the translation of the 512 pages below
  it, and of no other page.
\<close>

lemma leaf_write_huge:
  assumes wf: "tables_wf own d s root" and al: "frames_aligned own s"
    and t: "walk s root us = Some t" "valid_path us" "i2 < 512"
    and d: "Suc (length us) = d" and e: "present e \<longrightarrow> huge e"
    and v: "valid_path (vs @ [j2])" "j1 < 512" "length vs = length us"
  shows "leaf (pml_write s t i2 e) root vs j2 j1 =
    (if vs = us \<and> j2 = i2 then (if present e then Some e else None) else leaf s root vs j2 j1)"
proof -
  have n: "no_table d us e" using d e by (simp add: no_table_def)
  have l: "length us \<le> d" using d by simp
  note w = walk_write_no_table [OF wf al t n]
  have w2: "walk (pml_write s t i2 e) root vs = walk s root vs"
    using w [of vs] v d prefix_length_le [of "us @ [i2]" vs] by auto
  have w1: "walk (pml_write s t i2 e) root (vs @ [j2]) =
      (if vs = us \<and> j2 = i2 then None else walk s root (vs @ [j2]))"
    using w [of "vs @ [j2]"] v d by (auto simp: prefix_def)
  have r: "pml_read (pml_write s t i2 e) u j2 = (if vs = us \<and> j2 = i2 then e else pml_read s u j2)"
    if "walk s root vs = Some u" for u
    using read_other [OF wf al t l that, of j2 e] v d by simp
  show ?thesis
  proof (cases "vs = us \<and> j2 = i2")
    case True
    then show ?thesis using w1 w2 r t by (auto simp: leaf_no_walk)
  next
    case False
    have "leaf (pml_write s t i2 e) root vs j2 j1 = leaf s root vs j2 j1"
    proof (rule leaf_cong)
      fix u assume "walk s root (vs @ [j2]) = Some u"
      then show "pml_read (pml_write s t i2 e) u j1 = pml_read s u j1"
        using read_other [OF wf al t l, of "vs @ [j2]" u j1 e] v d by auto
    qed (use False w1 w2 r in auto)
    then show ?thesis using False by auto
  qed
qed

section \<open>Adding a table\<close>

text \<open>
  What a step of \<^verbatim>\<open>map_page\<close> keeps: the direct map, the tables already reachable and every
  translation.
\<close>

definition keeps :: "nat \<Rightarrow> u64 \<Rightarrow> 'l kstate \<Rightarrow> 'l kstate \<Rightarrow> bool" where
  "keeps d root s s' \<longleftrightarrow> HIGH_VMA s' = HIGH_VMA s \<and>
     (\<forall>q u. valid_path q \<longrightarrow> length q \<le> d \<longrightarrow> walk s root q = Some u \<longrightarrow> walk s' root q = Some u) \<and>
     (\<forall>us i2 i1. valid_path (us @ [i2, i1]) \<longrightarrow> Suc (length us) = d \<longrightarrow>
        leaf s' root us i2 i1 = leaf s root us i2 i1)"

lemma keeps_refl: "keeps d root s s"
  by (simp add: keeps_def)

lemma keeps_trans: "keeps d root s s' \<Longrightarrow> keeps d root s' s'' \<Longrightarrow> keeps d root s s''"
  by (simp add: keeps_def)

lemma keeps_walk:
  "keeps d root s s' \<Longrightarrow> walk s root q = Some u \<Longrightarrow> valid_path q \<Longrightarrow> length q \<le> d \<Longrightarrow>
   walk s' root q = Some u"
  by (simp add: keeps_def)

lemma keeps_agree:
  assumes wf: "tables_wf own d s root" and ag: "agree_on own s s'"
  shows "keeps d root s s'"
proof -
  note w = walk_agree [OF wf ag]
  have "leaf s' root us i2 i1 = leaf s root us i2 i1"
    if v: "valid_path (us @ [i2, i1])" and d: "Suc (length us) = d" for us i2 i1
  proof -
    have r: "pml_read s' t j = pml_read s t j"
      if "walk s root q = Some t" "valid_path q" "length q \<le> d" "j < 512" for q t j
      using ag tables_wf_own [OF wf that(1-3)] that(4) by (simp add: agree_on_def)
    show ?thesis by (rule leaf_cong) (use w [of us] w [of "us @ [i2]"] r v d in auto)
  qed
  then show ?thesis using w ag by (simp add: keeps_def agree_on_def)
qed

text \<open>Linking a zeroed frame that no path reaches into an absent entry.\<close>

lemma link_zero:
  assumes wf: "tables_wf own d s root" and al: "frames_aligned own s"
    and t: "walk s root p = Some t" "valid_path p" "i < 512" "length p < d"
    and absent: "\<not> present (pml_read s t i)"
    and e: "present e" "\<not> huge e" "table_of s e - HIGH_VMA s \<notin> own" "4096 dvd unat (table_of s e)"
    and zero: "\<And>j. j < 512 \<Longrightarrow> pml_read s (table_of s e) j = 0"
    and j: "j < 512"
  shows "pml_read (pml_write s t i e) (table_of s e) j = 0"
proof -
  have "4096 dvd unat t" "t - HIGH_VMA s \<in> own"
    using table_aligned [OF al] tables_wf_own [OF wf t(1,2)] t(4) by auto
  then show ?thesis
    using pml_read_write [OF _ e(4) t(3) j, of t s e] zero [OF j] e(3) by auto
qed

lemma walk_link:
  assumes wf: "tables_wf own d s root" and al: "frames_aligned own s"
    and t: "walk s root p = Some t" "valid_path p" "i < 512" "length p < d"
    and absent: "\<not> present (pml_read s t i)"
    and e: "present e" "\<not> huge e" "table_of s e - HIGH_VMA s \<notin> own" "4096 dvd unat (table_of s e)"
    and zero: "\<And>j. j < 512 \<Longrightarrow> pml_read s (table_of s e) j = 0"
    and q: "valid_path q" "length q \<le> d"
  shows "walk (pml_write s t i e) root q =
    (if q = p @ [i] then Some (table_of s e) else walk s root q)"
proof -
  let ?s = "pml_write s t i e"
  have l: "length p \<le> d" using t by simp
  have new: "walk ?s root (p @ [i]) = Some (table_of s e)"
    using walk_write_at [OF wf al t(1-3) l, of e] e by simp
  have old: "walk s root r = None" if "prefix (p @ [i]) r" for r
    by (rule walk_None_prefix [OF _ that]) (use t(1) absent in \<open>simp add: walk_snoc\<close>)
  note zero' = link_zero [OF wf al t absent e zero]
  have ext: "walk ?s root ((p @ [i]) @ r) = None" if "r \<noteq> []" "valid_path r" for r
  proof -
    obtain j r' where r: "r = j # r'" using \<open>r \<noteq> []\<close> by (cases r) auto
    have "walk ?s root ((p @ [i]) @ [j]) = None"
      by (subst walk_snoc) (use new zero' [of j] that r in \<open>simp add: present_def\<close>)
    then show ?thesis by (rule walk_None_prefix) (simp add: r)
  qed
  show ?thesis
  proof (cases "prefix (p @ [i]) q")
    case True
    then obtain r where r: "q = (p @ [i]) @ r" by (auto elim: prefixE)
    show ?thesis
    proof (cases "r = []")
      case True
      then show ?thesis using new r by simp
    next
      case False
      then show ?thesis using ext [of r] old [OF True] r q by simp
    qed
  next
    case False
    then show ?thesis using walk_write [OF wf al t(1-3) l q False] by auto
  qed
qed

lemma link_wf:
  assumes wf: "tables_wf own d s root" and al: "frames_aligned own s"
    and t: "walk s root p = Some t" "valid_path p" "i < 512" "length p < d"
    and absent: "\<not> present (pml_read s t i)"
    and e: "present e" "\<not> huge e" "table_of s e - HIGH_VMA s \<notin> own" "4096 dvd unat (table_of s e)"
    and zero: "\<And>j. j < 512 \<Longrightarrow> pml_read s (table_of s e) j = 0"
  shows "tables_wf (insert (table_of s e - HIGH_VMA s) own) d (pml_write s t i e) root"
proof -
  let ?s = "pml_write s t i e"
  have l: "length p \<le> d" using t by simp
  note w = walk_link [OF wf al t absent e zero]
  have fresh: "u \<noteq> table_of s e" if "walk s root q = Some u" "valid_path q" "length q \<le> d" for q u
    using tables_wf_own [OF wf that] e(3) by auto
  note zero' = link_zero [OF wf al t absent e zero]
  show ?thesis unfolding tables_wf_def
  proof (intro conjI allI impI)
    fix q u assume "valid_path q" "length q \<le> d" "walk ?s root q = Some u"
    then show "u - HIGH_VMA ?s \<in> insert (table_of s e - HIGH_VMA s) own"
      using w [of q] tables_wf_own [OF wf, of q u] by (auto split: if_splits)
  next
    fix q r u
    assume a: "valid_path q" "valid_path r" "length q \<le> d" "length r \<le> d"
      "walk ?s root q = Some u" "walk ?s root r = Some u"
    then show "q = r"
      using w [of q] w [of r] tables_wf_inj [OF wf, of q u r] fresh [of q u] fresh [of r u]
      by (auto split: if_splits)
  next
    fix q u j
    assume a: "valid_path (q @ [j])" "length q + 2 \<le> d" "walk ?s root q = Some u"
      "present (pml_read ?s u j)"
    have vq: "valid_path q" "j < 512" "length q \<le> d" using a by auto
    show "\<not> huge (pml_read ?s u j)"
    proof (cases "q = p @ [i]")
      case True
      then have "u = table_of s e" using a w [of q] vq by simp
      then have "pml_read ?s u j = 0" using zero' vq by simp
      then show ?thesis by (simp add: huge_def)
    next
      case False
      then have u: "walk s root q = Some u" using a w [of q] vq by simp
      show ?thesis
        using read_other [OF wf al t(1-3) l u vq(1,2,3), of e] a e
          tables_wf_upper [OF wf u vq(1,2) a(2)] by (auto split: if_splits)
    qed
  qed
qed

lemma link_keeps:
  assumes wf: "tables_wf own d s root" and al: "frames_aligned own s"
    and t: "walk s root p = Some t" "valid_path p" "i < 512" "length p < d"
    and absent: "\<not> present (pml_read s t i)"
    and e: "present e" "\<not> huge e" "table_of s e - HIGH_VMA s \<notin> own" "4096 dvd unat (table_of s e)"
    and zero: "\<And>j. j < 512 \<Longrightarrow> pml_read s (table_of s e) j = 0"
  shows "keeps d root s (pml_write s t i e)"
proof -
  let ?s = "pml_write s t i e"
  have l: "length p \<le> d" using t by simp
  note w = walk_link [OF wf al t absent e zero]
  have none: "walk s root (p @ [i]) = None" using t absent by (simp add: walk_snoc)
  note zero' = link_zero [OF wf al t absent e zero]
  have lf: "leaf ?s root us i2 i1 = leaf s root us i2 i1"
    if v: "valid_path (us @ [i2, i1])" and d: "Suc (length us) = d" for us i2 i1
  proof -
    have r1: "pml_read ?s u i1 = pml_read s u i1" if "walk s root (us @ [i2]) = Some u" for u
      using read_other [OF wf al t(1-3) l that, of i1 e] v d t(4) by auto
    have r2: "pml_read ?s u i2 = pml_read s u i2"
      if "walk s root us = Some u" "us @ [i2] \<noteq> p @ [i]" for u
      using read_other [OF wf al t(1-3) l that(1), of i2 e] v d that(2) by auto
    have w1: "walk ?s root (us @ [i2]) =
        (if us @ [i2] = p @ [i] then Some (table_of s e) else walk s root (us @ [i2]))"
      and w2: "walk ?s root us = (if us = p @ [i] then Some (table_of s e) else walk s root us)"
      using w [of "us @ [i2]"] w [of us] v d by simp_all
    consider "us @ [i2] = p @ [i]" | "us = p @ [i]" "us @ [i2] \<noteq> p @ [i]" |
      "us \<noteq> p @ [i]" "us @ [i2] \<noteq> p @ [i]" by blast
    then show ?thesis
    proof cases
      case 1
      then show ?thesis
        using w1 zero' [of i1] v t absent none by (simp add: leaf_walk leaf_no_walk present_def)
    next
      case 2
      then have "walk s root (us @ [i2]) = None" using none by (simp add: walk_None_prefix)
      then show ?thesis using 2 w1 w2 zero' [of i2] v none by (simp add: leaf_no_walk present_def)
    next
      case 3
      then show ?thesis by (intro leaf_cong) (use w1 w2 r1 r2 in auto)
    qed
  qed
  have "walk ?s root q = Some u" if "valid_path q" "length q \<le> d" "walk s root q = Some u" for q u
    using w [of q] that none by auto
  then show ?thesis using lf by (simp add: keeps_def)
qed

context frame_allocator
begin

lemma frames_aligned_owned: "inv s \<Longrightarrow> frames_aligned (owned s) s"
  by (simp add: frames_aligned_def owned_aligned vma_aligned)

lemma inv_pml_write [simp]: "inv (pml_write s t i e) = inv s"
  and owned_pml_write [simp]: "owned (pml_write s t i e) = owned s"
  and room_pml_write [simp]: "room (pml_write s t i e) = room s"
  by (simp_all add: pml_write_def)

text \<open>An allocation leaves every table and every translation as it was.\<close>

lemma alloc_agree:
  assumes inv: "inv s" and room: "room s (Suc n)" and run: "alloc s = Ret (a, s')"
  shows "agree_on (owned s) s s'" and "inv s'" and "room s' n" and "a \<notin> owned s"
    and "owned s' = insert a (owned s)" and "4096 dvd unat a"
    and "\<And>j. j < 512 \<Longrightarrow> pml_read s' (a + HIGH_VMA s) j = 0" and "untouched {a} s s'"
proof -
  have f: "inv s' \<and> room s' n \<and> HIGH_VMA s' = HIGH_VMA s \<and> a \<notin> owned s \<and>
      owned s' = insert a (owned s) \<and> 4096 dvd unat a \<and>
      (\<forall>x. 8 dvd unat x \<longrightarrow>
        memory s' x = (if unat (x - (a + HIGH_VMA s)) < 4096 then 0 else memory s x))"
    using alloc_fresh [OF inv room] run by auto
  then show "inv s'" "room s' n" "a \<notin> owned s" "owned s' = insert a (owned s)" "4096 dvd unat a"
    by blast+
  have v: "4096 dvd unat (HIGH_VMA s)" by (rule vma_aligned [OF inv])
  have av: "4096 dvd unat (a + HIGH_VMA s)" using dvd_unat_add [of 12 a "HIGH_VMA s"] f v by simp
  have rd: "pml_read s' t j = (if t = a + HIGH_VMA s then 0 else pml_read s t j)"
    if "4096 dvd unat t" "j < 512" for t j
    using f that slot_aligned [OF that] slot_in_page [OF that(1) av that(2)] by (simp add: pml_read_def)
  then show "pml_read s' (a + HIGH_VMA s) j = 0" if "j < 512" for j using that av by simp
  show "untouched {a} s s'" using rd by (auto simp: untouched_def)
  show "agree_on (owned s) s s'"
    using f rd table_aligned [OF frames_aligned_owned [OF inv]] by (auto simp: agree_on_def)
qed

lemma alloc_returns: "inv s \<Longrightarrow> room s (Suc n) \<Longrightarrow> \<exists>a s'. alloc s = Ret (a, s')"
  using alloc_fresh by blast

text \<open>One level of \<^verbatim>\<open>map_page\<close>: the table for entry \<open>i\<close> exists afterwards and nothing else moved.\<close>

lemma ensure_step:
  assumes inv: "inv s" and room: "room s (Suc n)" and wf: "tables_wf (owned s) d s root"
    and t: "walk s root p = Some t" "valid_path p" "i < 512" "length p < d"
    and small: "present (pml_read s t i) \<Longrightarrow> \<not> huge (pml_read s t i)"
    and bits: "present bits" "\<not> huge bits" "bits AND NOT 0xfff = 0"
  shows "\<exists>s'. pml_ensure alloc s t i bits = Ret s' \<and> inv s' \<and> room s' n \<and> owned s \<subseteq> owned s' \<and>
    tables_wf (owned s') d s' root \<and> keeps d root s s' \<and> walk s' root (p @ [i]) = Some (pml_table s' t i) \<and>
    untouched (owned s') s s'"
proof (cases "present (pml_read s t i)")
  case True
  then have "pml_ensure alloc s t i bits = Ret s" by (simp add: pml_ensure_def present_def)
  then show ?thesis
    using True small inv room_mono [OF room, of n] wf t by (simp add: keeps_refl walk_snoc)
next
  case False
  obtain a s1 where run: "alloc s = Ret (a, s1)" using alloc_returns [OF inv room] by blast
  note al = alloc_agree [OF inv room run]
  let ?e = "a OR bits"
  have h: "HIGH_VMA s1 = HIGH_VMA s" using al(1) by (simp add: agree_on_def)
  have wf1: "tables_wf (owned s) d s1 root" by (rule tables_wf_agree [OF wf al(1)]) simp
  have k1: "keeps d root s s1" by (rule keeps_agree [OF wf al(1)])
  have fr: "frames_aligned (owned s) s1"
    using frames_aligned_owned [OF inv] h by (simp add: frames_aligned_def)
  have tb: "table_of s1 ?e = a + HIGH_VMA s1" by (rule table_of_frame [OF al(6) bits(3)])
  have l: "length p \<le> d" using t by simp
  have t1: "walk s1 root p = Some t" by (rule keeps_walk [OF k1 t(1,2) l])
  have rd: "pml_read s1 t i = pml_read s t i"
    using al(1) tables_wf_own [OF wf t(1,2) l] t(3) by (simp add: agree_on_def)
  have e: "present ?e" "\<not> huge ?e" using bits aligned_bit [OF al(6), of 7]
    by (simp_all add: present_or huge_or huge_bit bit_or_iff)
  have f: "table_of s1 ?e - HIGH_VMA s1 \<notin> owned s" "4096 dvd unat (table_of s1 ?e)"
    using al(4,6) tb table_of_aligned [of s1 ?e] vma_aligned [OF inv] h by simp_all
  note link = wf1 fr t1 t(2-4) _ e f
  have "tables_wf (owned s1) d (pml_write s1 t i ?e) root"
    using link_wf [OF link] rd False al(5,7) tb h by simp
  moreover have "keeps d root s (pml_write s1 t i ?e)"
    by (rule keeps_trans [OF k1 link_keeps [OF link]]) (use rd False al(7) tb h in simp_all)
  moreover have at: "4096 dvd unat t" "t - HIGH_VMA s1 \<in> owned s"
    using table_aligned [OF fr] tables_wf_own [OF wf1 t1 t(2) l] by simp_all
  moreover have "untouched (owned s1) s (pml_write s1 t i ?e)"
    by (rule untouched_trans [OF al(8) untouched_write [OF at(1)]]) (use at(2) al(5) h t(3) in auto)
  moreover have "walk (pml_write s1 t i ?e) root (p @ [i]) = Some (pml_table (pml_write s1 t i ?e) t i)"
  proof -
    show ?thesis
      using at walk_write_at [OF wf1 fr t1 t(2,3) l, of ?e] e t(3)
      by (simp add: pml_table_def pml_read_write)
  qed
  moreover have "pml_ensure alloc s t i bits = Ret (pml_write s1 t i ?e)"
    using False run by (simp add: pml_ensure_def present_def)
  ultimately show ?thesis using al(2,3,5) by auto
qed

end

section \<open>Virtual pages\<close>

primrec levels :: "pt_ops \<Rightarrow> nat" where
  "levels Pml4Ops = 3"
| "levels Pml5Ops = 4"

primrec upper :: "pt_ops \<Rightarrow> pml_indices \<Rightarrow> u16 list" where
  "upper Pml4Ops ix = [pml4_index ix, pml3_index ix]"
| "upper Pml5Ops ix = [pml5_index ix, pml4_index ix, pml3_index ix]"

text \<open>The bits of a virtual address the hardware translates, without the page offset.\<close>

definition vpn :: "pt_ops \<Rightarrow> u64 \<Rightarrow> u64" where
  "vpn m v = drop_bit 12 (take_bit (12 + 9 * Suc (levels m)) v)"

definition huge_vpn :: "pt_ops \<Rightarrow> u64 \<Rightarrow> u64" where
  "huge_vpn m v = drop_bit 9 (vpn m v)"

definition translate :: "pt_ops \<Rightarrow> 'l kstate \<Rightarrow> u64 \<Rightarrow> u64 \<Rightarrow> u64 option" where
  "translate m s root v = (let ix = compute_table_indices v in
     leaf s root (upper m ix) (pml2_index ix) (pml1_index ix))"

lemma word_bits_eq: "x = y \<longleftrightarrow> (\<forall>n. bit x n = bit y n)" for x y :: "'a::len word"
  by (auto intro: bit_eqI)

lemma bit_mask9: "bit (0x1ff :: u64) n = (n < 9)"
proof -
  have "mask 9 = (0x1ff :: u64)" by (simp add: mask_eq_exp_minus_1)
  then have "bit (0x1ff :: u64) n = bit (mask 9 :: u64) n" by (simp only:)
  also have "\<dots> = (n < 9)" by (subst bit_mask_iff) auto
  finally show ?thesis .
qed

lemma table_index_less: "(ucast (x AND 0x1ff :: u64) :: u16) < 512"
proof -
  have "x AND 0x1ff \<le> 0x1ff" by (rule word_and_le1)
  then have "unat (x AND 0x1ff) \<le> 0x1ff" by (simp add: word_le_nat_alt)
  moreover have "unat (ucast (x AND 0x1ff) :: u16) = take_bit 16 (unat (x AND 0x1ff))"
    by (simp add: unsigned_ucast_eq)
  ultimately show ?thesis by (simp add: word_less_nat_alt take_bit_nat_eq_self)
qed

lemma table_index_eq:
  "(ucast (drop_bit k v AND 0x1ff :: u64) :: u16) = ucast (drop_bit k w AND 0x1ff) \<longleftrightarrow>
   (\<forall>n. k \<le> n \<and> n < k + 9 \<longrightarrow> bit v n = bit w n)" (is "?l \<longleftrightarrow> ?r")
  for v w :: u64
proof -
  have b: "bit (ucast (drop_bit k v AND 0x1ff) :: u16) n = (n < 9 \<and> bit v (k + n))" for n and v :: u64
    using bit_mask9 [of n] by (auto simp: bit_simps)
  have "?l \<longleftrightarrow> (\<forall>n<9. bit v (k + n) = bit w (k + n))"
    by (subst word_bits_eq) (auto simp: b)
  also have "\<dots> \<longleftrightarrow> ?r"
    by (metis add_diff_inverse_nat add_less_cancel_left le_add1 linorder_not_less)
  finally show ?thesis .
qed

lemma indices_valid: "valid_path (upper m (compute_table_indices v))"
  and index2_valid: "pml2_index (compute_table_indices v) < 512"
  and index1_valid: "pml1_index (compute_table_indices v) < 512"
  by (cases m) (simp_all add: compute_table_indices_def table_index_less)

lemma length_upper: "Suc (length (upper m ix)) = levels m"
  by (cases m) simp_all

lemma bits_between:
  "(\<forall>n. a \<le> n \<and> n < b \<longrightarrow> P n) \<and> (\<forall>n. b \<le> n \<and> n < c \<longrightarrow> P n) \<longleftrightarrow> (\<forall>n. a \<le> n \<and> n < c \<longrightarrow> P n)"
  if "a \<le> b" "b \<le> c" for a b c :: nat
  using that by (meson le_trans linorder_not_less order_less_le_trans)

lemma drop_take_eq:
  "drop_bit a (take_bit b v) = drop_bit a (take_bit b w) \<longleftrightarrow> (\<forall>n. a \<le> n \<and> n < b \<longrightarrow> bit v n = bit w n)"
  for v w :: u64
proof -
  have "drop_bit a (take_bit b v) = drop_bit a (take_bit b w) \<longleftrightarrow>
      (\<forall>n. a + n < b \<longrightarrow> bit v (a + n) = bit w (a + n))"
    by (subst word_bits_eq) (auto simp: bit_simps dest: bit_imp_le_length)
  also have "\<dots> \<longleftrightarrow> (\<forall>n. a \<le> n \<and> n < b \<longrightarrow> bit v n = bit w n)"
    by (metis le_add1 le_add_diff_inverse)
  finally show ?thesis .
qed

lemma huge_vpn_eq:
  "upper m (compute_table_indices v) = upper m (compute_table_indices w) \<and>
   pml2_index (compute_table_indices v) = pml2_index (compute_table_indices w) \<longleftrightarrow>
   huge_vpn m v = huge_vpn m w"
proof -
  have "huge_vpn m v = huge_vpn m w \<longleftrightarrow>
      (\<forall>n. 21 \<le> n \<and> n < 12 + 9 * Suc (levels m) \<longrightarrow> bit v n = bit w n)"
    by (simp add: huge_vpn_def vpn_def drop_take_eq)
  then show ?thesis
    using bits_between [of 21 30 39 "\<lambda>n. bit v n = bit w n"]
      bits_between [of 21 39 48 "\<lambda>n. bit v n = bit w n"]
      bits_between [of 21 48 57 "\<lambda>n. bit v n = bit w n"]
    by (cases m) (simp_all add: compute_table_indices_def table_index_eq, blast+)
qed

lemma vpn_eq:
  "upper m (compute_table_indices v) = upper m (compute_table_indices w) \<and>
   pml2_index (compute_table_indices v) = pml2_index (compute_table_indices w) \<and>
   pml1_index (compute_table_indices v) = pml1_index (compute_table_indices w) \<longleftrightarrow>
   vpn m v = vpn m w"
proof -
  have "vpn m v = vpn m w \<longleftrightarrow> 
      (\<forall>n. 12 \<le> n \<and> n < 12 + 9 * Suc (levels m) \<longrightarrow> bit v n = bit w n)"
    by (simp add: vpn_def drop_take_eq)
  also have "\<dots> \<longleftrightarrow> (\<forall>n. 12 \<le> n \<and> n < 21 \<longrightarrow> bit v n = bit w n) \<and>
      (\<forall>n. 21 \<le> n \<and> n < 12 + 9 * Suc (levels m) \<longrightarrow> bit v n = bit w n)"
    by (rule bits_between [symmetric]) simp_all
  also have "(\<forall>n. 21 \<le> n \<and> n < 12 + 9 * Suc (levels m) \<longrightarrow> bit v n = bit w n) \<longleftrightarrow>
      huge_vpn m v = huge_vpn m w"
    by (simp add: huge_vpn_def vpn_def drop_take_eq)
  also have "(\<forall>n. 12 \<le> n \<and> n < 21 \<longrightarrow> bit v n = bit w n) \<longleftrightarrow>
      pml1_index (compute_table_indices v) = pml1_index (compute_table_indices w)"
    by (simp add: compute_table_indices_def table_index_eq)
  finally show ?thesis using huge_vpn_eq [of m v w] by blast
qed

section \<open>A reference for mapping\<close>

text \<open>
  The two \<^verbatim>\<open>map_page\<close> functions spell out one scheme: descend through the upper tables, creating the
  missing ones, then write the entry. \<open>table_map\<close> is that scheme for any number of levels.
\<close>

primrec pml_descend ::
  "('l kstate \<Rightarrow> (u64 \<times> 'l kstate) outcome) \<Rightarrow> 'l kstate \<Rightarrow> u64 \<Rightarrow> u64 \<Rightarrow> u16 list \<Rightarrow>
   (u64 \<times> 'l kstate) outcome" where
  "pml_descend alloc s t bits [] = Ret (t, s)"
| "pml_descend alloc s t bits (i # is) =
     obind (pml_ensure alloc s t i bits) (\<lambda>s. pml_descend alloc s (pml_table s t i) bits is)"

definition table_map ::
  "('l kstate \<Rightarrow> (u64 \<times> 'l kstate) outcome) \<Rightarrow> 'l kstate \<Rightarrow> u64 \<Rightarrow> u16 list \<Rightarrow> u16 \<Rightarrow> u16 \<Rightarrow>
   u64 \<Rightarrow> u64 \<Rightarrow> bool \<Rightarrow> (u64 option \<times> 'l kstate) outcome" where
  "table_map alloc s root us i2 i1 bits e ps =
     obind (pml_descend alloc s root bits us) (\<lambda>(t2, s).
       if ps then Ret (None, pml_write s t2 i2 e)
       else obind (pml_ensure alloc s t2 i2 bits) (\<lambda>s.
         Ret (Some (slot (pml_table s t2 i2) i1), pml_write s (pml_table s t2 i2) i1 e)))"

lemma obind_Ret_iff: "obind x f = obind x g" if "\<And>a. x = Ret a \<Longrightarrow> f a = g a"
  using that by (cases x) simp_all

primrec table_bits :: "pt_ops \<Rightarrow> u64 \<Rightarrow> u64" where
  "table_bits Pml4Ops f = (f AND PML_FLAGS_MASK) OR X86_FLAGS_RW"
| "table_bits Pml5Ops f = f AND PML_FLAGS_MASK"

lemma map_page_table_map:
  "map_page F s pt v p f = (let ix = compute_table_indices v; m = ops pt in
     obind (of_opt (spinlock F (pt_lock pt))) (\<lambda>l.
     obind (table_map (\<lambda>s. pmm_alloc F s 1 1) s (pmlt pt) (upper m ix) (pml2_index ix) (pml1_index ix)
        (table_bits m f) (p OR f) (f AND X86_FLAGS_PS \<noteq> 0)) (\<lambda>(r, s).
     Ret (r, pt\<lparr>pt_lock := spinrelease F l\<rparr>, s))))"
  by (cases "ops pt")
    (auto simp: map_page_def pml4_map_page_def pml5_map_page_def table_map_def Let_def obind_assoc
      intro!: obind_Ret_iff)

text \<open>Flags a caller may pass: the low twelve bits and \<^verbatim>\<open>NX\<close>, with \<^verbatim>\<open>P\<close> set.\<close>

definition map_flags :: "u64 \<Rightarrow> bool" where
  "map_flags f \<longleftrightarrow> present f \<and> f AND NOT (0xfff OR X86_FLAGS_NX) = 0"

lemma bit_lit_63: "bit (0x8000000000000000 :: u64) n = (n = 63)"
proof -
  have "(2 ^ 63 :: u64) = 0x8000000000000000" by simp
  then have "bit (0x8000000000000000 :: u64) n = bit (2 ^ 63 :: u64) n" by (simp only:)
  also have "\<dots> = (n = 63)" by (subst bit_exp_iff) auto
  finally show ?thesis .
qed

lemma bit_lit_7: "bit (0x80 :: u64) n = (n = 7)"
proof -
  have "(2 ^ 7 :: u64) = 0x80" by simp
  then have "bit (0x80 :: u64) n = bit (2 ^ 7 :: u64) n" by (simp only:)
  also have "\<dots> = (n = 7)" by (subst bit_exp_iff) auto
  finally show ?thesis .
qed

lemma table_bits_present: "present (table_bits m f)" if "map_flags f"
proof -
  have "PML_FLAGS_MASK AND X86_FLAGS_P = X86_FLAGS_P" by (simp add: PML_FLAGS_MASK_def)
  then have "present (f AND PML_FLAGS_MASK) = present f" by (simp add: present_def and.assoc)
  then show ?thesis using that by (cases m) (simp_all add: map_flags_def present_or)
qed

lemma table_bits_small: "\<not> huge (table_bits m f)"
  using bit_lit_7 [of 7] by (cases m) (auto simp: huge_bit PML_FLAGS_MASK_def bit_simps)

lemma table_bits_low:
  assumes "map_flags f" shows "table_bits m f AND NOT 0xfff = 0"
proof -
  have "f AND NOT 0xfff AND NOT X86_FLAGS_NX = 0"
    using assms by (simp add: map_flags_def and.assoc)
  moreover have "PML_FLAGS_MASK AND NOT 0xfff = NOT 0xfff AND NOT X86_FLAGS_NX"
    by (simp add: PML_FLAGS_MASK_def)
  ultimately have "f AND PML_FLAGS_MASK AND NOT 0xfff = 0" by (simp add: and.assoc)
  moreover have "(X86_FLAGS_RW :: u64) AND NOT 0xfff = 0" by simp
  ultimately show ?thesis by (cases m) (simp_all add: bit.conj_disj_distrib2 and.assoc)
qed

context frame_allocator
begin

lemma descend:
  assumes "inv s" "room s (length is + n)" "tables_wf (owned s) d s root"
    "walk s root p = Some t" "valid_path (p @ is)" "Suc (length (p @ is)) \<le> d"
    and bits: "present bits" "\<not> huge bits" "bits AND NOT 0xfff = 0"
  shows "\<exists>t' s'. pml_descend alloc s t bits is = Ret (t', s') \<and> inv s' \<and> room s' n \<and>
    owned s \<subseteq> owned s' \<and> tables_wf (owned s') d s' root \<and> keeps d root s s' \<and>
    walk s' root (p @ is) = Some t' \<and> untouched (owned s') s s'"
  using assms(1-6)
proof (induction "is" arbitrary: s t p)
  case Nil
  then show ?case by (simp add: keeps_refl)
next
  case (Cons i "is")
  have v: "valid_path p" "i < 512" "length p < d" "length p + 2 \<le> d" using Cons.prems by auto
  have room: "room s (Suc (length is + n))" using Cons.prems by simp
  obtain s1 where s1: "pml_ensure alloc s t i bits = Ret s1" "inv s1" "room s1 (length is + n)"
    "owned s \<subseteq> owned s1" "tables_wf (owned s1) d s1 root" "keeps d root s s1"
    "walk s1 root (p @ [i]) = Some (pml_table s1 t i)" "untouched (owned s1) s s1"
    using ensure_step [OF Cons.prems(1) room Cons.prems(3,4) v(1-3)
        tables_wf_upper [OF Cons.prems(3,4) v(1,2,4)] bits] by blast
  then obtain t' s' where "pml_descend alloc s1 (pml_table s1 t i) bits is = Ret (t', s')"
    "inv s'" "room s' n" "owned s1 \<subseteq> owned s'" "tables_wf (owned s') d s' root"
    "keeps d root s1 s'" "walk s' root ((p @ [i]) @ is) = Some t'" "untouched (owned s') s1 s'"
    using Cons.IH [of s1 "p @ [i]" "pml_table s1 t i"] Cons.prems by auto
  moreover have "HIGH_VMA s1 = HIGH_VMA s" using s1(6) by (simp add: keeps_def)
  ultimately show ?case using s1 by (auto intro: keeps_trans untouched_trans)
qed

lemma table_map_small:
  assumes inv: "inv s" and room: "room s (Suc (length us) + n)" and wf: "tables_wf (owned s) d s root"
    and v: "valid_path (us @ [i2, i1])" "Suc (length us) = d"
    and nh: "\<And>e. leaf s root us i2 i1 = Some e \<Longrightarrow> \<not> huge e"
    and bits: "present bits" "\<not> huge bits" "bits AND NOT 0xfff = 0"
  shows "\<exists>r s'. table_map alloc s root us i2 i1 bits e False = Ret (Some r, s') \<and> inv s' \<and> room s' n \<and>
    owned s \<subseteq> owned s' \<and> HIGH_VMA s' = HIGH_VMA s \<and> tables_wf (owned s') d s' root \<and>
    memory s' r = e \<and> untouched (owned s') s s' \<and>
    (\<forall>vs j2 j1. valid_path (vs @ [j2, j1]) \<longrightarrow> length vs = length us \<longrightarrow> leaf s' root vs j2 j1 =
      (if vs = us \<and> j2 = i2 \<and> j1 = i1 then (if present e then Some e else None)
       else leaf s root vs j2 j1))"
proof -
  obtain t2 s1 where s1: "pml_descend alloc s root bits us = Ret (t2, s1)" "inv s1" "room s1 (Suc n)"
    "owned s \<subseteq> owned s1" "tables_wf (owned s1) d s1 root" "keeps d root s s1" "walk s1 root us = Some t2"
    "untouched (owned s1) s s1"
    using descend [OF inv _ wf, of us "Suc n" "[]" root, OF _ _ _ _ bits] room v by auto
  have nh1: "\<not> huge (pml_read s1 t2 i2)" if "present (pml_read s1 t2 i2)"
  proof -
    have "leaf s1 root us i2 i1 = leaf s root us i2 i1" using s1(6) v by (simp add: keeps_def)
    then show ?thesis using nh s1(7) that by (auto simp: leaf_def [of s1])
  qed
  obtain s2 where s2: "pml_ensure alloc s1 t2 i2 bits = Ret s2" "inv s2" "room s2 n"
    "owned s1 \<subseteq> owned s2" "tables_wf (owned s2) d s2 root" "keeps d root s1 s2"
    "walk s2 root (us @ [i2]) = Some (pml_table s2 t2 i2)" "untouched (owned s2) s1 s2"
    using ensure_step [OF s1(2,3,5,7) _ _ _ nh1 bits] v by auto
  let ?t1 = "pml_table s2 t2 i2"
  let ?s = "pml_write s2 ?t1 i1 e"
  note fr = frames_aligned_owned [OF s2(2)]
  have v2: "valid_path (us @ [i2])" "i1 < 512" using v by auto
  have k: "keeps d root s s2" by (rule keeps_trans [OF s1(6) s2(6)])
  have at: "4096 dvd unat ?t1" "?t1 - HIGH_VMA s2 \<in> owned s2"
    using table_aligned [OF fr] tables_wf_own [OF s2(5,7) v2(1)] v by simp_all
  have "HIGH_VMA s1 = HIGH_VMA s" "HIGH_VMA s2 = HIGH_VMA s" using s1(6) k by (simp_all add: keeps_def)
  then have "untouched (owned ?s) s ?s"
    using untouched_trans [OF s1(8) s2(8,4)] untouched_trans [of "owned s2" s s2 "owned s2" ?s]
      untouched_write [OF at v2(2)] by simp
  moreover have "tables_wf (owned ?s) d ?s root"
    using tables_wf_write [OF s2(5) fr s2(7) v2, of e] v by (simp add: no_table_def)
  moreover have "leaf ?s root vs j2 j1 =
      (if vs = us \<and> j2 = i2 \<and> j1 = i1 then (if present e then Some e else None) else leaf s root vs j2 j1)"
    if "valid_path (vs @ [j2, j1])" "length vs = length us" for vs j2 j1
    using leaf_write_last [OF s2(5) fr s2(7) v2 v(2), of vs j2 j1 e] that k v(2)
    by (auto simp: keeps_def)
  moreover have "table_map alloc s root us i2 i1 bits e False = Ret (Some (slot ?t1 i1), ?s)"
    using s1(1) s2(1) by (simp add: table_map_def)
  moreover have "memory ?s (slot ?t1 i1) = e" by (simp add: pml_write_def)
  ultimately show ?thesis using s2 s1 k by (auto simp: keeps_def)
qed

lemma table_map_huge:
  assumes inv: "inv s" and room: "room s (length us + n)" and wf: "tables_wf (owned s) d s root"
    and v: "valid_path (us @ [i2])" "Suc (length us) = d" and e: "huge e"
    and bits: "present bits" "\<not> huge bits" "bits AND NOT 0xfff = 0"
  shows "\<exists>s'. table_map alloc s root us i2 i1 bits e True = Ret (None, s') \<and> inv s' \<and> room s' n \<and>
    owned s \<subseteq> owned s' \<and> HIGH_VMA s' = HIGH_VMA s \<and> tables_wf (owned s') d s' root \<and>
    (\<forall>vs j2 j1. valid_path (vs @ [j2, j1]) \<longrightarrow> length vs = length us \<longrightarrow> leaf s' root vs j2 j1 =
      (if vs = us \<and> j2 = i2 then (if present e then Some e else None) else leaf s root vs j2 j1))"
proof -
  obtain t2 s1 where s1: "pml_descend alloc s root bits us = Ret (t2, s1)" "inv s1" "room s1 n"
    "owned s \<subseteq> owned s1" "tables_wf (owned s1) d s1 root" "keeps d root s s1" "walk s1 root us = Some t2"
    using descend [OF inv _ wf, of us n "[]" root, OF _ _ _ _ bits] room v by auto
  let ?s = "pml_write s1 t2 i2 e"
  note fr = frames_aligned_owned [OF s1(2)]
  have v2: "valid_path us" "i2 < 512" using v by auto
  have "tables_wf (owned ?s) d ?s root"
    using tables_wf_write [OF s1(5) fr s1(7) v2, of e] v e by (simp add: no_table_def)
  moreover have "leaf ?s root vs j2 j1 =
      (if vs = us \<and> j2 = i2 then (if present e then Some e else None) else leaf s root vs j2 j1)"
    if "valid_path (vs @ [j2, j1])" "length vs = length us" for vs j2 j1
    using leaf_write_huge [OF s1(5) fr s1(7) v2 v(2), of e vs j2 j1] that s1(6) v(2) e
    by (auto simp: keeps_def)
  moreover have "table_map alloc s root us i2 i1 bits e True = Ret (None, ?s)"
    using s1(1) by (simp add: table_map_def)
  ultimately show ?thesis using s1 by (auto simp: keeps_def)
qed

end

section \<open>The interface of a page table\<close>

text \<open>
  A page table over a frame allocator: an invariant, the translation of every virtual address, and
  \<^verbatim>\<open>map_page\<close>, which needs at most \<open>cost\<close> frames. \<open>page\<close> and \<open>hpage\<close> number small and huge pages.
\<close>

locale page_mapper = frame_allocator inv alloc owned room
  for inv :: "'l kstate \<Rightarrow> bool" and alloc owned room +
  fixes ok :: "'l kstate \<Rightarrow> 'l page_table \<Rightarrow> bool"
    and view :: "'l kstate \<Rightarrow> 'l page_table \<Rightarrow> u64 \<Rightarrow> u64 option"
    and mapp :: "'l kstate \<Rightarrow> 'l page_table \<Rightarrow> u64 \<Rightarrow> u64 \<Rightarrow> u64 \<Rightarrow>
      (u64 option \<times> 'l page_table \<times> 'l kstate) outcome"
    and page :: "u64 \<Rightarrow> u64" and hpage :: "u64 \<Rightarrow> u64" and cost :: nat
  assumes alloc_view: "inv s \<Longrightarrow> room s (Suc n) \<Longrightarrow> ok s pt \<Longrightarrow> alloc s = Ret (a, s') \<Longrightarrow>
      ok s' pt \<and> view s' pt = view s pt"
    and map_small: "inv s \<Longrightarrow> room s (cost + n) \<Longrightarrow> ok s pt \<Longrightarrow> map_flags f \<Longrightarrow> \<not> huge f \<Longrightarrow>
      (\<And>e. view s pt v = Some e \<Longrightarrow> \<not> huge e) \<Longrightarrow>
      \<exists>r pt' s'. mapp s pt v p f = Ret (Some r, pt', s') \<and> memory s' r = p OR f \<and>
        inv s' \<and> room s' n \<and> ok s' pt' \<and> owned s \<subseteq> owned s' \<and> HIGH_VMA s' = HIGH_VMA s \<and>
        pmlt pt' = pmlt pt \<and>
        (\<forall>w. view s' pt' w = (if page w = page v then Some (p OR f) else view s pt w)) \<and> untouched (owned s') s s'"
    and map_huge: "inv s \<Longrightarrow> room s (cost + n) \<Longrightarrow> ok s pt \<Longrightarrow> map_flags f \<Longrightarrow> huge f \<Longrightarrow>
      \<exists>pt' s'. mapp s pt v p f = Ret (None, pt', s') \<and>
        inv s' \<and> room s' n \<and> ok s' pt' \<and> owned s \<subseteq> owned s' \<and> HIGH_VMA s' = HIGH_VMA s \<and>
        pmlt pt' = pmlt pt \<and>
        (\<forall>w. view s' pt' w = (if hpage w = hpage v then Some (p OR f) else view s pt w))"

definition pt_ok :: "'l fayt \<Rightarrow> pt_ops \<Rightarrow> 'l kstate \<Rightarrow> 'l page_table \<Rightarrow> bool" where
  "pt_ok F m s pt \<longleftrightarrow> ops pt = m \<and> lock_free F (pt_lock pt) \<and>
     tables_wf (pmm_owned F s) (levels m) s (pmlt pt)"

abbreviation view :: "pt_ops \<Rightarrow> 'l kstate \<Rightarrow> 'l page_table \<Rightarrow> u64 \<Rightarrow> u64 option" where
  "view m s pt \<equiv> translate m s (pmlt pt)"

lemma keeps_translate: "keeps (levels m) root s s' \<Longrightarrow> translate m s' root v = translate m s root v"
  using indices_valid [of m v] index2_valid [of v] index1_valid [of v] length_upper
  by (simp add: keeps_def translate_def Let_def)

lemma translate_update:
  assumes "\<And>vs j2 j1. valid_path (vs @ [j2, j1]) \<Longrightarrow> length vs = length (upper m ix) \<Longrightarrow> leaf s' root vs j2 j1 =
      (if vs = upper m ix \<and> j2 = pml2_index ix \<and> j1 = pml1_index ix then x else leaf s root vs j2 j1)"
    and "ix = compute_table_indices v"
  shows "translate m s' root w = (if vpn m w = vpn m v then x else translate m s root w)"
proof -
  have "length (upper m (compute_table_indices w)) = length (upper m ix)"
    using length_upper [of m "compute_table_indices w"] length_upper [of m ix] by simp
  then show ?thesis
    using assms(1) [of "upper m (compute_table_indices w)"] vpn_eq [of m w v] assms(2)
      indices_valid [of m w] index2_valid [of w] index1_valid [of w]
    by (simp add: translate_def Let_def)
qed

lemma translate_update_huge:
  assumes "\<And>vs j2 j1. valid_path (vs @ [j2, j1]) \<Longrightarrow> length vs = length (upper m ix) \<Longrightarrow> leaf s' root vs j2 j1 =
      (if vs = upper m ix \<and> j2 = pml2_index ix then x else leaf s root vs j2 j1)"
    and "ix = compute_table_indices v"
  shows "translate m s' root w = (if huge_vpn m w = huge_vpn m v then x else translate m s root w)"
proof -
  have "length (upper m (compute_table_indices w)) = length (upper m ix)"
    using length_upper [of m "compute_table_indices w"] length_upper [of m ix] by simp
  then show ?thesis
    using assms(1) [of "upper m (compute_table_indices w)"] huge_vpn_eq [of m w v] assms(2)
      indices_valid [of m w] index2_valid [of w] index1_valid [of w]
    by (simp add: translate_def Let_def)
qed

lemma lock_free_locked: "lock_free F l \<Longrightarrow> \<exists>l'. spinlock F l = Some l' \<and> lock_free F (spinrelease F l')"
  if "fayt_laws F"
  using that by (metis lock_free_iff lock_free_release)

text \<open>
  \<^verbatim>\<open>map_page\<close> for any account of the frames the tables may lie in (\<open>owned\<close>) that \<^verbatim>\<open>pmm_alloc\<close> extends.
\<close>

context frame_allocator
begin

lemma map_page_owned:
  assumes al: "alloc = (\<lambda>s. pmm_alloc F s 1 1)" and laws: "fayt_laws F" and inv: "inv s"
    and room: "room s (levels m + n)"
    and o: "ops pt = m" "tables_wf (owned s) (levels m) s (pmlt pt)" "lock_free F (pt_lock pt)"
    and f: "map_flags f" "\<not> huge f" and nh: "\<And>e. view m s pt v = Some e \<Longrightarrow> \<not> huge e"
  shows "\<exists>r pt' s'. map_page F s pt v p f = Ret (Some r, pt', s') \<and> memory s' r = p OR f \<and>
    inv s' \<and> room s' n \<and> owned s \<subseteq> owned s' \<and> HIGH_VMA s' = HIGH_VMA s \<and> ops pt' = m \<and> pmlt pt' = pmlt pt \<and>
    lock_free F (pt_lock pt') \<and> tables_wf (owned s') (levels m) s' (pmlt pt) \<and> untouched (owned s') s s' \<and>
    (\<forall>w. view m s' pt' w = (if vpn m w = vpn m v then Some (p OR f) else view m s pt w))"
proof -
  let ?ix = "compute_table_indices v" and ?us = "upper m (compute_table_indices v)"
  obtain l where l: "spinlock F (pt_lock pt) = Some l" "lock_free F (spinrelease F l)"
    using lock_free_locked [OF laws o(3)] by blast
  have vp: "valid_path (?us @ [pml2_index ?ix, pml1_index ?ix])"
    using indices_valid index2_valid index1_valid by simp
  have room': "room s (Suc (length ?us) + n)" using room length_upper [of m ?ix] by simp
  have nh': "\<not> huge e" if "leaf s (pmlt pt) ?us (pml2_index ?ix) (pml1_index ?ix) = Some e" for e
    using nh [of e] that by (simp add: translate_def Let_def)
  obtain r s' where r: "table_map alloc s (pmlt pt) ?us (pml2_index ?ix)
      (pml1_index ?ix) (table_bits m f) (p OR f) False = Ret (Some r, s')"
    and post: "inv s'" "room s' n" "owned s \<subseteq> owned s'"
      "HIGH_VMA s' = HIGH_VMA s" "tables_wf (owned s') (levels m) s' (pmlt pt)" "memory s' r = p OR f" "untouched (owned s') s s'"
    and lf: "\<forall>vs j2 j1. valid_path (vs @ [j2, j1]) \<longrightarrow> length vs = length ?us \<longrightarrow>
      leaf s' (pmlt pt) vs j2 j1 = (if vs = ?us \<and> j2 = pml2_index ?ix \<and> j1 = pml1_index ?ix
        then (if present (p OR f) then Some (p OR f) else None) else leaf s (pmlt pt) vs j2 j1)"
    using table_map_small [OF inv room' o(2) vp length_upper nh'
        table_bits_present [OF f(1)] table_bits_small table_bits_low [OF f(1)], of m "p OR f"]
    by blast
  have "view m s' pt w = (if vpn m w = vpn m v then Some (p OR f) else view m s pt w)" for w
    using translate_update [of m ?ix s' "pmlt pt" _ s v w] lf f(1)
    by (auto simp: present_or map_flags_def)
  moreover have "map_page F s pt v p f = Ret (Some r, pt\<lparr>pt_lock := spinrelease F l\<rparr>, s')"
    using r l f(2) o(1) by (simp add: map_page_table_map Let_def huge_def al [symmetric])
  ultimately show ?thesis using post l(2) o(1) by auto
qed

lemma map_page_huge_owned:
  assumes al: "alloc = (\<lambda>s. pmm_alloc F s 1 1)" and laws: "fayt_laws F" and inv: "inv s"
    and room: "room s (levels m + n)"
    and o: "ops pt = m" "tables_wf (owned s) (levels m) s (pmlt pt)" "lock_free F (pt_lock pt)"
    and f: "map_flags f" "huge f"
  shows "\<exists>pt' s'. map_page F s pt v p f = Ret (None, pt', s') \<and>
    inv s' \<and> room s' n \<and> owned s \<subseteq> owned s' \<and> HIGH_VMA s' = HIGH_VMA s \<and> ops pt' = m \<and> pmlt pt' = pmlt pt \<and>
    lock_free F (pt_lock pt') \<and> tables_wf (owned s') (levels m) s' (pmlt pt) \<and>
    (\<forall>w. view m s' pt' w = (if huge_vpn m w = huge_vpn m v then Some (p OR f) else view m s pt w))"
proof -
  let ?ix = "compute_table_indices v" and ?us = "upper m (compute_table_indices v)"
  obtain l where l: "spinlock F (pt_lock pt) = Some l" "lock_free F (spinrelease F l)"
    using lock_free_locked [OF laws o(3)] by blast
  have vp: "valid_path (?us @ [pml2_index ?ix])" using indices_valid index2_valid by simp
  have room': "room s (length ?us + n)"
    by (rule room_mono [OF room]) (use length_upper [of m ?ix] in simp)
  have e: "huge (p OR f)" using f(2) by (simp add: huge_or)
  obtain s' where r: "table_map alloc s (pmlt pt) ?us (pml2_index ?ix)
      (pml1_index ?ix) (table_bits m f) (p OR f) True = Ret (None, s')"
    and post: "inv s'" "room s' n" "owned s \<subseteq> owned s'"
      "HIGH_VMA s' = HIGH_VMA s" "tables_wf (owned s') (levels m) s' (pmlt pt)"
    and lf: "\<forall>vs j2 j1. valid_path (vs @ [j2, j1]) \<longrightarrow> length vs = length ?us \<longrightarrow>
      leaf s' (pmlt pt) vs j2 j1 = (if vs = ?us \<and> j2 = pml2_index ?ix
        then (if present (p OR f) then Some (p OR f) else None) else leaf s (pmlt pt) vs j2 j1)"
    using table_map_huge [OF inv room' o(2) vp length_upper e
        table_bits_present [OF f(1)] table_bits_small table_bits_low [OF f(1)]]
    by blast
  have "view m s' pt w = (if huge_vpn m w = huge_vpn m v then Some (p OR f) else view m s pt w)" for w
    using translate_update_huge [of m ?ix s' "pmlt pt" _ s v w] lf f(1)
    by (auto simp: present_or map_flags_def)
  moreover have "map_page F s pt v p f = Ret (None, pt\<lparr>pt_lock := spinrelease F l\<rparr>, s')"
    using r l f(2) o(1) by (simp add: map_page_table_map Let_def huge_def al [symmetric])
  ultimately show ?thesis using post l(2) o(1) by auto
qed

end

lemma map_page_small:
  assumes laws: "fayt_laws F" and inv: "pmm_inv F s" and room: "pmm_room F (modules s) (levels m + n)"
    and ok: "pt_ok F m s pt" and f: "map_flags f" "\<not> huge f"
    and nh: "\<And>e. view m s pt v = Some e \<Longrightarrow> \<not> huge e"
  shows "\<exists>r pt' s'. map_page F s pt v p f = Ret (Some r, pt', s') \<and> memory s' r = p OR f \<and>
    (fayt_laws F \<and> pmm_inv F s') \<and> pmm_room F (modules s') n \<and> pt_ok F m s' pt' \<and>
    pmm_owned F s \<subseteq> pmm_owned F s' \<and> HIGH_VMA s' = HIGH_VMA s \<and> pmlt pt' = pmlt pt \<and>
    (\<forall>w. view m s' pt' w = (if vpn m w = vpn m v then Some (p OR f) else view m s pt w)) \<and> untouched (pmm_owned F s') s s'"
proof -
  have o: "ops pt = m" "tables_wf (pmm_owned F s) (levels m) s (pmlt pt)" "lock_free F (pt_lock pt)"
    using ok by (simp_all add: pt_ok_def)
  show ?thesis
    using pmm.map_page_owned [OF refl laws conjI [OF laws inv] room o f, of v p] nh
    by (elim meta_impE exE conjE) (auto simp: pt_ok_def)
qed

lemma map_page_huge:
  assumes laws: "fayt_laws F" and inv: "pmm_inv F s" and room: "pmm_room F (modules s) (levels m + n)"
    and ok: "pt_ok F m s pt" and f: "map_flags f" "huge f"
  shows "\<exists>pt' s'. map_page F s pt v p f = Ret (None, pt', s') \<and>
    (fayt_laws F \<and> pmm_inv F s') \<and> pmm_room F (modules s') n \<and> pt_ok F m s' pt' \<and>
    pmm_owned F s \<subseteq> pmm_owned F s' \<and> HIGH_VMA s' = HIGH_VMA s \<and> pmlt pt' = pmlt pt \<and>
    (\<forall>w. view m s' pt' w = (if huge_vpn m w = huge_vpn m v then Some (p OR f) else view m s pt w))"
proof -
  have o: "ops pt = m" "tables_wf (pmm_owned F s) (levels m) s (pmlt pt)" "lock_free F (pt_lock pt)"
    using ok by (simp_all add: pt_ok_def)
  show ?thesis
    using pmm.map_page_huge_owned [OF refl laws conjI [OF laws inv] room o f, of v p] by (auto simp: pt_ok_def)
qed

interpretation vm: page_mapper
  "\<lambda>s. fayt_laws F \<and> pmm_inv F s" "\<lambda>s. pmm_alloc F s 1 1" "pmm_owned F" "\<lambda>s. pmm_room F (modules s)"
  "pt_ok F m" "view m" "map_page F" "vpn m" "huge_vpn m" "levels m"
  for F :: "'l fayt" and m :: pt_ops
proof (unfold_locales, goal_cases)
  case (1 s n pt a s')
  note al = pmm.alloc_agree [OF 1(1,2,4)]
  have "tables_wf (pmm_owned F s) (levels m) s (pmlt pt)" using 1(3) by (simp add: pt_ok_def)
  then show ?case
    using 1(3) al tables_wf_agree [OF _ al(1), of "levels m" "pmlt pt" "pmm_owned F s'"]
      keeps_translate [OF keeps_agree [OF _ al(1)]]
    by (auto simp: pt_ok_def)
next
  case (2 s n pt f v p)
  then show ?case by (intro map_page_small) auto
next
  case (3 s n pt f v p)
  then show ?case by (intro map_page_huge) auto
qed

section \<open>Reading and removing an entry\<close>

text \<open>Above the last two levels a presence test is all the walk needs.\<close>

lemma walk_upper:
  assumes "tables_wf own d s root" "walk s root p = Some t" "valid_path p" "i < 512" "length p + 2 \<le> d"
  shows "walk s root (p @ [i]) =
    (if pml_read s t i AND X86_FLAGS_P = 0 then None else Some (pml_table s t i))"
  using tables_wf_upper [OF assms] assms(2) by (auto simp: walk_snoc present_def)

lemma walk_pml4:
  assumes "tables_wf own 3 s root" "valid_path [i4, i3]"
  shows "walk s root [i4, i3] =
    (if pml_read s root i4 AND X86_FLAGS_P = 0 then None
     else let pml3 = pml_table s root i4 in
       if pml_read s pml3 i3 AND X86_FLAGS_P = 0 then None else Some (pml_table s pml3 i3))"
  using walk_upper [OF assms(1), of "[]" root i4] walk_upper [OF assms(1), of "[i4]" _ i3] assms(2)
  by (auto simp: Let_def split: if_splits)

lemma walk_pml5:
  assumes "tables_wf own 4 s root" "valid_path [i5, i4, i3]"
  shows "walk s root [i5, i4, i3] =
    (if pml_read s root i5 AND X86_FLAGS_P = 0 then None
     else let pml4 = pml_table s root i5 in
       if pml_read s pml4 i4 AND X86_FLAGS_P = 0 then None
       else let pml3 = pml_table s pml4 i4 in
       if pml_read s pml3 i3 AND X86_FLAGS_P = 0 then None else Some (pml_table s pml3 i3))"
  using walk_upper [OF assms(1), of "[]" root i5] walk_upper [OF assms(1), of "[i5]" _ i4]
    walk_upper [OF assms(1), of "[i5, i4]" _ i3] assms(2)
  by (auto simp: Let_def split: if_splits)

text \<open>The rest of \<^verbatim>\<open>page_entry\<close> below the third level.\<close>

definition entry_below :: "'l kstate \<Rightarrow> u64 option \<Rightarrow> u16 \<Rightarrow> u16 \<Rightarrow> u64 option" where
  "entry_below s t i2 i1 = (case t of None \<Rightarrow> None | Some pml2 \<Rightarrow>
     let e2 = pml_read s pml2 i2 in
     if e2 AND X86_FLAGS_PS \<noteq> 0 then Some (slot pml2 i2)
     else if e2 AND X86_FLAGS_P = 0 then None
     else Some (slot (pml_table s pml2 i2) i1))"

lemma entry_below_leaf:
  "leaf s root us i2 i1 = (case entry_below s (walk s root us) i2 i1 of None \<Rightarrow> None
     | Some a \<Rightarrow> if present (memory s a) then Some (memory s a) else None)"
  by (auto simp: leaf_def entry_below_def present_def huge_def pml_read_def pml_table_def Let_def
      split: option.splits)

lemma page_entry_walk:
  assumes "ops pt = m" "tables_wf own (levels m) s (pmlt pt)" "spinlock F (pt_lock pt) = Some l"
  shows "page_entry F s pt v = (let ix = compute_table_indices v in
    Ret (entry_below s (walk s (pmlt pt) (upper m ix)) (pml2_index ix) (pml1_index ix),
      pt\<lparr>pt_lock := spinrelease F l\<rparr>))"
proof (cases m)
  case Pml4Ops
  let ?ix = "compute_table_indices v"
  have "valid_path [pml4_index ?ix, pml3_index ?ix]" using indices_valid [of Pml4Ops v] by simp
  then show ?thesis
    using assms Pml4Ops walk_pml4 [of own s "pmlt pt" "pml4_index ?ix" "pml3_index ?ix"]
    by (simp add: page_entry_def pml4_page_entry_def entry_below_def Let_def)
next
  case Pml5Ops
  let ?ix = "compute_table_indices v"
  have "valid_path [pml5_index ?ix, pml4_index ?ix, pml3_index ?ix]"
    using indices_valid [of Pml5Ops v] by simp
  then show ?thesis
    using assms Pml5Ops walk_pml5 [of own s "pmlt pt" "pml5_index ?ix" "pml4_index ?ix" "pml3_index ?ix"]
    by (simp add: page_entry_def pml5_page_entry_def entry_below_def Let_def)
qed

lemma page_entry_correct:
  assumes "fayt_laws F" "pt_ok F m s pt"
  shows "\<exists>r pt'. page_entry F s pt v = Ret (r, pt') \<and> pt_ok F m s pt' \<and> pmlt pt' = pmlt pt \<and>
    view m s pt v = (case r of None \<Rightarrow> None
      | Some a \<Rightarrow> if present (memory s a) then Some (memory s a) else None)"
proof -
  have o: "ops pt = m" "tables_wf (pmm_owned F s) (levels m) s (pmlt pt)" "lock_free F (pt_lock pt)"
    using assms(2) by (simp_all add: pt_ok_def)
  obtain l where l: "spinlock F (pt_lock pt) = Some l" "lock_free F (spinrelease F l)"
    using lock_free_locked [OF assms(1) o(3)] by blast
  show ?thesis
    using page_entry_walk [OF o(1,2) l(1), of v] l(2) o(1,2)
    by (simp add: pt_ok_def Let_def translate_def entry_below_leaf)
qed

lemma not_present_cleared: "\<not> present (e AND NOT X86_FLAGS_P)"
  by (simp add: present_def and.assoc)

lemma huge_low: "(e AND 0xfff) AND X86_FLAGS_PS \<noteq> 0 \<longleftrightarrow> huge e"
  by (simp add: huge_def and.assoc)

text \<open>
  The 4-level unmap. Its result says what was removed: nothing, the page, or the huge page around it.
\<close>

definition unmapped :: "pt_ops \<Rightarrow> 'l kstate \<Rightarrow> 'l kstate \<Rightarrow> u64 \<Rightarrow> u64 \<Rightarrow> u64 \<Rightarrow> bool" where
  "unmapped m s s' root v n \<longleftrightarrow>
     (n = 0 \<and> s' = s \<and> translate m s root v = None) \<or>
     (n = 0x1000 \<and>
        (\<forall>w. translate m s' root w = (if vpn m w = vpn m v then None else translate m s root w))) \<or>
     (n = 0x200000 \<and> (\<forall>e. translate m s root v = Some e \<longrightarrow> huge e) \<and>
        (\<forall>w. translate m s' root w = (if huge_vpn m w = huge_vpn m v then None else translate m s root w)))"

lemma unmap_huge_entry:
  assumes wf: "tables_wf own (levels m) s root" and al: "frames_aligned own s"
    and ix: "ix = compute_table_indices v" and t2: "walk s root (upper m ix) = Some t2"
  shows "translate m (pml_write s t2 (pml2_index ix) (e AND NOT X86_FLAGS_P)) root w =
      (if huge_vpn m w = huge_vpn m v then None else translate m s root w)"
    and "tables_wf own (levels m) (pml_write s t2 (pml2_index ix) (e AND NOT X86_FLAGS_P)) root"
proof -
  have v: "valid_path (upper m ix)" "pml2_index ix < 512" using ix indices_valid index2_valid by simp_all
  have ne: "present (e AND NOT X86_FLAGS_P) \<longrightarrow> huge (e AND NOT X86_FLAGS_P)"
    using not_present_cleared [of e] by blast
  show "translate m (pml_write s t2 (pml2_index ix) (e AND NOT X86_FLAGS_P)) root w =
      (if huge_vpn m w = huge_vpn m v then None else translate m s root w)"
    by (rule translate_update_huge [OF _ ix])
      (use leaf_write_huge [OF wf al t2 v length_upper ne] not_present_cleared [of e] in auto)
  show "tables_wf own (levels m) (pml_write s t2 (pml2_index ix) (e AND NOT X86_FLAGS_P)) root"
    by (rule tables_wf_write [OF wf al t2 v]) (use ne length_upper in \<open>simp add: no_table_def\<close>)
qed

lemma unmap_small_entry:
  assumes wf: "tables_wf own (levels m) s root" and al: "frames_aligned own s"
    and ix: "ix = compute_table_indices v" and t1: "walk s root (upper m ix @ [pml2_index ix]) = Some t1"
  shows "translate m (pml_write s t1 (pml1_index ix) (e AND NOT X86_FLAGS_P)) root w =
      (if vpn m w = vpn m v then None else translate m s root w)"
    and "tables_wf own (levels m) (pml_write s t1 (pml1_index ix) (e AND NOT X86_FLAGS_P)) root"
proof -
  have v: "valid_path (upper m ix @ [pml2_index ix])" "pml1_index ix < 512"
    using ix indices_valid index2_valid index1_valid by simp_all
  show "translate m (pml_write s t1 (pml1_index ix) (e AND NOT X86_FLAGS_P)) root w =
      (if vpn m w = vpn m v then None else translate m s root w)"
    by (rule translate_update [OF _ ix])
      (use leaf_write_last [OF wf al t1 v length_upper] not_present_cleared [of e] in auto)
  show "tables_wf own (levels m) (pml_write s t1 (pml1_index ix) (e AND NOT X86_FLAGS_P)) root"
    by (rule tables_wf_write [OF wf al t1 v]) (use length_upper [of m ix] in \<open>simp add: no_table_def\<close>)
qed

text \<open>What remains of \<^verbatim>\<open>unmap_page\<close> below the third level.\<close>

definition clear_below :: "'l kstate \<Rightarrow> u64 option \<Rightarrow> u16 \<Rightarrow> u16 \<Rightarrow> u64 \<times> 'l kstate" where
  "clear_below s t i2 i1 = (case t of None \<Rightarrow> (0, s) | Some pml2 \<Rightarrow>
     let e2 = pml_read s pml2 i2 in
     if huge e2 then (0x200000, pml_write s pml2 i2 (e2 AND NOT X86_FLAGS_P))
     else if \<not> present e2 then (0, s)
     else let pml1 = pml_table s pml2 i2 in
       (0x1000, pml_write s pml1 i1 (pml_read s pml1 i1 AND NOT X86_FLAGS_P)))"

lemma pml4_unmap_walk:
  assumes "tables_wf own 3 s (pmlt pt)" "spinlock F (pt_lock pt) = Some l"
  shows "pml4_unmap_page F s pt v = (let ix = compute_table_indices v;
      (n, s') = clear_below s (walk s (pmlt pt) (upper Pml4Ops ix)) (pml2_index ix) (pml1_index ix)
    in Ret (n, pt\<lparr>pt_lock := spinrelease F l\<rparr>, s'))"
proof -
  let ?ix = "compute_table_indices v"
  have "valid_path [pml4_index ?ix, pml3_index ?ix]" using indices_valid [of Pml4Ops v] by simp
  then show ?thesis
    using assms walk_pml4 [of own s "pmlt pt" "pml4_index ?ix" "pml3_index ?ix"]
    by (simp add: pml4_unmap_page_def clear_below_def Let_def huge_low present_def)
qed

lemma clear_below_unmapped:
  assumes wf: "tables_wf own (levels m) s root" and al: "frames_aligned own s"
    and ix: "ix = compute_table_indices v"
    and run: "clear_below s (walk s root (upper m ix)) (pml2_index ix) (pml1_index ix) = (n, s')"
  shows "unmapped m s s' root v n" and "tables_wf own (levels m) s' root"
    and "\<exists>c. s' = s\<lparr>memory := c\<rparr>"
proof -
  have "unmapped m s s' root v n \<and> tables_wf own (levels m) s' root"
  proof (cases "walk s root (upper m ix)")
    case None
    then show ?thesis
      using run wf ix by (auto simp: clear_below_def unmapped_def translate_def leaf_def)
  next
    case (Some t2)
    let ?e2 = "pml_read s t2 (pml2_index ix)"
    consider "huge ?e2" | "\<not> huge ?e2" "\<not> present ?e2" | "\<not> huge ?e2" "present ?e2" by blast
    then show ?thesis
    proof cases
      case 1
      then have "huge e" if "translate m s root v = Some e" for e
        using that Some ix by (auto simp: translate_def leaf_def Let_def split: if_splits)
      then show ?thesis using 1 run Some unmap_huge_entry [OF wf al ix Some]
        by (auto simp: clear_below_def unmapped_def Let_def)
    next
      case 2
      then show ?thesis using run Some wf ix
        by (auto simp: clear_below_def unmapped_def translate_def leaf_def Let_def)
    next
      case 3
      then have "walk s root (upper m ix @ [pml2_index ix]) = Some (pml_table s t2 (pml2_index ix))"
        using Some by (simp add: walk_snoc)
      from unmap_small_entry [OF wf al ix this] show ?thesis
        using 3 run Some by (auto simp: clear_below_def unmapped_def Let_def)
    qed
  qed
  then show "unmapped m s s' root v n" "tables_wf own (levels m) s' root" by simp_all
  show "\<exists>c. s' = s\<lparr>memory := c\<rparr>"
    using run by (auto simp: clear_below_def pml_write_def Let_def split: option.splits if_splits)
      (metis kstate.surjective kstate.update_convs(3))+
qed

lemma pml4_unmap_correct:
  assumes laws: "fayt_laws F" and inv: "pmm_inv F s" and ok: "pt_ok F Pml4Ops s pt"
  shows "\<exists>n pt' s'. unmap_page F s pt v = Ret (n, pt', s') \<and> (\<exists>c. s' = s\<lparr>memory := c\<rparr>) \<and>
    pt_ok F Pml4Ops s' pt' \<and> pmlt pt' = pmlt pt \<and> unmapped Pml4Ops s s' (pmlt pt) v n"
proof -
  let ?ix = "compute_table_indices v"
  have o: "ops pt = Pml4Ops" "tables_wf (pmm_owned F s) (levels Pml4Ops) s (pmlt pt)"
    "lock_free F (pt_lock pt)"
    using ok by (simp_all add: pt_ok_def)
  obtain l where l: "spinlock F (pt_lock pt) = Some l" "lock_free F (spinrelease F l)"
    using lock_free_locked [OF laws o(3)] by blast
  obtain n s' where run: "clear_below s (walk s (pmlt pt) (upper Pml4Ops ?ix)) (pml2_index ?ix)
      (pml1_index ?ix) = (n, s')" by fastforce
  note fr = pmm.frames_aligned_owned [OF conjI [OF laws inv]]
  note c = clear_below_unmapped [OF o(2) fr refl run]
  moreover have "unmap_page F s pt v = Ret (n, pt\<lparr>pt_lock := spinrelease F l\<rparr>, s')"
    using o pml4_unmap_walk [of _ s pt F l v] l(1) run by (simp add: unmap_page_def Let_def)
  moreover have "pmm_owned F s' = pmm_owned F s" using c(3) by auto
  ultimately show ?thesis using l(2) o(1) by (auto simp: pt_ok_def)
qed

text \<open>The 5-level unmap looks in the wrong root entry.\<close>

lemma pml5_unmap_wrong_root:
  assumes laws: "fayt_laws F" and ok: "pt_ok F Pml5Ops s pt"
    and absent: "\<not> present (pml_read s (pmlt pt) (pml4_index (compute_table_indices v)))"
  shows "\<exists>pt'. unmap_page F s pt v = Ret (0, pt', s)"
proof -
  have o: "ops pt = Pml5Ops" "lock_free F (pt_lock pt)" using ok by (simp_all add: pt_ok_def)
  obtain l where "spinlock F (pt_lock pt) = Some l" using lock_free_locked [OF laws o(2)] by blast
  then show ?thesis
    using o absent by (simp add: unmap_page_def pml5_unmap_page_def Let_def present_def)
qed

section \<open>A concrete page table\<close>

text \<open>A zeroed frame is an empty page table.\<close>

lemma empty_root:
  assumes "root - HIGH_VMA s \<in> own" "\<And>j. j < 512 \<Longrightarrow> pml_read s root j = 0"
  shows "tables_wf own (levels m) s root" and "translate m s root v = None"
proof -
  have w: "walk s root p = (if p = [] then Some root else None)" if "valid_path p" for p
    using that assms(2) by (cases p) (simp_all add: present_def)
  then show "tables_wf own (levels m) s root"
    using assms by (auto simp: tables_wf_def present_def split: if_splits)
  have "upper m (compute_table_indices v) \<noteq> []" by (cases m) simp_all
  then show "translate m s root v = None"
    using w [OF indices_valid] by (simp add: translate_def leaf_def Let_def)
qed

definition demo_pt :: "pt_ops \<Rightarrow> bool page_table" where
  "demo_pt m = \<lparr>pmlt = 0xffff800000100000, pt_lock = False, ops = m\<rparr>"

lemma demo_pt_empty:
  assumes "0 < n" "n \<le> 2 ^ 39"
  shows "pt_ok fayt_ref m (demo n) (demo_pt m)" and "view m (demo n) (demo_pt m) v = None"
proof -
  have r: "pmlt (demo_pt m) - HIGH_VMA (demo n) \<in> pmm_owned fayt_ref (demo n)"
    using demo_owned [OF assms] by (simp add: demo_pt_def)
  have z: "pml_read (demo n) (pmlt (demo_pt m)) j = 0" for j by (simp add: pml_read_def demo_def)
  note e = empty_root [OF r z]
  show "pt_ok fayt_ref m (demo n) (demo_pt m)"
    using e(1) by (simp add: pt_ok_def) (simp add: demo_pt_def lock_free_def fayt_ref_def)
  show "view m (demo n) (demo_pt m) v = None" by (rule e(2))
qed

lemma demo_flags: "map_flags 7" "\<not> huge 7" "map_flags 0x87" "huge 0x87"
  by (simp_all add: map_flags_def present_def huge_def)

section \<open>Properties\<close>

text \<open>C2. Mapping a 4 KiB page, with 4 or 5 levels: given frames for the missing tables, \<^verbatim>\<open>map_page\<close>
  returns the address of the entry it wrote, the page's translation becomes that entry, every other
  page keeps its translation, and the tables stay well formed (each in a frame of its own that the
  allocator has handed out).\<close>

theorem map_page_refines:
  assumes "fayt_laws F" "pmm_inv F s" "pmm_room F (modules s) (levels m + n)" "pt_ok F m s pt"
    and "map_flags f" "\<not> huge f" "\<And>e. view m s pt v = Some e \<Longrightarrow> \<not> huge e"
  shows "\<exists>r pt' s'. map_page F s pt v p f = Ret (Some r, pt', s') \<and> memory s' r = p OR f \<and>
    pmm_inv F s' \<and> pmm_room F (modules s') n \<and> pt_ok F m s' pt' \<and> pmm_owned F s \<subseteq> pmm_owned F s' \<and>
    (\<forall>w. view m s' pt' w = (if vpn m w = vpn m v then Some (p OR f) else view m s pt w))"
  using map_page_small [OF assms(1-6), of v p] assms(7) by blast

theorem map_page_refines_witness:
  "\<exists>r pt' s'. map_page fayt_ref (demo 64) (demo_pt Pml5Ops) 0x400123 0x7000 7 = Ret (Some r, pt', s') \<and>
    view Pml5Ops s' pt' 0x400fff = Some 0x7007 \<and> view Pml5Ops s' pt' 0x401000 = None"
proof -
  have i: "pmm_inv fayt_ref (demo 64)" and o: "pt_ok fayt_ref Pml5Ops (demo 64) (demo_pt Pml5Ops)"
    and e: "view Pml5Ops (demo 64) (demo_pt Pml5Ops) w = None" for w
    by (rule demo_inv demo_pt_empty; simp)+
  have r: "pmm_room fayt_ref (modules (demo 64)) (levels Pml5Ops + 0)" by (rule demo_room) simp_all
  have "vpn Pml5Ops 0x400fff = vpn Pml5Ops 0x400123" "vpn Pml5Ops 0x401000 \<noteq> vpn Pml5Ops 0x400123"
    by (simp_all add: vpn_def)
  then show ?thesis
    using map_page_refines [OF fayt_laws_ref i r o demo_flags(1,2), of "0x400123" "0x7000"] e by auto
qed

text \<open>C27. Mapping a 2 MiB page gives all addresses of the huge page the one entry and leaves every other
  translation alone.\<close>

theorem map_page_huge_refines:
  assumes "fayt_laws F" "pmm_inv F s" "pmm_room F (modules s) (levels m + n)" "pt_ok F m s pt"
    and "map_flags f" "huge f"
  shows "\<exists>pt' s'. map_page F s pt v p f = Ret (None, pt', s') \<and>
    pmm_inv F s' \<and> pmm_room F (modules s') n \<and> pt_ok F m s' pt' \<and> pmm_owned F s \<subseteq> pmm_owned F s' \<and>
    (\<forall>w. view m s' pt' w = (if huge_vpn m w = huge_vpn m v then Some (p OR f) else view m s pt w))"
  using map_page_huge [OF assms, of v p] by blast

theorem map_page_huge_refines_witness:
  "\<exists>pt' s'. map_page fayt_ref (demo 64) (demo_pt Pml4Ops) 0x400000 0x200000 0x87 = Ret (None, pt', s') \<and>
    view Pml4Ops s' pt' 0x5fffff = Some 0x200087 \<and> view Pml4Ops s' pt' 0x600000 = None"
proof -
  have i: "pmm_inv fayt_ref (demo 64)" and o: "pt_ok fayt_ref Pml4Ops (demo 64) (demo_pt Pml4Ops)"
    and e: "view Pml4Ops (demo 64) (demo_pt Pml4Ops) w = None" for w
    by (rule demo_inv demo_pt_empty; simp)+
  have r: "pmm_room fayt_ref (modules (demo 64)) (levels Pml4Ops + 0)" by (rule demo_room) simp_all
  have "huge_vpn Pml4Ops 0x5fffff = huge_vpn Pml4Ops 0x400000"
    "huge_vpn Pml4Ops 0x600000 \<noteq> huge_vpn Pml4Ops 0x400000"
    by (simp_all add: vpn_def huge_vpn_def)
  then show ?thesis
    using map_page_huge_refines [OF fayt_laws_ref i r o demo_flags(3,4), of "0x400000" "0x200000"] e by auto
qed

text \<open>C24. \<^verbatim>\<open>page_entry\<close> finds the entry the hardware would use: it returns, leaves the lock free, and the
  cell it points to, when present, is the translation; a null result or an absent entry means the page
  is not mapped.\<close>

theorem page_entry_refines:
  assumes "fayt_laws F" "pt_ok F m s pt"
  shows "\<exists>r pt'. page_entry F s pt v = Ret (r, pt') \<and> pt_ok F m s pt' \<and>
    view m s pt v = (case r of None \<Rightarrow> None
      | Some a \<Rightarrow> if present (memory s a) then Some (memory s a) else None)"
  using page_entry_correct [OF assms] by blast

theorem page_entry_refines_witness:
  "\<exists>r pt'. page_entry fayt_ref (demo 8) (demo_pt Pml4Ops) 0x1000 = Ret (r, pt') \<and>
     pt_ok fayt_ref Pml4Ops (demo 8) pt'"
  using page_entry_refines [OF fayt_laws_ref demo_pt_empty(1) [of 8 Pml4Ops], of "0x1000"] by auto

text \<open>C6. The 4-level \<^verbatim>\<open>unmap_page\<close>: the returned size says what was removed. 0 means the page had no
  translation and nothing changed; 4 KiB means exactly that page lost its translation; 2 MiB exactly
  the huge page. The tables stay well formed and the allocator is untouched.\<close>

theorem pml4_unmap_refines:
  assumes "fayt_laws F" "pmm_inv F s" "pt_ok F Pml4Ops s pt"
  shows "\<exists>n pt' s'. unmap_page F s pt v = Ret (n, pt', s') \<and> modules s' = modules s \<and>
    pt_ok F Pml4Ops s' pt' \<and>
    (n = 0 \<and> s' = s \<and> view Pml4Ops s pt v = None \<or>
     n = 0x1000 \<and> (\<forall>w. view Pml4Ops s' pt' w =
        (if vpn Pml4Ops w = vpn Pml4Ops v then None else view Pml4Ops s pt w)) \<or>
     n = 0x200000 \<and> (\<forall>e. view Pml4Ops s pt v = Some e \<longrightarrow> huge e) \<and>
       (\<forall>w. view Pml4Ops s' pt' w =
         (if huge_vpn Pml4Ops w = huge_vpn Pml4Ops v then None else view Pml4Ops s pt w)))"
proof -
  obtain n pt' s' c where u: "unmap_page F s pt v = Ret (n, pt', s')" "s' = s\<lparr>memory := c\<rparr>"
    "pt_ok F Pml4Ops s' pt'" "pmlt pt' = pmlt pt" "unmapped Pml4Ops s s' (pmlt pt) v n"
    using pml4_unmap_correct [OF assms] by blast
  have "modules s' = modules s" using u(2) by simp
  then show ?thesis using u(1,3) u(5) unfolding unmapped_def u(4) [symmetric] by blast
qed

theorem pml4_unmap_refines_witness:
  "\<exists>n pt' s'. unmap_page fayt_ref (demo 8) (demo_pt Pml4Ops) 0x1000 = Ret (n, pt', s') \<and>
     modules s' = modules (demo 8)"
  using pml4_unmap_refines [OF fayt_laws_ref demo_inv demo_pt_empty(1), of 8 "0x1000"] by auto

text \<open>The 5-level \<^verbatim>\<open>unmap_page\<close> indexes the root with the level-4 index: for an address whose
  level-4 index selects an absent root entry it reports 0 and changes nothing, mapped or not.\<close>

theorem pml5_unmap_ignores_mapping:
  assumes "fayt_laws F" "pt_ok F Pml5Ops s pt"
    and "\<not> present (pml_read s (pmlt pt) (pml4_index (compute_table_indices v)))"
  shows "\<exists>pt'. unmap_page F s pt v = Ret (0, pt', s)"
  using pml5_unmap_wrong_root [OF assms] .

theorem pml5_unmap_ignores_mapping_witness:
  "\<exists>pt'. unmap_page fayt_ref (demo 8) (demo_pt Pml5Ops) 0x8000001000 = Ret (0, pt', demo 8)"
proof -
  have "\<not> present (pml_read (demo 8) (pmlt (demo_pt Pml5Ops)) (pml4_index (compute_table_indices 0x8000001000)))"
    by (simp add: pml_read_def demo_def present_def)
  from pml5_unmap_ignores_mapping [OF fayt_laws_ref demo_pt_empty(1) this] show ?thesis by simp
qed

end
