(* ===== verification/Context.thy ===== *)
theory Context
  imports Paging
begin

unbundle bit_operations_syntax

text \<open>
  The objects the core subsystems share (\<^verbatim>\<open>kernel/core/scheduler.h\<close>, \<^verbatim>\<open>notification.h\<close>,
  \<^verbatim>\<open>arch/x86/cpu.h\<close>, \<^verbatim>\<open>arch/x86/smp.h\<close>) and the kernel state that holds them. An object with a C
  address lives in a store from addresses to objects, so that aliasing is kept; 0 is the null pointer
  and no store has an object there. The slab allocator \<^verbatim>\<open>alloc\<close>, the \<^verbatim>\<open>VECTOR\<close> macros and the
  \<^verbatim>\<open>NOTIFY_WEIGHT\<close> constants come from \<open>fayt\<close> and are fields of the parameter \<open>slab\<close>.
\<close>

section \<open>Data\<close>

record registers =
  r15 :: u64
  r14 :: u64
  r13 :: u64
  r12 :: u64
  r11 :: u64
  r10 :: u64
  r9 :: u64
  r8 :: u64
  rsi :: u64
  rdi :: u64
  rbp :: u64
  rdx :: u64
  rcx :: u64
  rbx :: u64
  rax :: u64
  isr_number :: u64
  error_code :: u64
  rip :: u64
  cs :: u64
  rflags :: u64
  rsp :: u64
  ss :: u64

definition zero_registers :: registers where
  "zero_registers = \<lparr>r15 = 0, r14 = 0, r13 = 0, r12 = 0, r11 = 0, r10 = 0, r9 = 0, r8 = 0, rsi = 0,
     rdi = 0, rbp = 0, rdx = 0, rcx = 0, rbx = 0, rax = 0, isr_number = 0, error_code = 0, rip = 0,
     cs = 0, rflags = 0, rsp = 0, ss = 0\<rparr>"

record stack =
  sp :: u64
  stack_size :: u64
  stack_flags :: s32

record ustack =
  ukernel_stack :: stack
  uuser_stack :: stack
  ustack_active :: s32
  ustack_next :: ptr

record ucontext =
  ucontext_stack :: ptr
  ucontext_regs :: registers
  ucontext_fpu :: ptr
  ucontext_active :: s32

record notification_action =
  action_handler :: u64

record notification =
  refcnt :: s32
  notnum :: s32
  share_vaddr :: u64
  share_paddr :: u64
  share_page_cnt :: s32
  info :: ptr
  notification_queue_of :: ptr
  n_next :: ptr
  n_last :: ptr

text \<open>\<^verbatim>\<open>NOTIFICATION_MAX\<close> slots; \<^verbatim>\<open>mask\<close> and \<^verbatim>\<open>pending\<close> are C \<^verbatim>\<open>int\<close>s.\<close>

abbreviation NOTIFICATION_MAX :: nat where
  "NOTIFICATION_MAX \<equiv> 64"

record 'l notification_queue =
  slots :: "ptr list"
  nmask :: s32
  active :: bool
  pending :: s32
  delivered :: s32
  queue_lock :: 'l

record 'l kcontext =
  user_gs_base :: u64
  user_fs_base :: u64
  kernel_stack :: stack
  user_stack :: stack
  stacks :: ptr
  actions :: "notification_action list"
  nqueue :: ptr
  ucontexts :: "ptr list"
  ucontext :: ptr
  ucontext_idx :: s32
  notification_lock :: 'l
  namespace :: string
  server :: string
  cid :: s32
  sysperm :: u64
  page_table_of :: ptr
  regs :: registers
  fpu_context :: ptr

section \<open>The kernel state\<close>

record 'l cpu_local =
  core_error :: u64
  scheduling_server :: ptr
  thread_queue :: "ptr list"
  delivery_stack :: "ptr list"
  current_context :: ptr

record 'l kernel =
  mem :: "'l kstate"
  contexts :: "ptr \<Rightarrow> 'l kcontext option"
  queues :: "ptr \<Rightarrow> 'l notification_queue option"
  notifications :: "ptr \<Rightarrow> notification option"
  ustacks :: "ptr \<Rightarrow> ustack option"
  uctxs :: "ptr \<Rightarrow> ucontext option"
  core :: "'l cpu_local"

section \<open>Allocation of objects\<close>

text \<open>
  \<^verbatim>\<open>alloc\<close> gives an address with no object yet, and the raw contents found there; the callers set
  some fields and rely on the others being zero.
\<close>

record 'l slab =
  alloc_addr :: "'l kernel \<Rightarrow> ptr"
  raw_notification :: notification
  raw_ucontext :: ucontext
  raw_ustack :: ustack
  VECTOR_PUSH :: "ptr list \<Rightarrow> ptr \<Rightarrow> ptr list"
  VECTOR_POP :: "ptr list \<Rightarrow> (ptr \<times> ptr list) option"
  NOTIFY_WEIGHT_INSTANTANEOUS :: s32
  NOTIFY_WEIGHT_TICK :: s32

definition used :: "'l kernel \<Rightarrow> ptr \<Rightarrow> bool" where
  "used k p \<longleftrightarrow> p = NULL \<or> contexts k p \<noteq> None \<or> queues k p \<noteq> None \<or> notifications k p \<noteq> None \<or>
     ustacks k p \<noteq> None \<or> uctxs k p \<noteq> None"

definition slab_laws :: "'l slab \<Rightarrow> 'l kernel \<Rightarrow> bool" where
  "slab_laws A k \<longleftrightarrow> \<not> used k (alloc_addr A k) \<and>
     n_next (raw_notification A) = NULL \<and> n_last (raw_notification A) = NULL \<and>
     ucontext_active (raw_ucontext A) = 0 \<and> ustack_active (raw_ustack A) = 0 \<and>
     (\<forall>xs x. VECTOR_PUSH A xs x = xs @ [x]) \<and>
     (\<forall>xs. VECTOR_POP A xs = (if xs = [] then None else Some (last xs, butlast xs)))"

definition slab_ref :: "ptr \<Rightarrow> 'l slab" where
  "slab_ref p = \<lparr>alloc_addr = (\<lambda>_. p),
     raw_notification = \<lparr>refcnt = 0, notnum = 0, share_vaddr = 0, share_paddr = 0, share_page_cnt = 0,
       info = 0, notification_queue_of = 0, n_next = 0, n_last = 0\<rparr>,
     raw_ucontext = \<lparr>ucontext_stack = 0, ucontext_regs = zero_registers, ucontext_fpu = 0, ucontext_active = 0\<rparr>,
     raw_ustack = \<lparr>ukernel_stack = \<lparr>sp = 0, stack_size = 0, stack_flags = 0\<rparr>,
       uuser_stack = \<lparr>sp = 0, stack_size = 0, stack_flags = 0\<rparr>, ustack_active = 0, ustack_next = 0\<rparr>,
     VECTOR_PUSH = (\<lambda>xs x. xs @ [x]),
     VECTOR_POP = (\<lambda>xs. if xs = [] then None else Some (last xs, butlast xs)),
     NOTIFY_WEIGHT_INSTANTANEOUS = 1, NOTIFY_WEIGHT_TICK = 2\<rparr>"

lemma slab_laws_ref: "\<not> used k p \<Longrightarrow> slab_laws (slab_ref p) k"
  by (simp add: slab_laws_def slab_ref_def)

end
