(* ===== verification/Notification.thy ===== *)
theory Notification
  imports Context
begin

unbundle bit_operations_syntax

text \<open>
  Notifications, \<^verbatim>\<open>kernel/core/notification.c\<close> and the queue macros of \<^verbatim>\<open>notification.h\<close>: queueing,
  dispatch onto a user context, and the notification system calls. A notification number is a C
  \<^verbatim>\<open>int\<close>; \<^verbatim>\<open>pending\<close> and \<^verbatim>\<open>mask\<close> are \<^verbatim>\<open>int\<close>s combined with 64-bit masks, so they are sign-extended
  before and truncated after each operation.
\<close>

section \<open>Numbers and masks\<close>

definition notification_is_valid :: "s32 \<Rightarrow> s32" where
  "notification_is_valid n = (if sint n < 1 \<or> 64 < sint n then - 1 else 0)"

definition notification_check_perms :: "ptr \<Rightarrow> ptr \<Rightarrow> s32 \<Rightarrow> s32" where
  "notification_check_perms sender target n = 0"

definition NOTIFICATION_MASK :: "int \<Rightarrow> u64 outcome" where
  "NOTIFICATION_MASK n =
     (if 0 \<le> n - 1 \<and> n - 1 < 64 then Ret (push_bit (nat (n - 1)) 1) else Fault BadShift)"

definition slot_index :: "int \<Rightarrow> nat outcome" where
  "slot_index n = (if 0 \<le> n - 1 \<and> n - 1 < int NOTIFICATION_MAX then Ret (nat (n - 1)) else Fault OutOfBounds)"

text \<open>An \<^verbatim>\<open>int\<close> widened to 64 bits, and a 64-bit value stored back into an \<^verbatim>\<open>int\<close>.\<close>

definition widen :: "s32 \<Rightarrow> u64" where
  "widen x = scast x"

definition narrow :: "u64 \<Rightarrow> s32" where
  "narrow x = ucast x"

section \<open>The queue\<close>

definition NOTIFICATION_PUSH :: "'l kernel \<Rightarrow> ptr \<Rightarrow> ptr \<Rightarrow> (s32 \<times> 'l kernel) outcome" where
  "NOTIFICATION_PUSH k q n =
     (if n = NULL \<or> q = NULL then Ret (- 1, k)
      else obind (deref (queues k) q) (\<lambda>Q.
        obind (deref (notifications k) n) (\<lambda>N.
        obind (slot_index (sint (notnum N))) (\<lambda>i.
        let head = slots Q ! i in
        obind (if head \<noteq> NULL
               then obind (deref (notifications k) head) (\<lambda>H.
                 let h = (notifications k)(head \<mapsto> H\<lparr>n_last := n\<rparr>) in
                 obind (deref h n) (\<lambda>N. Ret (h(n \<mapsto> N\<lparr>n_next := head\<rparr>))))
               else Ret (notifications k)) (\<lambda>h.
        obind (NOTIFICATION_MASK (sint (notnum N))) (\<lambda>m.
        Ret (0, k\<lparr>notifications := h,
          queues := (queues k)(q \<mapsto> Q\<lparr>slots := (slots Q)[i := n],
            pending := narrow (widen (pending Q) OR m)\<rparr>)\<rparr>)))))))"

text \<open>
  The loop of \<^verbatim>\<open>NOTIFICATION_POP\<close>: its last statement is the expression \<^verbatim>\<open>root->next;\<close>, so \<open>root\<close> never
  moves.
\<close>

partial_function (option) pop_seek :: "(ptr \<Rightarrow> notification option) \<Rightarrow> ptr \<Rightarrow> ptr option" where
  "pop_seek h root =
     (if root = NULL then Some root
      else case h root of None \<Rightarrow> Some root
        | Some R \<Rightarrow> if n_next R = NULL then Some root else pop_seek h root)"

definition NOTIFICATION_POP :: "'l kernel \<Rightarrow> ptr \<Rightarrow> int \<Rightarrow> (s32 \<times> ptr \<times> 'l kernel) outcome" where
  "NOTIFICATION_POP k q n =
     (if q = NULL then Ret (- 1, NULL, k)
      else obind (deref (queues k) q) (\<lambda>Q.
        obind (slot_index n) (\<lambda>i.
        obind (of_opt (pop_seek (notifications k) (slots Q ! i))) (\<lambda>root.
        obind (deref (notifications k) root) (\<lambda>R.
        obind (if n_last R = NULL
               then obind (NOTIFICATION_MASK (n - 1)) (\<lambda>m.
                 Ret (Q\<lparr>pending := narrow (widen (pending Q) AND NOT m)\<rparr>))
               else Ret Q) (\<lambda>Q.
        obind (if n_last R \<noteq> NULL
               then obind (deref (notifications k) (n_last R)) (\<lambda>L.
                 Ret ((notifications k)(n_last R \<mapsto> L\<lparr>n_next := NULL\<rparr>)))
               else Ret (notifications k)) (\<lambda>h.
        Ret (0, root, k\<lparr>queues := (queues k)(q \<mapsto> Q), notifications := h\<rparr>))))))))"

section \<open>Sending\<close>

text \<open>
  The validity test of line 41 is \<^verbatim>\<open>!notification_is_valid(not)\<close>. \<open>yield\<close> stands for the software
  interrupt of \<^verbatim>\<open>yield()\<close>.
\<close>

definition notification_send ::
  "'l slab \<Rightarrow> ('l kernel \<Rightarrow> 'l kernel outcome) \<Rightarrow> 'l kernel \<Rightarrow> ptr \<Rightarrow> ptr \<Rightarrow> s32 \<Rightarrow> s32 \<Rightarrow>
   (s32 \<times> 'l kernel) outcome" where
  "notification_send A yield k sender target n weight =
     (if sender = NULL \<or> target = NULL \<or> notification_is_valid n = 0 \<or>
         notification_check_perms sender target n = - 1 then Ret (- 1, k)
      else obind (deref (contexts k) target) (\<lambda>T.
        let q = nqueue T; p = alloc_addr A k;
            k = k\<lparr>notifications := (notifications k)(p \<mapsto> (raw_notification A)\<lparr>refcnt := 1, notnum := n\<rparr>)\<rparr>;
            i = alloc_addr A k;
            k = k\<lparr>notifications := (notifications k)(p \<mapsto>
              (raw_notification A)\<lparr>refcnt := 1, notnum := n, info := i, notification_queue_of := q\<rparr>)\<rparr> in
        obind (NOTIFICATION_PUSH k q p) (\<lambda>(ret, k).
        if ret = - 1 then Ret (- 1, k)
        else
          let k = (if weight AND NOTIFY_WEIGHT_INSTANTANEOUS A \<noteq> 0 \<or> weight AND NOTIFY_WEIGHT_TICK A \<noteq> 0
                   then k\<lparr>core := (core k)\<lparr>delivery_stack := VECTOR_PUSH A (delivery_stack (core k)) target\<rparr>\<rparr>
                   else k) in
          obind (if weight AND NOTIFY_WEIGHT_INSTANTANEOUS A \<noteq> 0 then yield k else Ret k) (\<lambda>k.
          Ret (0, k)))))"

section \<open>Dispatch\<close>

fun find_inactive :: "(ptr \<Rightarrow> ucontext option) \<Rightarrow> ptr list \<Rightarrow> nat \<Rightarrow> (nat \<times> ptr) option outcome" where
  "find_inactive h [] i = Ret None"
| "find_inactive h (u # us) i =
     obind (deref h u) (\<lambda>U. if ucontext_active U = 0 then Ret (Some (i, u)) else find_inactive h us (Suc i))"

definition get_ucontext :: "'l slab \<Rightarrow> 'l kernel \<Rightarrow> ptr \<Rightarrow> (s32 \<times> ptr \<times> 'l kernel) outcome" where
  "get_ucontext A k c =
     (if c = NULL then Ret (- 1, NULL, k)
      else obind (deref (contexts k) c) (\<lambda>C.
        obind (find_inactive (uctxs k) (ucontexts C) 0) (\<lambda>r.
        case r of
          Some (i, u) \<Rightarrow> Ret (of_nat i, u, k)
        | None \<Rightarrow>
            let u = alloc_addr A k;
                us = VECTOR_PUSH A (ucontexts C) u in
            Ret (of_nat (length us) - 1, u,
              k\<lparr>uctxs := (uctxs k)(u \<mapsto> raw_ucontext A), contexts := (contexts k)(c \<mapsto> C\<lparr>ucontexts := us\<rparr>)\<rparr>))))"

partial_function (option) find_ustack :: "(ptr \<Rightarrow> ustack option) \<Rightarrow> ptr \<Rightarrow> ptr outcome option" where
  "find_ustack h p =
     (if p = NULL then Some (Ret p)
      else case h p of None \<Rightarrow> Some (Fault NullDeref)
        | Some S \<Rightarrow> if ustack_active S = 0 then Some (Ret p) else find_ustack h (ustack_next S))"

definition deliver :: "'l kernel \<Rightarrow> ptr \<Rightarrow> ptr \<Rightarrow> ptr \<Rightarrow> ptr \<Rightarrow> int \<Rightarrow> 'l kernel outcome" where
  "deliver k c u ust n i =
     obind (deref (contexts k) c) (\<lambda>C.
     obind (deref (uctxs k) u) (\<lambda>U.
     obind (deref (ustacks k) ust) (\<lambda>S.
     obind (deref (notifications k) n) (\<lambda>N.
     obind (slot_index i) (\<lambda>j.
     if length (actions C) \<le> j then Fault OutOfBounds
     else Ret (k\<lparr>
       uctxs := (uctxs k)(u \<mapsto> U\<lparr>ucontext_stack := ust,
         ucontext_regs := (ucontext_regs U)\<lparr>ss := 0x3b, rsp := sp (uuser_stack S), rflags := 0x202,
           cs := 0x43, rip := action_handler (actions C ! j), rdi := info N, rsi := share_vaddr N,
           rdx := of_int (i + 1)\<rparr>,
         ucontext_active := 1\<rparr>),
       contexts := (contexts k)(c \<mapsto> C\<lparr>ucontext := u\<rparr>)\<rparr>))))))"

fun dispatch_scan :: "'l kernel \<Rightarrow> ptr \<Rightarrow> ptr \<Rightarrow> ptr \<Rightarrow> int list \<Rightarrow> (s32 \<times> 'l kernel) outcome" where
  "dispatch_scan k c q u [] = Ret (0, k)"
| "dispatch_scan k c q u (i # is) =
     obind (deref (queues k) q) (\<lambda>Q.
     obind (NOTIFICATION_MASK i) (\<lambda>m.
     if widen (pending Q) AND m = 0 \<or> widen (nmask Q) AND m \<noteq> 0 then dispatch_scan k c q u is
     else obind (NOTIFICATION_POP k q i) (\<lambda>(ret, n, k).
       if ret = - 1 then Ret (- 1, k)
       else if n = NULL then dispatch_scan k c q u is
       else obind (deref (contexts k) c) (\<lambda>C.
         obind (of_opt (find_ustack (ustacks k) (stacks C))) (\<lambda>r.
         obind r (\<lambda>ust.
         if ust = NULL then Ret (0, k)
         else obind (deliver k c u ust n i) (\<lambda>k. Ret (0, k))))))))"

definition notification_dispatch ::
  "'l fayt \<Rightarrow> 'l slab \<Rightarrow> 'l kernel \<Rightarrow> ptr \<Rightarrow> (s32 \<times> 'l kernel) outcome" where
  "notification_dispatch F A k c =
     (if c = NULL then Ret (- 1, k)
      else obind (deref (contexts k) c) (\<lambda>C.
        let q = nqueue C in
        if q = NULL then Ret (- 1, k)
        else obind (deref (queues k) q) (\<lambda>Q.
          if \<not> active Q then Ret (- 1, k)
          else obind (of_opt (spinlock F (queue_lock Q))) (\<lambda>l.
            let k = k\<lparr>queues := (queues k)(q \<mapsto> Q\<lparr>queue_lock := l\<rparr>)\<rparr> in
            if \<not> active Q \<or> pending Q = 0
            then Ret (- 1, k\<lparr>queues := (queues k)(q \<mapsto> Q\<lparr>queue_lock := spinrelease F l\<rparr>)\<rparr>)
            else obind (get_ucontext A k c) (\<lambda>(idx, u, k).
              obind (deref (contexts k) c) (\<lambda>C.
              let k = k\<lparr>contexts := (contexts k)(c \<mapsto> C\<lparr>ucontext_idx := idx\<rparr>)\<rparr> in
              if idx = - 1 \<or> u = NULL
              then obind (of_opt (spinlock F l)) (\<lambda>l.
                Ret (- 1, k\<lparr>queues := (queues k)(q \<mapsto> Q\<lparr>queue_lock := l\<rparr>)\<rparr>))
              else dispatch_scan k c q u (map int [1..<Suc NOTIFICATION_MAX])))))))"

section \<open>System calls\<close>

definition syscall_notification_action ::
  "'l fayt \<Rightarrow> 'l kernel \<Rightarrow> s32 \<Rightarrow> notification_action option \<Rightarrow> bool \<Rightarrow>
   (s32 \<times> notification_action option \<times> 'l kernel) outcome" where
  "syscall_notification_action F k n act want_old =
     (let c = current_context (core k) in
      if c = NULL then Ret (- 1, None, k)
      else if notification_is_valid n = - 1 then Ret (- 1, None, k)
      else obind (deref (contexts k) c) (\<lambda>C.
        obind (of_opt (spinlock F (notification_lock C))) (\<lambda>l.
        if int (length (actions C)) \<le> sint n then Fault OutOfBounds
        else
          let i = nat (sint n);
              old = (if want_old then Some (actions C ! i) else None);
              acts = (case act of None \<Rightarrow> actions C | Some a \<Rightarrow> (actions C)[i := a]) in
          Ret (0, old, k\<lparr>contexts := (contexts k)(c \<mapsto>
            C\<lparr>actions := acts, notification_lock := spinrelease F l\<rparr>)\<rparr>))))"

abbreviation CONTEXT_DEFAULT_STACK_SIZE :: u64 where
  "CONTEXT_DEFAULT_STACK_SIZE \<equiv> 0x10000"

definition syscall_notification_define_stack ::
  "'l fayt \<Rightarrow> 'l slab \<Rightarrow> 'l kernel \<Rightarrow> u64 \<Rightarrow> u64 \<Rightarrow> (s32 \<times> 'l kernel) outcome" where
  "syscall_notification_define_stack F A k user_sp user_size =
     (let c = current_context (core k) in
      if c = NULL then Ret (- 1, k)
      else let p = alloc_addr A k in
        obind (pmm_alloc F (mem k) (DIV_ROUNDUP F CONTEXT_DEFAULT_STACK_SIZE PAGE_SIZE) 1) (\<lambda>(a, s).
        obind (deref (contexts k) c) (\<lambda>C.
        let S = (raw_ustack A)\<lparr>
              uuser_stack := (uuser_stack (raw_ustack A))\<lparr>sp := user_sp, stack_size := user_size\<rparr>,
              ukernel_stack := (ukernel_stack (raw_ustack A))\<lparr>
                sp := a + CONTEXT_DEFAULT_STACK_SIZE + HIGH_VMA (mem k),
                stack_size := CONTEXT_DEFAULT_STACK_SIZE\<rparr>,
              ustack_active := 0, ustack_next := stacks C\<rparr> in
        Ret (0, k\<lparr>mem := s, ustacks := (ustacks k)(p \<mapsto> S),
          contexts := (contexts k)(c \<mapsto> C\<lparr>stacks := p\<rparr>)\<rparr>))))"

text \<open>
  \<^verbatim>\<open>notification_return\<close> ends by restoring the interrupted registers with \<^verbatim>\<open>iretq\<close>: the result is the
  register file the processor continues with, or \<^verbatim>\<open>-1\<close>.
\<close>

definition syscall_notification_return :: "'l kernel \<Rightarrow> ((s32 + registers) \<times> 'l kernel) outcome" where
  "syscall_notification_return k =
     (let c = current_context (core k) in
      if c = NULL then Ret (Inl (- 1), k)
      else obind (deref (contexts k) c) (\<lambda>C.
        if nqueue C = NULL then Ret (Inl (- 1), k)
        else obind (if ucontext C \<noteq> NULL
                    then obind (deref (uctxs k) (ucontext C)) (\<lambda>U.
                      Ret (k\<lparr>uctxs := (uctxs k)(ucontext C \<mapsto> U\<lparr>ucontext_active := 0\<rparr>)\<rparr>))
                    else Ret k) (\<lambda>k.
          Ret (Inr (regs C), k\<lparr>contexts := (contexts k)(c \<mapsto> C\<lparr>ucontext := NULL\<rparr>)\<rparr>))))"

definition set_active :: "bool \<Rightarrow> 'l kernel \<Rightarrow> (s32 \<times> 'l kernel) outcome" where
  "set_active b k =
     (let c = current_context (core k) in
      if c = NULL then Ret (- 1, k)
      else obind (deref (contexts k) c) (\<lambda>C.
        if nqueue C = NULL then Ret (- 1, k)
        else obind (deref (queues k) (nqueue C)) (\<lambda>Q.
          Ret (0, k\<lparr>queues := (queues k)(nqueue C \<mapsto> Q\<lparr>active := b\<rparr>)\<rparr>))))"

definition syscall_notification_unmute :: "'l kernel \<Rightarrow> (s32 \<times> 'l kernel) outcome" where
  "syscall_notification_unmute k = set_active True k"

definition syscall_notification_mute :: "'l kernel \<Rightarrow> (s32 \<times> 'l kernel) outcome" where
  "syscall_notification_mute k = set_active False k"

section \<open>Masks\<close>

lemma mask_valid: "1 \<le> n \<Longrightarrow> n \<le> 64 \<Longrightarrow> NOTIFICATION_MASK n = Ret (2 ^ nat (n - 1))"
  by (simp add: NOTIFICATION_MASK_def)

lemma slot_valid: "1 \<le> n \<Longrightarrow> n \<le> 64 \<Longrightarrow> slot_index n = Ret (nat (n - 1))"
  by (simp add: slot_index_def)

lemma bit_widen: "bit (widen p) j \<longleftrightarrow> j < 64 \<and> bit p (min j 31)"
  by (simp add: widen_def bit_signed_iff) (auto simp: min_def dest: bit_imp_le_length)

lemma bit_narrow: "bit (narrow x) j \<longleftrightarrow> j < 32 \<and> bit x j"
  by (auto simp: narrow_def bit_simps)

lemma bit_push_one: "bit (2 ^ i :: u64) j \<longleftrightarrow> j = i \<and> i < 64"
  by (auto simp: bit_exp_iff)

lemma widen_test: "i < 64 \<Longrightarrow> widen p AND 2 ^ i = 0 \<longleftrightarrow> \<not> bit p (min i 31)"
proof -
  assume i: "i < 64"
  have "widen p AND 2 ^ i = 0 \<longleftrightarrow> \<not> bit (widen p) i" by (simp add: and_exp_eq_0_iff_not_bit)
  then show ?thesis using i by (simp add: bit_widen)
qed

lemma pending_set:
  "i < 64 \<Longrightarrow> bit (narrow (widen p OR 2 ^ i)) j \<longleftrightarrow> j < 32 \<and> (bit p j \<or> j = i)"
  by (auto simp: bit_narrow bit_or_iff bit_widen bit_push_one min_def)

lemma pending_clear:
  "i < 64 \<Longrightarrow> bit (narrow (widen p AND NOT (2 ^ i))) j \<longleftrightarrow> j < 32 \<and> bit p j \<and> j \<noteq> i"
  by (auto simp: bit_narrow bit_and_iff bit_not_iff bit_widen bit_push_one min_def)

section \<open>A slot is a list\<close>

fun chain :: "(ptr \<Rightarrow> notification option) \<Rightarrow> ptr \<Rightarrow> ptr list \<Rightarrow> bool" where
  "chain h p [] \<longleftrightarrow> p = NULL"
| "chain h p (x # xs) \<longleftrightarrow> p = x \<and> x \<noteq> NULL \<and> (\<exists>N. h x = Some N \<and> chain h (n_next N) xs)"

lemma chain_cong:
  "chain h p xs \<Longrightarrow> (\<And>x N. x \<in> set xs \<Longrightarrow> h x = Some N \<Longrightarrow> \<exists>N'. h' x = Some N' \<and> n_next N' = n_next N) \<Longrightarrow>
   chain h' p xs"
proof (induction xs arbitrary: p)
  case (Cons x xs)
  then obtain N N' where "h x = Some N" "chain h (n_next N) xs" "h' x = Some N'" "n_next N' = n_next N"
    by fastforce
  then show ?case using Cons by auto
qed simp

lemma chain_head: "chain h p xs \<Longrightarrow> p \<noteq> NULL \<Longrightarrow> \<exists>ys N. xs = p # ys \<and> h p = Some N"
  by (cases xs) auto

lemma pop_seek_spin:
  assumes "root \<noteq> NULL" "h root = Some R" "n_next R \<noteq> NULL"
  shows "pop_seek h root = None"
proof -
  have "\<not> (root \<noteq> NULL \<and> (\<exists>R. h root = Some R \<and> n_next R \<noteq> NULL))" if "pop_seek h root = Some y" for y
    by (rule pop_seek.raw_induct [of "\<lambda>h r y. \<not> (r \<noteq> NULL \<and> (\<exists>R. h r = Some R \<and> n_next R \<noteq> NULL))",
          OF _ that]) (auto split: if_splits option.splits)
  then show ?thesis using assms by (cases "pop_seek h root") auto
qed

lemma pop_seek_single: "h root = Some R \<Longrightarrow> n_next R = NULL \<Longrightarrow> pop_seek h root = Some root"
  by (subst pop_seek.simps) simp

lemma pop_seek_null: "pop_seek h NULL = Some NULL"
  by (subst pop_seek.simps) simp

text \<open>Pushing puts the notification at the head of its slot's list.\<close>

lemma push_correct:
  assumes q: "q \<noteq> NULL" "queues k q = Some Q" "length (slots Q) = NOTIFICATION_MAX"
    and n: "n \<noteq> NULL" "notifications k n = Some N" "n_next N = NULL"
    and v: "1 \<le> sint (notnum N)" "sint (notnum N) \<le> 64"
    and ch: "chain (notifications k) (slots Q ! nat (sint (notnum N) - 1)) xs" "n \<notin> set xs"
  shows "\<exists>k' Q'. NOTIFICATION_PUSH k q n = Ret (0, k') \<and> queues k' = (queues k)(q \<mapsto> Q') \<and>
    slots Q' = (slots Q)[nat (sint (notnum N) - 1) := n] \<and>
    chain (notifications k') n (n # xs) \<and>
    (\<forall>p ys. chain (notifications k) p ys \<longrightarrow> n \<notin> set ys \<longrightarrow> chain (notifications k') p ys) \<and>
    (\<forall>j<32. bit (pending Q') j = (bit (pending Q) j \<or> j = nat (sint (notnum N) - 1))) \<and>
    active Q' = active Q \<and> nmask Q' = nmask Q \<and> queue_lock Q' = queue_lock Q"
proof -
  let ?i = "nat (sint (notnum N) - 1)"
  let ?head = "slots Q ! ?i"
  let ?Q = "Q\<lparr>slots := (slots Q)[?i := n], pending := narrow (widen (pending Q) OR 2 ^ ?i)\<rparr>"
  have pb: "\<forall>j<32. bit (pending ?Q) j = (bit (pending Q) j \<or> j = ?i)" using v by (simp add: pending_set)
  show ?thesis
  proof (cases "?head = NULL")
    case True
    then have "xs = []" using ch(1) by (cases xs) auto
    moreover have "NOTIFICATION_PUSH k q n = Ret (0, k\<lparr>queues := (queues k)(q \<mapsto> ?Q)\<rparr>)"
      using True q n v by (simp add: NOTIFICATION_PUSH_def Let_def mask_valid slot_valid)
    ultimately show ?thesis using n pb by (intro exI [of _ "k\<lparr>queues := (queues k)(q \<mapsto> ?Q)\<rparr>"] exI [of _ ?Q]) simp
  next
    case False
    then obtain ys H where xs: "xs = ?head # ys" and H: "notifications k ?head = Some H"
      using chain_head [OF ch(1)] by blast
    have ne: "?head \<noteq> n" using ch(2) xs by auto
    let ?h = "(notifications k)(?head \<mapsto> H\<lparr>n_last := n\<rparr>, n \<mapsto> N\<lparr>n_next := ?head\<rparr>)"
    let ?k = "k\<lparr>notifications := ?h, queues := (queues k)(q \<mapsto> ?Q)\<rparr>"
    have "NOTIFICATION_PUSH k q n = Ret (0, ?k)"
      using False q n v H ne by (simp add: NOTIFICATION_PUSH_def Let_def mask_valid slot_valid)
    moreover have keep: "chain ?h p ys" if "chain (notifications k) p ys" "n \<notin> set ys" for p ys
      by (rule chain_cong [OF that(1)]) (use that(2) H in \<open>auto split: if_splits\<close>)
    moreover have "chain ?h n (n # xs)" using keep [OF ch] n xs by simp
    ultimately show ?thesis using pb by (intro exI [of _ ?k] exI [of _ ?Q]) simp
  qed
qed

text \<open>
  Popping an empty slot dereferences null, popping a slot with two or more notifications never
  returns; only a slot with one notification is served, and then it is not unlinked.
\<close>

lemma pop_cases:
  assumes q: "q \<noteq> NULL" "queues k q = Some Q" and i: "1 \<le> i" "i \<le> 64"
    and null: "notifications k NULL = None"
  shows "chain (notifications k) (slots Q ! nat (i - 1)) [] \<Longrightarrow> NOTIFICATION_POP k q i = Fault NullDeref"
    and "chain (notifications k) (slots Q ! nat (i - 1)) (x # y # ys) \<Longrightarrow> NOTIFICATION_POP k q i = NoReturn"
    and "chain (notifications k) (slots Q ! nat (i - 1)) [x] \<Longrightarrow> notifications k x = Some N \<Longrightarrow>
      n_last N = NULL \<Longrightarrow> 2 \<le> i \<Longrightarrow>
      NOTIFICATION_POP k q i = Ret (0, x, k\<lparr>queues := (queues k)(q \<mapsto>
        Q\<lparr>pending := narrow (widen (pending Q) AND NOT (2 ^ nat (i - 2)))\<rparr>)\<rparr>)"
    and "chain (notifications k) (slots Q ! nat (i - 1)) [x] \<Longrightarrow> notifications k x = Some N \<Longrightarrow>
      n_last N = NULL \<Longrightarrow> i = 1 \<Longrightarrow> NOTIFICATION_POP k q i = Fault BadShift"
proof -
  show "NOTIFICATION_POP k q i = Fault BadShift"
    if "chain (notifications k) (slots Q ! nat (i - 1)) [x]" "notifications k x = Some N" "n_last N = NULL" "i = 1"
    using that q i pop_seek_single [of "notifications k" x N] by (simp add: NOTIFICATION_POP_def slot_valid NOTIFICATION_MASK_def)
  show "NOTIFICATION_POP k q i = Fault NullDeref" if "chain (notifications k) (slots Q ! nat (i - 1)) []"
    using that q i null by (simp add: NOTIFICATION_POP_def slot_valid pop_seek_null)
  show "NOTIFICATION_POP k q i = NoReturn" if "chain (notifications k) (slots Q ! nat (i - 1)) (x # y # ys)"
    using that q i pop_seek_spin [of x "notifications k"] by (auto simp: NOTIFICATION_POP_def slot_valid)
  show "NOTIFICATION_POP k q i = Ret (0, x, k\<lparr>queues := (queues k)(q \<mapsto>
        Q\<lparr>pending := narrow (widen (pending Q) AND NOT (2 ^ nat (i - 2)))\<rparr>)\<rparr>)"
    if "chain (notifications k) (slots Q ! nat (i - 1)) [x]" "notifications k x = Some N" "n_last N = NULL" "2 \<le> i"
    using that q i pop_seek_single [of "notifications k" x N] mask_valid [of "i - 1"]
    by (simp add: NOTIFICATION_POP_def slot_valid)
qed

section \<open>Sending\<close>

lemma send_valid_rejected:
  "1 \<le> sint n \<Longrightarrow> sint n \<le> 64 \<Longrightarrow> notification_send A yield k sender target n weight = Ret (- 1, k)"
  by (simp add: notification_send_def notification_is_valid_def)

lemma send_invalid_faults:
  assumes "sint n < 1 \<or> 64 < sint n" "sender \<noteq> NULL" "target \<noteq> NULL" "contexts k target = Some T"
    "nqueue T \<noteq> NULL" "queues k (nqueue T) = Some Q" "alloc_addr A k \<noteq> NULL"
  shows "notification_send A yield k sender target n weight = Fault OutOfBounds"
  using assms
  by (auto simp: notification_send_def notification_is_valid_def notification_check_perms_def
      NOTIFICATION_PUSH_def slot_index_def Let_def)

section \<open>Dispatch\<close>

text \<open>What no step of a dispatch changes: the context's queue, and the queue's lock and activity.\<close>

definition held_same :: "'l kernel \<Rightarrow> ptr \<Rightarrow> ptr \<Rightarrow> 'l \<Rightarrow> bool" where
  "held_same k c q l \<longleftrightarrow> (\<exists>C Q. contexts k c = Some C \<and> nqueue C = q \<and> queues k q = Some Q \<and>
     active Q \<and> queue_lock Q = l)"

lemma pop_held: "NOTIFICATION_POP k q i = Ret (r, n, k') \<Longrightarrow> held_same k c q l \<Longrightarrow> held_same k' c q l"
  by (auto simp: NOTIFICATION_POP_def held_same_def split: if_splits)

lemma deliver_held: "deliver k c u ust n i = Ret k' \<Longrightarrow> held_same k c q l \<Longrightarrow> held_same k' c q l"
  by (auto simp: deliver_def held_same_def split: if_splits)

lemma scan_held: "dispatch_scan k c q u is = Ret (r, k') \<Longrightarrow> held_same k c q l \<Longrightarrow> held_same k' c q l"
proof (induction "is" arbitrary: k)
  case (Cons i "is")
  obtain Q m where Q: "queues k q = Some Q" "NOTIFICATION_MASK i = Ret m" using Cons.prems(1) by auto
  show ?case
  proof (cases "widen (pending Q) AND m = 0 \<or> widen (nmask Q) AND m \<noteq> 0")
    case True
    then have "dispatch_scan k c q u is = Ret (r, k')" using Cons.prems(1) Q by simp
    then show ?thesis by (rule Cons.IH [OF _ Cons.prems(2)])
  next
    case False
    then obtain ret n k1 where pop: "NOTIFICATION_POP k q i = Ret (ret, n, k1)"
      using Cons.prems(1) Q by auto
    have h1: "held_same k1 c q l" by (rule pop_held [OF pop Cons.prems(2)])
    consider "ret = - 1" "k' = k1" | "ret \<noteq> - 1" "n = NULL" "dispatch_scan k1 c q u is = Ret (r, k')"
      | ust where "k' = k1 \<or> deliver k1 c u ust n i = Ret k'"
      using Cons.prems(1) Q False pop by (auto split: if_splits)
    then show ?thesis
    proof cases
      case 2
      show ?thesis by (rule Cons.IH [OF 2(3) h1])
    qed (use h1 deliver_held in auto)
  qed
qed simp

lemma get_ucontext_held:
  assumes "get_ucontext A k c = Ret (i, u, k')" "held_same k c q l"
  shows "held_same k' c q l"
  using assms by (auto simp: get_ucontext_def held_same_def Let_def split: if_splits option.splits)

lemma dispatch_locks:
  assumes laws: "fayt_laws F" and run: "notification_dispatch F A k c = Ret (0, k')"
  shows "\<exists>q l. c \<noteq> NULL \<and> q \<noteq> NULL \<and> held_same k' c q l \<and> \<not> lock_free F l"
proof -
  obtain C Q l where C: "c \<noteq> NULL" "contexts k c = Some C" "nqueue C \<noteq> NULL" "queues k (nqueue C) = Some Q"
    "active Q" "pending Q \<noteq> 0" "spinlock F (queue_lock Q) = Some l"
    using run by (auto simp: notification_dispatch_def Let_def split: if_splits)
  let ?q = "nqueue C"
  let ?k = "k\<lparr>queues := (queues k)(?q \<mapsto> Q\<lparr>queue_lock := l\<rparr>)\<rparr>"
  obtain idx u k1 C1 where g: "get_ucontext A ?k c = Ret (idx, u, k1)" "contexts k1 c = Some C1"
    and sc: "dispatch_scan (k1\<lparr>contexts := (contexts k1)(c \<mapsto> C1\<lparr>ucontext_idx := idx\<rparr>)\<rparr>) c ?q u
      (map int [1..<Suc NOTIFICATION_MAX]) = Ret (0, k')"
    using run C by (auto simp: notification_dispatch_def Let_def simp del: upt_Suc split: if_splits)
  have "held_same ?k c ?q l" using C by (simp add: held_same_def)
  from get_ucontext_held [OF g(1) this]
  have "held_same (k1\<lparr>contexts := (contexts k1)(c \<mapsto> C1\<lparr>ucontext_idx := idx\<rparr>)\<rparr>) c ?q l"
    using g(2) by (auto simp: held_same_def)
  from scan_held [OF sc this] show ?thesis
    using C spinlock_held [OF laws C(7)] by (intro exI [of _ ?q] exI [of _ l]) (auto simp: lock_free_def)
qed

lemma dispatch_again:
  assumes laws: "fayt_laws F" and run: "notification_dispatch F A k c = Ret (0, k')"
  shows "notification_dispatch F A' k' c = NoReturn"
proof -
  obtain q l where d: "c \<noteq> NULL" "q \<noteq> NULL" "held_same k' c q l" "\<not> lock_free F l"
    using dispatch_locks [OF assms] by blast
  then show ?thesis by (auto simp: notification_dispatch_def held_same_def lock_free_def)
qed

lemma dispatch_scan_skip:
  assumes "queues k q = Some Q"
    "\<And>i. i \<in> set is \<Longrightarrow> 1 \<le> i \<and> i \<le> 64 \<and> \<not> (bit (pending Q) (min (nat (i - 1)) 31) \<and> \<not> bit (nmask Q) (min (nat (i - 1)) 31))"
  shows "dispatch_scan k c q u (is @ js) = dispatch_scan k c q u js"
  using assms
proof (induction "is")
  case (Cons i "is")
  then have i: "1 \<le> i" "i \<le> 64" "\<not> (bit (pending Q) (min (nat (i - 1)) 31) \<and> \<not> bit (nmask Q) (min (nat (i - 1)) 31))"
    by auto
  then have "widen (pending Q) AND 2 ^ nat (i - 1) = 0 \<or> widen (nmask Q) AND 2 ^ nat (i - 1) \<noteq> 0"
    using widen_test [of "nat (i - 1)"] by auto
  then show ?case using Cons i by (simp add: mask_valid)
qed simp

text \<open>Which number a dispatch serves: the least one that is pending and not masked.\<close>

definition ready :: "'l notification_queue \<Rightarrow> int \<Rightarrow> bool" where
  "ready Q i \<longleftrightarrow> bit (pending Q) (min (nat (i - 1)) 31) \<and> \<not> bit (nmask Q) (min (nat (i - 1)) 31)"

lemma scan_split: "1 \<le> i \<Longrightarrow> i \<le> 64 \<Longrightarrow> \<exists>js. map int [1..<Suc NOTIFICATION_MAX] = map int [1..<nat i] @ i # js"
proof -
  assume i: "1 \<le> i" "i \<le> 64"
  have "[1..<65] = [1..<nat i] @ [nat i..<65]" using upt_add_eq_append [of 1 "nat i" "65 - nat i"] i by simp
  also have "[nat i..<65] = nat i # [Suc (nat i)..<65]" using i by (intro upt_conv_Cons) simp
  finally have "[1..<Suc NOTIFICATION_MAX] = [1..<nat i] @ nat i # [Suc (nat i)..<Suc NOTIFICATION_MAX]"
    by (simp del: upt_Suc)
  then show ?thesis using i by (intro exI [of _ "map int [Suc (nat i)..<Suc NOTIFICATION_MAX]"]) (simp del: upt_Suc)
qed


lemma deliver_spec:
  assumes "contexts k c = Some C" "length (actions C) = NOTIFICATION_MAX" "uctxs k u = Some U"
    "ustacks k ust = Some S" "notifications k n = Some N" "1 \<le> i" "i \<le> 64"
  shows "\<exists>k'. deliver k c u ust n i = Ret k' \<and> contexts k' c = Some (C\<lparr>ucontext := u\<rparr>) \<and>
    uctxs k' u = Some (U\<lparr>ucontext_stack := ust,
      ucontext_regs := (ucontext_regs U)\<lparr>ss := 0x3b, rsp := sp (uuser_stack S), rflags := 0x202, cs := 0x43,
        rip := action_handler (actions C ! nat (i - 1)), rdi := info N, rsi := share_vaddr N,
        rdx := of_int (i + 1)\<rparr>,
      ucontext_active := 1\<rparr>)"
proof -
  have "\<not> NOTIFICATION_MAX \<le> nat (i - 1)" using assms(6,7) by simp
  then show ?thesis using assms by (simp add: deliver_def slot_valid)
qed

text \<open>A dispatch with a number ready fails as the pop of the least such number fails.\<close>

lemma dispatch_pop_fails:
  assumes C: "c \<noteq> NULL" "contexts k c = Some C" "nqueue C \<noteq> NULL"
    and Q: "queues k (nqueue C) = Some Q" "active Q" "lock_free F (queue_lock Q)"
    and i: "1 \<le> i" "i \<le> 64" "ready Q i" "\<forall>j. 1 \<le> j \<longrightarrow> j < i \<longrightarrow> \<not> ready Q j"
    and u: "find_inactive (uctxs k) (ucontexts C) 0 = Ret (Some (x, u))" "u \<noteq> NULL" "of_nat x \<noteq> (- 1 :: s32)"
    and pop: "\<forall>k' l. notifications k' = notifications k \<longrightarrow> queues k' (nqueue C) = Some (Q\<lparr>queue_lock := l\<rparr>) \<longrightarrow>
      NOTIFICATION_POP k' (nqueue C) i = y"
  shows "y = Fault e \<Longrightarrow> notification_dispatch F A k c = Fault e" "y = NoReturn \<Longrightarrow> notification_dispatch F A k c = NoReturn"
proof -
  let ?q = "nqueue C"
  obtain l where l: "spinlock F (queue_lock Q) = Some l" using Q(3) by (auto simp: lock_free_iff)
  let ?Q = "Q\<lparr>queue_lock := l\<rparr>" and ?C = "C\<lparr>ucontext_idx := of_nat x\<rparr>"
  let ?k1 = "k\<lparr>queues := (queues k)(?q \<mapsto> ?Q)\<rparr>"
  let ?k2 = "?k1\<lparr>contexts := (contexts k)(c \<mapsto> ?C)\<rparr>"
  obtain js where js: "map int [1..<Suc NOTIFICATION_MAX] = map int [1..<nat i] @ i # js"
    using scan_split [of i] i by auto
  have sk: "dispatch_scan ?k2 c ?q u (map int [1..<nat i] @ i # js) = dispatch_scan ?k2 c ?q u (i # js)"
    by (rule dispatch_scan_skip [of _ _ ?Q]) (use i(2) i(4) in \<open>auto simp: ready_def\<close>)
  have rdy: "widen (pending Q) AND 2 ^ nat (i - 1) \<noteq> 0" "widen (nmask Q) AND 2 ^ nat (i - 1) = 0"
    using i widen_test [of "nat (i - 1)"] by (auto simp: ready_def)
  have "NOTIFICATION_POP ?k2 ?q i = y" using pop [rule_format, of ?k2 l] by simp
  then have scan: "y = Fault e \<Longrightarrow> dispatch_scan ?k2 c ?q u (i # js) = Fault e" "y = NoReturn \<Longrightarrow> dispatch_scan ?k2 c ?q u (i # js) = NoReturn"
    using rdy i(1,2) by (simp_all add: mask_valid)
  have "pending Q \<noteq> 0" using i(3) by (auto simp: ready_def)
  then have "notification_dispatch F A k c = dispatch_scan ?k2 c ?q u (i # js)"
    using C Q l u sk unfolding notification_dispatch_def Let_def js by (simp add: get_ucontext_def)
  with scan show "y = Fault e \<Longrightarrow> notification_dispatch F A k c = Fault e" "y = NoReturn \<Longrightarrow> notification_dispatch F A k c = NoReturn" by simp_all
qed

lemma dispatch_delivers:
  assumes laws: "fayt_laws F"
    and C: "c \<noteq> NULL" "contexts k c = Some C" "nqueue C \<noteq> NULL" "length (actions C) = NOTIFICATION_MAX"
    and Q: "queues k (nqueue C) = Some Q" "active Q" "lock_free F (queue_lock Q)"
    and i: "2 \<le> i" "i \<le> 64" "ready Q i" "\<And>j. 1 \<le> j \<Longrightarrow> j < i \<Longrightarrow> \<not> ready Q j"
    and n: "chain (notifications k) (slots Q ! nat (i - 1)) [n]" "notifications k n = Some N" "n_last N = NULL"
      "notifications k NULL = None"
    and u: "find_inactive (uctxs k) (ucontexts C) 0 = Ret (Some (x, u))" "u \<noteq> NULL" "uctxs k u = Some U"
      "of_nat x \<noteq> (- 1 :: s32)"
    and ust: "find_ustack (ustacks k) (stacks C) = Some (Ret ust)" "ust \<noteq> NULL" "ustacks k ust = Some S"
  shows "\<exists>k'. notification_dispatch F A k c = Ret (0, k') \<and>
    contexts k' c = Some (C\<lparr>ucontext_idx := of_nat x, ucontext := u\<rparr>) \<and>
    uctxs k' u = Some (U\<lparr>ucontext_stack := ust,
      ucontext_regs := (ucontext_regs U)\<lparr>ss := 0x3b, rsp := sp (uuser_stack S), rflags := 0x202, cs := 0x43,
        rip := action_handler (actions C ! nat (i - 1)), rdi := info N, rsi := share_vaddr N,
        rdx := of_int (i + 1)\<rparr>,
      ucontext_active := 1\<rparr>)"
proof -
  let ?q = "nqueue C"
  obtain l where l: "spinlock F (queue_lock Q) = Some l" using Q(3) by (auto simp: lock_free_iff)
  let ?Q = "Q\<lparr>queue_lock := l\<rparr>" and ?C = "C\<lparr>ucontext_idx := of_nat x\<rparr>"
  let ?k1 = "k\<lparr>queues := (queues k)(?q \<mapsto> ?Q)\<rparr>"
  let ?k2 = "?k1\<lparr>contexts := (contexts k)(c \<mapsto> ?C)\<rparr>"
  let ?Q3 = "?Q\<lparr>pending := narrow (widen (pending ?Q) AND NOT (2 ^ nat (i - 2)))\<rparr>"
  let ?k3 = "?k2\<lparr>queues := (queues ?k2)(?q \<mapsto> ?Q3)\<rparr>"
  obtain js where js: "map int [1..<Suc NOTIFICATION_MAX] = map int [1..<nat i] @ i # js"
    using scan_split [of i] i by auto
  have sk: "dispatch_scan ?k2 c ?q u (map int [1..<nat i] @ i # js) = dispatch_scan ?k2 c ?q u (i # js)"
    by (rule dispatch_scan_skip [of _ _ ?Q]) (use i(2) i(4) in \<open>auto simp: ready_def\<close>)
  have pop: "NOTIFICATION_POP ?k2 ?q i = Ret (0, n, ?k3)"
    using pop_cases(3) [of ?q ?k2 ?Q i n N] C n i by simp
  have rdy: "widen (pending Q) AND 2 ^ nat (i - 1) \<noteq> 0" "widen (nmask Q) AND 2 ^ nat (i - 1) = 0"
    using i widen_test [of "nat (i - 1)"] by (auto simp: ready_def)
  have nn: "n \<noteq> NULL" using n(1) by simp
  have i1: "1 \<le> i" using i(1) by simp
  obtain k4 where del: "deliver ?k3 c u ust n i = Ret k4" "contexts k4 c = Some (?C\<lparr>ucontext := u\<rparr>)"
    "uctxs k4 u = Some (U\<lparr>ucontext_stack := ust,
      ucontext_regs := (ucontext_regs U)\<lparr>ss := 0x3b, rsp := sp (uuser_stack S), rflags := 0x202, cs := 0x43,
        rip := action_handler (actions ?C ! nat (i - 1)), rdi := info N, rsi := share_vaddr N,
        rdx := of_int (i + 1)\<rparr>, ucontext_active := 1\<rparr>)"
    using deliver_spec [of ?k3 c ?C u U ust S n N i, OF _ _ _ _ _ i1 i(2)] C(4) u(3) ust(3) n(2) by auto
  have scan: "dispatch_scan ?k2 c ?q u (i # js) = Ret (0, k4)"
    using rdy pop nn ust del(1) i by (simp add: mask_valid)
  have "pending Q \<noteq> 0" using i(3) by (auto simp: ready_def)
  then have "notification_dispatch F A k c = Ret (0, k4)"
    using C Q l u scan sk unfolding notification_dispatch_def Let_def js
    by (simp add: get_ucontext_def)
  moreover have "actions ?C = actions C" by simp
  ultimately show ?thesis using del by metis
qed

section \<open>A concrete kernel\<close>

text \<open>One context with its queue, one queued notification (number 2), one stack and one user context.\<close>

definition demo_notification :: notification where
  "demo_notification = \<lparr>refcnt = 1, notnum = 2, share_vaddr = 0x7000, share_paddr = 0, share_page_cnt = 1,
     info = 0x60, notification_queue_of = 0x20, n_next = 0, n_last = 0\<rparr>"

definition demo_queue :: "bool notification_queue" where
  "demo_queue = \<lparr>slots = (replicate 64 0)[1 := 0x30], nmask = 0, active = True, pending = 2, delivered = 0,
     queue_lock = False\<rparr>"

definition demo_stack :: stack where
  "demo_stack = \<lparr>sp = 0x30000, stack_size = 0x10000, stack_flags = 0\<rparr>"

definition demo_ustack :: ustack where
  "demo_ustack = \<lparr>ukernel_stack = demo_stack, uuser_stack = demo_stack, ustack_active = 0, ustack_next = 0\<rparr>"

definition demo_ucontext :: ucontext where
  "demo_ucontext = \<lparr>ucontext_stack = 0, ucontext_regs = zero_registers, ucontext_fpu = 0, ucontext_active = 0\<rparr>"

definition demo_context :: "bool kcontext" where
  "demo_context = \<lparr>user_gs_base = 0, user_fs_base = 0, kernel_stack = demo_stack, user_stack = demo_stack,
     stacks = 0x40, actions = (replicate 64 \<lparr>action_handler = 0\<rparr>)[1 := \<lparr>action_handler = 0x401000\<rparr>],
     nqueue = 0x20, ucontexts = [0x50], ucontext = 0, ucontext_idx = 0, notification_lock = False,
     namespace = '''', server = '''', cid = 1, sysperm = 0, page_table_of = 0, regs = zero_registers,
     fpu_context = 0\<rparr>"

definition demo_kernel :: "bool kernel" where
  "demo_kernel = \<lparr>mem = demo 64, contexts = [0x10 \<mapsto> demo_context], queues = [0x20 \<mapsto> demo_queue],
     notifications = [0x30 \<mapsto> demo_notification], ustacks = [0x40 \<mapsto> demo_ustack],
     uctxs = [0x50 \<mapsto> demo_ucontext],
     core = \<lparr>core_error = 0, scheduling_server = 0, thread_queue = [], delivery_stack = [],
       current_context = 0x10\<rparr>\<rparr>"

lemmas demo_kernel_defs = demo_kernel_def demo_context_def demo_queue_def demo_notification_def
  demo_ustack_def demo_ucontext_def demo_stack_def

lemma demo_lock_free: "lock_free fayt_ref False"
  by (simp add: lock_free_def fayt_ref_def)

lemma find_ustack_free: "p \<noteq> NULL \<Longrightarrow> h p = Some S \<Longrightarrow> ustack_active S = 0 \<Longrightarrow> find_ustack h p = Some (Ret p)"
  by (subst find_ustack.simps) simp

lemma demo_not_ready: "1 \<le> j \<Longrightarrow> j < 2 \<Longrightarrow> \<not> ready demo_queue j"
proof -
  assume "1 \<le> j" "j < 2"
  then have "j = 1" by simp
  then show ?thesis by (simp add: ready_def demo_queue_def)
qed

lemma demo_free_stack: "find_ustack (ustacks demo_kernel) (stacks demo_context) = Some (Ret 0x40)"
  using find_ustack_free [of "0x40" "ustacks demo_kernel" demo_ustack] by (simp add: demo_kernel_defs)

lemma demo_dispatch: "\<exists>k'. notification_dispatch fayt_ref (slab_ref 0x70) demo_kernel 0x10 = Ret (0, k')"
  using dispatch_delivers [OF fayt_laws_ref, of "0x10" demo_kernel demo_context demo_queue 2
      "0x30" demo_notification 0 "0x50" demo_ucontext "0x40" demo_ustack "slab_ref 0x70"] demo_not_ready demo_free_stack
  by (auto simp: demo_kernel_defs ready_def lock_free_def fayt_ref_def)

section \<open>Properties\<close>

text \<open>The validity test of \<^verbatim>\<open>notification_send\<close> is inverted: a valid number is refused without any
  effect, and an invalid one goes on to index the queue out of bounds.\<close>

theorem notification_send_inverted:
  assumes "contexts k target = Some T" "nqueue T \<noteq> NULL" "queues k (nqueue T) = Some Q"
    and "alloc_addr A k \<noteq> NULL" "sender \<noteq> NULL" "target \<noteq> NULL"
  shows "notification_send A yield k sender target n weight =
    (if 1 \<le> sint n \<and> sint n \<le> 64 then Ret (- 1, k) else Fault OutOfBounds)"
  using send_valid_rejected [of n A yield k sender target weight]
    send_invalid_faults [of n sender target k T Q A yield weight] assms by auto

theorem notification_send_inverted_witness:
  "notification_send (slab_ref 0x70) Ret demo_kernel 0x10 0x10 3 0 = Ret (- 1, demo_kernel) \<and>
   notification_send (slab_ref 0x70) Ret demo_kernel 0x10 0x10 65 0 = Fault OutOfBounds"
  using notification_send_inverted [of demo_kernel "0x10" demo_context demo_queue "slab_ref 0x70" "0x10" Ret 3 0]
    notification_send_inverted [of demo_kernel "0x10" demo_context demo_queue "slab_ref 0x70" "0x10" Ret 65 0]
  by (simp add: demo_kernel_def demo_context_def slab_ref_def)

text \<open>C30. \<^verbatim>\<open>NOTIFICATION_PUSH\<close> puts the notification at the head of its slot's linked list, keeps every
  other list of the queue and raises its pending bit; the bit exists only for numbers up to 32, since
  \<^verbatim>\<open>pending\<close> is an \<^verbatim>\<open>int\<close>.\<close>

theorem notification_push_refines:
  assumes "q \<noteq> NULL" "queues k q = Some Q" "length (slots Q) = NOTIFICATION_MAX"
    and "n \<noteq> NULL" "notifications k n = Some N" "n_next N = NULL" "i = nat (sint (notnum N) - 1)"
    and "1 \<le> sint (notnum N)" "sint (notnum N) \<le> 64"
    and "chain (notifications k) (slots Q ! i) xs" "n \<notin> set xs"
  shows "\<exists>k' Q'. NOTIFICATION_PUSH k q n = Ret (0, k') \<and> queues k' = (queues k)(q \<mapsto> Q') \<and>
    slots Q' = (slots Q)[i := n] \<and> chain (notifications k') n (n # xs) \<and>
    (\<forall>p ys. chain (notifications k) p ys \<longrightarrow> n \<notin> set ys \<longrightarrow> chain (notifications k') p ys) \<and>
    (\<forall>j<32. bit (pending Q') j = (bit (pending Q) j \<or> j = i))"
  using push_correct [of q k Q n N xs] assms by blast

theorem notification_push_refines_witness:
  "\<exists>k'. NOTIFICATION_PUSH (demo_kernel\<lparr>notifications := [0x30 \<mapsto> demo_notification, 0x31 \<mapsto> demo_notification]\<rparr>)
      0x20 0x31 = Ret (0, k') \<and> chain (notifications k') 0x31 [0x31, 0x30]"
  using notification_push_refines [of "0x20"
      "demo_kernel\<lparr>notifications := [0x30 \<mapsto> demo_notification, 0x31 \<mapsto> demo_notification]\<rparr>"
      demo_queue "0x31" demo_notification 1 "[0x30]"]
  by (auto simp: demo_kernel_defs)

text \<open>\<^verbatim>\<open>NOTIFICATION_POP\<close> on a slot with two or more notifications never returns (its loop does not
  move), and on an empty slot it dereferences null.\<close>

theorem notification_pop_stuck:
  assumes "q \<noteq> NULL" "queues k q = Some Q" "1 \<le> i" "i \<le> 64" "notifications k NULL = None"
    and "chain (notifications k) (slots Q ! nat (i - 1)) xs" "length xs \<noteq> 1"
  shows "NOTIFICATION_POP k q i = (if xs = [] then Fault NullDeref else NoReturn)"
proof (cases xs)
  case Nil
  then show ?thesis using pop_cases(1) [OF assms(1-5)] assms(6) by simp
next
  case (Cons x ys)
  then obtain y zs where "xs = x # y # zs" using assms(7) by (cases ys) auto
  then show ?thesis using pop_cases(2) [OF assms(1-5), of x y zs] assms(6) by simp
qed

theorem notification_pop_stuck_witness:
  "NOTIFICATION_POP (demo_kernel\<lparr>notifications :=
     [0x30 \<mapsto> demo_notification\<lparr>n_next := 0x31\<rparr>, 0x31 \<mapsto> demo_notification]\<rparr>) 0x20 2 = NoReturn"
  using notification_pop_stuck [of "0x20" "demo_kernel\<lparr>notifications :=
     [0x30 \<mapsto> demo_notification\<lparr>n_next := 0x31\<rparr>, 0x31 \<mapsto> demo_notification]\<rparr>" demo_queue 2 "[0x30, 0x31]"]
  by (simp add: demo_kernel_defs)

text \<open>C29. \<^verbatim>\<open>notification_dispatch\<close>, when a number is pending and not masked, the queue is active and unlocked, and the context
  has a free user context and a free stack, takes the least such number \<open>i\<close>, and what follows depends on the chain of
  notifications in its slot. With exactly one notification in it and \<open>2 \<le> i\<close> the user context is set up to enter the action of
  that number on that stack and becomes the context's current one; the number passed to the handler is one too high. With
  one notification for number 1 the pop shifts by -1; with more than one its loop does not end; with none it reads
  through a null pointer.\<close>

theorem notification_dispatch_delivers:
  assumes "fayt_laws F" "c \<noteq> NULL" "contexts k c = Some C" "nqueue C \<noteq> NULL" "length (actions C) = NOTIFICATION_MAX"
    and "queues k (nqueue C) = Some Q" "active Q" "lock_free F (queue_lock Q)"
    and "1 \<le> i" "i \<le> 64" "ready Q i" "\<And>j. 1 \<le> j \<Longrightarrow> j < i \<Longrightarrow> \<not> ready Q j"
    and "chain (notifications k) (slots Q ! nat (i - 1)) ns" "\<forall>n N. ns = [n] \<longrightarrow> notifications k n = Some N \<longrightarrow> n_last N = NULL"
    and "notifications k NULL = None"
    and "find_inactive (uctxs k) (ucontexts C) 0 = Ret (Some (x, u))" "u \<noteq> NULL" "uctxs k u = Some U"
    and "of_nat x \<noteq> (- 1 :: s32)"
    and "find_ustack (ustacks k) (stacks C) = Some (Ret ust)" "ust \<noteq> NULL" "ustacks k ust = Some S"
  shows "case ns of
      [] \<Rightarrow> notification_dispatch F A k c = Fault NullDeref
    | [n] \<Rightarrow> if i = 1 then notification_dispatch F A k c = Fault BadShift
        else \<exists>k' C' U' N. notification_dispatch F A k c = Ret (0, k') \<and> contexts k' c = Some C' \<and> ucontext C' = u \<and>
          uctxs k' u = Some U' \<and> ucontext_active U' = 1 \<and> ucontext_stack U' = ust \<and>
          rip (ucontext_regs U') = action_handler (actions C ! nat (i - 1)) \<and>
          rsp (ucontext_regs U') = sp (uuser_stack S) \<and> notifications k n = Some N \<and> rdi (ucontext_regs U') = info N \<and>
          rdx (ucontext_regs U') = of_int (i + 1)
    | _ \<Rightarrow> notification_dispatch F A k c = NoReturn"
proof -
  have least: "\<forall>j. 1 \<le> j \<longrightarrow> j < i \<longrightarrow> \<not> ready Q j" using assms(12) by blast
  note fails = dispatch_pop_fails [OF assms(2-4,6-11) least assms(16,17,19)]
  consider "ns = []" | n where "ns = [n]" "i = 1" | n where "ns = [n]" "2 \<le> i" | a b ms where "ns = a # b # ms"
    using assms(9) by (cases ns rule: remdups_adj.cases) force+
  then show ?thesis
  proof cases
    case 1
    have p: "NOTIFICATION_POP k' (nqueue C) i = Fault NullDeref"
      if "notifications k' = notifications k" "queues k' (nqueue C) = Some (Q\<lparr>queue_lock := l\<rparr>)" for k' l
      using pop_cases(1) [OF assms(4) that(2) assms(9,10)] that(1) assms(13,15) 1 by simp
    have "notification_dispatch F A k c = Fault NullDeref" by (rule fails(1)) (use p in auto)
    then show ?thesis using 1 by simp
  next
    case (2 n)
    then obtain N where N: "notifications k n = Some N" "n_last N = NULL" using assms(13,14) by auto
    have p: "NOTIFICATION_POP k' (nqueue C) i = Fault BadShift"
      if "notifications k' = notifications k" "queues k' (nqueue C) = Some (Q\<lparr>queue_lock := l\<rparr>)" for k' l
      using pop_cases(4) [OF assms(4) that(2) assms(9,10) _ _ _ N(2) 2(2)] that(1) assms(13,15) 2(1) N(1) by simp
    have "notification_dispatch F A k c = Fault BadShift" by (rule fails(1)) (use p in auto)
    then show ?thesis using 2 by simp
  next
    case (3 n)
    then obtain N where N: "notifications k n = Some N" "n_last N = NULL" using assms(13,14) by auto
    obtain k' where d: "notification_dispatch F A k c = Ret (0, k')"
      "contexts k' c = Some (C\<lparr>ucontext_idx := of_nat x, ucontext := u\<rparr>)"
      "uctxs k' u = Some (U\<lparr>ucontext_stack := ust,
        ucontext_regs := (ucontext_regs U)\<lparr>ss := 0x3b, rsp := sp (uuser_stack S), rflags := 0x202, cs := 0x43,
          rip := action_handler (actions C ! nat (i - 1)), rdi := info N, rsi := share_vaddr N,
          rdx := of_int (i + 1)\<rparr>, ucontext_active := 1\<rparr>)"
      using dispatch_delivers [OF assms(1-8) 3(2) assms(10-12) assms(13) [unfolded 3(1)] N assms(15-22)] by blast
    have "notification_dispatch F A k c = Ret (0, k') \<and> contexts k' c = Some C' \<and> uctxs k' u = Some U' \<Longrightarrow>
        ucontext C' = u \<and> ucontext_active U' = 1 \<and> ucontext_stack U' = ust \<and>
        rip (ucontext_regs U') = action_handler (actions C ! nat (i - 1)) \<and> rsp (ucontext_regs U') = sp (uuser_stack S) \<and>
        rdi (ucontext_regs U') = info N \<and> rdx (ucontext_regs U') = of_int (i + 1)" for C' U'
      using d(2,3) by auto
    then show ?thesis using d 3 N(1) by simp
  next
    case (4 a b ms)
    have p: "NOTIFICATION_POP k' (nqueue C) i = NoReturn"
      if "notifications k' = notifications k" "queues k' (nqueue C) = Some (Q\<lparr>queue_lock := l\<rparr>)" for k' l
      by (rule pop_cases(2) [OF assms(4) that(2) assms(9,10), of a b ms]) (use that(1) assms(13,15) 4 in simp_all)
    have "notification_dispatch F A k c = NoReturn" by (rule fails(2)) (use p in auto)
    then show ?thesis using 4 by simp
  qed
qed

theorem notification_dispatch_delivers_witness:
  "(\<exists>k' U'. notification_dispatch fayt_ref (slab_ref 0x70) demo_kernel 0x10 = Ret (0, k') \<and>
     uctxs k' 0x50 = Some U' \<and> rip (ucontext_regs U') = 0x401000 \<and> rdx (ucontext_regs U') = 3) \<and>
   notification_dispatch fayt_ref (slab_ref 0x70) (demo_kernel\<lparr>queues :=
     [0x20 \<mapsto> demo_queue\<lparr>slots := (replicate 64 0)[0 := 0x30], pending := 1\<rparr>]\<rparr>) 0x10 = Fault BadShift"
proof
  show "\<exists>k' U'. notification_dispatch fayt_ref (slab_ref 0x70) demo_kernel 0x10 = Ret (0, k') \<and>
     uctxs k' 0x50 = Some U' \<and> rip (ucontext_regs U') = 0x401000 \<and> rdx (ucontext_regs U') = 3"
    using notification_dispatch_delivers [OF fayt_laws_ref, of "0x10" demo_kernel demo_context demo_queue 2
      "[0x30]" 0 "0x50" demo_ucontext "0x40" demo_ustack "slab_ref 0x70"] demo_not_ready demo_free_stack
    by (auto simp: demo_kernel_defs ready_def lock_free_def fayt_ref_def)
  show "notification_dispatch fayt_ref (slab_ref 0x70) (demo_kernel\<lparr>queues :=
     [0x20 \<mapsto> demo_queue\<lparr>slots := (replicate 64 0)[0 := 0x30], pending := 1\<rparr>]\<rparr>) 0x10 = Fault BadShift"
    using notification_dispatch_delivers [OF fayt_laws_ref, of "0x10" "demo_kernel\<lparr>queues :=
      [0x20 \<mapsto> demo_queue\<lparr>slots := (replicate 64 0)[0 := 0x30], pending := 1\<rparr>]\<rparr>" demo_context
      "demo_queue\<lparr>slots := (replicate 64 0)[0 := 0x30], pending := 1\<rparr>" 1
      "[0x30]" 0 "0x50" demo_ucontext "0x40" demo_ustack "slab_ref 0x70"] demo_free_stack
    by (auto simp: demo_kernel_defs ready_def lock_free_def fayt_ref_def)
qed

text \<open>A dispatch that succeeds keeps the queue's lock: the next dispatch to the same context never
  returns.\<close>

theorem notification_dispatch_deadlocks:
  assumes "fayt_laws F" "notification_dispatch F A k c = Ret (0, k')"
  shows "notification_dispatch F A' k' c = NoReturn"
  using dispatch_again [OF assms] .

theorem notification_dispatch_deadlocks_witness:
  "\<exists>k'. notification_dispatch fayt_ref (slab_ref 0x70) demo_kernel 0x10 = Ret (0, k') \<and>
     notification_dispatch fayt_ref (slab_ref 0x70) k' 0x10 = NoReturn"
  using demo_dispatch notification_dispatch_deadlocks [OF fayt_laws_ref] by blast

text \<open>\<^verbatim>\<open>notification_action\<close> stores the action for number \<open>n\<close> at index \<open>n\<close>, one beyond the index
  that dispatch reads: 64 is out of bounds, and for any other number the action that dispatch would
  enter for it stays the old one.\<close>

theorem notification_action_off_by_one:
  assumes "c = current_context (core k)" "c \<noteq> NULL" "contexts k c = Some C" "lock_free F (notification_lock C)"
    and "length (actions C) = NOTIFICATION_MAX" "1 \<le> sint n" "sint n \<le> 64"
  shows "if sint n = 64 then syscall_notification_action F k n (Some a) b = Fault OutOfBounds
    else \<exists>old k' C'. syscall_notification_action F k n (Some a) b = Ret (0, old, k') \<and>
      contexts k' c = Some C' \<and> actions C' ! nat (sint n) = a \<and>
      actions C' ! nat (sint n - 1) = actions C ! nat (sint n - 1)"
proof -
  obtain l where "spinlock F (notification_lock C) = Some l" using assms(4) by (auto simp: lock_free_iff)
  then show ?thesis
    using assms by (auto simp: syscall_notification_action_def notification_is_valid_def Let_def nat_eq_iff)
qed

theorem notification_action_off_by_one_witness:
  "syscall_notification_action fayt_ref demo_kernel 64 (Some \<lparr>action_handler = 5\<rparr>) False = Fault OutOfBounds"
  using notification_action_off_by_one [of "0x10" demo_kernel demo_context fayt_ref 64 "\<lparr>action_handler = 5\<rparr>" False]
  by (simp add: demo_kernel_def demo_context_def lock_free_def fayt_ref_def)

lemma define_stack_memory:
  assumes "fayt_laws F" "pmm_inv F s"
  shows "\<exists>a s'. pmm_alloc F s (DIV_ROUNDUP F CONTEXT_DEFAULT_STACK_SIZE PAGE_SIZE) 1 = Ret (a, s') \<and> pmm_inv F s'"
proof -
  have "unat (DIV_ROUNDUP F CONTEXT_DEFAULT_STACK_SIZE PAGE_SIZE) = 16"
    using DIV_ROUNDUP_exact [OF assms(1), of PAGE_SIZE CONTEXT_DEFAULT_STACK_SIZE] by simp
  then show ?thesis
    using pmm_alloc_correct [OF assms, of "DIV_ROUNDUP F CONTEXT_DEFAULT_STACK_SIZE PAGE_SIZE" 0] by (auto simp: alloc_post_def)
qed

text \<open>\<^verbatim>\<open>notification_define_stack\<close> gives the current context a free stack on fresh kernel memory: it
  keeps the allocator's invariant, and a dispatch that looks for a stack finds the new one.\<close>

theorem notification_define_stack_available:
  assumes "fayt_laws F" "slab_laws A k" "pmm_inv F (mem k)" "c = current_context (core k)" "c \<noteq> NULL"
    and "contexts k c = Some C"
  shows "\<exists>k' C' S. syscall_notification_define_stack F A k user_sp user_size = Ret (0, k') \<and>
    pmm_inv F (mem k') \<and> contexts k' c = Some C' \<and>
    find_ustack (ustacks k') (stacks C') = Some (Ret (stacks C')) \<and> ustacks k' (stacks C') = Some S \<and>
    sp (uuser_stack S) = user_sp \<and> ustack_next S = stacks C"
proof -
  obtain a s where al: "pmm_alloc F (mem k) (DIV_ROUNDUP F CONTEXT_DEFAULT_STACK_SIZE PAGE_SIZE) 1 = Ret (a, s)"
    "pmm_inv F s" using define_stack_memory [OF assms(1,3)] by blast
  have p: "alloc_addr A k \<noteq> NULL" using assms(2) by (simp add: slab_laws_def used_def)
  show ?thesis
    using assms al p
    by (simp add: syscall_notification_define_stack_def Let_def find_ustack_free)
qed

lemma demo_unused: "\<not> used demo_kernel 0x70"
  by (simp add: used_def demo_kernel_def)

theorem notification_define_stack_available_witness:
  "\<exists>k' C'. syscall_notification_define_stack fayt_ref (slab_ref 0x70) demo_kernel 0x90000 0x4000 = Ret (0, k') \<and>
     contexts k' 0x10 = Some C' \<and> find_ustack (ustacks k') (stacks C') = Some (Ret (stacks C'))"
proof -
  have "pmm_inv fayt_ref (mem demo_kernel)" using demo_inv [of 64] by (simp add: demo_kernel_def)
  moreover have "0x10 = current_context (core demo_kernel)" "contexts demo_kernel 0x10 = Some demo_context"
    by (simp_all add: demo_kernel_def)
  moreover have "(0x10 :: ptr) \<noteq> NULL" by simp
  ultimately show ?thesis
    using notification_define_stack_available [OF fayt_laws_ref slab_laws_ref [OF demo_unused], of "0x10" demo_context
        "0x90000" "0x4000"] by blast
qed

text \<open>Muting: after \<^verbatim>\<open>notification_mute\<close> a dispatch to the context returns \<^verbatim>\<open>-1\<close> and changes nothing,
  whatever is pending, until \<^verbatim>\<open>notification_unmute\<close>, which restores the queue as it was.\<close>

theorem notification_mute_blocks:
  assumes "c = current_context (core k)" "c \<noteq> NULL" "contexts k c = Some C" "nqueue C \<noteq> NULL"
    and "queues k (nqueue C) = Some Q" "active Q"
  shows "\<exists>k'. syscall_notification_mute k = Ret (0, k') \<and> notification_dispatch F A k' c = Ret (- 1, k') \<and>
    syscall_notification_unmute k' = Ret (0, k)"
proof -
  let ?k = "k\<lparr>queues := (queues k)(nqueue C \<mapsto> Q\<lparr>active := False\<rparr>)\<rparr>"
  have m: "syscall_notification_mute k = Ret (0, ?k)"
    using assms by (simp add: syscall_notification_mute_def set_active_def Let_def)
  have d: "notification_dispatch F A ?k c = Ret (- 1, ?k)"
    using assms by (simp add: notification_dispatch_def Let_def)
  have "syscall_notification_unmute ?k = Ret (0, k\<lparr>queues := (queues k)(nqueue C \<mapsto> Q\<lparr>active := True\<rparr>)\<rparr>)"
    using assms by (simp add: syscall_notification_unmute_def set_active_def Let_def)
  moreover have "Q\<lparr>active := True\<rparr> = Q" using assms(6) by (cases Q) simp
  then have "(queues k)(nqueue C \<mapsto> Q\<lparr>active := True\<rparr>) = queues k" using assms(5) by auto
  ultimately have "syscall_notification_unmute ?k = Ret (0, k)" by simp
  then show ?thesis using m d by blast
qed

theorem notification_mute_blocks_witness:
  "\<exists>k'. syscall_notification_mute demo_kernel = Ret (0, k') \<and>
     notification_dispatch fayt_ref (slab_ref 0x70) k' 0x10 = Ret (- 1, k')"
  using notification_mute_blocks [of "0x10" demo_kernel demo_context demo_queue fayt_ref "slab_ref 0x70"]
  by (auto simp: demo_kernel_def demo_context_def demo_queue_def)

end
