(* ===== verification/Vmm.thy ===== *)
theory Vmm
  imports Paging
begin

unbundle bit_operations_syntax

text \<open>
  Address-space operations, \<^verbatim>\<open>kernel/core/virtual.c\<close>: mapping a range onto fresh frames, unmapping a
  range, and the default table every address space starts from. The loops take the allocator and the
  page table's \<^verbatim>\<open>map_page\<close> as arguments, so that their lemmas are proved against the interface
  \<open>page_mapper\<close>. The hash table of \<^verbatim>\<open>page_table->pages\<close> belongs to the demand-paging component and is
  not a field here, so the allocation of that table in \<^verbatim>\<open>vmm_default_table\<close> (\<^verbatim>\<open>virtual.c:25\<close>), which has no effect on the
  address space, is left out.
\<close>

section \<open>Operations\<close>

type_synonym 'l map_fn =
  "'l kstate \<Rightarrow> 'l page_table \<Rightarrow> u64 \<Rightarrow> u64 \<Rightarrow> u64 \<Rightarrow> (u64 option \<times> 'l page_table \<times> 'l kstate) outcome"

fun map_range_loop ::
  "('l kstate \<Rightarrow> (u64 \<times> 'l kstate) outcome) \<Rightarrow> 'l map_fn \<Rightarrow> 'l kstate \<Rightarrow> 'l page_table \<Rightarrow>
   u64 \<Rightarrow> nat \<Rightarrow> u64 \<Rightarrow> u64 \<Rightarrow> ('l page_table \<times> 'l kstate) outcome" where
  "map_range_loop alloc mapp s pt vaddr 0 flags step = Ret (pt, s)"
| "map_range_loop alloc mapp s pt vaddr (Suc n) flags step =
     obind (alloc s) (\<lambda>(a, s).
     obind (mapp s pt vaddr a flags) (\<lambda>(_, pt, s).
     map_range_loop alloc mapp s pt (vaddr + step) n flags step))"

definition vmm_map_range ::
  "'l fayt \<Rightarrow> 'l kstate \<Rightarrow> 'l page_table \<Rightarrow> u64 \<Rightarrow> u64 \<Rightarrow> u64 \<Rightarrow> ('l page_table \<times> 'l kstate) outcome" where
  "vmm_map_range F s pt vaddr cnt flags =
     (if flags AND X86_FLAGS_PS \<noteq> 0
      then map_range_loop (\<lambda>s. pmm_alloc F s 1 0x200) (map_page F) s pt vaddr (unat cnt) flags 0x200000
      else map_range_loop (\<lambda>s. pmm_alloc F s 1 1) (map_page F) s pt vaddr (unat cnt) flags 0x1000)"

fun unmap_range_loop ::
  "('l kstate \<Rightarrow> 'l page_table \<Rightarrow> u64 \<Rightarrow> (u64 \<times> 'l page_table \<times> 'l kstate) outcome) \<Rightarrow>
   'l kstate \<Rightarrow> 'l page_table \<Rightarrow> u64 \<Rightarrow> nat \<Rightarrow> ('l page_table \<times> 'l kstate) outcome" where
  "unmap_range_loop unmapp s pt vaddr 0 = Ret (pt, s)"
| "unmap_range_loop unmapp s pt vaddr (Suc n) =
     obind (unmapp s pt vaddr) (\<lambda>(page_size, pt, s).
     if page_size = 0 then Ret (pt, s)
     else unmap_range_loop unmapp s pt (vaddr + page_size) n)"

definition vmm_unmap_range ::
  "'l fayt \<Rightarrow> 'l kstate \<Rightarrow> 'l page_table \<Rightarrow> u64 \<Rightarrow> u64 \<Rightarrow> ('l page_table \<times> 'l kstate) outcome" where
  "vmm_unmap_range F s pt vaddr cnt = unmap_range_loop (unmap_page F) s pt vaddr (unat cnt)"

text \<open>The three loops of \<^verbatim>\<open>vmm_default_table\<close> map consecutive pages onto consecutive frames.\<close>

fun map_linear ::
  "'l map_fn \<Rightarrow> 'l kstate \<Rightarrow> 'l page_table \<Rightarrow> u64 \<Rightarrow> u64 \<Rightarrow> nat \<Rightarrow> u64 \<Rightarrow> u64 \<Rightarrow>
   ('l page_table \<times> 'l kstate) outcome" where
  "map_linear mapp s pt vaddr paddr 0 flags step = Ret (pt, s)"
| "map_linear mapp s pt vaddr paddr (Suc n) flags step =
     obind (mapp s pt vaddr paddr flags) (\<lambda>(_, pt, s).
     map_linear mapp s pt (vaddr + step) (paddr + step) n flags step)"

fun map_memmap ::
  "'l fayt \<Rightarrow> 'l kstate \<Rightarrow> 'l page_table \<Rightarrow> limine_memmap_entry list \<Rightarrow> u64 \<Rightarrow>
   ('l page_table \<times> 'l kstate) outcome" where
  "map_memmap F s pt [] flags = Ret (pt, s)"
| "map_memmap F s pt (e # es) flags =
     (let phys = (me_base e div 0x200000) * 0x200000 in
      obind (map_linear (map_page F) s pt (phys + HIGH_VMA s) phys
               (unat (DIV_ROUNDUP F (me_length e) 0x200000)) flags 0x200000) (\<lambda>(pt, s).
      map_memmap F s pt es flags))"

record boot_info =
  virtual_base :: u64
  physical_base :: u64
  memmap :: "limine_memmap_entry list"
  cpuid_7_rcx :: u64

definition vmm_default_table ::
  "'l fayt \<Rightarrow> boot_info \<Rightarrow> 'l kstate \<Rightarrow> 'l page_table \<Rightarrow> ('l page_table \<times> 'l kstate) outcome" where
  "vmm_default_table F B s pt =
     (let small = X86_FLAGS_P OR X86_FLAGS_RW OR X86_FLAGS_G OR X86_FLAGS_US;
          big = X86_FLAGS_P OR X86_FLAGS_RW OR X86_FLAGS_PS OR X86_FLAGS_G OR X86_FLAGS_US
      in obind (pmm_alloc F s 1 1) (\<lambda>(a, s).
         let pt = pt\<lparr>ops := x86_paging_init (cpuid_7_rcx B), pmlt := a + HIGH_VMA s\<rparr> in
         obind (map_linear (map_page F) s pt (virtual_base B) (physical_base B) 0x6400 small 0x1000)
           (\<lambda>(pt, s).
         obind (map_linear (map_page F) s pt (HIGH_VMA s) 0 0x800 big 0x200000) (\<lambda>(pt, s).
         map_memmap F s pt (memmap B) big))))"

section \<open>Pages of a range\<close>

lemma unat_take_bit: "unat (take_bit k x) = unat x mod 2 ^ k" for x :: u64
  by (simp only: unsigned_take_bit_eq) (simp add: take_bit_eq_mod)

lemma unat_range_addr:
  "unat (v + of_nat i * 2 ^ k :: u64) mod 2 ^ b = (unat v + i * 2 ^ k) mod 2 ^ b" if "b \<le> 64" "k < 64"
proof -
  have d: "(2::nat) ^ b dvd 2 ^ 64" using that(1) by (rule le_imp_power_dvd)
  have "unat (of_nat i * 2 ^ k :: u64) = (i * 2 ^ k) mod 2 ^ 64"
    using unat_power_two [OF that(2)]
    by (simp add: unat_word_ariths unat_of_nat take_bit_eq_mod mod_mult_left_eq)
  then have "unat (v + of_nat i * 2 ^ k :: u64) = (unat v + i * 2 ^ k) mod 2 ^ 64"
    by (simp add: unat_word_ariths mod_add_right_eq)
  then show ?thesis using d by (simp add: mod_mod_cancel)
qed

lemma page_number_inj:
  fixes v :: u64
  assumes eq: "drop_bit k (take_bit b (v + of_nat i * 2 ^ k)) = drop_bit k (take_bit b (v + of_nat j * 2 ^ k))"
    and k: "k \<le> b" "b \<le> 64" "k < 64" and ij: "i < 2 ^ (b - k)" "j < 2 ^ (b - k)"
  shows "i = j"
proof -
  let ?x = "\<lambda>i. v + of_nat i * 2 ^ k"
  have low: "take_bit k (?x i) = take_bit k v" for i
  proof -
    have "unat (take_bit k (?x i)) = unat (take_bit k v)"
      using unat_range_addr [of k k v i] k by (simp add: unat_take_bit)
    then show ?thesis by (rule word_eq_of_unat)
  qed
  have split: "take_bit b (?x i) = push_bit k (drop_bit k (take_bit b (?x i))) + take_bit k v" for i
    using bits_ident [of k "take_bit b (?x i)"] low [of i] k by (simp add: min_def)
  have "take_bit b (?x i) = take_bit b (?x j)" by (subst (1 2) split) (simp add: eq)
  then have "unat (take_bit b (?x i)) = unat (take_bit b (?x j))" by simp
  then have "(unat v + i * 2 ^ k) mod 2 ^ b = (unat v + j * 2 ^ k) mod 2 ^ b"
    using unat_range_addr [OF k(2,3)] by (simp add: unat_take_bit)
  then have dvd: "int (2 ^ b) dvd int (unat v + i * 2 ^ k) - int (unat v + j * 2 ^ k)"
    by (metis mod_eq_dvd_iff zmod_int)
  have "(2 :: int) ^ b = 2 ^ (b - k) * 2 ^ k" using k(1) by (simp flip: power_add)
  then have "(2 :: int) ^ (b - k) * 2 ^ k dvd (int i - int j) * 2 ^ k"
    using dvd by (simp add: algebra_simps)
  then have "(2 :: int) ^ (b - k) dvd int i - int j" by simp
  moreover have "int i < int (2 ^ (b - k))" "int j < int (2 ^ (b - k))"
    using ij by (simp_all only: of_nat_less_iff)
  then have "\<bar>int i - int j\<bar> < \<bar>2 ^ (b - k)\<bar>" unfolding of_nat_power of_nat_numeral by linarith
  ultimately have "int i - int j = 0" using dvd_imp_le_int by (meson linorder_not_less)
  then show ?thesis by simp
qed

lemma vpn_inj:
  assumes "vpn m (v + of_nat i * 0x1000) = vpn m (v + of_nat j * 0x1000)" "i < 2 ^ 36" "j < 2 ^ 36"
  shows "i = j"
proof (rule page_number_inj [of 12 "12 + 9 * Suc (levels m)" v])
  have l: "36 \<le> 9 * Suc (levels m)" by (cases m) simp_all
  then have "(2::nat) ^ 36 \<le> 2 ^ (9 * Suc (levels m))" by (rule power_increasing) simp
  then show "i < 2 ^ (12 + 9 * Suc (levels m) - 12)" "j < 2 ^ (12 + 9 * Suc (levels m) - 12)"
    using assms(2,3) by simp_all
  show "12 + 9 * Suc (levels m) \<le> 64" by (cases m) simp_all
qed (use assms(1) in \<open>simp_all add: vpn_def\<close>)

lemma huge_vpn_inj:
  assumes "huge_vpn m (v + of_nat i * 0x200000) = huge_vpn m (v + of_nat j * 0x200000)"
    "i < 2 ^ 27" "j < 2 ^ 27"
  shows "i = j"
proof (rule page_number_inj [of 21 "12 + 9 * Suc (levels m)" v])
  have l: "36 \<le> 9 * Suc (levels m)" by (cases m) simp_all
  then have "(2::nat) ^ 27 \<le> 2 ^ (12 + 9 * Suc (levels m) - 21)" by (intro power_increasing) simp_all
  then show "i < 2 ^ (12 + 9 * Suc (levels m) - 21)" "j < 2 ^ (12 + 9 * Suc (levels m) - 21)"
    using assms(2,3) by simp_all
  show "12 + 9 * Suc (levels m) \<le> 64" "21 \<le> 12 + 9 * Suc (levels m)" by (cases m; simp)+
qed (use assms(1) in \<open>simp_all add: vpn_def huge_vpn_def\<close>)

section \<open>What the loops do to the translation\<close>

text \<open>The abstract address space is a map from addresses to entries; mapping a page overrides it.\<close>

definition map_view :: "(u64 \<Rightarrow> u64) \<Rightarrow> u64 \<Rightarrow> u64 \<Rightarrow> (u64 \<Rightarrow> u64 option) \<Rightarrow> u64 \<Rightarrow> u64 option" where
  "map_view page v e g = (\<lambda>w. if page w = page v then Some e else g w)"

primrec fresh_view ::
  "(u64 \<Rightarrow> u64) \<Rightarrow> u64 \<Rightarrow> u64 \<Rightarrow> u64 list \<Rightarrow> u64 \<Rightarrow> (u64 \<Rightarrow> u64 option) \<Rightarrow> u64 \<Rightarrow> u64 option" where
  "fresh_view page step f [] v g = g"
| "fresh_view page step f (a # as) v g = fresh_view page step f as (v + step) (map_view page v (a OR f) g)"

primrec linear_view ::
  "(u64 \<Rightarrow> u64) \<Rightarrow> u64 \<Rightarrow> u64 \<Rightarrow> nat \<Rightarrow> u64 \<Rightarrow> u64 \<Rightarrow> (u64 \<Rightarrow> u64 option) \<Rightarrow> u64 \<Rightarrow> u64 option" where
  "linear_view page step f 0 v p g = g"
| "linear_view page step f (Suc n) v p g =
     linear_view page step f n (v + step) (p + step) (map_view page v (p OR f) g)"

lemma aligned_not_huge: "4096 dvd unat a \<Longrightarrow> \<not> huge a"
  using aligned_bit [of a 7] by (simp add: huge_bit)

definition range_addr :: "u64 \<Rightarrow> u64 \<Rightarrow> nat \<Rightarrow> u64" where
  "range_addr v step i = v + of_nat i * step"

lemma range_addr_Suc: "range_addr (v + step) step i = range_addr v step (Suc i)"
  by (simp add: range_addr_def algebra_simps)

lemma range_addr_0 [simp]: "range_addr v step 0 = v"
  by (simp add: range_addr_def)

text \<open>No page of a range lies under a huge mapping.\<close>

definition small_range :: "(u64 \<Rightarrow> u64 option) \<Rightarrow> u64 \<Rightarrow> u64 \<Rightarrow> nat \<Rightarrow> bool" where
  "small_range g v step n \<longleftrightarrow> (\<forall>i<n. \<forall>e. g (range_addr v step i) = Some e \<longrightarrow> \<not> huge e)"

lemma small_range_first: "small_range g v step (Suc n) \<Longrightarrow> g v = Some e \<Longrightarrow> \<not> huge e"
  unfolding small_range_def by (metis range_addr_0 zero_less_Suc)

lemma small_range_map:
  "small_range g v step (Suc n) \<Longrightarrow> \<not> huge e \<Longrightarrow> small_range (map_view page v e g) (v + step) step n"
  by (auto simp: small_range_def map_view_def range_addr_Suc)

lemma fresh_view_other:
  "(\<And>i. i < length as \<Longrightarrow> page w \<noteq> page (range_addr v step i)) \<Longrightarrow> fresh_view page step f as v g w = g w"
proof (induction as arbitrary: v g)
  case (Cons a as)
  have "page w \<noteq> page (range_addr (v + step) step i)" if "i < length as" for i
    using Cons.prems [of "Suc i"] that by (simp add: range_addr_Suc)
  moreover have "page w \<noteq> page v" using Cons.prems [of 0] by simp
  ultimately show ?case using Cons.IH by (simp add: map_view_def)
qed simp

lemma fresh_view_at:
  assumes "inj_on (\<lambda>i. page (range_addr v step i)) {..<length as}" "i < length as"
  shows "fresh_view page step f as v g (range_addr v step i) = Some (as ! i OR f)"
  using assms
proof (induction as arbitrary: v g i)
  case (Cons a as)
  have inj: "inj_on (\<lambda>i. page (range_addr (v + step) step i)) {..<length as}"
    using Cons.prems(1) by (auto simp: inj_on_def range_addr_Suc)
  show ?case
  proof (cases i)
    case 0
    have "page v \<noteq> page (range_addr (v + step) step k)" if "k < length as" for k
      using Cons.prems(1) that inj_onD [OF Cons.prems(1), of 0 "Suc k"] by (auto simp: range_addr_Suc)
    then show ?thesis using 0 fresh_view_other [of as page v "v + step" step f] by (simp add: map_view_def)
  next
    case (Suc k)
    then show ?thesis using Cons.IH [OF inj, of k] Cons.prems(2) by (simp add: range_addr_Suc)
  qed
qed simp

lemma linear_fresh:
  "linear_view page step f n v p g = fresh_view page step f (map (range_addr p step) [0..<n]) v g"
proof (induction n arbitrary: v p g)
  case (Suc n)
  have "map (range_addr p step) [0..<Suc n] = p # map (range_addr (p + step) step) [0..<n]"
    by (subst map_upt_Suc) (simp add: range_addr_Suc)
  then show ?case using Suc.IH by simp
qed simp

context page_mapper
begin

lemma map_range_fresh:
  assumes "inv s" "room s (n * Suc cost + k)" "ok s pt" "map_flags f" "\<not> huge f"
    "small_range (view s pt) v step n"
  shows "\<exists>as pt' s'. map_range_loop alloc mapp s pt v n f step = Ret (pt', s') \<and>
    inv s' \<and> room s' k \<and> ok s' pt' \<and> pmlt pt' = pmlt pt \<and> HIGH_VMA s' = HIGH_VMA s \<and>
    length as = n \<and> distinct as \<and> set as \<inter> owned s = {} \<and> owned s \<union> set as \<subseteq> owned s' \<and>
    view s' pt' = fresh_view page step f as v (view s pt)"
  using assms
proof (induction n arbitrary: s pt v)
  case 0
  then show ?case by auto
next
  case (Suc n)
  obtain a s1 where a: "alloc s = Ret (a, s1)" using alloc_returns Suc.prems(1,2) by fastforce
  have room: "room s (Suc (cost + (n * Suc cost + k)))" using Suc.prems(2) by (simp add: algebra_simps)
  note al = alloc_agree [OF Suc.prems(1) room a]
  have v1: "ok s1 pt" "view s1 pt = view s pt" "HIGH_VMA s1 = HIGH_VMA s"
    using alloc_view [OF Suc.prems(1) room Suc.prems(3) a] al(1) by (simp_all add: agree_on_def)
  have sm: "\<not> huge e" if "view s1 pt v = Some e" for e
    using small_range_first [OF Suc.prems(6)] that v1(2) by simp
  obtain r pt2 s2 where m: "mapp s1 pt v a f = Ret (Some r, pt2, s2)" "inv s2"
    "room s2 (n * Suc cost + k)" "ok s2 pt2" "owned s1 \<subseteq> owned s2" "HIGH_VMA s2 = HIGH_VMA s1"
    "pmlt pt2 = pmlt pt" and vw: "\<forall>w. view s2 pt2 w = (if page w = page v then Some (a OR f) else view s1 pt w)"
    using map_small [OF al(2,3) v1(1) Suc.prems(4,5) sm] by blast
  have vw': "view s2 pt2 = map_view page v (a OR f) (view s pt)"
    using vw v1(2) by (auto simp: map_view_def)
  have "small_range (view s2 pt2) (v + step) step n"
    unfolding vw' using Suc.prems(5,6) aligned_not_huge [OF al(6)]
    by (intro small_range_map) (simp_all add: huge_or)
  then obtain as pt' s' where ih: "map_range_loop alloc mapp s2 pt2 (v + step) n f step = Ret (pt', s')"
    "inv s'" "room s' k" "ok s' pt'" "pmlt pt' = pmlt pt2" "HIGH_VMA s' = HIGH_VMA s2"
    "length as = n" "distinct as" "set as \<inter> owned s2 = {}" "owned s2 \<union> set as \<subseteq> owned s'"
    "view s' pt' = fresh_view page step f as (v + step) (view s2 pt2)"
    using Suc.IH [OF m(2-4) Suc.prems(4,5), of "v + step"] by blast
  have as: "distinct (a # as)" "set (a # as) \<inter> owned s = {}" "owned s \<union> set (a # as) \<subseteq> owned s'"
    using ih(8-10) al(4,5) m(5) by auto
  have "map_range_loop alloc mapp s pt v (Suc n) f step = Ret (pt', s')" using a m(1) ih(1) by simp
  moreover have "view s' pt' = fresh_view page step f (a # as) v (view s pt)" using ih(11) vw' by simp
  moreover have "length (a # as) = Suc n" "pmlt pt' = pmlt pt" "HIGH_VMA s' = HIGH_VMA s"
    using ih(5-7) m(6,7) v1(3) by simp_all
  ultimately show ?case using ih(2-4) as by blast
qed

lemma map_linear_small:
  assumes "inv s" "room s (n * cost + k)" "ok s pt" "map_flags f" "\<not> huge f"
    "small_range (view s pt) v step n" "4096 dvd unat p" "4096 dvd unat step"
  shows "\<exists>pt' s'. map_linear mapp s pt v p n f step = Ret (pt', s') \<and>
    inv s' \<and> room s' k \<and> ok s' pt' \<and> pmlt pt' = pmlt pt \<and> HIGH_VMA s' = HIGH_VMA s \<and>
    owned s \<subseteq> owned s' \<and> untouched (owned s') s s' \<and> view s' pt' = linear_view page step f n v p (view s pt)"
  using assms
proof (induction n arbitrary: s pt v p)
  case (Suc n)
  have room: "room s (cost + (n * cost + k))" using Suc.prems(2) by (simp add: algebra_simps)
  have sm: "\<not> huge e" if "view s pt v = Some e" for e
    using small_range_first [OF Suc.prems(6)] that by simp
  obtain r pt2 s2 where m: "mapp s pt v p f = Ret (Some r, pt2, s2)" "inv s2"
    "room s2 (n * cost + k)" "ok s2 pt2" "owned s \<subseteq> owned s2" "HIGH_VMA s2 = HIGH_VMA s"
    "pmlt pt2 = pmlt pt" "untouched (owned s2) s s2"
    and vw: "\<forall>w. view s2 pt2 w = (if page w = page v then Some (p OR f) else view s pt w)"
    using map_small [OF Suc.prems(1) room Suc.prems(3,4,5) sm] by blast
  have vw': "view s2 pt2 = map_view page v (p OR f) (view s pt)" using vw by (auto simp: map_view_def)
  have sr: "small_range (view s2 pt2) (v + step) step n"
    unfolding vw' using Suc.prems(5,6) aligned_not_huge [OF Suc.prems(7)]
    by (intro small_range_map) (simp_all add: huge_or)
  have "4096 dvd unat (p + step)" using dvd_unat_add [of 12 p step] Suc.prems(7,8) by simp
  then obtain pt' s' where ih: "map_linear mapp s2 pt2 (v + step) (p + step) n f step = Ret (pt', s')" "inv s'" "room s' k" "ok s' pt'"
    "pmlt pt' = pmlt pt2" "HIGH_VMA s' = HIGH_VMA s2" "owned s2 \<subseteq> owned s'" "untouched (owned s') s2 s'"
    "view s' pt' = linear_view page step f n (v + step) (p + step) (view s2 pt2)"
    using Suc.IH [OF m(2-4) Suc.prems(4,5) sr _ Suc.prems(8)] by blast
  have "untouched (owned s') s s'" by (rule untouched_trans [OF m(8) ih(8,7) m(6)])
  then show ?case using m(1,5-7) ih vw' by auto
qed auto

lemma map_linear_huge:
  assumes "inv s" "room s (n * cost + k)" "ok s pt" "map_flags f" "huge f"
  shows "\<exists>pt' s'. map_linear mapp s pt v p n f step = Ret (pt', s') \<and>
    inv s' \<and> room s' k \<and> ok s' pt' \<and> pmlt pt' = pmlt pt \<and> HIGH_VMA s' = HIGH_VMA s \<and>
    owned s \<subseteq> owned s' \<and> view s' pt' = linear_view hpage step f n v p (view s pt)"
  using assms
proof (induction n arbitrary: s pt v p)
  case (Suc n)
  have room: "room s (cost + (n * cost + k))" using Suc.prems(2) by (simp add: algebra_simps)
  obtain pt2 s2 where m: "mapp s pt v p f = Ret (None, pt2, s2)" "inv s2"
    "room s2 (n * cost + k)" "ok s2 pt2" "owned s \<subseteq> owned s2" "HIGH_VMA s2 = HIGH_VMA s"
    "pmlt pt2 = pmlt pt" and vw: "\<forall>w. view s2 pt2 w = (if hpage w = hpage v then Some (p OR f) else view s pt w)"
    using map_huge [OF Suc.prems(1) room Suc.prems(3,4,5)] by blast
  have vw': "view s2 pt2 = map_view hpage v (p OR f) (view s pt)" using vw by (auto simp: map_view_def)
  then show ?case
    using Suc.IH [OF m(2-4) Suc.prems(4,5), of "v + step" "p + step"] m by fastforce
qed auto

end

section \<open>Mapping and unmapping ranges\<close>

lemma vpn_range_inj: "n \<le> 2 ^ 36 \<Longrightarrow> inj_on (\<lambda>i. vpn m (range_addr v 0x1000 i)) {..<n}"
  by (rule inj_onI) (auto simp: range_addr_def dest!: vpn_inj)

lemma map_range_correct:
  assumes laws: "fayt_laws F" and inv: "pmm_inv F s"
    and room: "pmm_room F (modules s) (unat cnt * Suc (levels m) + k)"
    and ok: "pt_ok F m s pt" and f: "map_flags f" "\<not> huge f" and cnt: "unat cnt \<le> 2 ^ 36"
    and small: "small_range (view m s pt) v 0x1000 (unat cnt)"
  shows "\<exists>as pt' s'. vmm_map_range F s pt v cnt f = Ret (pt', s') \<and> pmm_inv F s' \<and>
    pmm_room F (modules s') k \<and> pt_ok F m s' pt' \<and> pmlt pt' = pmlt pt \<and>
    length as = unat cnt \<and> distinct as \<and> set as \<inter> pmm_owned F s = {} \<and> set as \<subseteq> pmm_owned F s' \<and>
    (\<forall>i<unat cnt. view m s' pt' (range_addr v 0x1000 i) = Some (as ! i OR f)) \<and>
    (\<forall>w. (\<forall>i<unat cnt. vpn m w \<noteq> vpn m (range_addr v 0x1000 i)) \<longrightarrow> view m s' pt' w = view m s pt w)"
proof -
  obtain as pt' s' where run: "vmm_map_range F s pt v cnt f = Ret (pt', s')"
    and post: "fayt_laws F \<and> pmm_inv F s'" "pmm_room F (modules s') k" "pt_ok F m s' pt'"
      "pmlt pt' = pmlt pt" "length as = unat cnt" "distinct as" "set as \<inter> pmm_owned F s = {}"
      "pmm_owned F s \<union> set as \<subseteq> pmm_owned F s'"
    and vw: "view m s' pt' = fresh_view (vpn m) 0x1000 f as v (view m s pt)"
    using vm.map_range_fresh [OF conjI [OF laws inv] room ok f small] f(2)
    by (auto simp: vmm_map_range_def huge_def)
  have "view m s' pt' (range_addr v 0x1000 i) = Some (as ! i OR f)" if "i < unat cnt" for i
    unfolding vw by (rule fresh_view_at) (use vpn_range_inj [OF cnt] post(5) that in simp_all)
  moreover have "view m s' pt' w = view m s pt w"
    if "\<forall>i<unat cnt. vpn m w \<noteq> vpn m (range_addr v 0x1000 i)" for w
    unfolding vw by (rule fresh_view_other) (use that post(5) in simp)
  ultimately show ?thesis using run post by blast
qed

text \<open>A page table that can also remove a page.\<close>

locale page_unmapper = page_mapper inv alloc owned room ok view mapp page hpage cost
  for inv :: "'l kstate \<Rightarrow> bool" and alloc owned room ok view mapp page hpage cost +
  fixes unmapp :: "'l kstate \<Rightarrow> 'l page_table \<Rightarrow> u64 \<Rightarrow> (u64 \<times> 'l page_table \<times> 'l kstate) outcome"
  assumes unmap_small: "inv s \<Longrightarrow> ok s pt \<Longrightarrow> view s pt v = Some e \<Longrightarrow> \<not> huge e \<Longrightarrow>
    \<exists>pt' s'. unmapp s pt v = Ret (0x1000, pt', s') \<and> inv s' \<and> ok s' pt' \<and> pmlt pt' = pmlt pt \<and>
      room s' = room s \<and> owned s' = owned s \<and>
      (\<forall>w. view s' pt' w = (if page w = page v then None else view s pt w))"
begin

lemma unmap_range_small:
  assumes "inv s" "ok s pt"
    "\<And>i. i < n \<Longrightarrow> \<exists>e. view s pt (range_addr v 0x1000 i) = Some e \<and> \<not> huge e"
    "inj_on (\<lambda>i. page (range_addr v 0x1000 i)) {..<n}"
  shows "\<exists>pt' s'. unmap_range_loop unmapp s pt v n = Ret (pt', s') \<and> inv s' \<and> ok s' pt' \<and>
    pmlt pt' = pmlt pt \<and> room s' = room s \<and> owned s' = owned s \<and>
    (\<forall>w. view s' pt' w = (if \<exists>i<n. page w = page (range_addr v 0x1000 i) then None else view s pt w))"
  using assms
proof (induction n arbitrary: s pt v)
  case (Suc n)
  obtain e where "view s pt v = Some e" "\<not> huge e" using Suc.prems(3) [of 0] by auto
  then obtain pt1 s1 where u: "unmapp s pt v = Ret (0x1000, pt1, s1)" "inv s1" "ok s1 pt1"
    "pmlt pt1 = pmlt pt" "room s1 = room s" "owned s1 = owned s"
    and vw: "\<And>w. view s1 pt1 w = (if page w = page v then None else view s pt w)"
    using unmap_small [OF Suc.prems(1,2)] by blast
  have ne: "page (range_addr v 0x1000 (Suc i)) \<noteq> page v" if "i < n" for i
    using inj_onD [OF Suc.prems(4), of "Suc i" 0] that by auto
  have "\<exists>e. view s1 pt1 (range_addr (v + 0x1000) 0x1000 i) = Some e \<and> \<not> huge e" if "i < n" for i
    using Suc.prems(3) [of "Suc i"] ne [OF that] that vw by (simp add: range_addr_Suc)
  moreover have "inj_on (\<lambda>i. page (range_addr (v + 0x1000) 0x1000 i)) {..<n}"
    using Suc.prems(4) by (auto simp: inj_on_def range_addr_Suc)
  ultimately obtain pt' s' where ih: "unmap_range_loop unmapp s1 pt1 (v + 0x1000) n = Ret (pt', s')"
    "inv s'" "ok s' pt'" "pmlt pt' = pmlt pt1" "room s' = room s1" "owned s' = owned s1"
    and vw': "\<And>w. view s' pt' w = (if \<exists>i<n. page w = page (range_addr (v + 0x1000) 0x1000 i) then None
      else view s1 pt1 w)"
    using Suc.IH [OF u(2,3)] by blast
  have "view s' pt' w = (if \<exists>i<Suc n. page w = page (range_addr v 0x1000 i) then None else view s pt w)"
    for w unfolding vw' vw by (auto simp: range_addr_Suc less_Suc_eq_0_disj)
  then show ?case using u ih by auto
qed auto

end

interpretation vm4: page_unmapper
  "\<lambda>s. fayt_laws F \<and> pmm_inv F s" "\<lambda>s. pmm_alloc F s 1 1" "pmm_owned F" "\<lambda>s. pmm_room F (modules s)"
  "pt_ok F Pml4Ops" "view Pml4Ops" "map_page F" "vpn Pml4Ops" "huge_vpn Pml4Ops" "levels Pml4Ops"
  "unmap_page F"
  for F :: "'l fayt"
proof (unfold_locales, goal_cases)
  case (1 s pt v e)
  obtain n pt' s' where u: "unmap_page F s pt v = Ret (n, pt', s')" "\<exists>c. s' = s\<lparr>memory := c\<rparr>"
    "pt_ok F Pml4Ops s' pt'" "pmlt pt' = pmlt pt" "unmapped Pml4Ops s s' (pmlt pt) v n"
    using pml4_unmap_correct [of F s pt v] 1 by blast
  moreover have "n = 0x1000" and "\<forall>w. view Pml4Ops s' pt' w =
      (if vpn Pml4Ops w = vpn Pml4Ops v then None else view Pml4Ops s pt w)"
    using u(4,5) 1(3,4) by (auto simp: unmapped_def)
  moreover have "pmm_inv F s'" using u(2) 1(1) by (auto simp: pmm_inv_def)
  ultimately show ?case using 1(1) by auto
qed

lemma unmap_range_correct:
  assumes laws: "fayt_laws F" and inv: "pmm_inv F s" and ok: "pt_ok F Pml4Ops s pt"
    and cnt: "unat cnt \<le> 2 ^ 36"
    and mapped: "\<And>i. i < unat cnt \<Longrightarrow> \<exists>e. view Pml4Ops s pt (range_addr v 0x1000 i) = Some e \<and> \<not> huge e"
  shows "\<exists>pt' s'. vmm_unmap_range F s pt v cnt = Ret (pt', s') \<and> pmm_inv F s' \<and>
    pt_ok F Pml4Ops s' pt' \<and> pmlt pt' = pmlt pt \<and> pmm_owned F s' = pmm_owned F s \<and>
    (\<forall>w. view Pml4Ops s' pt' w =
      (if \<exists>i<unat cnt. vpn Pml4Ops w = vpn Pml4Ops (range_addr v 0x1000 i) then None
       else view Pml4Ops s pt w))"
  using vm4.unmap_range_small [OF conjI [OF laws inv] ok mapped vpn_range_inj [OF cnt]]
  by (auto simp: vmm_unmap_range_def)

text \<open>Frames stay owned: \<^verbatim>\<open>vmm_unmap_range\<close> removes translations and gives nothing back.\<close>

lemma map_unmap_range:
  assumes laws: "fayt_laws F" and inv: "pmm_inv F s"
    and room: "pmm_room F (modules s) (unat cnt * 4)"
    and ok: "pt_ok F Pml4Ops s pt" and f: "map_flags f" "\<not> huge f" and cnt: "unat cnt \<le> 2 ^ 36"
    and free: "\<And>i. i < unat cnt \<Longrightarrow> view Pml4Ops s pt (range_addr v 0x1000 i) = None"
  shows "\<exists>pt1 s1 pt2 s2. vmm_map_range F s pt v cnt f = Ret (pt1, s1) \<and>
    vmm_unmap_range F s1 pt1 v cnt = Ret (pt2, s2) \<and>
    (\<forall>i<unat cnt. view Pml4Ops s1 pt1 (range_addr v 0x1000 i) \<noteq> None) \<and>
    view Pml4Ops s2 pt2 = view Pml4Ops s pt"
proof -
  have sm: "small_range (view Pml4Ops s pt) v 0x1000 (unat cnt)" using free by (simp add: small_range_def)
  obtain as pt1 s1 where m: "vmm_map_range F s pt v cnt f = Ret (pt1, s1)" "pmm_inv F s1"
    "pt_ok F Pml4Ops s1 pt1" "pmlt pt1 = pmlt pt" "length as = unat cnt" "set as \<subseteq> pmm_owned F s1"
    and at: "\<forall>i<unat cnt. view Pml4Ops s1 pt1 (range_addr v 0x1000 i) = Some (as ! i OR f)"
    and other: "\<And>w. \<forall>i<unat cnt. vpn Pml4Ops w \<noteq> vpn Pml4Ops (range_addr v 0x1000 i) \<Longrightarrow>
      view Pml4Ops s1 pt1 w = view Pml4Ops s pt w"
    using map_range_correct [OF laws inv _ ok f cnt sm, of 0] room by auto
  have "\<not> huge (as ! i OR f)" if "i < unat cnt" for i
  proof -
    have "as ! i \<in> set as" using m(5) that by simp
    then have "as ! i \<in> pmm_owned F s1" using m(6) by blast
    then have "\<not> huge (as ! i)"
      by (intro aligned_not_huge pmm.owned_aligned [OF conjI [OF laws m(2)]])
    then show ?thesis using f(2) by (simp add: huge_or)
  qed
  then obtain pt2 s2 where u: "vmm_unmap_range F s1 pt1 v cnt = Ret (pt2, s2)"
    and vw: "\<And>w. view Pml4Ops s2 pt2 w =
      (if \<exists>i<unat cnt. vpn Pml4Ops w = vpn Pml4Ops (range_addr v 0x1000 i) then None
       else view Pml4Ops s1 pt1 w)"
    using unmap_range_correct [OF laws m(2,3) cnt, of v] at by auto
  have "view Pml4Ops s2 pt2 w = view Pml4Ops s pt w" for w
  proof (cases "\<exists>i<unat cnt. vpn Pml4Ops w = vpn Pml4Ops (range_addr v 0x1000 i)")
    case True
    then obtain i where i: "i < unat cnt" "vpn Pml4Ops w = vpn Pml4Ops (range_addr v 0x1000 i)" by blast
    then have "view Pml4Ops s pt w = view Pml4Ops s pt (range_addr v 0x1000 i)"
      using vpn_eq [of Pml4Ops w "range_addr v 0x1000 i"] by (simp add: translate_def Let_def)
    then show ?thesis using True vw free [OF i(1)] by simp
  next
    case False
    then show ?thesis using vw other by auto
  qed
  then have "view Pml4Ops s2 pt2 = view Pml4Ops s pt" by (simp add: fun_eq_iff)
  moreover have "\<forall>i<unat cnt. view Pml4Ops s1 pt1 (range_addr v 0x1000 i) \<noteq> None" using at by simp
  ultimately show ?thesis using m(1) u by blast
qed

section \<open>Tables apart from data frames\<close>

text \<open>
  An address space with a set \<open>D\<close> of data frames set aside: the frames its tables may lie in are the owned ones outside \<open>D\<close>.
\<close>

definition tables_apart :: "'l fayt \<Rightarrow> pt_ops \<Rightarrow> u64 set \<Rightarrow> 'l kstate \<Rightarrow> 'l page_table \<Rightarrow> bool" where
  "tables_apart F m D s pt \<longleftrightarrow> ops pt = m \<and> lock_free F (pt_lock pt) \<and> fayt_laws F \<and> pmm_inv F s \<and>
     D \<subseteq> pmm_owned F s \<and> tables_wf (pmm_owned F s - D) (levels m) s (pmlt pt)"

lemma tables_apart_empty: "tables_apart F m {} s pt \<longleftrightarrow> fayt_laws F \<and> pmm_inv F s \<and> pt_ok F m s pt"
  by (auto simp: tables_apart_def pt_ok_def)

lemma tables_apart_ok: "tables_apart F m D s pt \<Longrightarrow> pt_ok F m s pt"
  unfolding tables_apart_def pt_ok_def tables_wf_def by blast

definition zero_frame :: "'l kstate \<Rightarrow> u64 \<Rightarrow> bool" where
  "zero_frame s a \<longleftrightarrow> (\<forall>i < 512. pml_read s (a + HIGH_VMA s) i = 0)"

lemma zero_frame_agree: "zero_frame s a \<Longrightarrow> agree_on D s s' \<Longrightarrow> a \<in> D \<Longrightarrow> zero_frame s' a"
  by (auto simp: zero_frame_def agree_on_def)

lemma apart_frames_aligned: "tables_apart F m D s pt \<Longrightarrow> frames_aligned D s"
  using pmm.frames_aligned_owned [of F s] by (auto simp: tables_apart_def frames_aligned_def)

text \<open>Such an address space is a page table over the allocator in the sense of the interface, whatever the budget.\<close>

sublocale frame_budget < apart: frame_allocator
  "\<lambda>s. fayt_laws F \<and> pmm_inv F s \<and> D \<subseteq> pmm_owned F s" "\<lambda>s. pmm_alloc F s 1 1"
  "\<lambda>s. pmm_owned F s - D" budget
  for D
proof (unfold_locales, goal_cases)
  case (4 s n k)
  then show ?case by (rule budget_mono)
next
  case (5 s)
  then show ?case using pmm.vma_aligned [of F s] by simp
next
  case (6 s a)
  then show ?case using pmm.owned_aligned [of F s a] by simp
next
  case (7 s n)
  then have D: "D \<subseteq> pmm_owned F s" by simp
  show ?case using budget_fresh [of s n] 7 D by (elim conjE meta_impE exE) blast+
qed (simp_all add: pmm_inv_def pmm_owned_def)

sublocale frame_budget < apart_vm: page_mapper
  "\<lambda>s. fayt_laws F \<and> pmm_inv F s \<and> D \<subseteq> pmm_owned F s" "\<lambda>s. pmm_alloc F s 1 1"
  "\<lambda>s. pmm_owned F s - D" budget "tables_apart F m D" "view m" "map_page F" "vpn m" "huge_vpn m" "levels m"
  for D m
proof (unfold_locales, goal_cases)
  case (1 s n pt a s')
  note al = apart.alloc_agree [OF 1(1,2,4)]
  have wf: "tables_wf (pmm_owned F s - D) (levels m) s (pmlt pt)" using 1(3) by (simp add: tables_apart_def)
  have "tables_wf (pmm_owned F s' - D) (levels m) s' (pmlt pt)" by (rule tables_wf_agree [OF wf al(1)]) (use al(5) in blast)
  then show ?case using 1(3) al(2) keeps_translate [OF keeps_agree [OF wf al(1)]] by (auto simp: tables_apart_def)
next
  case (2 s n pt f v p)
  then have o: "ops pt = m" "tables_wf (pmm_owned F s - D) (levels m) s (pmlt pt)" "lock_free F (pt_lock pt)"
    by (simp_all add: tables_apart_def)
  show ?case
    using apart.map_page_owned [OF refl conjunct1 [OF 2(1)] 2(1,2) o 2(4,5), of v p] 2(6)
    by (elim meta_impE exE conjE) (auto simp: tables_apart_def)
next
  case (3 s n pt f v p)
  then have o: "ops pt = m" "tables_wf (pmm_owned F s - D) (levels m) s (pmlt pt)" "lock_free F (pt_lock pt)"
    by (simp_all add: tables_apart_def)
  show ?case
    using apart.map_page_huge_owned [OF refl conjunct1 [OF 3(1)] 3(1,2) o 3(4,5), of v p] by (auto simp: tables_apart_def)
qed

context frame_budget
begin

text \<open>A frame allocated for data joins \<open>D\<close>; mapping a page keeps the tables out of \<open>D\<close> and writes nothing there.\<close>

lemma apart_alloc:
  assumes ok: "tables_apart F m D s pt" and room: "budget s (Suc n)"
  shows "\<exists>a s'. pmm_alloc F s 1 1 = Ret (a, s') \<and> tables_apart F m (insert a D) s' pt \<and> a \<notin> pmm_owned F s \<and>
    pmm_owned F s' = insert a (pmm_owned F s) \<and> budget s' n \<and> HIGH_VMA s' = HIGH_VMA s \<and>
    4096 dvd unat a \<and> (\<forall>w. view m s' pt w = view m s pt w) \<and> agree_on D s s' \<and> zero_frame s' a"
proof -
  have inv: "fayt_laws F \<and> pmm_inv F s \<and> D \<subseteq> pmm_owned F s" and wf: "tables_wf (pmm_owned F s - D) (levels m) s (pmlt pt)"
    using ok by (simp_all add: tables_apart_def)
  obtain a s' where run: "pmm_alloc F s 1 1 = Ret (a, s')" and fr: "a \<notin> pmm_owned F s"
      "pmm_owned F s' = insert a (pmm_owned F s)"
    using budget_fresh [of s n] inv room by blast
  note al = apart.alloc_agree [OF inv room run]
  have h: "HIGH_VMA s' = HIGH_VMA s" using al(1) by (simp add: agree_on_def)
  have "pmm_owned F s' - insert a D = pmm_owned F s - D" using fr by auto
  moreover have "tables_wf (pmm_owned F s - D) (levels m) s' (pmlt pt)"
    by (rule tables_wf_agree [OF wf al(1)]) simp
  ultimately have "tables_apart F m (insert a D) s' pt" using ok al(2) fr by (auto simp: tables_apart_def)
  moreover have "agree_on D s s'"
    using h inv fr(1) untouched_agree [OF _ al(8), of D] pmm.frames_aligned_owned [of F s] by (auto simp: frames_aligned_def)
  moreover have "zero_frame s' a" using al(7) h by (simp add: zero_frame_def)
  ultimately show ?thesis using run fr al(3,6) h keeps_translate [OF keeps_agree [OF wf al(1)]] by auto
qed

lemma apart_map:
  assumes ok: "tables_apart F m D s pt" and room: "budget s (levels m + n)"
    and f: "map_flags f" "\<not> huge f" and nh: "\<And>e. view m s pt v = Some e \<Longrightarrow> \<not> huge e"
  shows "\<exists>r pt' s'. map_page F s pt v p f = Ret (Some r, pt', s') \<and> tables_apart F m D s' pt' \<and>
    budget s' n \<and> pmm_owned F s \<subseteq> pmm_owned F s' \<and> HIGH_VMA s' = HIGH_VMA s \<and>
    (\<forall>w. view m s' pt' w = (if vpn m w = vpn m v then Some (p OR f) else view m s pt w)) \<and> agree_on D s s'"
proof -
  have i: "fayt_laws F \<and> pmm_inv F s \<and> D \<subseteq> pmm_owned F s" and o: "ops pt = m" "tables_wf (pmm_owned F s - D) (levels m) s (pmlt pt)"
    "lock_free F (pt_lock pt)" using ok by (simp_all add: tables_apart_def)
  have al: "frames_aligned D s" using i pmm.frames_aligned_owned [of F s] by (auto simp: frames_aligned_def)
  obtain r pt' s' where r: "map_page F s pt v p f = Ret (Some r, pt', s')" "fayt_laws F \<and> pmm_inv F s' \<and> D \<subseteq> pmm_owned F s'"
    "budget s' n" "pmm_owned F s - D \<subseteq> pmm_owned F s' - D" "HIGH_VMA s' = HIGH_VMA s" "ops pt' = m" "pmlt pt' = pmlt pt"
    "lock_free F (pt_lock pt')" "tables_wf (pmm_owned F s' - D) (levels m) s' (pmlt pt)" "untouched (pmm_owned F s' - D) s s'"
    "\<forall>w. view m s' pt' w = (if vpn m w = vpn m v then Some (p OR f) else view m s pt w)"
    using apart.map_page_owned [OF refl conjunct1 [OF i] i room o f, of v p] nh by blast
  have "agree_on D s s'" by (rule untouched_agree [OF al r(10)]) (use r(5) in auto)
  then show ?thesis using r i by (intro exI [of _ r] exI [of _ pt'] exI [of _ s']) (auto simp: tables_apart_def)
qed

end

section \<open>The default table\<close>

definition small_flags :: u64 where
  "small_flags = X86_FLAGS_P OR X86_FLAGS_RW OR X86_FLAGS_G OR X86_FLAGS_US"

definition big_flags :: u64 where
  "big_flags = X86_FLAGS_P OR X86_FLAGS_RW OR X86_FLAGS_PS OR X86_FLAGS_G OR X86_FLAGS_US"

lemma default_flags: "map_flags small_flags" "\<not> huge small_flags" "map_flags big_flags" "huge big_flags"
  by (simp_all add: map_flags_def small_flags_def big_flags_def present_def huge_def)

text \<open>The address space \<^verbatim>\<open>vmm_default_table\<close> builds, as a map.\<close>

primrec memmap_view ::
  "'l fayt \<Rightarrow> pt_ops \<Rightarrow> u64 \<Rightarrow> limine_memmap_entry list \<Rightarrow> (u64 \<Rightarrow> u64 option) \<Rightarrow> u64 \<Rightarrow> u64 option" where
  "memmap_view F m hv [] g = g"
| "memmap_view F m hv (e # es) g =
     (let phys = (me_base e div 0x200000) * 0x200000 in
      memmap_view F m hv es
        (linear_view (huge_vpn m) 0x200000 big_flags (unat (DIV_ROUNDUP F (me_length e) 0x200000))
          (phys + hv) phys g))"

definition default_view :: "'l fayt \<Rightarrow> pt_ops \<Rightarrow> u64 \<Rightarrow> boot_info \<Rightarrow> u64 \<Rightarrow> u64 option" where
  "default_view F m hv B = memmap_view F m hv (memmap B)
     (linear_view (huge_vpn m) 0x200000 big_flags 0x800 hv 0
       (linear_view (vpn m) 0x1000 small_flags 0x6400 (virtual_base B) (physical_base B) (\<lambda>w. None)))"

definition memmap_pages :: "'l fayt \<Rightarrow> limine_memmap_entry list \<Rightarrow> nat" where
  "memmap_pages F es = sum_list (map (\<lambda>e. unat (DIV_ROUNDUP F (me_length e) 0x200000)) es)"

context frame_budget
begin

lemma map_memmap_view:
  assumes "budget s (memmap_pages F es * levels m + k)" "tables_apart F m {} s pt"
  shows "\<exists>pt' s'. map_memmap F s pt es big_flags = Ret (pt', s') \<and>
    budget s' k \<and> tables_apart F m {} s' pt' \<and> HIGH_VMA s' = HIGH_VMA s \<and> pmm_owned F s \<subseteq> pmm_owned F s' \<and>
    view m s' pt' = memmap_view F m (HIGH_VMA s) es (view m s pt)"
  using assms
proof (induction es arbitrary: s pt)
  case Nil
  then show ?case by (simp add: memmap_pages_def)
next
  case (Cons e es)
  let ?n = "unat (DIV_ROUNDUP F (me_length e) 0x200000)"
  let ?p = "(me_base e div 0x200000) * 0x200000"
  have room: "budget s (?n * levels m + (memmap_pages F es * levels m + k))"
    using Cons.prems(1) by (simp add: memmap_pages_def algebra_simps)
  have inv: "fayt_laws F \<and> pmm_inv F s \<and> {} \<subseteq> pmm_owned F s" using Cons.prems(2) by (simp add: tables_apart_def)
  obtain pt1 s1 where m: "map_linear (map_page F) s pt (?p + HIGH_VMA s) ?p ?n big_flags 0x200000 = Ret (pt1, s1)"
    "budget s1 (memmap_pages F es * levels m + k)" "tables_apart F m {} s1 pt1" "pmm_owned F s \<subseteq> pmm_owned F s1"
    "HIGH_VMA s1 = HIGH_VMA s"
    "view m s1 pt1 = linear_view (huge_vpn m) 0x200000 big_flags ?n (?p + HIGH_VMA s) ?p (view m s pt)"
    using apart_vm.map_linear_huge [OF inv room Cons.prems(2) default_flags(3,4)] unfolding Diff_empty by blast
  then show ?case using Cons.IH [OF m(2,3)] by (fastforce simp: Let_def)
qed

lemma default_table_view:
  assumes laws: "fayt_laws F" and inv: "pmm_inv F s" and lock: "lock_free F (pt_lock pt)"
    and room: "budget s (Suc ((0x6C00 + memmap_pages F (memmap B)) * levels m + k))"
    and m: "m = x86_paging_init (cpuid_7_rcx B)" and al: "4096 dvd unat (physical_base B)"
  shows "\<exists>pt' s'. vmm_default_table F B s pt = Ret (pt', s') \<and> pmm_inv F s' \<and>
    budget s' k \<and> pt_ok F m s' pt' \<and> HIGH_VMA s' = HIGH_VMA s \<and> view m s' pt' = default_view F m (HIGH_VMA s) B \<and>
    pmm_owned F s \<subseteq> pmm_owned F s'"
proof -
  have i0: "fayt_laws F \<and> pmm_inv F s \<and> {} \<subseteq> pmm_owned F s" using laws inv by simp
  obtain a s1 where a: "pmm_alloc F s 1 1 = Ret (a, s1)" using budget_fresh [OF laws inv room] by blast
  note f = apart.alloc_agree [OF i0 room a]
  have h: "HIGH_VMA s1 = HIGH_VMA s" using f(1) by (simp add: agree_on_def)
  let ?pt = "pt\<lparr>ops := m, pmlt := a + HIGH_VMA s1\<rparr>"
  have e: "tables_wf (pmm_owned F s1) (levels m) s1 (a + HIGH_VMA s1)"
    "\<And>w. translate m s1 (a + HIGH_VMA s1) w = None"
    using empty_root [of "a + HIGH_VMA s1" s1 "pmm_owned F s1"] f(5,7) h by simp_all
  have ok1: "tables_apart F m {} s1 ?pt" and v1: "view m s1 ?pt = (\<lambda>w. None)"
    using e lock f(2) by (auto simp: tables_apart_def)
  have r1: "budget s1 (0x6400 * levels m + (0x800 * levels m + (memmap_pages F (memmap B) * levels m + k)))"
    using f(3) by (simp add: algebra_simps)
  have sm: "small_range (view m s1 ?pt) (virtual_base B) 0x1000 0x6400" by (simp add: e small_range_def)
  have step_al: "4096 dvd unat (0x1000 :: u64)" by simp
  obtain pt2 s2 where 2: "map_linear (map_page F) s1 ?pt (virtual_base B) (physical_base B) 0x6400 small_flags 0x1000
      = Ret (pt2, s2)" "fayt_laws F \<and> pmm_inv F s2 \<and> {} \<subseteq> pmm_owned F s2" "budget s2 (0x800 * levels m + (memmap_pages F (memmap B) * levels m + k))"
    "tables_apart F m {} s2 pt2" "HIGH_VMA s2 = HIGH_VMA s1" "pmm_owned F s1 \<subseteq> pmm_owned F s2"
    "view m s2 pt2 = linear_view (vpn m) 0x1000 small_flags 0x6400 (virtual_base B) (physical_base B) (view m s1 ?pt)"
    using apart_vm.map_linear_small [OF f(2) r1 ok1 default_flags(1,2) sm al step_al] by auto
  obtain pt3 s3 where 3: "map_linear (map_page F) s2 pt2 (HIGH_VMA s2) 0 0x800 big_flags 0x200000 = Ret (pt3, s3)"
    "budget s3 (memmap_pages F (memmap B) * levels m + k)" "tables_apart F m {} s3 pt3" "HIGH_VMA s3 = HIGH_VMA s2"
    "pmm_owned F s2 \<subseteq> pmm_owned F s3"
    "view m s3 pt3 = linear_view (huge_vpn m) 0x200000 big_flags 0x800 (HIGH_VMA s2) 0 (view m s2 pt2)"
    using apart_vm.map_linear_huge [OF 2(2,3,4) default_flags(3,4)] unfolding Diff_empty by blast
  obtain pt4 s4 where 4: "map_memmap F s3 pt3 (memmap B) big_flags = Ret (pt4, s4)"
    "budget s4 k" "tables_apart F m {} s4 pt4" "HIGH_VMA s4 = HIGH_VMA s3" "pmm_owned F s3 \<subseteq> pmm_owned F s4"
    "view m s4 pt4 = memmap_view F m (HIGH_VMA s3) (memmap B) (view m s3 pt3)"
    using map_memmap_view [OF 3(2,3)] by blast
  have "vmm_default_table F B s pt = Ret (pt4, s4)"
    unfolding vmm_default_table_def Let_def
    using a 2(1) 3(1) 4(1) m by (simp add: small_flags_def big_flags_def)
  moreover have "view m s4 pt4 = default_view F m (HIGH_VMA s) B"
    unfolding default_view_def using 4(6) 3(4,6) 2(5,7) v1 h by simp
  moreover have "HIGH_VMA s4 = HIGH_VMA s" using 4(4) 3(4) 2(5) h by simp
  moreover have "pmm_owned F s \<subseteq> pmm_owned F s4" using f(5) 2(6) 3(5) 4(5) by auto
  ultimately show ?thesis using 4(2,3) tables_apart_empty [of F m s4 pt4] by blast
qed

end

text \<open>
  The direct map: page \<open>i\<close> of the low 4 GiB is translated at \<^verbatim>\<open>HIGH_VMA\<close> plus its own address,
  whatever the memory map adds to it later.
\<close>

definition direct_mapped :: "u64 \<Rightarrow> (u64 \<Rightarrow> u64 option) \<Rightarrow> bool" where
  "direct_mapped hv g \<longleftrightarrow>
     (\<forall>i<0x800. g (range_addr hv 0x200000 i) = Some (range_addr 0 0x200000 i OR big_flags))"

lemma linear_direct_mapped:
  assumes "direct_mapped hv g" "j + n \<le> 2 ^ 27"
  shows "direct_mapped hv (linear_view (huge_vpn m) 0x200000 big_flags n
    (of_nat j * 0x200000 + hv) (of_nat j * 0x200000) g)"
  using assms
proof (induction n arbitrary: j g)
  case (Suc n)
  let ?p = "of_nat j * 0x200000 :: u64"
  have "direct_mapped hv (map_view (huge_vpn m) (?p + hv) (?p OR big_flags) g)"
    unfolding direct_mapped_def
  proof (intro allI impI)
    fix i :: nat assume i: "i < 0x800"
    have "i = j" if "huge_vpn m (range_addr hv 0x200000 i) = huge_vpn m (?p + hv)"
      using huge_vpn_inj [of m hv i j] that i Suc.prems(2) by (simp add: range_addr_def add.commute)
    then show "map_view (huge_vpn m) (?p + hv) (?p OR big_flags) g (range_addr hv 0x200000 i) =
        Some (range_addr 0 0x200000 i OR big_flags)"
      using Suc.prems(1) i by (auto simp: map_view_def direct_mapped_def range_addr_def)
  qed
  from Suc.IH [OF this, of "Suc j"] Suc.prems(2)
  have "direct_mapped hv (linear_view (huge_vpn m) 0x200000 big_flags n (of_nat (Suc j) * 0x200000 + hv)
      (of_nat (Suc j) * 0x200000) (map_view (huge_vpn m) (?p + hv) (?p OR big_flags) g))" by simp
  moreover have "of_nat (Suc j) * 0x200000 + hv = ?p + hv + 0x200000"
    "of_nat (Suc j) * 0x200000 = ?p + 0x200000"
    by (simp_all add: algebra_simps)
  ultimately show ?case by (simp only: linear_view.simps)
qed simp

definition memmap_low :: "'l fayt \<Rightarrow> limine_memmap_entry list \<Rightarrow> bool" where
  "memmap_low F es \<longleftrightarrow> list_all (\<lambda>e.
     unat (me_base e div 0x200000) + unat (DIV_ROUNDUP F (me_length e) 0x200000) \<le> 2 ^ 27) es"

lemma memmap_direct_mapped:
  "memmap_low F es \<Longrightarrow> direct_mapped hv g \<Longrightarrow> direct_mapped hv (memmap_view F m hv es g)"
proof (induction es arbitrary: g)
  case (Cons e es)
  have "(of_nat (unat (me_base e div 0x200000)) :: u64) = me_base e div 0x200000" by simp
  then show ?case
    using Cons linear_direct_mapped [OF Cons.prems(2), of "unat (me_base e div 0x200000)"
        "unat (DIV_ROUNDUP F (me_length e) 0x200000)" m]
    by (simp add: memmap_low_def Let_def)
qed simp

lemma default_direct_mapped: "memmap_low F (memmap B) \<Longrightarrow> direct_mapped hv (default_view F m hv B)"
  unfolding default_view_def
proof (erule memmap_direct_mapped, unfold direct_mapped_def, intro allI impI)
  fix i :: nat and g assume i: "i < 0x800"
  let ?as = "map (range_addr 0 0x200000) [0..<0x800] :: u64 list"
  have "inj_on (\<lambda>i. huge_vpn m (range_addr hv 0x200000 i)) {..<length ?as}"
    by (rule inj_onI) (auto simp: range_addr_def dest!: huge_vpn_inj)
  then show "linear_view (huge_vpn m) 0x200000 big_flags 0x800 hv 0
      (linear_view (vpn m) 0x1000 small_flags 0x6400 (virtual_base B) (physical_base B) (\<lambda>w. None))
      (range_addr hv 0x200000 i) = Some (range_addr 0 0x200000 i OR big_flags)"
    unfolding linear_fresh by (subst fresh_view_at) (use i in simp_all)
qed

section \<open>The lower half\<close>

text \<open>A new address space maps nothing in the lower half: its entries belong to the kernel.\<close>

abbreviation top_bit :: "pt_ops \<Rightarrow> nat" where
  "top_bit m \<equiv> 11 + 9 * Suc (levels m)"

definition upper_half :: "pt_ops \<Rightarrow> u64 \<Rightarrow> bool" where
  "upper_half m w \<longleftrightarrow> bit w (top_bit m)"

definition high_range :: "pt_ops \<Rightarrow> u64 \<Rightarrow> nat \<Rightarrow> bool" where
  "high_range m v len \<longleftrightarrow> (let t = unat v mod 2 ^ Suc (top_bit m) in 2 ^ top_bit m \<le> t \<and> t + len \<le> 2 ^ Suc (top_bit m))"

lemma upper_half_page: "vpn m v = vpn m w \<Longrightarrow> upper_half m v = upper_half m w"
  by (simp add: vpn_def drop_take_eq upper_half_def)

lemma upper_half_huge: "huge_vpn m v = huge_vpn m w \<Longrightarrow> upper_half m v = upper_half m w"
  by (cases m) (simp_all add: huge_vpn_def vpn_def drop_take_eq upper_half_def)

lemma upper_half_unat: "upper_half m v \<longleftrightarrow> 2 ^ top_bit m \<le> unat v mod 2 ^ Suc (top_bit m)"
proof -
  have "upper_half m v \<longleftrightarrow> bit (unat v mod 2 ^ Suc (top_bit m)) (top_bit m)"
    unfolding unat_take_bit [symmetric] by (simp add: upper_half_def bit_unsigned_iff bit_take_bit_iff)
  also have "\<dots> \<longleftrightarrow> 2 ^ top_bit m \<le> unat v mod 2 ^ Suc (top_bit m)"
  proof -
    have "unat v mod 2 ^ Suc (top_bit m) div 2 ^ top_bit m < 2"
      by (rule less_mult_imp_div_less) (metis mod_less_divisor power_Suc zero_less_numeral zero_less_power)
    moreover have "odd x \<longleftrightarrow> 0 < x" if "x < 2" for x :: nat using that by (cases x) auto
    ultimately show ?thesis by (simp add: bit_iff_odd div_greater_zero_iff)
  qed
  finally show ?thesis .
qed

lemma high_range_upper:
  assumes "high_range m v (n * 2 ^ k)" "i < n" "k < 64"
  shows "upper_half m (range_addr v (2 ^ k) i)"
proof -
  let ?T = "Suc (top_bit m)" and ?t = "unat v mod 2 ^ Suc (top_bit m)"
  have h: "2 ^ top_bit m \<le> ?t" "?t + n * 2 ^ k \<le> 2 ^ ?T" using assms(1) by (simp_all add: high_range_def Let_def)
  have "i * 2 ^ k < n * 2 ^ k" using assms(2) by simp
  then have lt: "?t + i * 2 ^ k < 2 ^ ?T" using h(2) by linarith
  have "unat (v + of_nat i * 2 ^ k) mod 2 ^ ?T = (unat v + i * 2 ^ k) mod 2 ^ ?T"
    by (rule unat_range_addr) (use assms(3) in \<open>cases m; simp\<close>)+
  also have "\<dots> = ?t + i * 2 ^ k" using lt by (metis mod_add_left_eq mod_less)
  finally show ?thesis unfolding upper_half_unat range_addr_def using h(1) by linarith
qed

lemma linear_view_low:
  assumes "high_range m v (n * 2 ^ k)" "k < 64" "\<not> upper_half m w" "\<And>v w. page v = page w \<Longrightarrow> upper_half m v = upper_half m w"
  shows "linear_view page (2 ^ k) f n v p g w = g w"
  unfolding linear_fresh
proof (rule fresh_view_other)
  fix i assume "i < length (map (range_addr p (2 ^ k)) [0..<n])"
  then have "upper_half m (range_addr v (2 ^ k) i)" by (intro high_range_upper [OF assms(1) _ assms(2)]) simp
  then show "page w \<noteq> page (range_addr v (2 ^ k) i)" using assms(3) assms(4) [of w "range_addr v (2 ^ k) i"] by blast
qed

definition kernel_high :: "'l fayt \<Rightarrow> pt_ops \<Rightarrow> u64 \<Rightarrow> boot_info \<Rightarrow> bool" where
  "kernel_high F m hv B \<longleftrightarrow> high_range m (virtual_base B) (0x6400 * 2 ^ 12) \<and> high_range m hv (0x800 * 2 ^ 21) \<and>
     (\<forall>e \<in> set (memmap B). high_range m (me_base e div 0x200000 * 0x200000 + hv) (unat (DIV_ROUNDUP F (me_length e) 0x200000) * 2 ^ 21))"

lemma default_view_low:
  assumes "kernel_high F m hv B" "\<not> upper_half m w"
  shows "default_view F m hv B w = None"
proof -
  have mm: "memmap_view F m hv es g w = g w"
    if "\<forall>e \<in> set es. high_range m (me_base e div 0x200000 * 0x200000 + hv) (unat (DIV_ROUNDUP F (me_length e) 0x200000) * 2 ^ 21)" for es g
    using that
  proof (induction es arbitrary: g)
    case (Cons e es)
    then show ?case
      using linear_view_low [of m "me_base e div 0x200000 * 0x200000 + hv" "unat (DIV_ROUNDUP F (me_length e) 0x200000)" 21 w "huge_vpn m",
          OF _ _ assms(2) upper_half_huge] by (simp add: Let_def)
  qed simp
  have "linear_view (huge_vpn m) (2 ^ 21) big_flags 0x800 hv 0 g w = g w" for g
    by (rule linear_view_low [OF _ _ assms(2) upper_half_huge]) (use assms(1) in \<open>simp_all add: kernel_high_def\<close>)
  moreover have "linear_view (vpn m) (2 ^ 12) small_flags 0x6400 (virtual_base B) (physical_base B) g w = g w" for g
    by (rule linear_view_low [OF _ _ assms(2) upper_half_page]) (use assms(1) in \<open>simp_all add: kernel_high_def\<close>)
  ultimately show ?thesis unfolding default_view_def using mm assms(1) by (simp add: kernel_high_def)
qed

section \<open>Properties\<close>

text \<open>C9. \<^verbatim>\<open>vmm_map_range\<close> with 4 KiB pages (flags without \<^verbatim>\<open>X86_FLAGS_PS\<close>), where no huge page covers the range and there are
  frames enough: it ends, every page of the range is translated to a frame of its own that nobody owned before, and no address
  outside the range changes its translation. The other branch of the function is not covered: there a page of 2 MiB gets a
  frame of 4 KiB.\<close>

theorem vmm_map_range_fresh:
  assumes "fayt_laws F" "pmm_inv F s" "pmm_room F (modules s) (unat cnt * Suc (levels m) + k)"
    and "pt_ok F m s pt" "map_flags f" "\<not> huge f" "unat cnt \<le> 2 ^ 36"
    and "small_range (view m s pt) v 0x1000 (unat cnt)"
  shows "\<exists>as pt' s'. vmm_map_range F s pt v cnt f = Ret (pt', s') \<and> pmm_inv F s' \<and> pt_ok F m s' pt' \<and>
    length as = unat cnt \<and> distinct as \<and> set as \<inter> pmm_owned F s = {} \<and> set as \<subseteq> pmm_owned F s' \<and>
    (\<forall>i<unat cnt. view m s' pt' (range_addr v 0x1000 i) = Some (as ! i OR f)) \<and>
    (\<forall>w. (\<forall>i<unat cnt. vpn m w \<noteq> vpn m (range_addr v 0x1000 i)) \<longrightarrow> view m s' pt' w = view m s pt w)"
  using map_range_correct [OF assms] by blast

lemma demo_small_range: "small_range (view m (demo 4096) (demo_pt m)) v step n"
  using demo_pt_empty(2) [of 4096 m] by (simp add: small_range_def)

lemma demo_ready:
  "pmm_inv fayt_ref (demo 4096)" "pt_ok fayt_ref m (demo 4096) (demo_pt m)"
  "k < 4096 \<Longrightarrow> pmm_room fayt_ref (modules (demo 4096)) k"
  using demo_inv [of 4096] demo_pt_empty(1) [of 4096 m] demo_room [of k 4096] by simp_all

theorem vmm_map_range_fresh_witness:
  "\<exists>as pt' s'. vmm_map_range fayt_ref (demo 4096) (demo_pt Pml4Ops) 0x400000 600 7 = Ret (pt', s') \<and>
     length as = 600 \<and> distinct as \<and>
     view Pml4Ops s' pt' (range_addr 0x400000 0x1000 599) = Some (as ! 599 OR 7)"
proof -
  have r: "pmm_room fayt_ref (modules (demo 4096)) (unat (600 :: u64) * Suc (levels Pml4Ops) + 0)"
    using demo_ready(3) [of 2400] by simp
  show ?thesis
    using vmm_map_range_fresh [OF fayt_laws_ref demo_ready(1) r demo_ready(2) demo_flags(1,2) _ demo_small_range,
        of "0x400000"] by fastforce
qed

text \<open>\<^verbatim>\<open>vmm_unmap_range\<close> over mapped 4 KiB pages (4-level tables) removes exactly the translations of
  the range, and gives no frame back to the allocator.\<close>

theorem vmm_unmap_range_exact:
  assumes "fayt_laws F" "pmm_inv F s" "pt_ok F Pml4Ops s pt" "unat cnt \<le> 2 ^ 36"
    and "\<And>i. i < unat cnt \<Longrightarrow> \<exists>e. view Pml4Ops s pt (range_addr v 0x1000 i) = Some e \<and> \<not> huge e"
  shows "\<exists>pt' s'. vmm_unmap_range F s pt v cnt = Ret (pt', s') \<and> pmm_inv F s' \<and>
    pt_ok F Pml4Ops s' pt' \<and> pmm_owned F s' = pmm_owned F s \<and>
    (\<forall>w. view Pml4Ops s' pt' w =
      (if \<exists>i<unat cnt. vpn Pml4Ops w = vpn Pml4Ops (range_addr v 0x1000 i) then None
       else view Pml4Ops s pt w))"
  using unmap_range_correct [OF assms(1-4), of v] assms(5) by blast

theorem vmm_unmap_range_exact_witness:
  "\<exists>pt s pt' s'. view Pml4Ops s pt 0x400000 = Some 0x7007 \<and>
     vmm_unmap_range fayt_ref s pt 0x400000 1 = Ret (pt', s') \<and> view Pml4Ops s' pt' 0x400000 = None"
proof -
  obtain pt s where m: "pmm_inv fayt_ref s" "pt_ok fayt_ref Pml4Ops s pt"
    "view Pml4Ops s pt 0x400000 = Some (0x7000 OR 7)"
    using map_page_small [OF fayt_laws_ref demo_ready(1) demo_ready(3) demo_ready(2) demo_flags(1,2),
        of Pml4Ops 0 "0x400000" "0x7000"] demo_pt_empty(2) [of 4096] by auto
  have h: "\<exists>e. view Pml4Ops s pt (range_addr 0x400000 0x1000 i) = Some e \<and> \<not> huge e" if "i < unat (1::u64)" for i
    using m(3) that by (simp add: huge_def)
  obtain pt' s' where u: "vmm_unmap_range fayt_ref s pt 0x400000 1 = Ret (pt', s')"
    "\<forall>w. view Pml4Ops s' pt' w =
      (if \<exists>i<unat (1 :: u64). vpn Pml4Ops w = vpn Pml4Ops (range_addr 0x400000 0x1000 i) then None
       else view Pml4Ops s pt w)"
    using vmm_unmap_range_exact [OF fayt_laws_ref m(1,2), of 1 "0x400000"] h by auto
  have "view Pml4Ops s' pt' 0x400000 = None" using u(2) [rule_format, of "0x400000"] by simp
  then show ?thesis using u(1) m(3) by (intro exI [of _ pt] exI [of _ s] exI [of _ pt'] exI [of _ s']) simp
qed

text \<open>C13. Round trip, for tables of four levels and 4 KiB pages: mapping a range of unmapped pages and unmapping it again
  leaves the address space as it was. (With five levels the unmapping uses another root index than the mapping.)\<close>

theorem vmm_map_unmap_roundtrip:
  assumes "fayt_laws F" "pmm_inv F s" "pmm_room F (modules s) (unat cnt * 4)" "pt_ok F Pml4Ops s pt"
    and "map_flags f" "\<not> huge f" "unat cnt \<le> 2 ^ 36"
    and "\<And>i. i < unat cnt \<Longrightarrow> view Pml4Ops s pt (range_addr v 0x1000 i) = None"
  shows "\<exists>pt1 s1 pt2 s2. vmm_map_range F s pt v cnt f = Ret (pt1, s1) \<and>
    vmm_unmap_range F s1 pt1 v cnt = Ret (pt2, s2) \<and>
    (\<forall>i<unat cnt. view Pml4Ops s1 pt1 (range_addr v 0x1000 i) \<noteq> None) \<and>
    view Pml4Ops s2 pt2 = view Pml4Ops s pt"
  using map_unmap_range [OF assms(1-7)] assms(8) by blast

theorem vmm_map_unmap_roundtrip_witness:
  "\<exists>pt1 s1 pt2 s2. vmm_map_range fayt_ref (demo 4096) (demo_pt Pml4Ops) 0x400000 600 7 = Ret (pt1, s1) \<and>
     vmm_unmap_range fayt_ref s1 pt1 0x400000 600 = Ret (pt2, s2) \<and> view Pml4Ops s2 pt2 0x400000 = None"
proof -
  have r: "pmm_room fayt_ref (modules (demo 4096)) (unat (600 :: u64) * 4)" using demo_ready(3) [of 2400] by simp
  show ?thesis
    using vmm_map_unmap_roundtrip [OF fayt_laws_ref demo_ready(1) r demo_ready(2) demo_flags(1,2), of "0x400000"]
      demo_pt_empty(2) [of 4096 Pml4Ops] by fastforce
qed

text \<open>An allocation of any number of frames leaves the tables of every address space alone.\<close>

lemma alloc_run_agree:
  assumes laws: "fayt_laws F" and inv: "pmm_inv F s" and post: "alloc_post F s c 4096 a s'"
  shows "agree_on (pmm_owned F s) s s'"
proof (cases "a = FAILED")
  case True
  then show ?thesis using post by (simp add: agree_on_def alloc_post_def pml_read_def)
next
  case False
  have h: "HIGH_VMA s' = HIGH_VMA s" and a: "4096 dvd unat a" and fr: "run_frames a c \<inter> pmm_owned F s = {}"
    and m: "\<And>x. 8 dvd unat x \<Longrightarrow> memory s' x = (if unat (x - (a + HIGH_VMA s)) < 4096 * c then 0 else memory s x)"
    using post False by (auto simp: alloc_post_def)
  have "pml_read s' t i = pml_read s t i" if t: "t - HIGH_VMA s \<in> pmm_owned F s" and i: "i < 512" for t i
  proof -
    define b where "b = t - HIGH_VMA s"
    have b: "4096 dvd unat b" using pmm.owned_aligned [of F s b] laws inv t by (simp add: b_def)
    have ta: "4096 dvd unat t"
      using table_aligned [of "pmm_owned F s" s t] pmm.frames_aligned_owned [of F s] laws inv t by simp
    have d: "4096 dvd unat (b - a)" using dvd_unat_sub [of 12 b a] a b by simp
    have x: "slot t i - (a + HIGH_VMA s) = (b - a) + 8 * ucast i" by (simp add: slot_def b_def)
    have "\<not> unat (slot t i - (a + HIGH_VMA s)) < 4096 * c"
    proof
      assume "unat (slot t i - (a + HIGH_VMA s)) < 4096 * c"
      then have lt: "unat (b - a) < 4096 * c"
        unfolding x using aligned_add_exact [OF d slot_offset_less [OF i]] by simp
      define k where "k = unat (b - a) div 4096"
      have k: "unat (b - a) = 4096 * k" using d by (simp add: k_def)
      then have "b - a = of_nat (4096 * k)" unfolding k [symmetric] by simp
      then have "b = a + of_nat k * PAGE_SIZE" by (simp add: algebra_simps)
      moreover have "k < c" using lt k by simp
      ultimately have "b \<in> run_frames a c" by (auto simp: run_frames_def)
      then show False using fr t by (auto simp: b_def)
    qed
    then show ?thesis using m [OF slot_aligned [OF ta i]] by (simp add: pml_read_def)
  qed
  then show ?thesis using h by (simp add: agree_on_def)
qed

lemma alloc_keeps_tables:
  assumes "fayt_laws F" "pmm_inv F s" "pt_ok F m s pt" "0 < unat cnt" "unat cnt \<le> 2 ^ 52"
  shows "\<exists>a s'. pmm_alloc F s cnt 1 = Ret (a, s') \<and> pmm_inv F s' \<and> pt_ok F m s' pt \<and> HIGH_VMA s' = HIGH_VMA s \<and>
    view m s' pt = view m s pt"
proof -
  obtain a s' where r: "pmm_alloc F s cnt 1 = Ret (a, s')" and post: "alloc_post F s (unat cnt) 4096 a s'"
    using pmm_alloc_correct [OF assms(1,2,4,5), of 0] by auto
  have wf: "tables_wf (pmm_owned F s) (levels m) s (pmlt pt)" using assms(3) by (simp add: pt_ok_def)
  note ag = alloc_run_agree [OF assms(1,2) post]
  have "pmm_owned F s \<subseteq> pmm_owned F s'" using post by (auto simp: alloc_post_def split: if_splits)
  then have "pt_ok F m s' pt" using tables_wf_agree [OF wf ag] assms(3) by (simp add: pt_ok_def)
  moreover have "view m s' pt = view m s pt" using keeps_translate [OF keeps_agree [OF wf ag]] by (intro ext)
  ultimately show ?thesis using r post by (auto simp: alloc_post_def)
qed

lemma vmm_default_table_ready:
  assumes "fayt_laws F" "pmm_inv F s" "lock_free F (pt_lock pt)"
    and "pmm_room F (modules s) (Suc ((0x6C00 + memmap_pages F (memmap B)) * levels m))"
    and "m = x86_paging_init (cpuid_7_rcx B)" "4096 dvd unat (physical_base B)" "memmap_low F (memmap B)"
  shows "\<exists>pt' s'. vmm_default_table F B s pt = Ret (pt', s') \<and> pmm_inv F s' \<and> pt_ok F m s' pt' \<and> HIGH_VMA s' = HIGH_VMA s \<and>
    (\<forall>i<0x800. view m s' pt' (HIGH_VMA s + of_nat i * 0x200000) = Some (of_nat i * 0x200000 OR 0x187))"
proof -
  obtain pt' s' where r: "vmm_default_table F B s pt = Ret (pt', s')" "pmm_inv F s'" "pt_ok F m s' pt'" "HIGH_VMA s' = HIGH_VMA s"
    "view m s' pt' = default_view F m (HIGH_VMA s) B"
    using singles.default_table_view [OF assms(1-3) _ assms(5,6), of 0] assms(4) by auto
  have "big_flags = 0x187" by (simp add: big_flags_def)
  then have "\<forall>i<0x800. view m s' pt' (HIGH_VMA s + of_nat i * 0x200000) = Some (of_nat i * 0x200000 OR 0x187)"
    using default_direct_mapped [OF assms(7), of "HIGH_VMA s" m] r(5)
    by (simp add: direct_mapped_def range_addr_def)
  then show ?thesis using r by blast
qed

text \<open>C7. \<^verbatim>\<open>vmm_default_table\<close> ends with the kernel's direct map in place: in the table it builds, each of
  the 2048 huge pages of the low 4 GiB is translated at \<^verbatim>\<open>HIGH_VMA\<close> plus its physical address. This needs a memory map
  all of whose entries end below 256 TiB (a higher one would wrap onto the direct map), a kernel image that is loaded at a page
  boundary, and frames for the tables.\<close>

theorem vmm_default_table_direct_map:
  assumes "fayt_laws F" "pmm_inv F s" "lock_free F (pt_lock pt)"
    and "pmm_room F (modules s) (Suc ((0x6C00 + memmap_pages F (memmap B)) * levels m))"
    and "m = x86_paging_init (cpuid_7_rcx B)" "4096 dvd unat (physical_base B)" "memmap_low F (memmap B)"
  shows "\<exists>pt' s'. vmm_default_table F B s pt = Ret (pt', s') \<and> pmm_inv F s' \<and> pt_ok F m s' pt' \<and>
    (\<forall>i<0x800. view m s' pt' (HIGH_VMA s + of_nat i * 0x200000) = Some (of_nat i * 0x200000 OR 0x187))"
  using vmm_default_table_ready [OF assms] by blast

definition demo_boot :: boot_info where
  "demo_boot = \<lparr>virtual_base = 0xffffffff80000000, physical_base = 0x2000000,
     memmap = [\<lparr>me_base = 0x100000, me_length = 0x40000000, me_type = 0\<rparr>], cpuid_7_rcx = 0\<rparr>"

theorem vmm_default_table_direct_map_witness:
  "\<exists>pt' s'. vmm_default_table fayt_ref demo_boot (demo 100000) (demo_pt Pml4Ops) = Ret (pt', s') \<and>
     view Pml4Ops s' pt' 0xffff800000600000 = Some 0x600187"
proof -
  have m: "Pml4Ops = x86_paging_init (cpuid_7_rcx demo_boot)" by (simp add: x86_paging_init_def demo_boot_def)
  have pg: "memmap_pages fayt_ref (memmap demo_boot) = 512"
    by (simp add: memmap_pages_def demo_boot_def fayt_ref_def)
  have low: "memmap_low fayt_ref (memmap demo_boot)" "4096 dvd unat (physical_base demo_boot)"
    by (simp_all add: memmap_low_def demo_boot_def fayt_ref_def)
  have i: "pmm_inv fayt_ref (demo 100000)" by (rule demo_inv) simp_all
  have l: "lock_free fayt_ref (pt_lock (demo_pt Pml4Ops))" by (simp add: demo_pt_def lock_free_def fayt_ref_def)
  have r: "pmm_room fayt_ref (modules (demo 100000))
      (Suc ((0x6C00 + memmap_pages fayt_ref (memmap demo_boot)) * levels Pml4Ops))"
    unfolding pg by (rule demo_room) simp_all
  obtain pt' s' where d: "vmm_default_table fayt_ref demo_boot (demo 100000) (demo_pt Pml4Ops) = Ret (pt', s')"
    "\<forall>i<0x800. view Pml4Ops s' pt' (HIGH_VMA (demo 100000) + of_nat i * 0x200000) = Some (of_nat i * 0x200000 OR 0x187)"
    using vmm_default_table_direct_map [OF fayt_laws_ref i l r m low(2,1)] by blast
  have "view Pml4Ops s' pt' 0xffff800000600000 = Some 0x600187" using d(2) [rule_format, of 3] by simp
  then show ?thesis using d(1) by blast
qed

end
