(* ===== verification/Portal.thy ===== *)
theory Portal
  imports Vmm "HOL-Library.Tree"
begin

unbundle bit_operations_syntax

text \<open>
  Portals, \<^verbatim>\<open>kernel/core/portal.c\<close> and \<^verbatim>\<open>portal.h\<close>: the regions of an address space, direct mappings,
  shared regions and demand paging. The tree of \<^verbatim>\<open>page_table->portal_root\<close> is a binary tree of
  portals; \<^verbatim>\<open>BST_GENERIC_INSERT\<close>, the hash tables, \<^verbatim>\<open>circular_queue_init\<close> and the sizes of two
  structs come from \<open>fayt\<close> and are fields of the parameter \<open>portal_deps\<close>.
\<close>

section \<open>Data\<close>

abbreviation PORTAL_REQ_SHARE :: s32 where "PORTAL_REQ_SHARE \<equiv> 1"
abbreviation PORTAL_REQ_DIRECT :: s32 where "PORTAL_REQ_DIRECT \<equiv> 2"
abbreviation PORTAL_REQ_ANON :: s32 where "PORTAL_REQ_ANON \<equiv> 4"
abbreviation PORTAL_REQ_COW :: s32 where "PORTAL_REQ_COW \<equiv> 8"
abbreviation PORTAL_REQ_SP :: s32 where "PORTAL_REQ_SP \<equiv> 16"
abbreviation PORTAL_RESP_FAILURE :: u64 where "PORTAL_RESP_FAILURE \<equiv> 1"
abbreviation PORTAL_RESP_SUCCESS :: u64 where "PORTAL_RESP_SUCCESS \<equiv> 2"
abbreviation PORTAL_PROT_READ :: s32 where "PORTAL_PROT_READ \<equiv> 1"
abbreviation PORTAL_PROT_WRITE :: s32 where "PORTAL_PROT_WRITE \<equiv> 2"
abbreviation PORTAL_PROT_EXEC :: s32 where "PORTAL_PROT_EXEC \<equiv> 4"
abbreviation LINK_CIRCULAR :: s32 where "LINK_CIRCULAR \<equiv> 1"
abbreviation LINK_CIRCULAR_MAGIC :: "32 word" where "LINK_CIRCULAR_MAGIC \<equiv> 0x9E810F7F"
abbreviation PAGE_FAULT_COW :: u64 where "PAGE_FAULT_COW \<equiv> 0x200"
abbreviation PAGE_FAULT_SHARE :: u64 where "PAGE_FAULT_SHARE \<equiv> 0x400"
abbreviation PAGE_FAULT_SP :: u64 where "PAGE_FAULT_SP \<equiv> 0x800"

record portal_link =
  link_lock :: u8
  link_length :: s32
  header_offset :: s32
  header_limit :: s32
  data_offset :: s32
  data_limit :: s32
  magic :: "32 word"

record portal_req =
  req_type :: s32
  req_prot :: s32
  req_length :: s32
  req_identifier :: string
  share_type :: s32
  share_create :: s32
  morph_addr :: u64
  morph_length :: u64
  morph_paddr :: "u64 list"

record portal_resp =
  resp_base :: u64
  resp_limit :: u64
  resp_flags :: u64

record portal =
  ptype :: s32
  prot :: s32
  share_identifier :: "string option"
  base :: u64
  limit :: u64
  pflags :: u64

text \<open>\<^verbatim>\<open>paddr\<close> has the elements the allocation has room for.\<close>

record portal_share_point =
  sp_identifier :: string
  sp_length :: u64
  sp_paddr :: "u64 list"

record frame =
  paddr :: u64
  frame_refcnt :: s32

record page =
  page_vaddr :: u64
  page_frame :: frame

text \<open>
  The state a portal operation works on: the memory managers, the page table of the current context
  with its portals and its \<^verbatim>\<open>pages\<close> table, the share points and the links written into shared memory.
\<close>

record ('l, 'h, 'm) pstate =
  kst :: "'l kstate"
  ptab :: "'l page_table"
  portal_root :: "portal tree"
  pages :: 'h
  portal_share_map :: 'm
  share_points :: "ptr \<Rightarrow> portal_share_point option"
  links :: "u64 \<Rightarrow> portal_link option"
  circular_queues :: "(u64 \<times> u64 \<times> s32) list"

record ('h, 'm) portal_deps =
  BST_INSERT :: "portal tree \<Rightarrow> portal \<Rightarrow> portal tree"
  push_page :: "'h \<Rightarrow> u64 \<Rightarrow> page \<Rightarrow> s32 \<times> 'h"
  search_share :: "'m \<Rightarrow> string \<Rightarrow> ptr"
  push_share :: "'m \<Rightarrow> string \<Rightarrow> ptr \<Rightarrow> s32 \<times> 'm"
  alloc_share :: "(ptr \<Rightarrow> portal_share_point option) \<Rightarrow> ptr"
  sizeof_share_point :: u64
  sizeof_circular_queue :: u64

abbreviation sizeof_portal_link :: u64 where
  "sizeof_portal_link \<equiv> 25"

section \<open>Protections\<close>

definition portal_translate_protections :: "s32 \<Rightarrow> u64" where
  "portal_translate_protections permission =
     (let ret = X86_FLAGS_P OR X86_FLAGS_US OR X86_FLAGS_NX;
          ret = (if permission AND PORTAL_PROT_WRITE \<noteq> 0 then ret OR X86_FLAGS_RW else ret)
      in if permission AND PORTAL_PROT_EXEC \<noteq> 0 then ret AND NOT X86_FLAGS_NX else ret)"

section \<open>Demand paging\<close>

text \<open>The search of \<^verbatim>\<open>portal_fault_anon\<close>; the upper bound is inclusive (line 99).\<close>

fun find_anon :: "u64 \<Rightarrow> portal tree \<Rightarrow> portal option" where
  "find_anon addr Leaf = None"
| "find_anon addr (Node l root r) =
     (if ptype root AND PORTAL_REQ_ANON \<noteq> 0 \<and> base root \<le> addr \<and> addr \<le> base root + limit root
      then Some root
      else if addr < base root then find_anon addr l else find_anon addr r)"

text \<open>
  The backing frame of a shared page: the share point's \<^verbatim>\<open>paddr\<close> element, filled on demand. \<open>None\<close> is
  the early \<^verbatim>\<open>return -1\<close>.
\<close>

definition share_backing ::
  "'l fayt \<Rightarrow> ('h, 'm) portal_deps \<Rightarrow> ('l, 'h, 'm) pstate \<Rightarrow> portal \<Rightarrow> u64 \<Rightarrow> (u64 option \<times> ('l, 'h, 'm) pstate) outcome" where
  "share_backing F D st root vaddr =
     (case share_identifier root of None \<Rightarrow> Fault NullDeref
      | Some ident \<Rightarrow>
          let q = search_share D (portal_share_map st) ident in
          if q = NULL then Ret (None, st)
          else (case share_points st q of None \<Rightarrow> Fault NullDeref
            | Some sp \<Rightarrow>
                let page_index = (vaddr - base root) div PAGE_SIZE in
                if (sp_length sp - sizeof_share_point D) div 8 < page_index then Ret (None, st)
                else if length (sp_paddr sp) \<le> unat page_index then Fault OutOfBounds
                else if sp_paddr sp ! unat page_index = 0 then
                  obind (pmm_alloc F (kst st) 1 1) (\<lambda>(a, s).
                    Ret (Some a, st\<lparr>kst := s, share_points := (share_points st)(q \<mapsto>
                      sp\<lparr>sp_paddr := (sp_paddr sp)[unat page_index := a]\<rparr>)\<rparr>))
                else Ret (Some (sp_paddr sp ! unat page_index), st)))"

text \<open>
  \<^verbatim>\<open>shared_frame\<close> stays null, so the frame that is mapped is always a second, fresh one (line 140).
\<close>

definition portal_fault_anon ::
  "'l fayt \<Rightarrow> ('h, 'm) portal_deps \<Rightarrow> ('l, 'h, 'm) pstate \<Rightarrow> u64 \<Rightarrow> (s32 \<times> ('l, 'h, 'm) pstate) outcome" where
  "portal_fault_anon F D st addr =
     (case find_anon addr (portal_root st) of
        None \<Rightarrow> Ret (- 1, st)
      | Some root \<Rightarrow>
          let flags = portal_translate_protections (prot root);
              vaddr = addr - (addr AND (PAGE_SIZE - 1)) in
          obind (if ptype root AND PORTAL_REQ_SHARE \<noteq> 0 then share_backing F D st root vaddr
                 else obind (pmm_alloc F (kst st) 1 1) (\<lambda>(a, s). Ret (Some a, st\<lparr>kst := s\<rparr>))) (\<lambda>(backing, st).
          case backing of
            None \<Rightarrow> Ret (- 1, st)
          | Some _ \<Rightarrow>
              obind (pmm_alloc F (kst st) 1 1) (\<lambda>(a, s).
              let pg = \<lparr>page_vaddr = vaddr, page_frame = \<lparr>paddr = a, frame_refcnt = 1\<rparr>\<rparr> in
              obind (map_page F s (ptab st) vaddr a flags) (\<lambda>(_, pt, s).
              let (ret, h) = push_page D (pages st) vaddr pg;
                  st = st\<lparr>kst := s, ptab := pt, pages := h\<rparr> in
              Ret (if ret = - 1 then - 1 else 0, st)))))"

definition portal_fault_share :: "('l, 'h, 'm) pstate \<Rightarrow> u64 \<Rightarrow> (s32 \<times> ('l, 'h, 'm) pstate) outcome" where
  "portal_fault_share st addr = Ret (- 1, st)"

definition portal_fault_sp :: "('l, 'h, 'm) pstate \<Rightarrow> u64 \<Rightarrow> (s32 \<times> ('l, 'h, 'm) pstate) outcome" where
  "portal_fault_sp st addr = Ret (- 1, st)"

definition portal_fault_cow :: "('l, 'h, 'm) pstate \<Rightarrow> u64 \<Rightarrow> (s32 \<times> ('l, 'h, 'm) pstate) outcome" where
  "portal_fault_cow st addr = Ret (- 1, st)"

text \<open>One \<^verbatim>\<open>if(cond) if(handler(...) == -1) return -1;\<close> of a handler chain.\<close>

definition guarded ::
  "bool \<Rightarrow> ('s \<Rightarrow> (s32 \<times> 's) outcome) \<Rightarrow> ('s \<Rightarrow> (s32 \<times> 's) outcome) \<Rightarrow> 's \<Rightarrow> (s32 \<times> 's) outcome" where
  "guarded c h rest st =
     (if c then obind (h st) (\<lambda>(ret, st). if ret = - 1 then Ret (- 1, st) else rest st) else rest st)"

text \<open>\<open>ctx\<close> is \<^verbatim>\<open>CORE_LOCAL->current_context\<close> and \<open>page_table\<close> its page table, which is the table of the state.\<close>

definition portal_resolve_fault ::
  "'l fayt \<Rightarrow> ('h, 'm) portal_deps \<Rightarrow> ptr \<Rightarrow> ptr \<Rightarrow> ('l, 'h, 'm) pstate \<Rightarrow> u64 \<Rightarrow> u64 \<Rightarrow> (s32 \<times> ('l, 'h, 'm) pstate) outcome" where
  "portal_resolve_fault F D ctx page_table st faulting_address error_code =
     (if ctx = NULL then Ret (- 1, st)
      else if page_table = NULL then Ret (- 1, st)
      else let faulting_page = faulting_address AND NOT 0xfff in
      obind (page_entry F (kst st) (ptab st) faulting_page) (\<lambda>(pml_entry, pt).
      let st = st\<lparr>ptab := pt\<rparr>;
          entry = (case pml_entry of None \<Rightarrow> 0 | Some a \<Rightarrow> memory (kst st) a) in
      guarded (error_code AND X86_FLAGS_P = 0) (\<lambda>st. portal_fault_anon F D st faulting_address)
       (guarded (entry AND PAGE_FAULT_COW \<noteq> 0) (\<lambda>st. portal_fault_cow st faulting_address)
       (guarded (entry AND PAGE_FAULT_SHARE \<noteq> 0) (\<lambda>st. portal_fault_share st faulting_address)
       (guarded (entry AND PAGE_FAULT_SP \<noteq> 0) (\<lambda>st. portal_fault_sp st faulting_address)
       (\<lambda>st. Ret (0, st))))) st))"

section \<open>Requests\<close>

fun direct_loop ::
  "'l map_fn \<Rightarrow> 'l kstate \<Rightarrow> 'l page_table \<Rightarrow> u64 \<Rightarrow> u64 list \<Rightarrow> nat \<Rightarrow> u64 \<Rightarrow>
   ('l page_table \<times> 'l kstate) outcome" where
  "direct_loop mapp s pt vaddr ps 0 flags = Ret (pt, s)"
| "direct_loop mapp s pt vaddr [] (Suc n) flags = Fault OutOfBounds"
| "direct_loop mapp s pt vaddr (p # ps) (Suc n) flags =
     obind (mapp s pt vaddr p flags) (\<lambda>(_, pt, s). direct_loop mapp s pt (vaddr + PAGE_SIZE) ps n flags)"

type_synonym ('l, 'h, 'm) handler = "portal \<times> ('l, 'h, 'm) pstate \<Rightarrow> (s32 \<times> portal \<times> ('l, 'h, 'm) pstate) outcome"

definition portal_handle_direct :: "'l fayt \<Rightarrow> portal_req \<Rightarrow> ('l, 'h, 'm) handler" where
  "portal_handle_direct F req = (\<lambda>(p, st).
     obind (direct_loop (map_page F) (kst st) (ptab st) (morph_addr req) (morph_paddr req)
              (unat (DIV_ROUNDUP F (morph_length req) PAGE_SIZE))
              (portal_translate_protections (req_prot req))) (\<lambda>(pt, s).
     Ret (0, p\<lparr>ptype := ptype p OR PORTAL_REQ_DIRECT\<rparr>, st\<lparr>ptab := pt, kst := s\<rparr>)))"

definition portal_handle_anon :: "portal_req \<Rightarrow> ('l, 'h, 'm) handler" where
  "portal_handle_anon req = (\<lambda>(p, st). Ret (0, p\<lparr>ptype := ptype p OR PORTAL_REQ_ANON\<rparr>, st))"

definition link_init :: "('h, 'm) portal_deps \<Rightarrow> portal_req \<Rightarrow> ('l, 'h, 'm) pstate \<Rightarrow> ('l, 'h, 'm) pstate" where
  "link_init D req st =
     (let data = sizeof_portal_link + sizeof_circular_queue D;
          queue_length = (morph_length req - sizeof_portal_link - sizeof_circular_queue D) div 4 in
      st\<lparr>links := (links st)(morph_addr req \<mapsto> \<lparr>link_lock = 0, link_length = ucast (morph_length req),
            header_offset = 0, header_limit = ucast sizeof_portal_link, data_offset = ucast data,
            data_limit = ucast (morph_length req - sizeof_portal_link - sizeof_circular_queue D),
            magic = LINK_CIRCULAR_MAGIC\<rparr>),
         circular_queues := (morph_addr req + sizeof_portal_link, morph_addr req + data, ucast queue_length)
           # circular_queues st\<rparr>)"

text \<open>A share point is allocated with \<^verbatim>\<open>sizeof(struct portal_share_point)\<close>: no room for \<^verbatim>\<open>paddr\<close>.\<close>

definition portal_handle_share :: "'l fayt \<Rightarrow> ('h, 'm) portal_deps \<Rightarrow> portal_req \<Rightarrow> ('l, 'h, 'm) handler" where
  "portal_handle_share F D req = (\<lambda>(p, st).
     let p = p\<lparr>ptype := ptype p OR PORTAL_REQ_SHARE\<rparr>; ident = req_identifier req in
     let q = search_share D (portal_share_map st) ident in
     if q \<noteq> NULL then
       (case share_points st q of None \<Rightarrow> Fault NullDeref
        | Some sp \<Rightarrow> Ret (0, p\<lparr>share_identifier := Some (sp_identifier sp)\<rparr>, st))
     else if share_create req = 0 then Ret (- 1, p, st)
     else
       let q = alloc_share D (share_points st);
           sp = \<lparr>sp_identifier = ident,
             sp_length = sizeof_share_point D + DIV_ROUNDUP F (morph_length req) PAGE_SIZE, sp_paddr = []\<rparr>;
           p = p\<lparr>share_identifier := Some ident\<rparr>;
           (ret, m) = push_share D (portal_share_map st) ident q;
           st = st\<lparr>share_points := (share_points st)(q \<mapsto> sp), portal_share_map := m\<rparr> in
       if ret = - 1 then Ret (- 1, p, st)
       else Ret (0, p, if share_type req AND LINK_CIRCULAR = LINK_CIRCULAR then link_init D req st else st))"

definition portal_handle_cow :: "portal_req \<Rightarrow> ('l, 'h, 'm) handler" where
  "portal_handle_cow req = (\<lambda>(p, st). Ret (0, p\<lparr>ptype := ptype p OR PORTAL_REQ_COW\<rparr>, st))"

definition portal_handle_sp :: "portal_req \<Rightarrow> ('l, 'h, 'm) handler" where
  "portal_handle_sp req = (\<lambda>(p, st). Ret (0, p\<lparr>ptype := ptype p OR PORTAL_REQ_SP\<rparr>, st))"

text \<open>\<open>raw\<close> is the contents of the allocated \<^verbatim>\<open>struct portal\<close> before its fields are set.\<close>

definition portal_request ::
  "'l fayt \<Rightarrow> ('h, 'm) portal_deps \<Rightarrow> portal \<Rightarrow> ('l, 'h, 'm) pstate \<Rightarrow> portal_req \<Rightarrow>
   (s32 \<times> portal_resp \<times> ('l, 'h, 'm) pstate) outcome" where
  "portal_request F D raw st req =
     (let p = raw\<lparr>base := morph_addr req, limit := morph_length req, prot := req_prot req\<rparr>;
          on = (\<lambda>bit. req_type req AND bit \<noteq> 0) in
      obind
       (guarded (on PORTAL_REQ_DIRECT) (portal_handle_direct F req)
        (guarded (on PORTAL_REQ_ANON) (portal_handle_anon req)
        (guarded (on PORTAL_REQ_SHARE) (portal_handle_share F D req)
        (guarded (on PORTAL_REQ_COW) (portal_handle_cow req)
        (guarded (on PORTAL_REQ_SP) (portal_handle_sp req)
        (\<lambda>x. Ret (0, x)))))) (p, st)) (\<lambda>(ret, p, st).
      if ret = - 1
      then Ret (- 1, \<lparr>resp_base = 0, resp_limit = 0, resp_flags = PORTAL_RESP_FAILURE OR pflags p\<rparr>, st)
      else Ret (0, \<lparr>resp_base = base p, resp_limit = limit p, resp_flags = PORTAL_RESP_SUCCESS OR pflags p\<rparr>,
             st\<lparr>portal_root := BST_INSERT D (portal_root st) p\<rparr>)))"

subsection \<open>Destruction\<close>

text \<open>
  \<^verbatim>\<open>portal_destroy\<close> reads objects through pointers and gives them back to the slab allocator. The environment says what the
  pointers lead to: a portal's own address and its field \<^verbatim>\<open>pages\<close>, the slots of a table, the frame of a page;
  \<^verbatim>\<open>hash_table_destroy\<close> is from \<open>fayt\<close>. Frames are shared and counted, so they are in the state, and so is the list of the
  objects given back, in order: using or giving back an object again is an error.
\<close>

record destroy_env =
  addr_of :: "portal \<Rightarrow> ptr"
  pages_of :: "portal \<Rightarrow> ptr"
  table_data :: "ptr \<Rightarrow> ptr option list option"
  frame_of :: "ptr \<Rightarrow> ptr option"
  hash_table_destroy :: "ptr \<Rightarrow> ptr list \<Rightarrow> ptr list outcome"

type_synonym 'l destroy_state = "'l kstate \<times> (ptr \<Rightarrow> frame option) \<times> ptr list"

definition unfreed :: "ptr \<Rightarrow> ptr list \<Rightarrow> unit outcome" where
  "unfreed p freed = (if p \<in> set freed then Fault UseAfterFree else Ret ())"

fun destroy_pages :: "'l fayt \<Rightarrow> destroy_env \<Rightarrow> ptr option list \<Rightarrow> 'l destroy_state \<Rightarrow> 'l destroy_state outcome" where
  "destroy_pages F E [] st = Ret st"
| "destroy_pages F E (None # ps) st = destroy_pages F E ps st"
| "destroy_pages F E (Some p # ps) (s, frames, freed) =
     obind (unfreed p freed) (\<lambda>_.
     obind (deref (frame_of E) p) (\<lambda>q.
     obind (deref frames q) (\<lambda>f.
     let f = f\<lparr>frame_refcnt := frame_refcnt f - 1\<rparr> in
     obind (if frame_refcnt f = 0 then pmm_free F s (paddr f) 1 else Ret s) (\<lambda>s.
     destroy_pages F E ps (s, frames(q \<mapsto> f), freed @ [p])))))"

fun portal_destroy :: "'l fayt \<Rightarrow> destroy_env \<Rightarrow> portal tree \<Rightarrow> 'l destroy_state \<Rightarrow> 'l destroy_state outcome" where
  "portal_destroy F E Leaf st = Ret st"
| "portal_destroy F E (Node l p r) st =
     obind (unfreed (addr_of E p) (snd (snd st))) (\<lambda>_.
     obind (portal_destroy F E l st) (\<lambda>st.
     obind (portal_destroy F E r st) (\<lambda>(s, frames, freed).
     obind (unfreed (pages_of E p) freed) (\<lambda>_.
     obind (deref (table_data E) (pages_of E p)) (\<lambda>ps.
     obind (destroy_pages F E ps (s, frames, freed)) (\<lambda>(s, frames, freed).
     obind (hash_table_destroy E (pages_of E p) freed) (\<lambda>freed.
     obind (unfreed (addr_of E p) freed) (\<lambda>_.
     Ret (s, frames, freed @ [addr_of E p])))))))))"

section \<open>Protections\<close>

lemma protections_map_flags:
  "map_flags (portal_translate_protections p)" "\<not> huge (portal_translate_protections p)"
  by (simp_all add: portal_translate_protections_def Let_def map_flags_def present_def huge_def)

lemma protections_bits:
  "portal_translate_protections p AND X86_FLAGS_RW \<noteq> 0 \<longleftrightarrow> p AND PORTAL_PROT_WRITE \<noteq> 0"
  "portal_translate_protections p AND X86_FLAGS_NX = 0 \<longleftrightarrow> p AND PORTAL_PROT_EXEC \<noteq> 0"
  "portal_translate_protections p AND X86_FLAGS_P \<noteq> 0"
  "portal_translate_protections p AND X86_FLAGS_US \<noteq> 0"
  by (simp_all add: portal_translate_protections_def Let_def)

section \<open>The search\<close>

text \<open>A tree ordered by base, as the insertion keeps it.\<close>

definition portal_bst :: "portal tree \<Rightarrow> bool" where
  "portal_bst t \<longleftrightarrow> sorted (map base (inorder t))"

definition bst_insert_law :: "('h, 'm) portal_deps \<Rightarrow> bool" where
  "bst_insert_law D \<longleftrightarrow> (\<forall>t p. portal_bst t \<longrightarrow>
     portal_bst (BST_INSERT D t p) \<and> set_tree (BST_INSERT D t p) = insert p (set_tree t))"

lemma portal_bst_Node:
  "portal_bst (Node l p r) \<longleftrightarrow> portal_bst l \<and> portal_bst r \<and>
    (\<forall>x\<in>set_tree l. base x \<le> base p) \<and> (\<forall>x\<in>set_tree r. base p \<le> base x)"
  by (fastforce simp: portal_bst_def sorted_append)

text \<open>The addresses a portal claims, and portals that do not overlap.\<close>

definition covers :: "portal \<Rightarrow> u64 \<Rightarrow> bool" where
  "covers p a \<longleftrightarrow> base p \<le> a \<and> unat a < unat (base p) + unat (limit p)"

definition proper :: "portal \<Rightarrow> bool" where
  "proper p \<longleftrightarrow> limit p \<noteq> 0 \<and> unat (base p) + unat (limit p) < 2 ^ 64"

definition apart :: "portal \<Rightarrow> portal \<Rightarrow> bool" where
  "apart p q \<longleftrightarrow> unat (base p) + unat (limit p) \<le> unat (base q) \<or> unat (base q) + unat (limit q) \<le> unat (base p)"

lemma find_anon_sound:
  "find_anon a t = Some p \<Longrightarrow> p \<in> set_tree t \<and> ptype p AND PORTAL_REQ_ANON \<noteq> 0 \<and>
    base p \<le> a \<and> a \<le> base p + limit p"
  by (induction t) (auto split: if_splits)

lemma find_anon_complete:
  assumes "portal_bst t" "p \<in> set_tree t" "ptype p AND PORTAL_REQ_ANON \<noteq> 0" "covers p a"
    and "\<And>q. q \<in> set_tree t \<Longrightarrow> proper q"
    and "\<And>q. q \<in> set_tree t \<Longrightarrow> q \<noteq> p \<Longrightarrow> apart q p \<and> unat (base q) + unat (limit q) \<noteq> unat a"
  shows "find_anon a t = Some p"
  using assms
proof (induction t)
  case (Node l q r)
  have ab: "unat (base p) \<le> unat a" "unat a < unat (base p) + unat (limit p)"
    using Node.prems(4) by (simp_all add: covers_def word_le_nat_alt)
  have hi: "unat (base x + limit x) = unat (base x) + unat (limit x)" if "x \<in> set_tree (Node l q r)" for x
    using Node.prems(5) [OF that] by (simp add: proper_def unat_add_exact)
  show ?case
  proof (cases "q = p")
    case True
    then show ?thesis using ab hi [of q] Node.prems(3) by (simp add: word_le_nat_alt)
  next
    case False
    have q: "apart q p" "unat (base q) + unat (limit q) \<noteq> unat a" using Node.prems(6) [of q] False by auto
    then have miss: "\<not> (base q \<le> a \<and> a \<le> base q + limit q)"
      using ab hi [of q] by (auto simp: apart_def word_le_nat_alt)
    have "p \<in> set_tree l \<or> p \<in> set_tree r" using Node.prems(2) False by auto
    moreover have lr: "portal_bst l" "portal_bst r" "\<forall>x\<in>set_tree l. base x \<le> base q"
      "\<forall>x\<in>set_tree r. base q \<le> base x" using Node.prems(1) by (simp_all add: portal_bst_Node)
    moreover have "a < base q" if "p \<in> set_tree l"
    proof -
      have "limit q \<noteq> 0" using Node.prems(5) [of q] by (simp add: proper_def)
      then have "0 < unat (limit q)" by (simp add: unat_gt_0)
      moreover have "unat (base p) \<le> unat (base q)" using lr(3) that by (simp add: word_le_nat_alt)
      ultimately show ?thesis using q(1) ab by (auto simp: apart_def word_less_nat_alt)
    qed
    moreover have "\<not> a < base q" if "p \<in> set_tree r"
      using that lr(4) ab by (force simp: word_le_nat_alt word_less_nat_alt)
    moreover have "find_anon a l = Some p" if "p \<in> set_tree l"
      using Node.IH(1) [OF lr(1) that Node.prems(3,4)] Node.prems(5,6) by simp
    moreover have "find_anon a r = Some p" if "p \<in> set_tree r"
      using Node.IH(2) [OF lr(2) that Node.prems(3,4)] Node.prems(5,6) by simp
    ultimately show ?thesis using miss by auto
  qed
qed simp

section \<open>Direct mappings\<close>

context page_mapper
begin

lemma direct_loop_maps:
  assumes "inv s" "room s (n * cost + k)" "ok s pt" "map_flags f" "\<not> huge f"
    "small_range (view s pt) v 0x1000 n" "n \<le> length ps" "\<And>p. p \<in> set ps \<Longrightarrow> 4096 dvd unat p"
  shows "\<exists>pt' s'. direct_loop mapp s pt v ps n f = Ret (pt', s') \<and>
    inv s' \<and> room s' k \<and> ok s' pt' \<and> pmlt pt' = pmlt pt \<and> HIGH_VMA s' = HIGH_VMA s \<and>
    owned s \<subseteq> owned s' \<and> view s' pt' = fresh_view page 0x1000 f (take n ps) v (view s pt)"
  using assms
proof (induction n arbitrary: s pt v ps)
  case (Suc n)
  then obtain p qs where ps: "ps = p # qs" by (cases ps) auto
  have room: "room s (cost + (n * cost + k))" using Suc.prems(2) by (simp add: algebra_simps)
  have sm: "\<not> huge e" if "view s pt v = Some e" for e
    using small_range_first [OF Suc.prems(6)] that by simp
  obtain r pt2 s2 where m: "mapp s pt v p f = Ret (Some r, pt2, s2)" "inv s2"
    "room s2 (n * cost + k)" "ok s2 pt2" "owned s \<subseteq> owned s2" "HIGH_VMA s2 = HIGH_VMA s"
    "pmlt pt2 = pmlt pt" and vw: "\<forall>w. view s2 pt2 w = (if page w = page v then Some (p OR f) else view s pt w)"
    using map_small [OF Suc.prems(1) room Suc.prems(3,4,5) sm] by blast
  have vw': "view s2 pt2 = map_view page v (p OR f) (view s pt)" using vw by (auto simp: map_view_def)
  have "small_range (view s2 pt2) (v + 0x1000) 0x1000 n"
    unfolding vw' using Suc.prems(5,6,8) aligned_not_huge [of p] ps
    by (intro small_range_map) (simp_all add: huge_or)
  then show ?case
    using Suc.IH [OF m(2-4) Suc.prems(4,5), of "v + 0x1000" qs] Suc.prems(7,8) m vw' ps by fastforce
qed auto

end

section \<open>Requests and faults\<close>

lemma page_of_addr: "addr - (addr AND (PAGE_SIZE - 1)) = addr AND NOT 0xfff"
  by (subst disjunctive_diff) (auto simp: bit_simps word_bits_eq)

lemma vpn_page: "vpn m (addr AND NOT 0xfff) = vpn m addr"
proof -
  have "bit (addr AND NOT 0xfff) n = bit addr n" if "12 \<le> n" for n
    unfolding bit_and_iff bit_not_iff mask12_bit using that by (auto dest: bit_imp_le_length)
  then show ?thesis unfolding vpn_def drop_take_eq by blast
qed

lemma translate_page: "vpn m v = vpn m w \<Longrightarrow> translate m s root v = translate m s root w"
  using vpn_eq [of m v w] by (simp add: translate_def Let_def)

text \<open>Demand paging: one frame is allocated and not used, a second one is mapped.\<close>

lemma alloc_alloc_map:
  assumes "fayt_laws F" "pmm_inv F s" "pmm_room F (modules s) (levels m + 2)" "pt_ok F m s pt" "map_flags f" "\<not> huge f"
    "\<forall>e. view m s pt v = Some e \<longrightarrow> \<not> huge e"
  shows "\<exists>a s1 b s2 r pt' s'. pmm_alloc F s 1 1 = Ret (a, s1) \<and> pmm_alloc F s1 1 1 = Ret (b, s2) \<and>
    map_page F s2 pt v b f = Ret (r, pt', s') \<and> pmm_inv F s' \<and> pt_ok F m s' pt' \<and> a \<noteq> b \<and>
    a \<notin> pmm_owned F s \<and> b \<notin> pmm_owned F s \<and> {a, b} \<subseteq> pmm_owned F s' \<and> zero_frame s' b \<and>
    view m s' pt' = map_view (vpn m) v (b OR f) (view m s pt)"
proof -
  have o: "tables_apart F m {} s pt" using assms(1,2,4) by (simp add: tables_apart_empty)
  have r2: "pmm_room F (modules s) (Suc (Suc (levels m + 0)))" using assms(3) by (simp add: numeral_2_eq_2)
  obtain a s1 where a: "pmm_alloc F s 1 1 = Ret (a, s1)" "tables_apart F m {a} s1 pt" "a \<notin> pmm_owned F s"
    "pmm_owned F s1 = insert a (pmm_owned F s)" "pmm_room F (modules s1) (Suc (levels m + 0))" and va: "\<forall>w. view m s1 pt w = view m s pt w"
    using singles.apart_alloc [OF o r2] by blast
  obtain b s2 where b: "pmm_alloc F s1 1 1 = Ret (b, s2)" "tables_apart F m {b, a} s2 pt" "b \<notin> pmm_owned F s1"
    "pmm_room F (modules s2) (levels m + 0)" "zero_frame s2 b" and vb: "\<forall>w. view m s2 pt w = view m s1 pt w"
    using singles.apart_alloc [OF a(2,5)] by blast
  have sm: "\<not> huge e" if "view m s2 pt v = Some e" for e using that assms(7) va vb by simp
  obtain r pt' s' where t: "map_page F s2 pt v b f = Ret (Some r, pt', s')" "tables_apart F m {b, a} s' pt'" "agree_on {b, a} s2 s'"
    and vw: "\<forall>w. view m s' pt' w = (if vpn m w = vpn m v then Some (b OR f) else view m s2 pt w)"
    using singles.apart_map [OF b(2,4) assms(5,6), of v b] sm by blast
  have "view m s' pt' = map_view (vpn m) v (b OR f) (view m s pt)" using vw va vb by (auto simp: map_view_def)
  moreover have "zero_frame s' b" by (rule zero_frame_agree [OF b(5) t(3)]) simp
  moreover have "pmm_inv F s'" "{a, b} \<subseteq> pmm_owned F s'" "pt_ok F m s' pt'"
    using t(2) tables_apart_ok [OF t(2)] by (simp_all add: tables_apart_def)
  moreover have "a \<noteq> b" "b \<notin> pmm_owned F s" using b(3) a(4) by auto
  ultimately show ?thesis using a(1,3) b(1) t(1) by blast
qed

text \<open>What a resolved demand fault does to the address space.\<close>

lemma fault_anon_maps:
  assumes laws: "fayt_laws F" and inv: "pmm_inv F (kst st)" and room: "pmm_room F (modules (kst st)) (levels m + 2)"
    and ok: "pt_ok F m (kst st) (ptab st)" and found: "find_anon addr (portal_root st) = Some p"
    and plain: "ptype p AND PORTAL_REQ_SHARE = 0" and small: "\<And>e. view m (kst st) (ptab st) addr = Some e \<Longrightarrow> \<not> huge e"
  shows "\<exists>ret a b st'. portal_fault_anon F D st addr = Ret (ret, st') \<and> pmm_inv F (kst st') \<and>
    pt_ok F m (kst st') (ptab st') \<and> portal_root st' = portal_root st \<and> a \<noteq> b \<and>
    {a, b} \<inter> pmm_owned F (kst st) = {} \<and> {a, b} \<subseteq> pmm_owned F (kst st') \<and> zero_frame (kst st') b \<and>
    view m (kst st') (ptab st') = map_view (vpn m) addr (b OR portal_translate_protections (prot p)) (view m (kst st) (ptab st)) \<and>
    ((\<forall>v pg. fst (push_page D (pages st) v pg) \<noteq> - 1) \<longrightarrow> ret = 0)"
proof -
  define v where "v = addr - (addr AND (PAGE_SIZE - 1))"
  define f where "f = portal_translate_protections (prot p)"
  have vv: "vpn m v = vpn m addr" unfolding v_def page_of_addr by (rule vpn_page)
  have f: "map_flags f" "\<not> huge f" unfolding f_def by (rule protections_map_flags)+
  have sm: "\<forall>e. view m (kst st) (ptab st) v = Some e \<longrightarrow> \<not> huge e"
    using small translate_page [OF vv] by metis
  obtain a s1 b s2 r pt' s' where r: "pmm_alloc F (kst st) 1 1 = Ret (a, s1)" "pmm_alloc F s1 1 1 = Ret (b, s2)"
    "map_page F s2 (ptab st) v b f = Ret (r, pt', s')"
    and post: "pmm_inv F s'" "pt_ok F m s' pt'" "a \<noteq> b" "a \<notin> pmm_owned F (kst st)"
      "b \<notin> pmm_owned F (kst st)" "{a, b} \<subseteq> pmm_owned F s'" "zero_frame s' b"
      "view m s' pt' = map_view (vpn m) v (b OR f) (view m (kst st) (ptab st))"
    using alloc_alloc_map [OF laws inv room ok f sm] by (elim exE conjE) (rule that)
  obtain ret h where h: "push_page D (pages st) v \<lparr>page_vaddr = v, page_frame = \<lparr>paddr = b, frame_refcnt = 1\<rparr>\<rparr> = (ret, h)"
    by fastforce
  let ?st = "st\<lparr>kst := s', ptab := pt', pages := h\<rparr>" and ?ret = "if ret = - 1 then - 1 else 0 :: s32"
  have "portal_fault_anon F D st addr = Ret (?ret, ?st)"
    unfolding portal_fault_anon_def Let_def v_def [symmetric] f_def [symmetric]
    using found plain r h by (simp add: Let_def f_def [symmetric])
  moreover have "view m (kst ?st) (ptab ?st) = map_view (vpn m) addr (b OR f) (view m (kst st) (ptab st))"
    using post(8) vv by (simp add: map_view_def)
  moreover have "pmm_inv F (kst ?st)" "pt_ok F m (kst ?st) (ptab ?st)" "portal_root ?st = portal_root st"
    "{a, b} \<inter> pmm_owned F (kst st) = {}" "{a, b} \<subseteq> pmm_owned F (kst ?st)" "zero_frame (kst ?st) b"
    using post by simp_all
  moreover have "(\<forall>v pg. fst (push_page D (pages st) v pg) \<noteq> - 1) \<longrightarrow> ?ret = 0" using h by (metis fst_conv)
  ultimately show ?thesis
    using post(3) unfolding f_def
    by (intro exI [of _ ?ret] exI [of _ a] exI [of _ b] exI [of _ ?st] conjI)
qed

lemma request_anon:
  assumes "req_type req = PORTAL_REQ_ANON"
  shows "portal_request F D raw st req =
    (let p = raw\<lparr>base := morph_addr req, limit := morph_length req, prot := req_prot req,
       ptype := ptype raw OR PORTAL_REQ_ANON\<rparr> in
     Ret (0, \<lparr>resp_base = morph_addr req, resp_limit = morph_length req, resp_flags = PORTAL_RESP_SUCCESS OR pflags raw\<rparr>,
       st\<lparr>portal_root := BST_INSERT D (portal_root st) p\<rparr>))"
  using assms by (simp add: portal_request_def guarded_def portal_handle_anon_def Let_def)

text \<open>
  Requests that neither map pages nor create a share point: they change nothing but the tree of portals, provided the share map only
  has share points that exist.
\<close>

definition mild :: "portal_req \<Rightarrow> bool" where
  "mild req \<longleftrightarrow> req_type req AND PORTAL_REQ_DIRECT = 0 \<and> (req_type req AND PORTAL_REQ_SHARE \<noteq> 0 \<longrightarrow> share_create req = 0)"

definition shares_known :: "('h, 'm) portal_deps \<Rightarrow> 'm \<Rightarrow> (ptr \<Rightarrow> portal_share_point option) \<Rightarrow> bool" where
  "shares_known D m points \<longleftrightarrow> (\<forall>i. search_share D m i \<noteq> NULL \<longrightarrow> points (search_share D m i) \<noteq> None)"

text \<open>A chain of handlers that leaves the state as it is.\<close>

definition keeps_state :: "('l, 'h, 'm) handler \<Rightarrow> ('l, 'h, 'm) pstate \<Rightarrow> bool" where
  "keeps_state h st \<longleftrightarrow> (\<forall>p. \<exists>ret p'. h (p, st) = Ret (ret, p', st) \<and> (ret = 0 \<or> ret = - 1))"

lemma guarded_keeps: "(c \<Longrightarrow> keeps_state h st) \<Longrightarrow> keeps_state rest st \<Longrightarrow> keeps_state (guarded c h rest) st"
proof -
  assume h: "c \<Longrightarrow> keeps_state h st" and rest: "keeps_state rest st"
  have "\<exists>ret p'. guarded c h rest (p, st) = Ret (ret, p', st) \<and> (ret = 0 \<or> ret = - 1)" for p
  proof (cases c)
    case True
    then obtain ret p' where "h (p, st) = Ret (ret, p', st)" "ret = 0 \<or> ret = - 1" using h unfolding keeps_state_def by blast
    then show ?thesis using True rest by (cases "ret = - 1") (auto simp: guarded_def keeps_state_def)
  qed (use rest in \<open>simp add: guarded_def keeps_state_def\<close>)
  then show ?thesis by (simp add: keeps_state_def)
qed

lemma share_keeps:
  assumes "shares_known D (portal_share_map st) (share_points st)" "share_create req = 0"
  shows "keeps_state (portal_handle_share F D req) st"
  using assms unfolding shares_known_def keeps_state_def by (auto simp: portal_handle_share_def Let_def split: option.split)

lemma marks_keep:
  "keeps_state (portal_handle_anon req) st" "keeps_state (portal_handle_cow req) st" "keeps_state (portal_handle_sp req) st" "keeps_state (\<lambda>x. Ret (0, x)) st"
  by (simp_all add: keeps_state_def portal_handle_anon_def portal_handle_cow_def portal_handle_sp_def)

lemma request_mild:
  assumes "mild req" "shares_known D (portal_share_map st) (share_points st)"
  shows "\<exists>ret resp t. portal_request F D raw st req = Ret (ret, resp, st\<lparr>portal_root := t\<rparr>) \<and> (ret = 0 \<or> ret = - 1)"
proof -
  let ?p = "raw\<lparr>base := morph_addr req, limit := morph_length req, prot := req_prot req\<rparr>"
  let ?g = "guarded (req_type req AND PORTAL_REQ_DIRECT \<noteq> 0) (portal_handle_direct F req)
        (guarded (req_type req AND PORTAL_REQ_ANON \<noteq> 0) (portal_handle_anon req)
        (guarded (req_type req AND PORTAL_REQ_SHARE \<noteq> 0) (portal_handle_share F D req)
        (guarded (req_type req AND PORTAL_REQ_COW \<noteq> 0) (portal_handle_cow req)
        (guarded (req_type req AND PORTAL_REQ_SP \<noteq> 0) (portal_handle_sp req)
        (\<lambda>x. Ret (0, x))))))"
  have "keeps_state ?g st"
    by (intro guarded_keeps marks_keep share_keeps) (use assms in \<open>auto simp: mild_def\<close>)
  then obtain ret p where g: "?g (?p, st) = Ret (ret, p, st)" "ret = 0 \<or> ret = - 1" unfolding keeps_state_def by blast
  show ?thesis
  proof (cases "ret = - 1")
    case True
    then show ?thesis using g(1) by (intro exI [of _ "- 1"] exI exI [of _ "portal_root st"] conjI) (simp_all add: portal_request_def Let_def)
  next
    case False
    then show ?thesis using g by (intro exI [of _ 0] exI conjI) (simp_all add: portal_request_def Let_def)
  qed
qed

lemma anon_inserted_found:
  assumes "bst_insert_law D" "portal_bst t" "\<forall>q\<in>set_tree t. proper q" "ptype p AND PORTAL_REQ_ANON \<noteq> 0" "proper p" "covers p addr"
    and "\<forall>q\<in>set_tree t. apart q p \<and> unat (base q) + unat (limit q) \<noteq> unat addr"
  shows "find_anon addr (BST_INSERT D t p) = Some p"
proof -
  have i: "portal_bst (BST_INSERT D t p)" "set_tree (BST_INSERT D t p) = insert p (set_tree t)"
    using assms(1,2) by (simp_all add: bst_insert_law_def)
  show ?thesis by (rule find_anon_complete [OF i(1) _ assms(4,6)]) (use i(2) assms(3,5,7) in auto)
qed

lemma request_direct:
  assumes laws: "fayt_laws F" and inv: "pmm_inv F (kst st)"
    and n: "n = unat (DIV_ROUNDUP F (morph_length req) PAGE_SIZE)" "n \<le> length (morph_paddr req)"
    and room: "pmm_room F (modules (kst st)) (n * levels m + k)"
    and ok: "pt_ok F m (kst st) (ptab st)" and al: "\<And>a. a \<in> set (morph_paddr req) \<Longrightarrow> 4096 dvd unat a"
    and small: "small_range (view m (kst st) (ptab st)) (morph_addr req) 0x1000 n"
    and ty: "req_type req = PORTAL_REQ_DIRECT"
  shows "\<exists>st'. portal_request F D raw st req =
      Ret (0, \<lparr>resp_base = morph_addr req, resp_limit = morph_length req, resp_flags = PORTAL_RESP_SUCCESS OR pflags raw\<rparr>, st') \<and>
    pmm_inv F (kst st') \<and> pt_ok F m (kst st') (ptab st') \<and>
    view m (kst st') (ptab st') = fresh_view (vpn m) 0x1000 (portal_translate_protections (req_prot req))
      (take n (morph_paddr req)) (morph_addr req) (view m (kst st) (ptab st))"
proof -
  obtain pt' s' where d: "direct_loop (map_page F) (kst st) (ptab st) (morph_addr req) (morph_paddr req) n
      (portal_translate_protections (req_prot req)) = Ret (pt', s')"
    and post: "fayt_laws F \<and> pmm_inv F s'" "pt_ok F m s' pt'"
      "view m s' pt' = fresh_view (vpn m) 0x1000 (portal_translate_protections (req_prot req))
        (take n (morph_paddr req)) (morph_addr req) (view m (kst st) (ptab st))"
    using vm.direct_loop_maps [OF conjI [OF laws inv] room ok protections_map_flags small n(2) al] by blast
  show ?thesis
    using d post ty n(1) by (auto simp: portal_request_def guarded_def portal_handle_direct_def Let_def)
qed

lemma software_bits:
  assumes "e AND 0xE00 = 0"
  shows "e AND PAGE_FAULT_COW = 0" "e AND PAGE_FAULT_SHARE = 0" "e AND PAGE_FAULT_SP = 0"
proof -
  have c: "e AND x = 0" if "0xE00 AND x = x" for x
  proof -
    have "e AND x = e AND (0xE00 AND x)" using that by simp
    also have "\<dots> = 0" unfolding and.assoc [symmetric] assms by simp
    finally show ?thesis .
  qed
  show "e AND PAGE_FAULT_COW = 0" "e AND PAGE_FAULT_SHARE = 0" "e AND PAGE_FAULT_SP = 0"
    by (rule c, simp)+
qed

text \<open>A protection fault on an entry without the three software bits: nothing is done, success is reported.\<close>

lemma protection_fault_ignored:
  assumes laws: "fayt_laws F" and ok: "pt_ok F m (kst st) (ptab st)"
    and e: "view m (kst st) (ptab st) addr = Some e" "e AND 0xE00 = 0" and p: "error_code AND X86_FLAGS_P \<noteq> 0"
    and ct: "c \<noteq> NULL" "t \<noteq> NULL"
  shows "\<exists>pt'. portal_resolve_fault F D c t st addr error_code = Ret (0, st\<lparr>ptab := pt'\<rparr>)"
proof -
  obtain r pt' where r: "page_entry F (kst st) (ptab st) (addr AND NOT 0xfff) = Ret (r, pt')"
    and v: "view m (kst st) (ptab st) (addr AND NOT 0xfff) = (case r of None \<Rightarrow> None
      | Some a \<Rightarrow> if present (memory (kst st) a) then Some (memory (kst st) a) else None)"
    using page_entry_correct [OF laws ok] by blast
  have "view m (kst st) (ptab st) (addr AND NOT 0xfff) = Some e"
    using e(1) translate_page [OF vpn_page] by metis
  then obtain a where a: "r = Some a" "memory (kst st) a = e" using v by (auto split: option.splits if_splits)
  have "portal_resolve_fault F D c t st addr error_code = Ret (0, st\<lparr>ptab := pt'\<rparr>)"
    using ct r a p software_bits [OF e(2)] by (simp add: portal_resolve_fault_def guarded_def Let_def)
  then show ?thesis by blast
qed

text \<open>A fault on an absent page inside an anonymous region, through the whole handler.\<close>

definition clean_entry :: "'l fayt \<Rightarrow> ('l, 'h, 'm) pstate \<Rightarrow> u64 \<Rightarrow> bool" where
  "clean_entry F st addr \<longleftrightarrow>
     (\<forall>q pt. page_entry F (kst st) (ptab st) (addr AND NOT 0xfff) = Ret (Some q, pt) \<longrightarrow> memory (kst st) q AND 0xE00 = 0)"

lemma resolve_anon_maps:
  assumes laws: "fayt_laws F" and inv: "pmm_inv F (kst st)" and room: "pmm_room F (modules (kst st)) (levels m + 2)"
    and ok: "pt_ok F m (kst st) (ptab st)" and found: "find_anon addr (portal_root st) = Some p"
    and plain: "ptype p AND PORTAL_REQ_SHARE = 0" and new: "view m (kst st) (ptab st) addr = None"
    and clean: "clean_entry F st addr" and push: "\<forall>v pg. fst (push_page D (pages st) v pg) \<noteq> - 1" and e: "error_code AND X86_FLAGS_P = 0"
    and ct: "c \<noteq> NULL" "t \<noteq> NULL"
  shows "\<exists>a b st'. portal_resolve_fault F D c t st addr error_code = Ret (0, st') \<and> pmm_inv F (kst st') \<and>
    pt_ok F m (kst st') (ptab st') \<and> portal_root st' = portal_root st \<and> a \<noteq> b \<and>
    {a, b} \<inter> pmm_owned F (kst st) = {} \<and> {a, b} \<subseteq> pmm_owned F (kst st') \<and> zero_frame (kst st') b \<and>
    view m (kst st') (ptab st') = map_view (vpn m) addr (b OR portal_translate_protections (prot p)) (view m (kst st) (ptab st))"
proof -
  obtain r pt' where r: "page_entry F (kst st) (ptab st) (addr AND NOT 0xfff) = Ret (r, pt')" "pt_ok F m (kst st) pt'" "pmlt pt' = pmlt (ptab st)"
    using page_entry_correct [OF laws ok] by blast
  let ?st = "st\<lparr>ptab := pt'\<rparr>"
  have s: "kst ?st = kst st" "ptab ?st = pt'" "portal_root ?st = portal_root st" "pages ?st = pages st" "pmlt (ptab ?st) = pmlt (ptab st)"
    using r(3) by simp_all
  from fault_anon_maps [OF laws, of ?st m addr p D, unfolded s, OF inv room r(2) found plain]
  obtain ret a b st' where f: "portal_fault_anon F D ?st addr = Ret (ret, st')" "pmm_inv F (kst st')" "pt_ok F m (kst st') (ptab st')"
    "portal_root st' = portal_root st" "a \<noteq> b" "{a, b} \<inter> pmm_owned F (kst st) = {}" "{a, b} \<subseteq> pmm_owned F (kst st')" "zero_frame (kst st') b"
    "view m (kst st') (ptab st') = map_view (vpn m) addr (b OR portal_translate_protections (prot p)) (view m (kst st) (ptab st))" "ret = 0"
    using new r(3) push by auto
  have "(case r of None \<Rightarrow> 0 | Some q \<Rightarrow> memory (kst st) q) AND 0xE00 = 0"
    using clean r(1) by (auto simp: clean_entry_def split: option.split)
  from software_bits [OF this] have "portal_resolve_fault F D c t st addr error_code = Ret (0, st')"
    unfolding portal_resolve_fault_def Let_def r(1) obind.simps prod.case s(1) using e f(1,10)
    by (simp add: guarded_def ct)
  then show ?thesis using f(2-9) by blast
qed

text \<open>A share point has no room for frame addresses, so a fault in a shared region cannot be resolved.\<close>

lemma share_fault_fails:
  assumes "find_anon addr (portal_root st) = Some p" "ptype p AND PORTAL_REQ_SHARE \<noteq> 0"
    "\<And>q sp. share_points st q = Some sp \<Longrightarrow> sp_paddr sp = []"
  shows "portal_fault_anon F D st addr \<noteq> Ret (0, st')"
  using assms
  by (auto simp: portal_fault_anon_def share_backing_def Let_def split: option.splits if_splits)

section \<open>Reference counts\<close>

lemma free_keeps_geometry:
  assumes "pmm_free F s a n = Ret s'"
  shows "map (\<lambda>m. (mmap_entry m, bitmap_entry_cnt m)) (modules s') = map (\<lambda>m. (mmap_entry m, bitmap_entry_cnt m)) (modules s)"
proof -
  have "map (\<lambda>m. (mmap_entry m, bitmap_entry_cnt m)) ms' = map (\<lambda>m. (mmap_entry m, bitmap_entry_cnt m)) ms"
    if "pmm_free_from F a n ms = Ret ms'" for ms ms'
    using that by (induction ms arbitrary: ms') (auto simp: pmm_module_free_def split: if_splits)
  then show ?thesis using assms by (auto simp: pmm_free_def split: if_splits)
qed

text \<open>A frame that \<^verbatim>\<open>pmm_free\<close> gives back: it is in a module and no earlier module accepts its address.\<close>

definition freeable :: "'l kstate \<Rightarrow> u64 \<Rightarrow> bool" where
  "freeable s a \<longleftrightarrow> (\<exists>i < length (modules s). \<exists>p < mod_pages (modules s ! i).
     a = frame_addr (modules s ! i) p \<and> (\<forall>j < i. \<not> accepts (modules s ! j) a 1))"

lemma freeable_free:
  assumes "fayt_laws F" "pmm_inv F s" "freeable s a"
  shows "\<exists>s'. pmm_free F s a 1 = Ret s' \<and> pmm_inv F s' \<and> pmm_owned F s' = pmm_owned F s - {a} \<and> (\<forall>b. freeable s' b = freeable s b)"
proof -
  obtain i p where i: "i < length (modules s)" "p < mod_pages (modules s ! i)" "a = frame_addr (modules s ! i) p"
    "\<forall>j < i. \<not> accepts (modules s ! j) a 1" using assms(3) by (auto simp: freeable_def)
  have "modules s = take i (modules s) @ modules s ! i # drop (Suc i) (modules s)" using i(1) by (rule id_take_nth_drop)
  moreover have "\<forall>n \<in> set (take i (modules s)). \<not> accepts n (frame_addr (modules s ! i) p) 1"
    using i by (auto simp: in_set_conv_nth)
  moreover have "p + unat (1 :: u64) \<le> mod_pages (modules s ! i)" using i(2) by simp
  ultimately obtain s' where s': "pmm_free F s a 1 = Ret s'" "pmm_inv F s'" "pmm_owned F s' = pmm_owned F s - run_frames a (unat (1 :: u64))"
    using pmm_free_correct [OF assms(1,2)] i(3) by blast
  let ?g = "\<lambda>m :: 'a pmm_module. (mmap_entry m, bitmap_entry_cnt m)"
  have g: "map ?g (modules s') = map ?g (modules s)" by (rule free_keeps_geometry [OF s'(1)])
  then have l: "length (modules s') = length (modules s)" by (rule map_eq_imp_length_eq)
  have "?g (modules s' ! j) = ?g (modules s ! j)" if "j < length (modules s)" for j
    using arg_cong [OF g, of "\<lambda>xs. xs ! j"] that l by simp
  then have "freeable s' b = freeable s b" for b
    unfolding freeable_def l by (intro ex_cong conj_cong refl) (auto simp: frame_addr_def mod_pages_def accepts_def)
  then show ?thesis using s' by (auto simp: run_frames_def)
qed

text \<open>
  What \<^verbatim>\<open>portal_destroy\<close> does to the frames, over the list of the frames its slots refer to: each reference is dropped, and a frame
  goes back to the allocator with its last one.
\<close>

fun destroy_frames ::
  "'l fayt \<Rightarrow> ptr list \<Rightarrow> 'l kstate \<times> (ptr \<Rightarrow> frame option) \<Rightarrow> ('l kstate \<times> (ptr \<Rightarrow> frame option)) outcome" where
  "destroy_frames F [] st = Ret st"
| "destroy_frames F (q # qs) (s, frames) =
     obind (deref frames q) (\<lambda>f.
     let f = f\<lparr>frame_refcnt := frame_refcnt f - 1\<rparr> in
     obind (if frame_refcnt f = 0 then pmm_free F s (paddr f) 1 else Ret s) (\<lambda>s.
     destroy_frames F qs (s, frames(q \<mapsto> f))))"

text \<open>The references of a list of slots to a frame.\<close>

abbreviation refs :: "ptr list \<Rightarrow> ptr \<Rightarrow> nat" where
  "refs ps q \<equiv> count_list ps q"

definition counted :: "'l kstate \<Rightarrow> (ptr \<Rightarrow> frame option) \<Rightarrow> ptr list \<Rightarrow> bool" where
  "counted s frames ps \<longleftrightarrow> (\<forall>q. 0 < refs ps q \<longrightarrow> (\<exists>f. frames q = Some f \<and> int (refs ps q) \<le> sint (frame_refcnt f) \<and> freeable s (paddr f)))"

lemma sint_decrement: "1 \<le> sint x \<Longrightarrow> sint (x - 1) = sint x - 1" for x :: s32
  using sint_lt [of x] by (simp add: sint_word_ariths signed_take_bit_int_eq_self)

text \<open>The frames whose last reference is in a list of slots.\<close>

definition last_refs :: "(ptr \<Rightarrow> frame option) \<Rightarrow> ptr list \<Rightarrow> u64 set" where
  "last_refs frames ps = {paddr f | q f. frames q = Some f \<and> 0 < refs ps q \<and> sint (frame_refcnt f) = int (refs ps q)}"

abbreviation dropped :: "frame \<Rightarrow> frame" where
  "dropped f \<equiv> f\<lparr>frame_refcnt := frame_refcnt f - 1\<rparr>"

lemma dropped_zero: "1 \<le> sint (frame_refcnt f) \<Longrightarrow> frame_refcnt (dropped f) = 0 \<longleftrightarrow> sint (frame_refcnt f) = 1"
  using signed_eq_0_iff [where ?'a = int, of "frame_refcnt (dropped f)"] by (simp add: sint_decrement)

lemma counted_step:
  assumes "counted s frames (p # ps)"
  shows "\<exists>f. frames p = Some f \<and> 1 + int (refs ps p) \<le> sint (frame_refcnt f) \<and> freeable s (paddr f) \<and> counted s (frames(p \<mapsto> dropped f)) ps"
proof -
  obtain f where f: "frames p = Some f" "1 + int (refs ps p) \<le> sint (frame_refcnt f)" "freeable s (paddr f)"
    using assms by (auto simp: counted_def dest: spec [of _ p])
  have "\<exists>g. (frames(p \<mapsto> dropped f)) q = Some g \<and> int (refs ps q) \<le> sint (frame_refcnt g) \<and> freeable s (paddr g)" if "0 < refs ps q" for q
  proof -
    have "0 < refs (p # ps) q" using that by simp
    then obtain g where "frames q = Some g" "int (refs (p # ps) q) \<le> sint (frame_refcnt g)" "freeable s (paddr g)"
      using assms unfolding counted_def by blast
    then show ?thesis using f sint_decrement [of "frame_refcnt f"] by (cases "q = p") auto
  qed
  then show ?thesis using f by (auto simp: counted_def simp del: fun_upd_apply)
qed

lemma last_refs_step:
  assumes f: "frames p = Some f" "1 + int (refs ps p) \<le> sint (frame_refcnt f)"
  shows "last_refs frames (p # ps) = (if frame_refcnt (dropped f) = 0 then {paddr f} else {}) \<union> last_refs (frames(p \<mapsto> dropped f)) ps"
    (is "?B = ?freed \<union> ?A")
proof (intro equalityI subsetI)
  have c: "sint (frame_refcnt (dropped f)) = sint (frame_refcnt f) - 1" and z: "frame_refcnt (dropped f) = 0 \<longleftrightarrow> sint (frame_refcnt f) = 1"
    using f(2) dropped_zero [of f] by (simp_all add: sint_decrement)
  fix a
  show "a \<in> ?freed \<union> ?A" if "a \<in> ?B"
  proof -
    obtain q g where g: "a = paddr g" "frames q = Some g" "0 < refs (p # ps) q" "sint (frame_refcnt g) = int (refs (p # ps) q)"
      using \<open>a \<in> ?B\<close> by (auto simp: last_refs_def)
    show ?thesis
    proof (cases "q = p \<and> refs ps p = 0")
      case False
      then have "\<exists>g'. (frames(p \<mapsto> dropped f)) q = Some g' \<and> paddr g' = a \<and> 0 < refs ps q \<and> sint (frame_refcnt g') = int (refs ps q)"
        using g f(1) c by auto
      then show ?thesis unfolding last_refs_def by blast
    qed (use g f(1) z in simp)
  qed
  show "a \<in> ?B" if h: "a \<in> ?freed \<union> ?A"
  proof -
    consider "frame_refcnt (dropped f) = 0" "a = paddr f"
      | q g where "(frames(p \<mapsto> dropped f)) q = Some g" "a = paddr g" "0 < refs ps q" "sint (frame_refcnt g) = int (refs ps q)"
      using h by (auto simp: last_refs_def simp del: fun_upd_apply split: if_splits)
    then have "\<exists>q g. frames q = Some g \<and> a = paddr g \<and> 0 < refs (p # ps) q \<and> sint (frame_refcnt g) = int (refs (p # ps) q)"
    proof cases
      case 1
      then show ?thesis using f z by (intro exI [of _ p] exI [of _ f]) auto
    next
      case (2 q g)
      then show ?thesis using f(1) c by (intro exI [of _ q]) (auto split: if_splits)
    qed
    then show ?thesis unfolding last_refs_def by blast
  qed
qed

lemma destroy_frames_frees:
  assumes "fayt_laws F"
  shows "pmm_inv F s \<Longrightarrow> counted s frames ps \<Longrightarrow>
    \<exists>s' frames'. destroy_frames F ps (s, frames) = Ret (s', frames') \<and> pmm_inv F s' \<and> pmm_owned F s' = pmm_owned F s - last_refs frames ps \<and>
      (\<forall>q. frames' q = map_option (\<lambda>f. f\<lparr>frame_refcnt := frame_refcnt f - of_nat (refs ps q)\<rparr>) (frames q))"
proof (induction ps arbitrary: s frames)
  case Nil
  then show ?case by (auto simp: last_refs_def map_option_case split: option.splits)
next
  case (Cons p ps)
  obtain f where f: "frames p = Some f" "1 + int (refs ps p) \<le> sint (frame_refcnt f)" "freeable s (paddr f)" "counted s (frames(p \<mapsto> dropped f)) ps"
    using counted_step Cons.prems(2) by blast
  obtain s1 where s1: "(if frame_refcnt (dropped f) = 0 then pmm_free F s (paddr f) 1 else Ret s) = Ret s1" "pmm_inv F s1"
    "pmm_owned F s1 = pmm_owned F s - (if frame_refcnt (dropped f) = 0 then {paddr f} else {})" "\<forall>b. freeable s1 b = freeable s b"
    using freeable_free [OF assms Cons.prems(1) f(3)] Cons.prems(1) by (cases "frame_refcnt (dropped f) = 0") auto
  have "counted s1 (frames(p \<mapsto> dropped f)) ps" using f(4) s1(4) by (simp add: counted_def)
  from Cons.IH [OF s1(2) this] obtain s' frames' where r: "destroy_frames F ps (s1, frames(p \<mapsto> dropped f)) = Ret (s', frames')" "pmm_inv F s'"
    "pmm_owned F s' = pmm_owned F s1 - last_refs (frames(p \<mapsto> dropped f)) ps"
    "\<forall>q. frames' q = map_option (\<lambda>g. g\<lparr>frame_refcnt := frame_refcnt g - of_nat (refs ps q)\<rparr>) ((frames(p \<mapsto> dropped f)) q)" by blast
  have "pmm_owned F s' = pmm_owned F s - last_refs frames (p # ps)" unfolding r(3) s1(3) last_refs_step [of frames p f ps, OF f(1,2)] by blast
  moreover have "frames' q = map_option (\<lambda>g. g\<lparr>frame_refcnt := frame_refcnt g - of_nat (refs (p # ps) q)\<rparr>) (frames q)" for q
    using r(4) f(1) by (simp add: algebra_simps)
  moreover have "destroy_frames F (p # ps) (s, frames) = Ret (s', frames')"
    using f(1) s1(1) r(1) by (cases "frame_refcnt f = 1") (auto simp: Let_def)
  ultimately show ?case using r(2) by blast
qed

lemma destroy_frames_append: "destroy_frames F (ps @ qs) st = obind (destroy_frames F ps st) (destroy_frames F qs)"
  by (induction F ps st rule: destroy_frames.induct) (auto simp: obind_assoc Let_def intro!: arg_cong2 [where f = obind] ext)

subsection \<open>The objects a destruction gives back\<close>

text \<open>\<^verbatim>\<open>hash_table_destroy\<close> gives back the objects \<open>objs t\<close> of the table \<open>t\<close>, the table among them.\<close>

definition destroy_law :: "destroy_env \<Rightarrow> (ptr \<Rightarrow> ptr list) \<Rightarrow> bool" where
  "destroy_law E objs \<longleftrightarrow> (\<forall>t. t \<in> set (objs t)) \<and>
     (\<forall>t freed. set (objs t) \<inter> set freed = {} \<longrightarrow> hash_table_destroy E t freed = Ret (freed @ objs t))"

text \<open>The pages in a list of slots; the frames that the pages of a tree refer to; the objects of a tree, in the order they are given back.\<close>

abbreviation slot_pages :: "ptr option list \<Rightarrow> ptr list" where
  "slot_pages ps \<equiv> List.map_filter (\<lambda>x. x) ps"

fun frames_in :: "destroy_env \<Rightarrow> portal tree \<Rightarrow> ptr list" where
  "frames_in E Leaf = []"
| "frames_in E (Node l p r) = frames_in E l @ frames_in E r @ map (\<lambda>p. the (frame_of E p)) (slot_pages (the (table_data E (pages_of E p))))"

fun objects :: "destroy_env \<Rightarrow> (ptr \<Rightarrow> ptr list) \<Rightarrow> portal tree \<Rightarrow> ptr list" where
  "objects E objs Leaf = []"
| "objects E objs (Node l p r) = objects E objs l @ objects E objs r @ slot_pages (the (table_data E (pages_of E p))) @ objs (pages_of E p) @ [addr_of E p]"

text \<open>Every portal of the tree has its table, and every page in it its frame.\<close>

definition tables_set :: "destroy_env \<Rightarrow> portal tree \<Rightarrow> bool" where
  "tables_set E t \<longleftrightarrow> (\<forall>p \<in> set_tree t. \<exists>ps. table_data E (pages_of E p) = Some ps \<and> (\<forall>x \<in> set (slot_pages ps). frame_of E x \<noteq> None))"

lemma destroy_pages_frames:
  assumes "\<forall>x \<in> set (slot_pages ps). frame_of E x \<noteq> None" "distinct (freed @ slot_pages ps)"
  shows "destroy_pages F E ps (s, frames, freed) =
    obind (destroy_frames F (map (\<lambda>p. the (frame_of E p)) (slot_pages ps)) (s, frames)) (\<lambda>(s, frames). Ret (s, frames, freed @ slot_pages ps))"
  using assms
proof (induction ps arbitrary: s frames freed)
  case (Cons x ps)
  show ?case
  proof (cases x)
    case (Some p)
    obtain q where q: "frame_of E p = Some q" using Cons.prems(1) Some by (auto simp: map_filter_simps)
    have "distinct ((freed @ [p]) @ slot_pages ps)" "unfreed p freed = Ret ()" using Cons.prems(2) Some by (auto simp: map_filter_simps unfreed_def)
    then show ?thesis using Cons.IH [of "freed @ [p]"] Cons.prems(1) q Some
      by (auto simp: map_filter_simps obind_assoc Let_def intro!: arg_cong2 [where f = obind] ext)
  qed (use Cons in \<open>simp add: map_filter_simps\<close>)
qed (simp add: map_filter_simps)

lemma portal_destroy_frames:
  assumes "destroy_law E objs"
  shows "tables_set E t \<Longrightarrow> distinct (freed @ objects E objs t) \<Longrightarrow> portal_destroy F E t (s, frames, freed) =
    obind (destroy_frames F (frames_in E t) (s, frames)) (\<lambda>(s, frames). Ret (s, frames, freed @ objects E objs t))"
proof (induction t arbitrary: s frames freed)
  case (Node l p r)
  obtain ps where ps: "table_data E (pages_of E p) = Some ps" "\<forall>x \<in> set (slot_pages ps). frame_of E x \<noteq> None" and lr: "tables_set E l" "tables_set E r"
    using Node.prems(1) by (auto simp: tables_set_def)
  let ?fl = "freed @ objects E objs l" let ?fr = "?fl @ objects E objs r" let ?fp = "?fr @ slot_pages ps"
  have d: "distinct ?fl" "distinct ?fr" "distinct ?fp" "set (objs (pages_of E p)) \<inter> set ?fp = {}"
    "addr_of E p \<notin> set (?fp @ objs (pages_of E p))" using Node.prems(2) ps(1) by auto
  have t: "pages_of E p \<in> set (objs (pages_of E p))" using assms by (simp add: destroy_law_def)
  have u: "unfreed (addr_of E p) freed = Ret ()" "unfreed (pages_of E p) ?fr = Ret ()" "unfreed (addr_of E p) (?fp @ objs (pages_of E p)) = Ret ()"
    using d(4,5) t by (auto simp: unfreed_def)
  have h: "hash_table_destroy E (pages_of E p) ?fp = Ret (?fp @ objs (pages_of E p))" using assms d(4) by (simp add: destroy_law_def)
  have r: "portal_destroy F E r (s1, fr1, ?fl) =
      obind (destroy_frames F (frames_in E r) (s1, fr1)) (\<lambda>(s, frames). Ret (s, frames, ?fr))" for s1 fr1
    using Node.IH(2) [OF lr(2) d(2)] by simp
  have dp: "destroy_pages F E ps (s1, fr1, ?fr) =
      obind (destroy_frames F (map (\<lambda>p. the (frame_of E p)) (slot_pages ps)) (s1, fr1)) (\<lambda>(s, frames). Ret (s, frames, ?fp))" for s1 fr1
    using destroy_pages_frames [OF ps(2) d(3)] by simp
  show ?case
    using u h Node.IH(1) [OF lr(1) d(1)] r dp ps(1)
    by (auto simp: destroy_frames_append obind_assoc intro!: arg_cong2 [where f = obind] ext)
qed simp

section \<open>A concrete instance\<close>

fun bst_ins :: "portal tree \<Rightarrow> portal \<Rightarrow> portal tree" where
  "bst_ins Leaf p = Node Leaf p Leaf"
| "bst_ins (Node l q r) p = (if base p < base q then Node (bst_ins l p) q r else Node l q (bst_ins r p))"

definition deps_ref :: "((u64 \<times> page) list, (string \<times> ptr) list) portal_deps" where
  "deps_ref = \<lparr>BST_INSERT = bst_ins, push_page = (\<lambda>h v p. (0, (v, p) # h)),
     search_share = (\<lambda>m i. case map_of m i of None \<Rightarrow> NULL | Some q \<Rightarrow> q),
     push_share = (\<lambda>m i q. (0, (i, q) # m)), alloc_share = (\<lambda>_. 0x10),
     sizeof_share_point = 40, sizeof_circular_queue = 48\<rparr>"

lemma set_bst_ins: "set_tree (bst_ins t p) = insert p (set_tree t)"
  by (induction t) auto

lemma bst_insert_ref: "bst_insert_law deps_ref"
proof -
  have "portal_bst t \<Longrightarrow> portal_bst (bst_ins t p)" for t p
  proof (induction t)
    case Leaf
    then show ?case by (simp add: portal_bst_def)
  next
    case (Node l q r)
    then show ?case by (auto simp: portal_bst_Node set_bst_ins)
  qed
  then show ?thesis by (simp add: bst_insert_law_def deps_ref_def set_bst_ins)
qed

definition demo_pstate :: "pt_ops \<Rightarrow> (bool, (u64 \<times> page) list, (string \<times> ptr) list) pstate" where
  "demo_pstate m = \<lparr>kst = demo 4096, ptab = demo_pt m, portal_root = Leaf, pages = [],
     portal_share_map = [], share_points = (\<lambda>_. None), links = (\<lambda>_. None), circular_queues = []\<rparr>"

definition raw_portal :: portal where
  "raw_portal = \<lparr>ptype = 0, prot = 0, share_identifier = None, base = 0, limit = 0, pflags = 0\<rparr>"

definition demo_req :: portal_req where
  "demo_req = \<lparr>req_type = 2, req_prot = 3, req_length = 0, req_identifier = '''', share_type = 0,
     share_create = 0, morph_addr = 0x400000, morph_length = 0x2000, morph_paddr = [0x5000, 0x9000]\<rparr>"

lemma demo_pstate_ready:
  "pmm_inv fayt_ref (kst (demo_pstate m))" "pt_ok fayt_ref m (kst (demo_pstate m)) (ptab (demo_pstate m))"
  "k < 4096 \<Longrightarrow> pmm_room fayt_ref (modules (kst (demo_pstate m))) k"
  "view m (kst (demo_pstate m)) (ptab (demo_pstate m)) v = None"
  using demo_ready demo_pt_empty(2) [of 4096] by (simp_all add: demo_pstate_def)

section \<open>Properties\<close>

text \<open>C11. A direct portal maps its range: page \<open>i\<close> of the request is translated to the \<open>i\<close>-th frame the
  caller gave, with the protections asked for, and no other translation changes.\<close>

theorem portal_direct_maps:
  assumes "fayt_laws F" "pmm_inv F (kst st)" "n = unat (DIV_ROUNDUP F (morph_length req) PAGE_SIZE)"
    and "n \<le> length (morph_paddr req)" "n \<le> 2 ^ 36" "pmm_room F (modules (kst st)) (n * levels m)"
    and "pt_ok F m (kst st) (ptab st)" "\<And>a. a \<in> set (morph_paddr req) \<Longrightarrow> 4096 dvd unat a"
    and "small_range (view m (kst st) (ptab st)) (morph_addr req) 0x1000 n" "req_type req = PORTAL_REQ_DIRECT"
  shows "\<exists>resp st'. portal_request F D raw st req = Ret (0, resp, st') \<and> resp_base resp = morph_addr req \<and>
    pmm_inv F (kst st') \<and> pt_ok F m (kst st') (ptab st') \<and>
    (\<forall>i<n. view m (kst st') (ptab st') (range_addr (morph_addr req) 0x1000 i) =
       Some (morph_paddr req ! i OR portal_translate_protections (req_prot req))) \<and>
    (\<forall>w. (\<forall>i<n. vpn m w \<noteq> vpn m (range_addr (morph_addr req) 0x1000 i)) \<longrightarrow>
       view m (kst st') (ptab st') w = view m (kst st) (ptab st) w)"
proof -
  have room: "pmm_room F (modules (kst st)) (n * levels m + 0)" using assms(6) by simp
  obtain st' where r: "portal_request F D raw st req = Ret (0, \<lparr>resp_base = morph_addr req,
      resp_limit = morph_length req, resp_flags = PORTAL_RESP_SUCCESS OR pflags raw\<rparr>, st')"
    and post: "pmm_inv F (kst st')" "pt_ok F m (kst st') (ptab st')"
    and vw: "view m (kst st') (ptab st') = fresh_view (vpn m) 0x1000 (portal_translate_protections (req_prot req))
      (take n (morph_paddr req)) (morph_addr req) (view m (kst st) (ptab st))"
    using request_direct [OF assms(1-4) room assms(7,8,9,10), of D raw] by blast
  have l: "length (take n (morph_paddr req)) = n" using assms(4) by simp
  have "view m (kst st') (ptab st') (range_addr (morph_addr req) 0x1000 i) =
      Some (morph_paddr req ! i OR portal_translate_protections (req_prot req))" if "i < n" for i
    unfolding vw by (subst fresh_view_at) (use vpn_range_inj [OF assms(5)] l that in simp_all)
  moreover have "view m (kst st') (ptab st') w = view m (kst st) (ptab st) w"
    if "\<forall>i<n. vpn m w \<noteq> vpn m (range_addr (morph_addr req) 0x1000 i)" for w
    unfolding vw by (rule fresh_view_other) (use that l in simp)
  ultimately show ?thesis using r post by (intro exI conjI) (rule r, auto)
qed

theorem portal_direct_maps_witness:
  "\<exists>resp st'. portal_request fayt_ref deps_ref raw_portal (demo_pstate Pml4Ops) demo_req = Ret (0, resp, st') \<and>
     view Pml4Ops (kst st') (ptab st') 0x401000 = Some 0x8000000000009007"
proof -
  have n: "2 = unat (DIV_ROUNDUP fayt_ref (morph_length demo_req) PAGE_SIZE)" "2 \<le> length (morph_paddr demo_req)"
    "(2::nat) \<le> 2 ^ 36" "req_type demo_req = PORTAL_REQ_DIRECT"
    by (simp_all add: demo_req_def fayt_ref_def)
  have r: "pmm_room fayt_ref (modules (kst (demo_pstate Pml4Ops))) (2 * levels Pml4Ops)"
    by (rule demo_pstate_ready(3)) simp
  have a: "4096 dvd unat x" if "x \<in> set (morph_paddr demo_req)" for x using that by (auto simp: demo_req_def)
  have s: "small_range (view Pml4Ops (kst (demo_pstate Pml4Ops)) (ptab (demo_pstate Pml4Ops))) (morph_addr demo_req) 0x1000 2"
    by (simp add: small_range_def demo_pstate_ready(4))
  obtain resp st' where p: "portal_request fayt_ref deps_ref raw_portal (demo_pstate Pml4Ops) demo_req = Ret (0, resp, st')"
    "\<forall>i<2. view Pml4Ops (kst st') (ptab st') (range_addr (morph_addr demo_req) 0x1000 i) =
       Some (morph_paddr demo_req ! i OR portal_translate_protections (req_prot demo_req))"
    using portal_direct_maps [OF fayt_laws_ref demo_pstate_ready(1) n(1-3) r demo_pstate_ready(2) a s n(4), of deps_ref raw_portal]
    by blast
  have "range_addr (morph_addr demo_req) 0x1000 1 = 0x401000" by (simp add: range_addr_def demo_req_def)
  moreover have "morph_paddr demo_req ! 1 OR portal_translate_protections (req_prot demo_req) = 0x8000000000009007"
    by (simp add: demo_req_def portal_translate_protections_def)
  ultimately show ?thesis using p(1) p(2) [rule_format, of 1] by auto
qed

text \<open>The search of the fault handler finds the anonymous portal that covers the address, provided
  the tree is ordered, the portals do not overlap, and no other portal ends exactly at the address.\<close>

theorem find_anon_finds:
  assumes "portal_bst t" "p \<in> set_tree t" "ptype p AND PORTAL_REQ_ANON \<noteq> 0" "covers p a"
    and "\<forall>q\<in>set_tree t. proper q"
    and "\<forall>q\<in>set_tree t. q \<noteq> p \<longrightarrow> apart q p \<and> unat (base q) + unat (limit q) \<noteq> unat a"
  shows "find_anon a t = Some p"
  using find_anon_complete [OF assms(1-4)] assms(5,6) by blast

definition demo_anon :: "u64 \<Rightarrow> u64 \<Rightarrow> portal" where
  "demo_anon b n = raw_portal\<lparr>ptype := PORTAL_REQ_ANON, base := b, limit := n\<rparr>"

theorem find_anon_finds_witness:
  "find_anon 0x8123 (Node (Node Leaf (demo_anon 0x1000 0x1000) Leaf) (demo_anon 0x4000 0x2000)
     (Node Leaf (demo_anon 0x8000 0x3000) Leaf)) = Some (demo_anon 0x8000 0x3000)"
  by (rule find_anon_finds)
    (simp_all add: portal_bst_def covers_def proper_def apart_def demo_anon_def raw_portal_def)

text \<open>The inclusive upper bound: when an anonymous portal ends where its neighbour begins, a fault on
  the neighbour's first byte is attributed to the portal that ends there, and the first byte after a
  lone portal is served although no portal covers it.\<close>

theorem find_anon_past_end:
  assumes "ptype q AND PORTAL_REQ_ANON \<noteq> 0" "proper q" "a = base q + limit q"
  shows "\<not> covers q a \<and> find_anon a (Node l q r) = Some q"
proof -
  have "unat (base q + limit q) = unat (base q) + unat (limit q)"
    using assms(2) by (simp add: proper_def unat_add_exact)
  then show ?thesis using assms by (auto simp: covers_def word_le_nat_alt)
qed

theorem find_anon_past_end_witness:
  "covers (demo_anon 0x2000 0x1000) 0x2000 \<and>
   find_anon 0x2000 (Node Leaf (demo_anon 0x1000 0x1000) (Node Leaf (demo_anon 0x2000 0x1000) Leaf))
     = Some (demo_anon 0x1000 0x1000)"
  using find_anon_past_end [of "demo_anon 0x1000 0x1000" "0x2000" Leaf "Node Leaf (demo_anon 0x2000 0x1000) Leaf"]
  by (simp add: demo_anon_def raw_portal_def proper_def covers_def)

text \<open>A protection fault (the page is present) on an ordinary entry is reported as resolved although
  nothing is done: memory, tables and portals are as before, so the access faults again.\<close>

theorem portal_protection_fault_ignored:
  assumes "fayt_laws F" "pt_ok F m (kst st) (ptab st)" "view m (kst st) (ptab st) addr = Some e"
    and "e AND 0xE00 = 0" "error_code AND X86_FLAGS_P \<noteq> 0" "c \<noteq> NULL" "t \<noteq> NULL"
  shows "\<exists>pt'. portal_resolve_fault F D c t st addr error_code = Ret (0, st\<lparr>ptab := pt'\<rparr>)"
  using protection_fault_ignored [OF assms] .

theorem portal_protection_fault_ignored_witness:
  "\<exists>s pt pt'. view Pml4Ops s pt 0x400000 = Some 0x8000000000007005 \<and>
     portal_resolve_fault fayt_ref deps_ref 0x10 0x80 ((demo_pstate Pml4Ops)\<lparr>kst := s, ptab := pt\<rparr>) 0x400010 7 =
       Ret (0, (demo_pstate Pml4Ops)\<lparr>kst := s, ptab := pt'\<rparr>)"
proof -
  have f: "map_flags 0x8000000000000005" "\<not> huge 0x8000000000000005"
    by (simp_all add: map_flags_def present_def huge_def)
  obtain pt s where m: "pt_ok fayt_ref Pml4Ops s pt" "\<forall>w. view Pml4Ops s pt w =
      (if vpn Pml4Ops w = vpn Pml4Ops 0x400000 then Some (0x7000 OR 0x8000000000000005) else view Pml4Ops (demo 4096) (demo_pt Pml4Ops) w)"
    using map_page_small [OF fayt_laws_ref demo_ready(1) demo_ready(3) demo_ready(2) f,
        of Pml4Ops 0 "0x400000" "0x7000"] demo_pt_empty(2) [of 4096] by auto
  have v: "view Pml4Ops s pt 0x400010 = Some 0x8000000000007005" "view Pml4Ops s pt 0x400000 = Some 0x8000000000007005"
    using m(2) by (simp_all add: vpn_def)
  have "\<exists>pt'. portal_resolve_fault fayt_ref deps_ref 0x10 0x80 ((demo_pstate Pml4Ops)\<lparr>kst := s, ptab := pt\<rparr>) 0x400010 7 =
      Ret (0, (demo_pstate Pml4Ops)\<lparr>kst := s, ptab := pt\<rparr>\<lparr>ptab := pt'\<rparr>)"
    by (rule portal_protection_fault_ignored [OF fayt_laws_ref, of Pml4Ops _ _ "0x8000000000007005"]) (use m(1) v(1) in simp_all)
  then show ?thesis using v(2) by auto
qed

text \<open>Protections are translated exactly: a region's pages are present and user accessible, writable
  just when write was asked for, and executable just when execute was.\<close>

theorem portal_protections_exact:
  "portal_translate_protections p AND X86_FLAGS_P \<noteq> 0 \<and> portal_translate_protections p AND X86_FLAGS_US \<noteq> 0 \<and>
   (portal_translate_protections p AND X86_FLAGS_RW \<noteq> 0 \<longleftrightarrow> p AND PORTAL_PROT_WRITE \<noteq> 0) \<and>
   (portal_translate_protections p AND X86_FLAGS_NX = 0 \<longleftrightarrow> p AND PORTAL_PROT_EXEC \<noteq> 0)"
  using protections_bits [of p] by blast

text \<open>A shared anonymous region cannot be demand paged: share points are created without room for
  their frame addresses, so a fault in such a region never succeeds.\<close>

theorem portal_share_fault_fails:
  assumes "find_anon addr (portal_root st) = Some p" "ptype p AND PORTAL_REQ_SHARE \<noteq> 0"
    and "\<forall>q sp. share_points st q = Some sp \<longrightarrow> sp_paddr sp = []"
  shows "portal_fault_anon F D st addr \<noteq> Ret (0, st')"
  using share_fault_fails [OF assms(1,2)] assms(3) by blast

theorem portal_share_fault_fails_witness:
  "portal_fault_anon fayt_ref deps_ref ((demo_pstate Pml4Ops)\<lparr>portal_root :=
     Node Leaf (raw_portal\<lparr>ptype := 5, base := 0x400000, limit := 0x1000, share_identifier := Some ''link''\<rparr>) Leaf\<rparr>)
     0x400000 \<noteq> Ret (0, demo_pstate Pml4Ops)"
  by (rule portal_share_fault_fails [where p = "raw_portal\<lparr>ptype := 5, base := 0x400000, limit := 0x1000,
      share_identifier := Some ''link''\<rparr>"]) (simp_all add: demo_pstate_def)

text \<open>
  C23. \<^verbatim>\<open>portal_destroy\<close> counts references: when every portal of a tree has its table, every page its frame, no object of the
  tree is there twice or already freed, and every frame is referred to at most as often as its count says and can be given back,
  it returns; exactly the frames whose last reference was in the tree are free again, the counts of the others have gone down by the
  references dropped, the allocator's invariant holds, and the pages, tables and portals of the tree have each been freed once.
  But a portal whose table was never set, as \<^verbatim>\<open>portal\<close> leaves it, is not destroyed: its table is read through a null pointer.
\<close>

theorem portal_destroy_counts:
  assumes "fayt_laws F" "pmm_inv F s" "destroy_law E objs" "tables_set E t" "distinct (freed @ objects E objs t)" "counted s frames (frames_in E t)"
  shows "(\<exists>s' frames'. portal_destroy F E t (s, frames, freed) = Ret (s', frames', freed @ objects E objs t) \<and> pmm_inv F s' \<and>
      pmm_owned F s' = pmm_owned F s - last_refs frames (frames_in E t) \<and>
      (\<forall>q. frames' q = map_option (\<lambda>f. f\<lparr>frame_refcnt := frame_refcnt f - of_nat (refs (frames_in E t) q)\<rparr>) (frames q))) \<and>
    (\<forall>p. {addr_of E p, pages_of E p} \<inter> set freed = {} \<longrightarrow> table_data E (pages_of E p) = None \<longrightarrow>
      portal_destroy F E (Node Leaf p Leaf) (s, frames, freed) = Fault NullDeref)"
proof -
  obtain s' frames' where d: "destroy_frames F (frames_in E t) (s, frames) = Ret (s', frames')" "pmm_inv F s'"
    "pmm_owned F s' = pmm_owned F s - last_refs frames (frames_in E t)"
    "\<forall>q. frames' q = map_option (\<lambda>f. f\<lparr>frame_refcnt := frame_refcnt f - of_nat (refs (frames_in E t) q)\<rparr>) (frames q)"
    using destroy_frames_frees [OF assms(1,2,6)] by blast
  moreover have "portal_destroy F E t (s, frames, freed) = Ret (s', frames', freed @ objects E objs t)"
    using portal_destroy_frames [OF assms(3-5), of F s frames] d(1) by simp
  ultimately show ?thesis by (auto simp: unfreed_def)
qed

text \<open>One portal at \<open>0x900\<close> whose table at \<open>0x800\<close> has three pages, two of them with the same frame.\<close>

definition demo_destroy :: destroy_env where
  "demo_destroy = \<lparr>addr_of = (\<lambda>_. 0x900), pages_of = (\<lambda>p. if base p = 0 then NULL else 0x800),
     table_data = [0x800 \<mapsto> [Some 0x70, None, Some 0x71, Some 0x72]], frame_of = [0x70 \<mapsto> 0x10, 0x71 \<mapsto> 0x20, 0x72 \<mapsto> 0x10],
     hash_table_destroy = (\<lambda>t freed. Ret (freed @ [t]))\<rparr>"

theorem portal_destroy_counts_witness:
  "(\<exists>s' frames'. portal_destroy fayt_ref demo_destroy (Node Leaf (demo_anon 0x400000 0x4000) Leaf)
     (demo 8, [0x10 \<mapsto> \<lparr>paddr = 0x100000, frame_refcnt = 2\<rparr>, 0x20 \<mapsto> \<lparr>paddr = 0x101000, frame_refcnt = 2\<rparr>], []) =
       Ret (s', frames', [0x70, 0x71, 0x72, 0x800, 0x900]) \<and>
     pmm_owned fayt_ref s' = pmm_owned fayt_ref (demo 8) - {0x100000}) \<and>
   portal_destroy fayt_ref demo_destroy (Node Leaf (demo_anon 0 0x4000) Leaf)
     (demo 8, [0x10 \<mapsto> \<lparr>paddr = 0x100000, frame_refcnt = 2\<rparr>, 0x20 \<mapsto> \<lparr>paddr = 0x101000, frame_refcnt = 2\<rparr>], []) = Fault NullDeref"
proof -
  let ?fr = "[0x10 \<mapsto> \<lparr>paddr = 0x100000, frame_refcnt = 2\<rparr>, 0x20 \<mapsto> \<lparr>paddr = 0x101000, frame_refcnt = 2\<rparr>]"
  let ?t = "Node Leaf (demo_anon 0x400000 0x4000) Leaf"
  have e: "destroy_law demo_destroy (\<lambda>t. [t])" "tables_set demo_destroy ?t"
    by (simp_all add: destroy_law_def tables_set_def demo_destroy_def demo_anon_def map_filter_simps)
  have f: "frames_in demo_destroy ?t = [0x10, 0x20, 0x10]" "objects demo_destroy (\<lambda>t. [t]) ?t = [0x70, 0x71, 0x72, 0x800, 0x900]"
    by (simp_all add: demo_destroy_def demo_anon_def map_filter_simps)
  have "freeable (demo 8) 0x100000" "freeable (demo 8) 0x101000"
    using demo_pages [of 8] by (auto simp: freeable_def demo_def frame_addr_def demo_module_def intro: exI [of _ 0] exI [of _ 1])
  then have c: "counted (demo 8) ?fr (frames_in demo_destroy ?t)" unfolding f by (auto simp: counted_def)
  have l: "last_refs ?fr (frames_in demo_destroy ?t) = {0x100000}" unfolding f by (auto simp: last_refs_def split: if_splits)
  have n: "{addr_of demo_destroy (demo_anon 0 0x4000), pages_of demo_destroy (demo_anon 0 0x4000)} \<inter> set [] = {}"
    "table_data demo_destroy (pages_of demo_destroy (demo_anon 0 0x4000)) = None" by (simp_all add: demo_destroy_def demo_anon_def)
  have i: "pmm_inv fayt_ref (demo 8)" by (rule demo_inv) simp_all
  have o: "distinct ([] @ objects demo_destroy (\<lambda>t. [t]) ?t)" unfolding f by simp
  note d = portal_destroy_counts [OF fayt_laws_ref i e o c, unfolded f append_Nil, unfolded l [unfolded f]]
  show ?thesis using d [THEN conjunct1] d [THEN conjunct2, rule_format, OF n] by blast
qed

text \<open>A page that is in two slots is given back twice.\<close>

theorem destroy_shared_page:
  assumes "p \<notin> set freed" "frame_of E p = Some q" "frames q = Some f" "sint (frame_refcnt f) = 2"
  shows "destroy_pages F E [Some p, Some p] (s, frames, freed) = Fault UseAfterFree"
proof -
  have "frame_refcnt f = 2" using assms(4) signed_word_eqI [of "frame_refcnt f" 2] by simp
  then show ?thesis using assms(1-3) by (simp add: unfreed_def Let_def)
qed

theorem destroy_shared_page_witness:
  "destroy_pages fayt_ref demo_destroy [Some 0x71, Some 0x71] (demo 8, [0x20 \<mapsto> \<lparr>paddr = 0x101000, frame_refcnt = 2\<rparr>], []) = Fault UseAfterFree"
  by (rule destroy_shared_page [where q = "0x20" and f = "\<lparr>paddr = 0x101000, frame_refcnt = 2\<rparr>"]) (simp_all add: demo_destroy_def)

end
