(* ===== verification/Scheduler.thy ===== *)
theory Scheduler
  imports Notification Portal
begin

unbundle bit_operations_syntax

text \<open>
  Context creation and switching, \<^verbatim>\<open>kernel/core/scheduler.c\<close>, with the context table of \<^verbatim>\<open>server.h\<close>. Beside
  the kernel state, a switch changes the processor: \<^verbatim>\<open>cr3\<close>, the segment bases, the FPU state and the
  interrupt controller. \<open>'f\<close> is the contents of an FPU save area; the bitmap of identifiers and the hash
  table of contexts come from \<open>fayt\<close>, as does \<^verbatim>\<open>alloc\<close>: \<open>alloc_at i\<close> is the address its \<open>i\<close>-th call returns.
\<close>

section \<open>State\<close>

record ('l, 'f, 'b, 'c) machine =
  kern :: "'l kernel"
  reschedule_lock :: 'l
  tables :: "ptr \<Rightarrow> 'l page_table option"
  server_contexts :: "ptr \<Rightarrow> ptr option"
  fpu_areas :: "ptr \<Rightarrow> 'f option"
  cid_bitmap :: 'b
  context_table :: 'c
  fpu :: 'f
  cr3 :: u64
  fs_base :: u64
  gs_base :: u64
  kernel_gs_base :: u64
  eois :: nat
  allocs :: nat

record ('l, 'f, 'b, 'c) ctx_deps =
  alloc_at :: "nat \<Rightarrow> ptr"
  raw_queue :: "'l notification_queue"
  raw_action :: notification_action
  raw_table :: "'l page_table"
  raw_fpu :: 'f
  bitmap_alloc :: "'b \<Rightarrow> s32 \<times> s32 \<times> 'b"
  push_context :: "'c \<Rightarrow> s32 \<Rightarrow> ptr \<Rightarrow> s32 \<times> 'c"
  search_context :: "'c \<Rightarrow> s32 \<Rightarrow> s32 \<times> ptr"

definition alloc :: "('l, 'f, 'b, 'c) ctx_deps \<Rightarrow> ('l, 'f, 'b, 'c) machine \<Rightarrow> ptr \<times> ('l, 'f, 'b, 'c) machine" where
  "alloc D m = (alloc_at D (allocs m), m\<lparr>allocs := Suc (allocs m)\<rparr>)"

section \<open>The context table\<close>

definition SEARCH_CONTEXT :: "('l, 'f, 'b, 'c) ctx_deps \<Rightarrow> ('l, 'f, 'b, 'c) machine \<Rightarrow> s32 \<Rightarrow> s32 \<times> ptr" where
  "SEARCH_CONTEXT D m i = search_context D (context_table m) i"

definition set_context :: "ptr \<Rightarrow> 'l kcontext \<Rightarrow> ('l, 'f, 'b, 'c) machine \<Rightarrow> ('l, 'f, 'b, 'c) machine" where
  "set_context c C m = m\<lparr>kern := (kern m)\<lparr>contexts := (contexts (kern m))(c \<mapsto> C)\<rparr>\<rparr>"

definition NEW_CONTEXT ::
  "('l, 'f, 'b, 'c) ctx_deps \<Rightarrow> ('l, 'f, 'b, 'c) machine \<Rightarrow> ptr \<Rightarrow> (s32 \<times> ('l, 'f, 'b, 'c) machine) outcome" where
  "NEW_CONTEXT D m c =
     (if c = NULL then Ret (- 1, m)
      else let (ret, i, b) = bitmap_alloc D (cid_bitmap m); m = m\<lparr>cid_bitmap := b\<rparr> in
        if ret = - 1 then Ret (- 1, m)
        else obind (deref (contexts (kern m)) c) (\<lambda>C.
          let m = set_context c (C\<lparr>cid := i\<rparr>) m;
              (ret, t) = push_context D (context_table m) i c
          in Ret (ret, m\<lparr>context_table := t\<rparr>)))"

section \<open>Creating a context\<close>

definition create_blank_context ::
  "'l fayt \<Rightarrow> boot_info \<Rightarrow> ('l, 'f, 'b, 'c) ctx_deps \<Rightarrow> ('l, 'f, 'b, 'c) machine \<Rightarrow> ptr \<Rightarrow>
   (s32 \<times> ('l, 'f, 'b, 'c) machine) outcome" where
  "create_blank_context F B D m c =
     (if c = NULL then Ret (- 1, m)
      else
        let (tb, m) = alloc D m in
        obind (vmm_default_table F B (mem (kern m)) (raw_table D)) (\<lambda>(pt, s).
        let m = m\<lparr>kern := (kern m)\<lparr>mem := s\<rparr>, tables := (tables m)(tb \<mapsto> pt)\<rparr> in
        obind (pmm_alloc F s (DIV_ROUNDUP F CONTEXT_DEFAULT_STACK_SIZE PAGE_SIZE) 1) (\<lambda>(a, s).
        let m = m\<lparr>kern := (kern m)\<lparr>mem := s\<rparr>\<rparr>;
            (_, m) = alloc D m;
            (q, m) = alloc D m;
            m = m\<lparr>kern := (kern m)\<lparr>queues := (queues (kern m))(q \<mapsto> raw_queue D)\<rparr>\<rparr>;
            (f, m) = alloc D m;
            m = m\<lparr>fpu_areas := (fpu_areas m)(f \<mapsto> raw_fpu D)\<rparr> in
        obind (deref (contexts (kern m)) c) (\<lambda>C.
        let C = C\<lparr>page_table_of := tb, sysperm := 0,
              kernel_stack := (kernel_stack C)\<lparr>sp := a + CONTEXT_DEFAULT_STACK_SIZE + HIGH_VMA s,
                stack_size := CONTEXT_DEFAULT_STACK_SIZE\<rparr>,
              actions := replicate NOTIFICATION_MAX (raw_action D), nqueue := q, fpu_context := f\<rparr> in
        obind (NEW_CONTEXT D (set_context c C m) c) (\<lambda>(ret, m).
        Ret (if ret = - 1 then - 1 else 0, m))))))"

section \<open>The link to a scheduling server\<close>

definition share_request :: "u64 \<Rightarrow> u64 \<Rightarrow> u64 \<Rightarrow> string \<Rightarrow> s32 \<Rightarrow> portal_req" where
  "share_request vma phys_base page_cnt identifier link_type =
     \<lparr>req_type = PORTAL_REQ_SHARE OR PORTAL_REQ_DIRECT, req_prot = PORTAL_PROT_READ OR PORTAL_PROT_WRITE,
      req_length = ucast (44 + 8 * page_cnt), req_identifier = identifier, share_type = link_type, share_create = 1,
      morph_addr = phys_base + vma, morph_length = page_cnt * PAGE_SIZE,
      morph_paddr = map (\<lambda>i. phys_base + of_nat i * PAGE_SIZE) [0..<unat page_cnt]\<rparr>"

definition sched_establish_shared_link ::
  "'l fayt \<Rightarrow> ('h, 'm) portal_deps \<Rightarrow> portal \<Rightarrow> ('l, 'h, 'm) pstate \<Rightarrow> string \<Rightarrow> (s32 \<times> ('l, 'h, 'm) pstate) outcome" where
  "sched_establish_shared_link F D raw st identifier =
     (let page_cnt = DIV_ROUNDUP F 0x10000 PAGE_SIZE in
      obind (pmm_alloc F (kst st) page_cnt 1) (\<lambda>(phys_base, s).
      obind (portal_request F D raw (st\<lparr>kst := s\<rparr>) (share_request (HIGH_VMA s) phys_base page_cnt identifier LINK_CIRCULAR))
        (\<lambda>(ret, _, st). Ret (if ret = - 1 then - 1 else 0, st))))"

section \<open>Switching\<close>

text \<open>The save area and the register file in use: those of the user context when a notification runs.\<close>

definition fpu_area :: "'l kernel \<Rightarrow> 'l kcontext \<Rightarrow> ptr outcome" where
  "fpu_area k C = (if ucontext C = NULL then Ret (fpu_context C) else obind (deref (uctxs k) (ucontext C)) (\<lambda>U. Ret (ucontext_fpu U)))"

definition active_regs :: "'l kernel \<Rightarrow> 'l kcontext \<Rightarrow> registers outcome" where
  "active_regs k C = (if ucontext C \<noteq> NULL then obind (deref (uctxs k) (ucontext C)) (\<lambda>U. Ret (ucontext_regs U)) else Ret (regs C))"

definition fpu_save :: "ptr \<Rightarrow> ('l, 'f, 'b, 'c) machine \<Rightarrow> ('l, 'f, 'b, 'c) machine outcome" where
  "fpu_save p m = obind (deref (fpu_areas m) p) (\<lambda>_. Ret (m\<lparr>fpu_areas := (fpu_areas m)(p \<mapsto> fpu m)\<rparr>))"

definition fpu_rstor :: "ptr \<Rightarrow> ('l, 'f, 'b, 'c) machine \<Rightarrow> ('l, 'f, 'b, 'c) machine outcome" where
  "fpu_rstor p m = obind (deref (fpu_areas m) p) (\<lambda>f. Ret (m\<lparr>fpu := f\<rparr>))"

definition save_current :: "registers \<Rightarrow> ('l, 'f, 'b, 'c) machine \<Rightarrow> ('l, 'f, 'b, 'c) machine outcome" where
  "save_current r m =
     (let c = current_context (core (kern m)) in
      if c = NULL then Ret m
      else obind (deref (contexts (kern m)) c) (\<lambda>C.
        obind (fpu_area (kern m) C) (\<lambda>f.
        obind (fpu_save f m) (\<lambda>m.
        obind (if ucontext C \<noteq> NULL
               then obind (deref (uctxs (kern m)) (ucontext C)) (\<lambda>U.
                 Ret (C, m\<lparr>kern := (kern m)\<lparr>uctxs := (uctxs (kern m))(ucontext C \<mapsto> U\<lparr>ucontext_regs := r\<rparr>)\<rparr>\<rparr>))
               else Ret (C\<lparr>regs := r\<rparr>, m)) (\<lambda>(C, m).
        Ret (set_context c (C\<lparr>user_fs_base := fs_base m, user_gs_base := kernel_gs_base m\<rparr>) m))))))"

definition x86_swap_tables :: "'l page_table \<Rightarrow> ('l, 'f, 'b, 'c) machine \<Rightarrow> ('l, 'f, 'b, 'c) machine" where
  "x86_swap_tables pt m = m\<lparr>cr3 := pmlt pt - HIGH_VMA (mem (kern m))\<rparr>"

definition SWAP_TLS :: "registers \<Rightarrow> ('l, 'f, 'b, 'c) machine \<Rightarrow> ('l, 'f, 'b, 'c) machine" where
  "SWAP_TLS r m = (if cs r AND 3 = 3 then m\<lparr>gs_base := kernel_gs_base m, kernel_gs_base := gs_base m\<rparr> else m)"

text \<open>The end of \<^verbatim>\<open>reschedule\<close>: the processor continues with the returned register file.\<close>

definition switch_to ::
  "'l fayt \<Rightarrow> ptr \<Rightarrow> ('l, 'f, 'b, 'c) machine \<Rightarrow> (registers \<times> ('l, 'f, 'b, 'c) machine) outcome" where
  "switch_to F c m =
     obind (deref (contexts (kern m)) c) (\<lambda>C.
     obind (fpu_area (kern m) C) (\<lambda>f.
     obind (active_regs (kern m) C) (\<lambda>r.
     obind (deref (tables m) (page_table_of C)) (\<lambda>pt.
     obind (fpu_rstor f (x86_swap_tables pt m)) (\<lambda>m.
     let m = m\<lparr>fs_base := user_fs_base C, kernel_gs_base := user_gs_base C\<rparr>;
         m = m\<lparr>kern := (kern m)\<lparr>core := (core (kern m))\<lparr>current_context := c\<rparr>\<rparr>\<rparr>;
         m = m\<lparr>eois := Suc (eois m), reschedule_lock := spinrelease F (reschedule_lock m)\<rparr>
     in Ret (r, SWAP_TLS (regs C) m))))))"

text \<open>The choice of the next context; \<open>None\<close> is the early return.\<close>

definition next_context :: "'l slab \<Rightarrow> ('l, 'f, 'b, 'c) machine \<Rightarrow> (ptr option \<times> ('l, 'f, 'b, 'c) machine) outcome" where
  "next_context A m =
     (let k = kern m in
      case VECTOR_POP A (delivery_stack (core k)) of
        Some (c, st) \<Rightarrow> Ret (Some c, m\<lparr>kern := k\<lparr>core := (core k)\<lparr>delivery_stack := st\<rparr>\<rparr>\<rparr>)
      | None \<Rightarrow>
          (case VECTOR_POP A (thread_queue (core k)) of
             Some (c, q) \<Rightarrow> Ret (Some c, m\<lparr>kern := k\<lparr>core := (core k)\<lparr>thread_queue := q\<rparr>\<rparr>\<rparr>)
           | None \<Rightarrow>
               if scheduling_server (core k) = NULL then Ret (None, m)
               else obind (deref (server_contexts m) (scheduling_server (core k))) (\<lambda>c.
                 Ret (if c = NULL then None else Some c, m))))"

definition reschedule ::
  "'l fayt \<Rightarrow> 'l slab \<Rightarrow> ('l, 'f, 'b, 'c) machine \<Rightarrow> registers \<Rightarrow> (registers option \<times> ('l, 'f, 'b, 'c) machine) outcome" where
  "reschedule F A m r =
     obind (of_opt (spinlock F (reschedule_lock m))) (\<lambda>l.
     obind (next_context A (m\<lparr>reschedule_lock := l\<rparr>)) (\<lambda>(n, m).
     case n of
       None \<Rightarrow> Ret (None, m\<lparr>reschedule_lock := spinrelease F l\<rparr>)
     | Some c \<Rightarrow>
         obind (notification_dispatch F A (kern m) c) (\<lambda>(_, k).
         obind (save_current r (m\<lparr>kern := k\<rparr>)) (\<lambda>m.
         obind (switch_to F c m) (\<lambda>(r, m). Ret (Some r, m))))))"


section \<open>Contexts that can be resumed\<close>

definition vector_pop_law :: "'l slab \<Rightarrow> bool" where
  "vector_pop_law A \<longleftrightarrow> (\<forall>xs. VECTOR_POP A xs = (if xs = [] then None else Some (last xs, butlast xs)))"

lemma vector_pop_snoc: "vector_pop_law A \<Longrightarrow> VECTOR_POP A (xs @ [x]) = Some (x, xs)"
  by (simp add: vector_pop_law_def)

lemma vector_pop_Nil: "vector_pop_law A \<Longrightarrow> VECTOR_POP A [] = None"
  by (simp add: vector_pop_law_def)

text \<open>A context whose queue is missing or not active: nothing is dispatched to it.\<close>

definition quiet :: "'l kernel \<Rightarrow> 'l kcontext \<Rightarrow> bool" where
  "quiet k C \<longleftrightarrow> nqueue C = NULL \<or> (\<exists>Q. queues k (nqueue C) = Some Q \<and> \<not> active Q)"

lemma dispatch_quiet:
  "contexts k c = Some C \<Longrightarrow> quiet k C \<Longrightarrow> notification_dispatch F A k c = Ret (- 1, k)"
  by (auto simp: notification_dispatch_def quiet_def Let_def)

text \<open>A dispatch leaves the per-core block alone.\<close>

lemma pop_core: "NOTIFICATION_POP k q i = Ret (r, n, k') \<Longrightarrow> core k' = core k"
  by (auto simp: NOTIFICATION_POP_def split: if_splits)

lemma deliver_core: "deliver k c u ust n i = Ret k' \<Longrightarrow> core k' = core k"
  by (auto simp: deliver_def split: if_splits)

lemma scan_core: "dispatch_scan k c q u is = Ret (r, k') \<Longrightarrow> core k' = core k"
proof (induction "is" arbitrary: k r k')
  case (Cons i "is")
  then show ?case by (auto split: if_splits dest!: pop_core deliver_core)
qed simp

lemma dispatch_core: "notification_dispatch F A k c = Ret (r, k') \<Longrightarrow> core k' = core k"
  by (auto simp: notification_dispatch_def get_ucontext_def Let_def split: if_splits option.splits prod.splits dest!: scan_core)

definition runnable :: "('l, 'f, 'b, 'c) machine \<Rightarrow> ptr \<Rightarrow> 'l kcontext \<Rightarrow> 'l page_table \<Rightarrow> 'f \<Rightarrow> bool" where
  "runnable m c C pt f \<longleftrightarrow> c \<noteq> NULL \<and> contexts (kern m) c = Some C \<and> ucontext C = NULL \<and> quiet (kern m) C \<and>
     tables m (page_table_of C) = Some pt \<and> fpu_areas m (fpu_context C) = Some f"

text \<open>What a switch from \<open>c\<close> to \<open>n\<close> leaves behind.\<close>

definition switched ::
  "'l fayt \<Rightarrow> ptr \<Rightarrow> 'l kcontext \<Rightarrow> ptr \<Rightarrow> 'l kcontext \<Rightarrow> 'l page_table \<Rightarrow> 'f \<Rightarrow> ptr list \<Rightarrow> registers \<Rightarrow> 'l \<Rightarrow>
   ('l, 'f, 'b, 'c) machine \<Rightarrow> ('l, 'f, 'b, 'c) machine" where
  "switched F c C n N pt f q r l m = SWAP_TLS (regs N) (m\<lparr>
     fpu_areas := (fpu_areas m)(fpu_context C \<mapsto> fpu m), cr3 := pmlt pt - HIGH_VMA (mem (kern m)), fpu := f,
     fs_base := user_fs_base N, kernel_gs_base := user_gs_base N,
     kern := (kern m)\<lparr>contexts := (contexts (kern m))(c \<mapsto> C\<lparr>regs := r, user_fs_base := fs_base m, user_gs_base := kernel_gs_base m\<rparr>),
       core := (core (kern m))\<lparr>thread_queue := q, current_context := n\<rparr>\<rparr>,
     eois := Suc (eois m), reschedule_lock := spinrelease F l\<rparr>)"

lemma reschedule_switch:
  assumes A: "vector_pop_law A" and l: "spinlock F (reschedule_lock m) = Some l"
    and q: "delivery_stack (core (kern m)) = []" "thread_queue (core (kern m)) = q @ [n]"
    and c: "current_context (core (kern m)) = c" "runnable m c C pt' f'" and n: "runnable m n N pt f"
    and ne: "c \<noteq> n" "fpu_context C \<noteq> fpu_context N"
  shows "reschedule F A m r = Ret (Some (regs N), switched F c C n N pt f q r l m)"
proof -
  let ?k = "(kern m)\<lparr>core := (core (kern m))\<lparr>thread_queue := q\<rparr>\<rparr>"
  let ?m = "m\<lparr>reschedule_lock := l, kern := ?k\<rparr>"
  have nx: "next_context A (m\<lparr>reschedule_lock := l\<rparr>) = Ret (Some n, ?m)"
    using q vector_pop_Nil [OF A] vector_pop_snoc [OF A, of q n] by (simp add: next_context_def Let_def)
  have "notification_dispatch F A ?k n = Ret (- 1, ?k)"
    by (rule dispatch_quiet) (use n in \<open>auto simp: runnable_def quiet_def\<close>)
  then show ?thesis
    using l nx c n ne
    by (simp add: reschedule_def save_current_def fpu_area_def fpu_save_def set_context_def switch_to_def
        active_regs_def x86_swap_tables_def fpu_rstor_def runnable_def switched_def Let_def)
qed

section \<open>Properties\<close>

text \<open>
  C14. A context switch by the timer can be undone: \<^verbatim>\<open>reschedule\<close> from \<open>c\<close> enters the context on top of the
  thread queue with that context's registers and address space; whatever that context then does to
  the registers, the FPU and the segment bases, a later switch back to \<open>c\<close> continues with exactly the
  registers, the FPU state, the segment bases and the address space \<open>c\<close> was interrupted with.
\<close>

theorem reschedule_roundtrip:
  assumes "fayt_laws F" "vector_pop_law A" "lock_free F (reschedule_lock m)"
    and "delivery_stack (core (kern m)) = []" "thread_queue (core (kern m)) = q @ [n]"
    and "current_context (core (kern m)) = c" "runnable m c C ptc fc" "runnable m n N ptn fn"
    and "c \<noteq> n" "fpu_context C \<noteq> fpu_context N"
  shows "\<exists>m1. reschedule F A m r = Ret (Some (regs N), m1) \<and> current_context (core (kern m1)) = n \<and>
    cr3 m1 = pmlt ptn - HIGH_VMA (mem (kern m)) \<and> fpu m1 = fn \<and>
    (\<forall>r2 f2 fs2 gs2 kgs2 q2. \<exists>m3.
       reschedule F A (m1\<lparr>fpu := f2, fs_base := fs2, gs_base := gs2, kernel_gs_base := kgs2,
         kern := (kern m1)\<lparr>core := (core (kern m1))\<lparr>thread_queue := q2 @ [c]\<rparr>\<rparr>\<rparr>) r2 = Ret (Some r, m3) \<and>
       current_context (core (kern m3)) = c \<and> fpu m3 = fpu m \<and> fs_base m3 = fs_base m \<and>
       cr3 m3 = pmlt ptc - HIGH_VMA (mem (kern m)) \<and> (cs r AND 3 = 3 \<longrightarrow> gs_base m3 = kernel_gs_base m) \<and>
       (\<exists>N'. contexts (kern m3) n = Some N' \<and> regs N' = r2))"
proof -
  obtain l where l: "spinlock F (reschedule_lock m) = Some l" using assms(3) by (auto simp: lock_free_iff)
  let ?m1 = "switched F c C n N ptn fn q r l m"
  note r1 = reschedule_switch [OF assms(2) l assms(4-10)]
  have "lock_free F (reschedule_lock ?m1)" using assms(1) by (simp add: switched_def SWAP_TLS_def)
  then obtain l1 where l1: "spinlock F (reschedule_lock ?m1) = Some l1" by (auto simp: lock_free_iff)
  have "\<exists>m3. reschedule F A (?m1\<lparr>fpu := f2, fs_base := fs2, gs_base := gs2, kernel_gs_base := kgs2,
         kern := (kern ?m1)\<lparr>core := (core (kern ?m1))\<lparr>thread_queue := q2 @ [c]\<rparr>\<rparr>\<rparr>) r2 = Ret (Some r, m3) \<and>
       current_context (core (kern m3)) = c \<and> fpu m3 = fpu m \<and> fs_base m3 = fs_base m \<and>
       cr3 m3 = pmlt ptc - HIGH_VMA (mem (kern m)) \<and> (cs r AND 3 = 3 \<longrightarrow> gs_base m3 = kernel_gs_base m) \<and>
       (\<exists>N'. contexts (kern m3) n = Some N' \<and> regs N' = r2)" for r2 f2 fs2 gs2 kgs2 q2
  proof -
    let ?C = "C\<lparr>regs := r, user_fs_base := fs_base m, user_gs_base := kernel_gs_base m\<rparr>"
    let ?m2 = "?m1\<lparr>fpu := f2, fs_base := fs2, gs_base := gs2, kernel_gs_base := kgs2,
         kern := (kern ?m1)\<lparr>core := (core (kern ?m1))\<lparr>thread_queue := q2 @ [c]\<rparr>\<rparr>\<rparr>"
    have f: "kern ?m1 = (kern m)\<lparr>contexts := (contexts (kern m))(c \<mapsto> ?C), core := (core (kern m))\<lparr>thread_queue := q, current_context := n\<rparr>\<rparr>"
      "tables ?m1 = tables m" "fpu_areas ?m1 = (fpu_areas m)(fpu_context C \<mapsto> fpu m)"
      by (simp_all add: switched_def SWAP_TLS_def)
    have rc: "runnable ?m2 c ?C ptc (fpu m)" and rn: "runnable ?m2 n N ptn fn"
      using assms(7-10) by (simp_all add: runnable_def quiet_def f)
    have "reschedule F A ?m2 r2 = Ret (Some (regs ?C), switched F n N c ?C ptc (fpu m) q2 r2 l1 ?m2)"
      by (rule reschedule_switch [OF assms(2) _ _ _ _ rn rc]) (use assms l1 f in simp_all)
    then show ?thesis using assms(9) by (simp add: switched_def SWAP_TLS_def f)
  qed
  then show ?thesis using r1 by (intro exI [of _ ?m1] conjI) (auto simp: switched_def SWAP_TLS_def)
qed

text \<open>A machine with two contexts at \<open>0x10\<close> and \<open>0x11\<close>, of which the second waits in the thread queue.\<close>

definition demo_machine :: "(bool, nat, nat, s32 \<Rightarrow> ptr) machine" where
  "demo_machine = \<lparr>kern = demo_kernel\<lparr>
       contexts := [0x10 \<mapsto> demo_context\<lparr>nqueue := NULL, page_table_of := 0x80, fpu_context := 0x90\<rparr>,
         0x11 \<mapsto> demo_context\<lparr>nqueue := NULL, page_table_of := 0x81, fpu_context := 0x91, regs := zero_registers\<lparr>rip := 0x400000\<rparr>\<rparr>],
       core := (core demo_kernel)\<lparr>thread_queue := [0x11]\<rparr>\<rparr>,
     reschedule_lock = False,
     tables = [0x80 \<mapsto> \<lparr>pmlt = 0x5000, pt_lock = False, ops = Pml4Ops\<rparr>, 0x81 \<mapsto> \<lparr>pmlt = 0x6000, pt_lock = False, ops = Pml4Ops\<rparr>],
     server_contexts = Map.empty, fpu_areas = [0x90 \<mapsto> 1, 0x91 \<mapsto> 2], cid_bitmap = 0, context_table = (\<lambda>_. NULL), fpu = 7,
     cr3 = 0, fs_base = 0x123, gs_base = 0, kernel_gs_base = 0x456, eois = 0, allocs = 0\<rparr>"

theorem reschedule_roundtrip_witness:
  "\<exists>m1 m3. reschedule fayt_ref (slab_ref 0x70) demo_machine (zero_registers\<lparr>rip := 0x401234\<rparr>) = Ret (Some (zero_registers\<lparr>rip := 0x400000\<rparr>), m1) \<and>
     reschedule fayt_ref (slab_ref 0x70) (m1\<lparr>fpu := 99, fs_base := 0, gs_base := 0, kernel_gs_base := 0,
       kern := (kern m1)\<lparr>core := (core (kern m1))\<lparr>thread_queue := [] @ [0x10]\<rparr>\<rparr>\<rparr>) zero_registers =
       Ret (Some (zero_registers\<lparr>rip := 0x401234\<rparr>), m3) \<and> fpu m3 = 7 \<and> fs_base m3 = 0x123"
proof -
  let ?C = "demo_context\<lparr>nqueue := NULL, page_table_of := 0x80, fpu_context := 0x90\<rparr>"
  let ?N = "demo_context\<lparr>nqueue := NULL, page_table_of := 0x81, fpu_context := 0x91, regs := zero_registers\<lparr>rip := 0x400000\<rparr>\<rparr>"
  have "vector_pop_law (slab_ref 0x70)" "lock_free fayt_ref (reschedule_lock demo_machine)"
    "delivery_stack (core (kern demo_machine)) = []" "thread_queue (core (kern demo_machine)) = [] @ [0x11]"
    "current_context (core (kern demo_machine)) = 0x10"
    "runnable demo_machine 0x10 ?C \<lparr>pmlt = 0x5000, pt_lock = False, ops = Pml4Ops\<rparr> 1"
    "runnable demo_machine 0x11 ?N \<lparr>pmlt = 0x6000, pt_lock = False, ops = Pml4Ops\<rparr> 2"
    "(0x10 :: ptr) \<noteq> 0x11" "fpu_context ?C \<noteq> fpu_context ?N"
    by (simp_all add: vector_pop_law_def slab_ref_def lock_free_def fayt_ref_def demo_machine_def demo_kernel_def demo_context_def
        runnable_def quiet_def)
  from reschedule_roundtrip [OF fayt_laws_ref this, of "zero_registers\<lparr>rip := 0x401234\<rparr>"]
  obtain m1 where m1: "reschedule fayt_ref (slab_ref 0x70) demo_machine (zero_registers\<lparr>rip := 0x401234\<rparr>) = Ret (Some (regs ?N), m1)"
    and resume: "\<forall>r2 f2 fs2 gs2 kgs2 q2. \<exists>m3.
       reschedule fayt_ref (slab_ref 0x70) (m1\<lparr>fpu := f2, fs_base := fs2, gs_base := gs2, kernel_gs_base := kgs2,
         kern := (kern m1)\<lparr>core := (core (kern m1))\<lparr>thread_queue := q2 @ [0x10]\<rparr>\<rparr>\<rparr>) r2 = Ret (Some (zero_registers\<lparr>rip := 0x401234\<rparr>), m3) \<and>
       current_context (core (kern m3)) = 0x10 \<and> fpu m3 = fpu demo_machine \<and> fs_base m3 = fs_base demo_machine \<and>
       cr3 m3 = pmlt \<lparr>pmlt = 0x5000, pt_lock = False, ops = Pml4Ops\<rparr> - HIGH_VMA (mem (kern demo_machine)) \<and>
       (cs (zero_registers\<lparr>rip := 0x401234\<rparr>) AND 3 = 3 \<longrightarrow> gs_base m3 = kernel_gs_base demo_machine) \<and>
       (\<exists>N'. contexts (kern m3) 0x11 = Some N' \<and> regs N' = r2)"
    by blast
  have d: "fpu demo_machine = 7" "fs_base demo_machine = 0x123" "regs ?N = zero_registers\<lparr>rip := 0x400000\<rparr>"
    by (simp_all add: demo_machine_def)
  obtain m3 where "reschedule fayt_ref (slab_ref 0x70) (m1\<lparr>fpu := 99, fs_base := 0, gs_base := 0, kernel_gs_base := 0,
       kern := (kern m1)\<lparr>core := (core (kern m1))\<lparr>thread_queue := [] @ [0x10]\<rparr>\<rparr>\<rparr>) zero_registers =
       Ret (Some (zero_registers\<lparr>rip := 0x401234\<rparr>), m3)" "fpu m3 = 7" "fs_base m3 = 0x123"
    using resume unfolding d by blast
  then show ?thesis using m1 unfolding d by blast
qed

text \<open>
  A notification for the context that runs is never handled: the next interrupt dispatches it, sets the
  user context up to enter the handler, and then saves the interrupted registers over that set-up,
  so that the interrupted code continues. Before that can happen the processor faults when the user
  context has no FPU area, which is how \<^verbatim>\<open>get_ucontext\<close> leaves a new one.
\<close>

theorem reschedule_running_loses_handler:
  assumes "vector_pop_law A" "lock_free F (reschedule_lock m)" "delivery_stack (core (kern m)) = ds @ [c]"
    and "current_context (core (kern m)) = c" "c \<noteq> NULL"
    and "notification_dispatch F A ((kern m)\<lparr>core := (core (kern m))\<lparr>delivery_stack := ds\<rparr>\<rparr>) c = Ret (0, k)"
    and "contexts k c = Some C" "ucontext C = u" "u \<noteq> NULL" "uctxs k u = Some U" "tables m (page_table_of C) = Some pt"
  shows "if fpu_areas m (ucontext_fpu U) = None then reschedule F A m r = Fault NullDeref
    else \<exists>m'. reschedule F A m r = Ret (Some r, m')"
proof -
  obtain l where l: "spinlock F (reschedule_lock m) = Some l" using assms(2) by (auto simp: lock_free_iff)
  let ?k = "(kern m)\<lparr>core := (core (kern m))\<lparr>delivery_stack := ds\<rparr>\<rparr>"
  have nx: "next_context A (m\<lparr>reschedule_lock := l\<rparr>) = Ret (Some c, m\<lparr>reschedule_lock := l, kern := ?k\<rparr>)"
    using assms(3) vector_pop_snoc [OF assms(1), of ds c] by (simp add: next_context_def Let_def)
  have cur: "current_context (core k) = c" using assms(4) dispatch_core [OF assms(6)] by simp
  show ?thesis
  proof (cases "fpu_areas m (ucontext_fpu U)")
    case None
    then show ?thesis
      using l nx assms(5-10) cur by (simp add: reschedule_def save_current_def fpu_area_def fpu_save_def Let_def)
  next
    case (Some f)
    then show ?thesis
      using l nx assms(5-11) cur
      by (simp add: reschedule_def save_current_def fpu_area_def fpu_save_def set_context_def switch_to_def
          active_regs_def x86_swap_tables_def fpu_rstor_def Let_def)
  qed
qed

definition demo_running :: "ptr \<Rightarrow> (bool, nat, nat, s32 \<Rightarrow> ptr) machine" where
  "demo_running f = demo_machine\<lparr>kern := demo_kernel\<lparr>
     contexts := [0x10 \<mapsto> demo_context\<lparr>page_table_of := 0x80, fpu_context := 0x90\<rparr>],
     uctxs := [0x50 \<mapsto> demo_ucontext\<lparr>ucontext_fpu := f\<rparr>],
     core := (core demo_kernel)\<lparr>delivery_stack := [0x10]\<rparr>\<rparr>\<rparr>"

lemma demo_running_dispatch:
  fixes f :: ptr
  defines "k \<equiv> (kern (demo_running f))\<lparr>core := (core (kern (demo_running f)))\<lparr>delivery_stack := []\<rparr>\<rparr>"
  shows "\<exists>k' C' U'. notification_dispatch fayt_ref (slab_ref 0x70) k 0x10 = Ret (0, k') \<and> contexts k' 0x10 = Some C' \<and>
    ucontext C' = 0x50 \<and> page_table_of C' = 0x80 \<and> uctxs k' 0x50 = Some U' \<and> ucontext_fpu U' = f"
  using dispatch_delivers [OF fayt_laws_ref, of "0x10" k "demo_context\<lparr>page_table_of := 0x80, fpu_context := 0x90\<rparr>" demo_queue 2
      "0x30" demo_notification 0 "0x50" "demo_ucontext\<lparr>ucontext_fpu := f\<rparr>" "0x40" demo_ustack "slab_ref 0x70"]
    demo_not_ready demo_free_stack
  by (auto simp: k_def demo_running_def demo_kernel_defs ready_def lock_free_def fayt_ref_def)

theorem reschedule_running_loses_handler_witness:
  "reschedule fayt_ref (slab_ref 0x70) (demo_running NULL) zero_registers = Fault NullDeref \<and>
   (\<exists>m'. reschedule fayt_ref (slab_ref 0x70) (demo_running 0x90) zero_registers = Ret (Some zero_registers, m'))"
proof -
  have run: "if fpu_areas (demo_running f) f = None then reschedule fayt_ref (slab_ref 0x70) (demo_running f) r = Fault NullDeref
    else \<exists>m'. reschedule fayt_ref (slab_ref 0x70) (demo_running f) r = Ret (Some r, m')" for f r
  proof -
    obtain k' C' U' where d: "notification_dispatch fayt_ref (slab_ref 0x70)
        ((kern (demo_running f))\<lparr>core := (core (kern (demo_running f)))\<lparr>delivery_stack := []\<rparr>\<rparr>) 0x10 = Ret (0, k')"
      "contexts k' 0x10 = Some C'" "ucontext C' = 0x50" "page_table_of C' = 0x80" "uctxs k' 0x50 = Some U'" "ucontext_fpu U' = f"
      using demo_running_dispatch by blast
    have "vector_pop_law (slab_ref 0x70 :: bool slab)" "lock_free fayt_ref (reschedule_lock (demo_running f))"
      "delivery_stack (core (kern (demo_running f))) = [] @ [0x10]" "current_context (core (kern (demo_running f))) = 0x10" "(0x10 :: ptr) \<noteq> NULL"
      "(0x50 :: ptr) \<noteq> NULL" "tables (demo_running f) (page_table_of C') = Some \<lparr>pmlt = 0x5000, pt_lock = False, ops = Pml4Ops\<rparr>"
      by (simp_all add: vector_pop_law_def slab_ref_def lock_free_def fayt_ref_def demo_running_def demo_machine_def demo_kernel_def d(4))
    then show ?thesis
      using reschedule_running_loses_handler [of "slab_ref 0x70" fayt_ref "demo_running f" "[]" "0x10" k' C' "0x50" U'
          "\<lparr>pmlt = 0x5000, pt_lock = False, ops = Pml4Ops\<rparr>" r] d by simp
  qed
  show ?thesis using run [of NULL zero_registers] run [of "0x90" zero_registers]
    by (simp add: demo_running_def demo_machine_def)
qed

lemma descend_walk: "walk s t p = Some u \<Longrightarrow> pml_descend al s t bits p = Ret (u, s)"
  by (induction p arbitrary: t) (auto simp: pml_ensure_def present_def split: if_splits)

text \<open>
  Mapping a 4 KiB page at an address that a 2 MiB page covers takes the large page for a table: no table
  is allocated and the new entry is written into the memory behind the large page.
  \<^verbatim>\<open>sched_establish_shared_link\<close> asks for exactly such mappings, in the direct map.
\<close>

theorem map_page_over_huge:
  assumes "ix = compute_table_indices v" "lock_free F (pt_lock pt)" "walk s (pmlt pt) (upper (ops pt) ix) = Some t"
    and "pml_read s t (pml2_index ix) = e" "present e" "huge e" "\<not> huge f"
    and "a = slot (table_of s e) (pml1_index ix)"
  shows "\<exists>pt'. map_page F s pt v p f = Ret (Some a, pt', s\<lparr>memory := (memory s)(a := p OR f)\<rparr>)"
proof -
  obtain l where l: "spinlock F (pt_lock pt) = Some l" using assms(2) by (auto simp: lock_free_iff)
  have "table_map al s (pmlt pt) (upper (ops pt) ix) (pml2_index ix) (pml1_index ix) bits (p OR f) (f AND X86_FLAGS_PS \<noteq> 0) =
      Ret (Some a, s\<lparr>memory := (memory s)(a := p OR f)\<rparr>)" for al bits
    using assms descend_walk [OF assms(3)]
    by (simp add: table_map_def pml_ensure_def present_def huge_def pml_table_def pml_write_def)
  then show ?thesis using l assms(1) by (simp add: map_page_table_map Let_def)
qed

definition demo_tables :: "bool kstate" where
  "demo_tables = (demo 64)\<lparr>HIGH_VMA := 0, memory := (\<lambda>x. if x = 0x1000 then 0x2003 else if x = 0x2000 then 0x3003
     else if x = 0x3008 then 0x600083 else 0)\<rparr>"

theorem map_page_over_huge_witness:
  "\<exists>pt' s'. map_page fayt_ref demo_tables \<lparr>pmlt = 0x1000, pt_lock = False, ops = Pml4Ops\<rparr> 0x205000 0x7000 7 = Ret (Some 0x600028, pt', s') \<and>
     memory s' 0x600028 = 0x7007"
proof -
  let ?ix = "compute_table_indices 0x205000" and ?pt = "\<lparr>pmlt = 0x1000, pt_lock = False, ops = Pml4Ops\<rparr>"
  have "lock_free fayt_ref (pt_lock ?pt)" by (simp add: lock_free_def fayt_ref_def)
  moreover have "walk demo_tables (pmlt ?pt) (upper (ops ?pt) ?ix) = Some 0x3000"
    by (simp add: compute_table_indices_def demo_tables_def pml_read_def slot_def present_def huge_def pml_table_def table_of_def)
  moreover have "pml_read demo_tables 0x3000 (pml2_index ?ix) = 0x600083"
    by (simp add: compute_table_indices_def demo_tables_def pml_read_def slot_def)
  moreover have "present 0x600083" "huge 0x600083" "\<not> huge 7" by (simp_all add: present_def huge_def)
  moreover have "0x600028 = slot (table_of demo_tables 0x600083) (pml1_index ?ix)"
    by (simp add: compute_table_indices_def demo_tables_def slot_def table_of_def)
  ultimately show ?thesis using map_page_over_huge [OF refl, of fayt_ref ?pt demo_tables "0x205000" "0x3000" "0x600083" 7 "0x600028" "0x7000"]
    by auto
qed

text \<open>The steps of \<^verbatim>\<open>create_blank_context\<close> after its two allocations.\<close>

definition blank_context :: "('l, 'f, 'b, 'c) ctx_deps \<Rightarrow> nat \<Rightarrow> u64 \<Rightarrow> s32 \<Rightarrow> 'l kcontext \<Rightarrow> 'l kcontext" where
  "blank_context D n stack i C = C\<lparr>page_table_of := alloc_at D n, sysperm := 0,
     kernel_stack := (kernel_stack C)\<lparr>sp := stack, stack_size := CONTEXT_DEFAULT_STACK_SIZE\<rparr>,
     actions := replicate NOTIFICATION_MAX (raw_action D), nqueue := alloc_at D (n + 2), fpu_context := alloc_at D (n + 3), cid := i\<rparr>"

lemma create_blank_steps:
  assumes "vmm_default_table F B (mem (kern m)) (raw_table D) = Ret (pt, s)"
    and "pmm_alloc F s (DIV_ROUNDUP F CONTEXT_DEFAULT_STACK_SIZE PAGE_SIZE) 1 = Ret (a, s')"
    and "c \<noteq> NULL" "contexts (kern m) c = Some C" "bitmap_alloc D (cid_bitmap m) = (0, i, b)" "push_context D (context_table m) i c = (0, t)"
  shows "\<exists>m'. create_blank_context F B D m c = Ret (0, m') \<and> mem (kern m') = s' \<and>
    contexts (kern m') = (contexts (kern m))(c \<mapsto> blank_context D (allocs m) (a + CONTEXT_DEFAULT_STACK_SIZE + HIGH_VMA s') i C) \<and>
    queues (kern m') = (queues (kern m))(alloc_at D (allocs m + 2) \<mapsto> raw_queue D) \<and>
    tables m' = (tables m)(alloc_at D (allocs m) \<mapsto> pt) \<and>
    fpu_areas m' = (fpu_areas m)(alloc_at D (allocs m + 3) \<mapsto> raw_fpu D) \<and> context_table m' = t \<and>
    reschedule_lock m' = reschedule_lock m"
  using assms
  by (simp add: create_blank_context_def NEW_CONTEXT_def alloc_def set_context_def Let_def numeral_eq_Suc blank_context_def)

text \<open>
  C17. \<^verbatim>\<open>create_blank_context\<close> makes a context that can be scheduled: it gets a new address space that holds the
  direct map, an FPU area, an inactive notification queue, no system call denied, an empty user
  context, and an identifier under which \<^verbatim>\<open>SEARCH_CONTEXT\<close> finds it; the frame allocator keeps its
  invariant, and no other context changes.
\<close>

theorem create_blank_context_runnable:
  assumes "fayt_laws F" "pmm_inv F (mem (kern m))" "lock_free F (pt_lock (raw_table D))" "\<not> active (raw_queue D)"
    and "pmm_room F (modules (mem (kern m))) (Suc ((0x6C00 + memmap_pages F (memmap B)) * levels mode))"
    and "mode = x86_paging_init (cpuid_7_rcx B)" "4096 dvd unat (physical_base B)" "memmap_low F (memmap B)"
    and "c \<noteq> NULL" "contexts (kern m) c = Some C" "ucontext C = NULL" "alloc_at D (allocs m + 2) \<noteq> NULL"
    and "bitmap_alloc D (cid_bitmap m) = (0, i, b)" "push_context D (context_table m) i c = (0, t)" "search_context D t i = (0, c)"
  shows "\<exists>m' C' pt. create_blank_context F B D m c = Ret (0, m') \<and> runnable m' c C' pt (raw_fpu D) \<and>
    pmm_inv F (mem (kern m')) \<and> SEARCH_CONTEXT D m' (cid C') = (0, c) \<and> sysperm C' = 0 \<and> regs C' = regs C \<and>
    (\<forall>j < 0x800. view mode (mem (kern m')) pt (HIGH_VMA (mem (kern m)) + of_nat j * 0x200000) = Some (of_nat j * 0x200000 OR 0x187)) \<and>
    (\<forall>c'. c' \<noteq> c \<longrightarrow> contexts (kern m') c' = contexts (kern m) c')"
proof -
  obtain pt s where t: "vmm_default_table F B (mem (kern m)) (raw_table D) = Ret (pt, s)" "pmm_inv F s" "pt_ok F mode s pt"
    and dm: "\<forall>j < 0x800. view mode s pt (HIGH_VMA (mem (kern m)) + of_nat j * 0x200000) = Some (of_nat j * 0x200000 OR 0x187)"
    using vmm_default_table_ready [OF assms(1-3,5-8)] by blast
  have cnt: "unat (DIV_ROUNDUP F CONTEXT_DEFAULT_STACK_SIZE PAGE_SIZE) = 16"
    using DIV_ROUNDUP_exact [OF assms(1), of PAGE_SIZE CONTEXT_DEFAULT_STACK_SIZE] by simp
  obtain a s' where al: "pmm_alloc F s (DIV_ROUNDUP F CONTEXT_DEFAULT_STACK_SIZE PAGE_SIZE) 1 = Ret (a, s')"
    and post: "alloc_post F s 16 4096 a s'"
    using pmm_alloc_correct [OF assms(1) t(2), of "DIV_ROUNDUP F CONTEXT_DEFAULT_STACK_SIZE PAGE_SIZE" 0] cnt by auto
  have inv: "pmm_inv F s'" using post by (simp add: alloc_post_def)
  have wf: "tables_wf (pmm_owned F s) (levels mode) s (pmlt pt)" using t(3) by (simp add: pt_ok_def)
  have vw: "view mode s' pt w = view mode s pt w" for w
    by (rule keeps_translate [OF keeps_agree [OF wf alloc_run_agree [OF assms(1) t(2) post]]])
  let ?C = "blank_context D (allocs m) (a + CONTEXT_DEFAULT_STACK_SIZE + HIGH_VMA s') i C"
  obtain m' where r: "create_blank_context F B D m c = Ret (0, m')" "mem (kern m') = s'" "contexts (kern m') = (contexts (kern m))(c \<mapsto> ?C)"
    "queues (kern m') = (queues (kern m))(alloc_at D (allocs m + 2) \<mapsto> raw_queue D)"
    "tables m' = (tables m)(alloc_at D (allocs m) \<mapsto> pt)"
    "fpu_areas m' = (fpu_areas m)(alloc_at D (allocs m + 3) \<mapsto> raw_fpu D)" "context_table m' = t"
    using create_blank_steps [OF t(1) al assms(9,10,13,14)] by blast
  have "runnable m' c ?C pt (raw_fpu D)" using r assms(4,9,11) by (simp add: runnable_def quiet_def blank_context_def)
  moreover have "SEARCH_CONTEXT D m' (cid ?C) = (0, c)" using r(7) assms(15) by (simp add: SEARCH_CONTEXT_def blank_context_def)
  ultimately show ?thesis using r(1-3) inv vw dm by (intro exI [of _ m'] exI [of _ ?C] exI [of _ pt]) (simp add: blank_context_def)
qed

definition demo_deps :: "(bool, nat, nat, s32 \<Rightarrow> ptr) ctx_deps" where
  "demo_deps = \<lparr>alloc_at = (\<lambda>i. 0x1000 + of_nat i * 0x100), raw_queue = demo_queue\<lparr>active := False\<rparr>, raw_action = \<lparr>action_handler = 0\<rparr>,
     raw_table = demo_pt Pml4Ops, raw_fpu = 0, bitmap_alloc = (\<lambda>b. (0, of_nat b, Suc b)),
     push_context = (\<lambda>t i c. (0, t(i := c))), search_context = (\<lambda>t i. if t i = NULL then (- 1, NULL) else (0, t i))\<rparr>"

theorem create_blank_context_runnable_witness:
  "\<exists>m' C' pt. create_blank_context fayt_ref demo_boot demo_deps (demo_machine\<lparr>kern := (kern demo_machine)\<lparr>mem := demo 100000\<rparr>\<rparr>) 0x10 = Ret (0, m') \<and>
     runnable m' 0x10 C' pt 0 \<and> SEARCH_CONTEXT demo_deps m' (cid C') = (0, 0x10)"
proof -
  let ?m = "demo_machine\<lparr>kern := (kern demo_machine)\<lparr>mem := demo 100000\<rparr>\<rparr>"
  have a: "pmm_inv fayt_ref (mem (kern ?m))" using demo_inv [of 100000] by simp
  have l: "lock_free fayt_ref (pt_lock (raw_table demo_deps))" "\<not> active (raw_queue demo_deps)"
    by (simp_all add: demo_deps_def demo_pt_def lock_free_def fayt_ref_def)
  have r: "pmm_room fayt_ref (modules (mem (kern ?m)))
      (Suc ((0x6C00 + memmap_pages fayt_ref (memmap demo_boot)) * levels Pml4Ops))"
    using demo_room [of "Suc ((0x6C00 + 512) * 3)" 100000] by (simp add: memmap_pages_def demo_boot_def fayt_ref_def)
  have b: "Pml4Ops = x86_paging_init (cpuid_7_rcx demo_boot)" "4096 dvd unat (physical_base demo_boot)"
    "memmap_low fayt_ref (memmap demo_boot)"
    by (simp_all add: x86_paging_init_def memmap_low_def demo_boot_def fayt_ref_def)
  have c: "(0x10 :: ptr) \<noteq> NULL" "contexts (kern ?m) 0x10 = Some (demo_context\<lparr>nqueue := NULL, page_table_of := 0x80, fpu_context := 0x90\<rparr>)"
    "ucontext (demo_context\<lparr>nqueue := NULL, page_table_of := 0x80, fpu_context := 0x90\<rparr>) = NULL"
    "alloc_at demo_deps (allocs ?m + 2) \<noteq> NULL" "bitmap_alloc demo_deps (cid_bitmap ?m) = (0, 0, 1)"
    "push_context demo_deps (context_table ?m) 0 0x10 = (0, (\<lambda>_. NULL)(0 := 0x10))" "search_context demo_deps ((\<lambda>_. NULL)(0 := 0x10)) 0 = (0, 0x10)"
    by (simp_all add: demo_machine_def demo_context_def demo_deps_def)
  have "\<exists>m' C' pt. create_blank_context fayt_ref demo_boot demo_deps ?m 0x10 = Ret (0, m') \<and>
      runnable m' 0x10 C' pt (raw_fpu demo_deps) \<and> SEARCH_CONTEXT demo_deps m' (cid C') = (0, 0x10)"
    using create_blank_context_runnable [OF fayt_laws_ref a l r b c] by blast
  then show ?thesis by (simp add: demo_deps_def)
qed

end
