(* ===== verification/Descriptors.thy ===== *)
theory Descriptors
  imports Context
begin

unbundle bit_operations_syntax

text \<open>
  Interrupt and segment descriptors: \<^verbatim>\<open>kernel/arch/x86/idt.c\<close> and \<^verbatim>\<open>gdt.c\<close>. The addresses of the entry
  stubs of \<^verbatim>\<open>isr.asm\<close> are a parameter (\<open>isr\<close>), and so are \<^verbatim>\<open>portal_resolve_fault\<close> and the call of a
  registered handler inside \<^verbatim>\<open>isr_handler_main\<close>. A fatal exception ends in \<open>Fault Halted\<close>: the dump of
  the registers to the console before it, and the lock \<^verbatim>\<open>exception_lock\<close> that is held around the dump, are not part of the state. The
  processor state the handlers touch is the \<^verbatim>\<open>gs\<close> base swap and the end-of-interrupt register.
\<close>

section \<open>The interrupt descriptor table\<close>

record idt_descriptor =
  offset_low :: u16
  idt_cs :: u16
  ist :: u8
  attributes :: u8
  offset_mid :: u16
  offset_high :: "32 word"
  idt_zero :: "32 word"

record vector =
  vec_handler :: u64
  vec_ptr :: ptr
  reserved :: s32

record interrupts =
  interrupt_vectors :: "vector list"
  idt :: "idt_descriptor list"

definition set_idt_descriptor ::
  "interrupts \<Rightarrow> u16 \<Rightarrow> u8 \<Rightarrow> u8 \<Rightarrow> u64 \<Rightarrow> u8 \<Rightarrow> interrupts" where
  "set_idt_descriptor I sel ist_index attrs offset index =
     I\<lparr>idt := (idt I)[unat index := \<lparr>offset_low = ucast (offset AND 0xffff), idt_cs = sel, ist = ist_index,
       attributes = attrs, offset_mid = ucast (drop_bit 16 offset AND 0xffff),
       offset_high = ucast (drop_bit 32 offset AND 0xffffffff), idt_zero = 0\<rparr>]\<rparr>"

fun alloc_vector_from :: "vector list \<Rightarrow> u64 \<Rightarrow> ptr \<Rightarrow> nat \<Rightarrow> s32 \<times> vector list" where
  "alloc_vector_from [] h p i = (- 1, [])"
| "alloc_vector_from (v # vs) h p i =
     (if reserved v = 0 then (of_nat i, v\<lparr>vec_handler := h, vec_ptr := p, reserved := 1\<rparr> # vs)
      else let (r, vs') = alloc_vector_from vs h p (Suc i) in (r, v # vs'))"

definition idt_alloc_vector :: "interrupts \<Rightarrow> u64 \<Rightarrow> ptr \<Rightarrow> s32 \<times> interrupts" where
  "idt_alloc_vector I h p =
     (let (r, vs) = alloc_vector_from (interrupt_vectors I) h p 0 in (r, I\<lparr>interrupt_vectors := vs\<rparr>))"

fun set_gates :: "interrupts \<Rightarrow> (nat \<Rightarrow> u64) \<Rightarrow> nat list \<Rightarrow> interrupts" where
  "set_gates I isr [] = I"
| "set_gates I isr (i # is) = set_gates (set_idt_descriptor I 0x28 0 0x8e (isr i) (of_nat i)) isr is"

text \<open>\<open>reschedule_addr\<close> is the address of the scheduler's entry point, registered for vector 32.\<close>

definition idt_init :: "(nat \<Rightarrow> u64) \<Rightarrow> u64 \<Rightarrow> interrupts \<Rightarrow> interrupts" where
  "idt_init isr reschedule_addr I =
     (let vs = map (\<lambda>v. v\<lparr>reserved := 1\<rparr>) (take 48 (interrupt_vectors I)) @ drop 48 (interrupt_vectors I);
          vs = vs[32 := (vs ! 32)\<lparr>vec_handler := reschedule_addr, vec_ptr := NULL\<rparr>]
      in set_gates (I\<lparr>interrupt_vectors := vs\<rparr>) isr [0..<256])"

section \<open>The common interrupt handler\<close>

record 's cpu =
  gs_swapped :: bool
  eoi_writes :: nat
  system :: 's

definition swapgs :: "'s cpu \<Rightarrow> 's cpu" where
  "swapgs c = c\<lparr>gs_swapped := \<not> gs_swapped c\<rparr>"

definition isr_done :: "registers \<Rightarrow> 's cpu \<Rightarrow> 's cpu outcome" where
  "isr_done r c =
     (let c = (if cs r AND 0x3 \<noteq> 0 then swapgs c else c) in Ret (c\<lparr>eoi_writes := Suc (eoi_writes c)\<rparr>))"

definition isr_handler_main ::
  "interrupts \<Rightarrow> (u64 \<Rightarrow> u64 \<Rightarrow> 's \<Rightarrow> (s32 \<times> 's) outcome) \<Rightarrow> (u64 \<Rightarrow> registers \<Rightarrow> ptr \<Rightarrow> 's \<Rightarrow> 's outcome) \<Rightarrow>
   u64 \<Rightarrow> registers \<Rightarrow> 's cpu \<Rightarrow> 's cpu outcome" where
  "isr_handler_main I resolve call cr2 r c =
     (let c = (if cs r AND 0x3 \<noteq> 0 then swapgs c else c) in
      if isr_number r < 32 then
        if isr_number r = 0xe then
          obind (resolve cr2 (error_code r) (system c)) (\<lambda>(ret, s).
          if ret = 0 then isr_done r (c\<lparr>system := s\<rparr>) else Fault Halted)
        else Fault Halted
      else if length (interrupt_vectors I) \<le> unat (isr_number r) then Fault OutOfBounds
      else
        let v = interrupt_vectors I ! unat (isr_number r) in
        if vec_handler v \<noteq> NULL
        then obind (call (vec_handler v) r (vec_ptr v) (system c)) (\<lambda>s. isr_done r (c\<lparr>system := s\<rparr>))
        else isr_done r c)"

section \<open>The global descriptor table\<close>

record segment_descriptor =
  seg_limit :: u16
  seg_base_low :: u16
  seg_base_mid :: u8
  seg_access :: u8
  seg_granularity :: u8
  seg_base_high :: u8

record tss_descriptor =
  tss_length :: u16
  tss_base_low :: u16
  tss_base_mid :: u8
  tss_flags :: u16
  tss_base_high :: u8
  tss_base_high32 :: "32 word"
  tss_reserved :: "32 word"

record tss =
  rsp0 :: u64
  rsp1 :: u64
  rsp2 :: u64

record gdt =
  null_seg :: segment_descriptor
  code16 :: segment_descriptor
  data16 :: segment_descriptor
  code32 :: segment_descriptor
  data32 :: segment_descriptor
  kernel_code64 :: segment_descriptor
  kernel_data64 :: segment_descriptor
  user_data64 :: segment_descriptor
  user_code64 :: segment_descriptor
  tss_desc :: tss_descriptor

definition encode_tss :: "u64 \<Rightarrow> tss_descriptor \<Rightarrow> tss_descriptor" where
  "encode_tss a d = d\<lparr>tss_length := 104, tss_base_low := ucast (a AND 0xffff),
     tss_base_mid := ucast (drop_bit 16 a AND 0xffff), tss_flags := 0x89,
     tss_base_high := ucast (drop_bit 24 a AND 0xff), tss_base_high32 := ucast (drop_bit 32 a AND 0xffffffff)\<rparr>"

text \<open>
  \<^verbatim>\<open>gdt_init\<close> fills the table found in fresh memory, and a TSS at address \<open>tss_addr\<close> with three
  ring stacks.
\<close>

definition gdt_init :: "'l fayt \<Rightarrow> 'l kstate \<Rightarrow> gdt \<Rightarrow> tss \<Rightarrow> u64 \<Rightarrow> (gdt \<times> tss \<times> 'l kstate) outcome" where
  "gdt_init F s g t tss_addr =
     (let g = g\<lparr>
          code16 := (code16 g)\<lparr>seg_limit := 0xffff, seg_access := 0x9a, seg_granularity := 0\<rparr>,
          data16 := (data16 g)\<lparr>seg_limit := 0xffff, seg_access := 0x92, seg_granularity := 0\<rparr>,
          code32 := (code32 g)\<lparr>seg_limit := 0xffff, seg_access := 0x9a, seg_granularity := 0xcf\<rparr>,
          data32 := (data32 g)\<lparr>seg_limit := 0xffff, seg_access := 0x92, seg_granularity := 0xcf\<rparr>,
          kernel_code64 := (kernel_code64 g)\<lparr>seg_access := 0x98, seg_granularity := 0x20\<rparr>,
          kernel_data64 := (kernel_data64 g)\<lparr>seg_access := 0x96, seg_granularity := 0\<rparr>,
          user_data64 := (user_data64 g)\<lparr>seg_access := 0xf2, seg_granularity := 0\<rparr>,
          user_code64 := (user_code64 g)\<lparr>seg_access := 0xfa, seg_granularity := 0x20\<rparr>\<rparr> in
      obind (pmm_alloc F s 4 1) (\<lambda>(a, s).
      let t = t\<lparr>rsp0 := a + HIGH_VMA s + 0x4000\<rparr> in
      obind (pmm_alloc F s 4 1) (\<lambda>(b, s).
      let t = t\<lparr>rsp1 := b + HIGH_VMA s + 0x4000\<rparr> in
      obind (pmm_alloc F s 4 1) (\<lambda>(c, s).
      let t = t\<lparr>rsp2 := c + HIGH_VMA s + 0x4000\<rparr> in
      Ret (g\<lparr>tss_desc := encode_tss tss_addr (tss_desc g)\<rparr>, t, s)))))"

section \<open>Decoding\<close>

definition gate_offset :: "idt_descriptor \<Rightarrow> u64" where
  "gate_offset d = ucast (offset_low d) OR push_bit 16 (ucast (offset_mid d)) OR push_bit 32 (ucast (offset_high d))"

definition tss_base :: "tss_descriptor \<Rightarrow> u64" where
  "tss_base d = ucast (tss_base_low d) OR push_bit 16 (ucast (tss_base_mid d)) OR
     push_bit 24 (ucast (tss_base_high d)) OR push_bit 32 (ucast (tss_base_high32 d))"

lemma bit_low_mask: "k < 64 \<Longrightarrow> bit (mask k :: u64) n \<longleftrightarrow> n < k"
  by (auto simp: bit_mask_iff)

lemma low_masks: "(0xff :: u64) = mask 8" "(0xffff :: u64) = mask 16" "(0xffffffff :: u64) = mask 32"
  by (simp_all add: mask_eq_exp_minus_1)

lemma split_offset:
  "ucast (ucast (a AND 0xffff) :: u16) OR push_bit 16 (ucast (ucast (drop_bit 16 a AND 0xffff) :: u16)) OR
   push_bit 32 (ucast (ucast (drop_bit 32 a AND 0xffffffff) :: 32 word)) = (a :: u64)"
  unfolding low_masks
proof (rule bit_word_eqI, goal_cases)
  case (1 n)
  then show ?case
    by (cases "n < 16"; cases "n < 32") (auto simp: bit_simps bit_low_mask simp del: push_bit_and)
qed

lemma split_tss:
  "ucast (ucast (a AND 0xffff) :: u16) OR push_bit 16 (ucast (ucast (drop_bit 16 a AND 0xffff) :: u8)) OR
   push_bit 24 (ucast (ucast (drop_bit 24 a AND 0xff) :: u8)) OR
   push_bit 32 (ucast (ucast (drop_bit 32 a AND 0xffffffff) :: 32 word)) = (a :: u64)"
  unfolding low_masks
proof (rule bit_word_eqI, goal_cases)
  case (1 n)
  then show ?case
    by (cases "n < 16"; cases "n < 24"; cases "n < 32") (auto simp: bit_simps bit_low_mask simp del: push_bit_and)
qed

lemma gate_offset_set:
  "unat i < length (idt I) \<Longrightarrow> gate_offset (idt (set_idt_descriptor I sel n attrs a i) ! unat i) = a"
  by (simp add: set_idt_descriptor_def gate_offset_def split_offset)

lemma tss_base_encode: "tss_base (encode_tss a d) = a"
  by (simp add: encode_tss_def tss_base_def split_tss)

section \<open>Gates and vectors\<close>

lemma set_idt_descriptor_other [simp]:
  "interrupt_vectors (set_idt_descriptor I sel n attrs a i) = interrupt_vectors I"
  "length (idt (set_idt_descriptor I sel n attrs a i)) = length (idt I)"
  by (simp_all add: set_idt_descriptor_def)

lemma unat_u8: "i < 256 \<Longrightarrow> unat (of_nat i :: u8) = i"
  by (simp add: unat_of_nat take_bit_nat_eq_self)

lemma set_gates_spec:
  assumes "length (idt I) = 256" "\<And>i. i \<in> set is \<Longrightarrow> i < 256" "distinct is"
  shows "interrupt_vectors (set_gates I isr is) = interrupt_vectors I \<and>
    length (idt (set_gates I isr is)) = 256 \<and>
    (\<forall>j<256. if j \<in> set is then gate_offset (idt (set_gates I isr is) ! j) = isr j \<and>
        idt_cs (idt (set_gates I isr is) ! j) = 0x28 \<and> attributes (idt (set_gates I isr is) ! j) = 0x8e
      else idt (set_gates I isr is) ! j = idt I ! j)"
  using assms
proof (induction "is" arbitrary: I)
  case (Cons i "is")
  let ?I = "set_idt_descriptor I 0x28 0 0x8e (isr i) (of_nat i)"
  have i: "i < 256" "i \<notin> set is" using Cons.prems by auto
  have at: "gate_offset (idt ?I ! i) = isr i" "idt_cs (idt ?I ! i) = 0x28" "attributes (idt ?I ! i) = 0x8e"
    using gate_offset_set [of "of_nat i" I] i Cons.prems(1) unat_u8 [of i]
    by (simp_all add: set_idt_descriptor_def)
  have ot: "idt ?I ! j = idt I ! j" if "j \<noteq> i" for j
    using that unat_u8 [OF i(1)] by (simp add: set_idt_descriptor_def)
  show ?case using Cons.IH [of ?I] Cons.prems i at ot by auto
qed simp

lemma alloc_vector_none: "(\<And>v. v \<in> set vs \<Longrightarrow> reserved v \<noteq> 0) \<Longrightarrow> alloc_vector_from vs h p i = (- 1, vs)"
  by (induction vs arbitrary: i) auto

lemma alloc_vector_first:
  "(\<And>x. x \<in> set xs \<Longrightarrow> reserved x \<noteq> 0) \<Longrightarrow> reserved v = 0 \<Longrightarrow>
   alloc_vector_from (xs @ v # ys) h p i =
     (of_nat (i + length xs), xs @ v\<lparr>vec_handler := h, vec_ptr := p, reserved := 1\<rparr> # ys)"
  by (induction xs arbitrary: i) auto

lemma alloc_vector_cases:
  assumes "idt_alloc_vector I h p = (r, I')" "length (interrupt_vectors I) \<le> 256"
  shows "(r = - 1 \<and> I' = I \<and> (\<forall>v\<in>set (interrupt_vectors I). reserved v \<noteq> 0)) \<or>
    (\<exists>j<length (interrupt_vectors I). r = of_nat j \<and> r \<noteq> - 1 \<and> reserved (interrupt_vectors I ! j) = 0 \<and>
      (\<forall>i<j. reserved (interrupt_vectors I ! i) \<noteq> 0) \<and>
      I' = I\<lparr>interrupt_vectors := (interrupt_vectors I)[j :=
        (interrupt_vectors I ! j)\<lparr>vec_handler := h, vec_ptr := p, reserved := 1\<rparr>]\<rparr>)"
proof (cases "\<forall>v\<in>set (interrupt_vectors I). reserved v \<noteq> 0")
  case True
  then have "alloc_vector_from (interrupt_vectors I) h p 0 = (- 1, interrupt_vectors I)"
    by (intro alloc_vector_none) auto
  then show ?thesis using assms True by (auto simp: idt_alloc_vector_def)
next
  case False
  then obtain xs v ys where vs: "interrupt_vectors I = xs @ v # ys" and xs: "\<forall>x\<in>set xs. reserved x \<noteq> 0"
    and v: "reserved v = 0"
    using split_list_first_prop [of "interrupt_vectors I" "\<lambda>v. reserved v = 0"] by auto
  have "length xs < 256" using assms(2) vs by simp
  then have "unat (of_nat (length xs) :: s32) < 256" by (simp add: unat_of_nat take_bit_nat_eq_self)
  moreover have "unat (- 1 :: s32) = 4294967295" by (simp add: unsigned_minus_1_eq_mask mask_eq_exp_minus_1)
  ultimately have "(of_nat (length xs) :: s32) \<noteq> - 1" by auto
  then show ?thesis
    using assms vs xs v alloc_vector_first [of xs v ys h p 0]
    by (intro disjI2 exI [of _ "length xs"]) (auto simp: idt_alloc_vector_def nth_append)
qed

section \<open>The handler\<close>

lemma swapgs_twice: "swapgs (swapgs c) = c"
  by (simp add: swapgs_def)

lemma isr_done_spec:
  "isr_done r (c\<lparr>system := s\<rparr>) = Ret c' \<Longrightarrow> gs_swapped c' = (gs_swapped c \<noteq> (cs r AND 0x3 \<noteq> 0)) \<and>
    eoi_writes c' = Suc (eoi_writes c) \<and> system c' = s"
  by (cases "cs r AND 0x3 = 0") (auto simp: isr_done_def swapgs_def)

lemma idt_init_vectors:
  assumes "length (interrupt_vectors I) = 256" "length (idt I) = 256"
  shows "length (interrupt_vectors (idt_init isr ra I)) = 256"
    and "i < 48 \<Longrightarrow> reserved (interrupt_vectors (idt_init isr ra I) ! i) \<noteq> 0"
    and "vec_handler (interrupt_vectors (idt_init isr ra I) ! 32) = ra"
proof -
  let ?vs = "map (\<lambda>v. v\<lparr>reserved := 1\<rparr>) (take 48 (interrupt_vectors I)) @ drop 48 (interrupt_vectors I)"
  let ?ws = "?vs[32 := (?vs ! 32)\<lparr>vec_handler := ra, vec_ptr := NULL\<rparr>]"
  have v: "interrupt_vectors (idt_init isr ra I) = ?ws"
    using set_gates_spec [of "I\<lparr>interrupt_vectors := ?ws\<rparr>" "[0..<256]" isr] assms
    by (simp add: idt_init_def Let_def)
  show "length (interrupt_vectors (idt_init isr ra I)) = 256" using assms by (simp add: v)
  show "reserved (interrupt_vectors (idt_init isr ra I) ! i) \<noteq> 0" if "i < 48"
    using that assms by (auto simp: v nth_list_update nth_append)
  show "vec_handler (interrupt_vectors (idt_init isr ra I) ! 32) = ra" using assms by (simp add: v)
qed

lemma handler_called:
  assumes "length (interrupt_vectors I) = 256" "32 \<le> unat (isr_number r)" "unat (isr_number r) < 256"
    "v = interrupt_vectors I ! unat (isr_number r)" "vec_handler v \<noteq> NULL"
    "call (vec_handler v) r (vec_ptr v) (system c) = Ret s"
  shows "\<exists>c'. isr_handler_main I resolve call cr2 r c = Ret c' \<and> system c' = s \<and>
    gs_swapped c' = gs_swapped c \<and> eoi_writes c' = Suc (eoi_writes c)"
proof -
  have "\<not> isr_number r < 32" using assms(2) by (simp add: word_less_nat_alt)
  moreover have "\<not> length (interrupt_vectors I) \<le> unat (isr_number r)" using assms(1,3) by simp
  ultimately show ?thesis
    using assms(4-6) by (cases "cs r AND 0x3 = 0") (simp_all add: isr_handler_main_def isr_done_def swapgs_def Let_def)
qed

lemma page_fault_resolved:
  assumes "isr_number r = 0xe" "resolve cr2 (error_code r) s = Ret (0, s')"
  shows "isr_handler_main I resolve call cr2 r \<lparr>gs_swapped = g, eoi_writes = n, system = s\<rparr> =
    Ret \<lparr>gs_swapped = g, eoi_writes = Suc n, system = s'\<rparr>"
  using assms by (cases "cs r AND 0x3 = 0") (simp_all add: isr_handler_main_def isr_done_def swapgs_def Let_def)

section \<open>A concrete table\<close>

definition demo_interrupts :: interrupts where
  "demo_interrupts = \<lparr>interrupt_vectors = replicate 256 \<lparr>vec_handler = 0, vec_ptr = 0, reserved = 0\<rparr>,
     idt = replicate 256 \<lparr>offset_low = 0, idt_cs = 0, ist = 0, attributes = 0, offset_mid = 0, offset_high = 0,
       idt_zero = 0\<rparr>\<rparr>"

lemma demo_interrupts_size: "length (interrupt_vectors demo_interrupts) = 256" "length (idt demo_interrupts) = 256"
  by (simp_all add: demo_interrupts_def)

section \<open>Properties\<close>

text \<open>After \<^verbatim>\<open>idt_init\<close> each of the 256 gates decodes to its own entry stub, in the kernel code segment
  and as a present interrupt gate of privilege 0.\<close>

theorem idt_init_gates:
  assumes "length (interrupt_vectors I) = 256" "length (idt I) = 256" "i < 256"
  shows "gate_offset (idt (idt_init isr ra I) ! i) = isr i \<and> idt_cs (idt (idt_init isr ra I) ! i) = 0x28 \<and>
    attributes (idt (idt_init isr ra I) ! i) = 0x8e"
  using set_gates_spec [of "I\<lparr>interrupt_vectors := vs\<rparr>" "[0..<256]" isr for vs] assms
  by (auto simp: idt_init_def Let_def)

theorem idt_init_gates_witness:
  "gate_offset (idt (idt_init (\<lambda>i. 0xffffffff80001000 + 16 * of_nat i) 0xffffffff80005000 demo_interrupts) ! 14) =
     0xffffffff800010e0"
  using idt_init_gates [OF demo_interrupts_size, of 14 "\<lambda>i. 0xffffffff80001000 + 16 * of_nat i" "0xffffffff80005000"]
  by simp

text \<open>C31. \<^verbatim>\<open>idt_alloc_vector\<close> after \<^verbatim>\<open>idt_init\<close>: it hands out a vector above the 48 reserved ones that was
  free, and from then on an interrupt with that number runs the registered handler, once, with the \<^verbatim>\<open>gs\<close>
  base restored and one end-of-interrupt; no other vector changes. Only when all are taken is it \<^verbatim>\<open>-1\<close>.\<close>

theorem idt_alloc_vector_dispatches:
  assumes "length (interrupt_vectors I0) = 256" "length (idt I0) = 256" "I = idt_init isr ra I0"
    and "idt_alloc_vector I h p = (r, I')" "h \<noteq> NULL"
  shows "if r = - 1 then \<forall>v\<in>set (interrupt_vectors I). reserved v \<noteq> 0
    else \<exists>j. r = of_nat j \<and> 48 \<le> j \<and> j < 256 \<and> reserved (interrupt_vectors I ! j) = 0 \<and>
      (\<forall>i. i \<noteq> j \<longrightarrow> interrupt_vectors I' ! i = interrupt_vectors I ! i) \<and>
      (\<forall>resolve call cr2 g c s. isr_number g = of_nat j \<longrightarrow> call h g p (system c) = Ret s \<longrightarrow>
        (\<exists>c'. isr_handler_main I' resolve call cr2 g c = Ret c' \<and> system c' = s \<and>
          gs_swapped c' = gs_swapped c \<and> eoi_writes c' = Suc (eoi_writes c)))"
proof -
  have len: "length (interrupt_vectors I) = 256" and res: "\<And>i. i < 48 \<Longrightarrow> reserved (interrupt_vectors I ! i) \<noteq> 0"
    using idt_init_vectors [OF assms(1,2)] assms(3) by simp_all
  show ?thesis
  proof (cases "r = - 1")
    case True
    then show ?thesis using alloc_vector_cases [OF assms(4)] len by auto
  next
    case False
    then obtain j where j: "j < 256" "r = of_nat j" "reserved (interrupt_vectors I ! j) = 0"
      and I': "I' = I\<lparr>interrupt_vectors := (interrupt_vectors I)[j :=
        (interrupt_vectors I ! j)\<lparr>vec_handler := h, vec_ptr := p, reserved := 1\<rparr>]\<rparr>"
      using alloc_vector_cases [OF assms(4)] len by auto
    have j48: "48 \<le> j" using res [of j] j(3) by (meson not_le)
    have call: "\<exists>c'. isr_handler_main I' resolve call cr2 g c = Ret c' \<and> system c' = s \<and>
        gs_swapped c' = gs_swapped c \<and> eoi_writes c' = Suc (eoi_writes c)"
      if "isr_number g = of_nat j" "call h g p (system c) = Ret s" for resolve call cr2 g and c :: "'a cpu" and s
    proof (rule handler_called)
      have n: "unat (isr_number g) = j" using that(1) j(1) by simp
      show "length (interrupt_vectors I') = 256" "32 \<le> unat (isr_number g)" "unat (isr_number g) < 256"
        using I' len n j(1) j48 by simp_all
      show "vec_handler (interrupt_vectors I' ! unat (isr_number g)) \<noteq> NULL"
        "call (vec_handler (interrupt_vectors I' ! unat (isr_number g))) g
          (vec_ptr (interrupt_vectors I' ! unat (isr_number g))) (system c) = Ret s"
        using I' n len j(1) that(2) assms(5) by simp_all
    qed simp
    have "\<forall>i. i \<noteq> j \<longrightarrow> interrupt_vectors I' ! i = interrupt_vectors I ! i" using I' by simp
    then show ?thesis using False j j48 call by auto
  qed
qed

theorem idt_alloc_vector_dispatches_witness:
  "\<exists>r I'. idt_alloc_vector (idt_init (\<lambda>i. 0) 0x5000 demo_interrupts) 0x6000 0x7000 = (r, I') \<and>
     (r \<noteq> - 1 \<longrightarrow> (\<exists>j\<ge>48. r = of_nat j))"
proof -
  obtain r I' where a: "idt_alloc_vector (idt_init (\<lambda>i. 0) 0x5000 demo_interrupts) 0x6000 0x7000 = (r, I')" by fastforce
  have "(0x6000 :: u64) \<noteq> NULL" by simp
  from idt_alloc_vector_dispatches [OF demo_interrupts_size refl a this, where ?'a = unit] a show ?thesis
    by (auto split: if_splits)
qed

text \<open>\<^verbatim>\<open>isr_handler_main\<close> is balanced: whenever it returns, the \<^verbatim>\<open>gs\<close> base is as it was on entry and
  exactly one end-of-interrupt was written; an exception other than a page fault never returns.\<close>

theorem isr_handler_balanced:
  assumes "isr_handler_main I resolve call cr2 r c = Ret c'"
  shows "gs_swapped c' = gs_swapped c \<and> eoi_writes c' = Suc (eoi_writes c) \<and>
    (isr_number r < 32 \<longrightarrow> isr_number r = 0xe)"
  using assms
  by (cases "cs r AND 0x3 = 0") (auto simp: isr_handler_main_def isr_done_def swapgs_def Let_def split: if_splits)

theorem isr_handler_balanced_witness:
  "isr_handler_main demo_interrupts (\<lambda>a e s. Ret (0, s)) (\<lambda>h g p s. Ret s) 0x1000
     (zero_registers\<lparr>isr_number := 0xe, cs := 0x43\<rparr>) \<lparr>gs_swapped = False, eoi_writes = 0, system = ()\<rparr> =
   Ret \<lparr>gs_swapped = False, eoi_writes = 1, system = ()\<rparr> \<and> (1::nat) = Suc 0"
proof -
  have "isr_handler_main demo_interrupts (\<lambda>a e s. Ret (0, s)) (\<lambda>h g p s. Ret s) 0x1000
     (zero_registers\<lparr>isr_number := 0xe, cs := 0x43\<rparr>) \<lparr>gs_swapped = False, eoi_writes = 0, system = ()\<rparr> =
   Ret \<lparr>gs_swapped = False, eoi_writes = 1, system = ()\<rparr>"
    by (simp add: isr_handler_main_def isr_done_def swapgs_def Let_def zero_registers_def)
  from isr_handler_balanced [OF this] this show ?thesis by simp
qed

lemma gdt_init_runs:
  assumes "fayt_laws F" "pmm_inv F s"
  shows "\<exists>g' t' s'. gdt_init F s g t tss_addr = Ret (g', t', s') \<and> pmm_inv F s'"
proof -
  have al: "\<exists>a s'. pmm_alloc F s 4 1 = Ret (a, s') \<and> pmm_inv F s'" if "pmm_inv F s" for s
    using pmm_alloc_correct [OF assms(1) that, of 4 0] by (auto simp: alloc_post_def)
  obtain a s1 where 1: "pmm_alloc F s 4 1 = Ret (a, s1)" "pmm_inv F s1" using al [OF assms(2)] by blast
  obtain b s2 where 2: "pmm_alloc F s1 4 1 = Ret (b, s2)" "pmm_inv F s2" using al [OF 1(2)] by blast
  obtain c s3 where 3: "pmm_alloc F s2 4 1 = Ret (c, s3)" "pmm_inv F s3" using al [OF 2(2)] by blast
  show ?thesis using 1 2 3 by (simp add: gdt_init_def Let_def)
qed

text \<open>\<^verbatim>\<open>gdt_init\<close>: the TSS descriptor decodes to the address of the TSS, the selectors used elsewhere
  (0x28 and 0x40 plus privilege 3) name a kernel and a user 64-bit code segment, and the allocator's
  invariant is kept while the three ring stacks are allocated.\<close>

theorem gdt_init_descriptors:
  assumes "fayt_laws F" "pmm_inv F s"
  shows "\<exists>g' t' s'. gdt_init F s g t tss_addr = Ret (g', t', s') \<and> pmm_inv F s' \<and>
    tss_base (tss_desc g') = tss_addr \<and> tss_length (tss_desc g') = 104 \<and>
    seg_access (kernel_code64 g') = 0x98 \<and> seg_access (user_code64 g') = 0xfa \<and>
    seg_granularity (kernel_code64 g') = 0x20 \<and> seg_granularity (user_code64 g') = 0x20"
proof -
  obtain g' t' s' where r: "gdt_init F s g t tss_addr = Ret (g', t', s')" "pmm_inv F s'" using gdt_init_runs [OF assms] by blast
  have "tss_length (encode_tss tss_addr d) = 104" for d by (simp add: encode_tss_def)
  then show ?thesis using r by (auto simp: gdt_init_def Let_def tss_base_encode)
qed

theorem gdt_init_descriptors_witness:
  "\<forall>g. \<exists>g' t' s'. gdt_init fayt_ref (demo 64) g \<lparr>rsp0 = 0, rsp1 = 0, rsp2 = 0\<rparr> 0xffff800012345678 = Ret (g', t', s') \<and>
     tss_base (tss_desc g') = 0xffff800012345678"
  using gdt_init_descriptors [OF fayt_laws_ref demo_inv [of 64]] by fastforce

end
