(* ===== verification/Bytes.thy ===== *)
theory Bytes
  imports Prelude
begin

unbundle bit_operations_syntax

text \<open>
  Bytes in memory and in files: little-endian decoding of the packed structures of the ELF format and
  of the ACPI tables, the encoder the round trips are stated with, and byte-addressed memory in which
  an address may be unreadable.
\<close>

section \<open>Little-endian fields\<close>

primrec le :: "u8 list \<Rightarrow> nat" where
  "le [] = 0"
| "le (b # bs) = unat b + 256 * le bs"

definition field :: "nat \<Rightarrow> nat \<Rightarrow> u8 list \<Rightarrow> 'a::len word" where
  "field off n bs = of_nat (le (take n (drop off bs)))"

primrec enc :: "nat \<Rightarrow> nat \<Rightarrow> u8 list" where
  "enc 0 k = []"
| "enc (Suc n) k = of_nat k # enc n (k div 256)"

lemma byte_bound: "unat (b :: u8) < 256"
  using unsigned_less [of b, where ?'a = nat] by simp

lemma length_enc [simp]: "length (enc n k) = n"
  by (induction n arbitrary: k) simp_all

lemma le_bound: "le bs < 256 ^ length bs"
proof (induction bs)
  case (Cons b bs)
  then show ?case using byte_bound [of b] by simp
qed simp

lemma le_nth: "k < length bs \<Longrightarrow> le bs div 256 ^ k mod 256 = unat (bs ! k)"
proof (induction bs arbitrary: k)
  case (Cons b bs)
  show ?case
  proof (cases k)
    case (Suc j)
    have "le (b # bs) div 256 ^ k = le (b # bs) div 256 div 256 ^ j" by (simp add: Suc div_mult2_eq)
    also have "\<dots> = le bs div 256 ^ j" using byte_bound [of b] by simp
    finally show ?thesis using Cons Suc by simp
  qed (use byte_bound [of b] in simp)
qed simp

lemma le_enc: "le (enc n k) = k mod 256 ^ n"
proof (induction n arbitrary: k)
  case (Suc n)
  have "unat (of_nat k :: u8) = k mod 256" by (simp add: unsigned_of_nat take_bit_eq_mod)
  then show ?case using Suc by (simp add: mod_mult2_eq)
qed simp

lemma field_enc: "field 0 n (enc n (unat x) @ bs) = x" if "LENGTH('a) = 8 * n" for x :: "'a::len word"
proof -
  have "unat x < 2 ^ (8 * n)" using unsigned_less [of x, where ?'a = nat] that by simp
  then have "unat x mod 256 ^ n = unat x" by (simp add: power_mult)
  then show ?thesis by (simp add: field_def le_enc)
qed

lemma field_drop: "field off n bs = field 0 n (drop off bs)"
  by (simp add: field_def)

section \<open>Byte memory\<close>

text \<open>Reading an address that is not mapped faults.\<close>

type_synonym byte_mem = "u64 \<Rightarrow> u8 option"

definition rd :: "byte_mem \<Rightarrow> u64 \<Rightarrow> nat \<Rightarrow> u8 list outcome" where
  "rd mem a n =
     (if list_all (\<lambda>k. mem (a + of_nat k) \<noteq> None) [0..<n] then Ret (map (\<lambda>k. the (mem (a + of_nat k))) [0..<n])
      else Fault OutOfBounds)"

definition holds :: "byte_mem \<Rightarrow> u64 \<Rightarrow> u8 list \<Rightarrow> bool" where
  "holds mem a bs \<longleftrightarrow> (\<forall>k < length bs. mem (a + of_nat k) = Some (bs ! k))"

lemma rd_holds:
  assumes "holds mem a bs" "off + n \<le> length bs"
  shows "rd mem (a + of_nat off) n = Ret (take n (drop off bs))"
proof -
  have k: "mem (a + of_nat off + of_nat k) = Some (bs ! (off + k))" if "k < n" for k
    using assms that unfolding holds_def by (metis add.assoc add_less_cancel_left less_le_trans of_nat_add)
  have "map (\<lambda>k. the (mem (a + of_nat off + of_nat k))) [0..<n] = take n (drop off bs)"
    using assms(2) by (intro nth_equalityI) (simp_all add: k)
  then show ?thesis using k by (simp add: rd_def list_all_iff)
qed

lemma rd_unmapped: "mem a = None \<Longrightarrow> 0 < n \<Longrightarrow> rd mem a n = Fault OutOfBounds"
  by (auto simp: rd_def list_all_iff intro!: bexI [of _ 0])

lemma holds_append: "holds mem a (xs @ ys) \<longleftrightarrow> holds mem a xs \<and> holds mem (a + of_nat (length xs)) ys"
proof
  assume h: "holds mem a (xs @ ys)"
  have "mem (a + of_nat (length xs) + of_nat k) = Some (ys ! k)" if "k < length ys" for k
    using h that unfolding holds_def by (metis add.assoc length_append nat_add_left_cancel_less nth_append_length_plus of_nat_add)
  moreover have "mem (a + of_nat k) = Some (xs ! k)" if "k < length xs" for k
    using h that by (auto simp: holds_def nth_append dest!: spec [of _ k])
  ultimately show "holds mem a xs \<and> holds mem (a + of_nat (length xs)) ys" by (simp add: holds_def)
next
  assume h: "holds mem a xs \<and> holds mem (a + of_nat (length xs)) ys"
  have "mem (a + of_nat k) = Some ((xs @ ys) ! k)" if "k < length (xs @ ys)" for k
  proof (cases "k < length xs")
    case False
    then have "k - length xs < length ys" using that by simp
    then have "mem (a + of_nat (length xs) + of_nat (k - length xs)) = Some (ys ! (k - length xs))"
      using h by (simp add: holds_def)
    moreover have "a + of_nat (length xs) + of_nat (k - length xs) = a + of_nat k"
      using False by (simp add: of_nat_diff)
    ultimately show ?thesis using False by (simp add: nth_append)
  qed (use h in \<open>simp add: holds_def nth_append\<close>)
  then show "holds mem a (xs @ ys)" by (simp add: holds_def)
qed

text \<open>Memory that holds one list of bytes.\<close>

definition image_at :: "u64 \<Rightarrow> u8 list \<Rightarrow> byte_mem" where
  "image_at a bs x = (if unat (x - a) < length bs then Some (bs ! unat (x - a)) else None)"

lemma holds_image: "length bs \<le> 2 ^ 64 \<Longrightarrow> holds (image_at a bs) a bs"
  by (simp add: holds_def image_at_def)

end
