(* ===== verification/Acpi.thy ===== *)
theory Acpi
  imports Bytes
begin

unbundle bit_operations_syntax

text \<open>
  The ACPI tables: the search for a table by its signature (\<^verbatim>\<open>kernel/acpi/rsdp.c\<close>) and the structures
  of \<^verbatim>\<open>rsdp.h\<close> and \<^verbatim>\<open>madt.h\<close>. The tables are firmware data in byte memory, read through the direct map
  at \<open>vma\<close> (\<^verbatim>\<open>HIGH_VMA\<close>). A C string is the list of its characters without the terminator.
\<close>

section \<open>Headers\<close>

record acpi_hdr =
  signature :: "u8 list"
  acpi_length :: u32
  revision :: u8
  checksum :: u8
  OEMID :: "u8 list"
  OEM_table_id :: "u8 list"
  OEM_revision :: u32
  creator_ID :: u32
  creator_revision :: u32

definition parse_acpi_hdr :: "u8 list \<Rightarrow> acpi_hdr" where
  "parse_acpi_hdr bs = \<lparr>signature = take 4 bs, acpi_length = field 4 4 bs, revision = field 8 1 bs, checksum = field 9 1 bs,
     OEMID = take 6 (drop 10 bs), OEM_table_id = take 8 (drop 16 bs), OEM_revision = field 24 4 bs, creator_ID = field 28 4 bs,
     creator_revision = field 32 4 bs\<rparr>"

text \<open>The root tables found at boot; \<^verbatim>\<open>NULL\<close> when absent.\<close>

record acpi_roots =
  xsdt :: ptr
  rsdt :: ptr

section \<open>The search\<close>

fun strncmp_eq :: "nat \<Rightarrow> u8 list \<Rightarrow> u8 list \<Rightarrow> bool" where
  "strncmp_eq 0 xs ys = True"
| "strncmp_eq (Suc n) [] [] = True"
| "strncmp_eq (Suc n) [] (y # ys) = (y = 0)"
| "strncmp_eq (Suc n) (x # xs) [] = (x = 0)"
| "strncmp_eq (Suc n) (x # xs) (y # ys) = (x = y \<and> (x = 0 \<or> strncmp_eq n xs ys))"

text \<open>
  The loop over the pointers of a root table, \<open>w\<close> bytes each. Its bound is the number of bytes of the
  pointer array, in 64 bits.
\<close>

fun scan_sdt :: "byte_mem \<Rightarrow> u64 \<Rightarrow> nat \<Rightarrow> ptr \<Rightarrow> u8 list \<Rightarrow> nat \<Rightarrow> nat \<Rightarrow> ptr option outcome" where
  "scan_sdt mem vma w table name i 0 = Ret None"
| "scan_sdt mem vma w table name i (Suc n) =
     obind (rd mem (table + 36 + of_nat (w * i)) w) (\<lambda>p.
     let acpi_hdr = of_nat (le p) + vma in
     obind (rd mem acpi_hdr 4) (\<lambda>s.
     if strncmp_eq 4 s name then Ret (Some acpi_hdr) else scan_sdt mem vma w table name (Suc i) n))"

definition root_search :: "byte_mem \<Rightarrow> u64 \<Rightarrow> nat \<Rightarrow> ptr \<Rightarrow> u8 list \<Rightarrow> ptr option outcome" where
  "root_search mem vma w table name =
     (if table = NULL then Ret None
      else obind (rd mem table 36) (\<lambda>h.
        scan_sdt mem vma w table name 0 (unat (ucast (acpi_length (parse_acpi_hdr h)) - 36 :: u64))))"

definition acpi_find_sdt :: "byte_mem \<Rightarrow> u64 \<Rightarrow> acpi_roots \<Rightarrow> u8 list \<Rightarrow> ptr outcome" where
  "acpi_find_sdt mem vma R name =
     obind (root_search mem vma 8 (xsdt R) name) (\<lambda>r. case r of Some h \<Rightarrow> Ret h | None \<Rightarrow>
     obind (root_search mem vma 4 (rsdt R) name) (\<lambda>r. case r of Some h \<Rightarrow> Ret h | None \<Rightarrow> Ret NULL))"

section \<open>The multiple APIC description table\<close>

record madt_ent0 =
  acpi_id0 :: u8
  apic_id0 :: u8
  flags0 :: u32

record madt_ent1 =
  ioapic_id1 :: u8
  ioapic_addr :: u32
  gsi_base :: u32

record madt_ent2 =
  bus_src :: u8
  irq_src :: u8
  gsi :: u32
  flags2 :: u16

record madt_ent4 =
  acpi_id4 :: u8
  flags4 :: u16
  lint :: u8

record madt_ent5 =
  lapic_override :: u8

definition parse_ent0 :: "u8 list \<Rightarrow> madt_ent0" where
  "parse_ent0 bs = \<lparr>acpi_id0 = field 0 1 bs, apic_id0 = field 1 1 bs, flags0 = field 2 4 bs\<rparr>"

definition parse_ent1 :: "u8 list \<Rightarrow> madt_ent1" where
  "parse_ent1 bs = \<lparr>ioapic_id1 = field 0 1 bs, ioapic_addr = field 2 4 bs, gsi_base = field 6 4 bs\<rparr>"

definition parse_ent2 :: "u8 list \<Rightarrow> madt_ent2" where
  "parse_ent2 bs = \<lparr>bus_src = field 0 1 bs, irq_src = field 1 1 bs, gsi = field 2 4 bs, flags2 = field 6 2 bs\<rparr>"

definition parse_ent4 :: "u8 list \<Rightarrow> madt_ent4" where
  "parse_ent4 bs = \<lparr>acpi_id4 = field 0 1 bs, flags4 = field 1 2 bs, lint = field 3 1 bs\<rparr>"

definition parse_ent5 :: "u8 list \<Rightarrow> madt_ent5" where
  "parse_ent5 bs = \<lparr>lapic_override = field 2 1 bs\<rparr>"


section \<open>What the search finds\<close>

lemma strncmp_eq_iff: "length xs = n \<Longrightarrow> length ys = n \<Longrightarrow> 0 \<notin> set xs \<Longrightarrow> strncmp_eq n xs ys \<longleftrightarrow> xs = ys"
  by (induction n xs ys rule: strncmp_eq.induct) auto

text \<open>
  A root table of \<open>w\<close>-byte pointers \<open>ps\<close>, stored with its header, whose entries all point to readable
  tables with the signatures \<open>ss\<close>.
\<close>

definition root_image :: "u8 list \<Rightarrow> nat \<Rightarrow> u64 list \<Rightarrow> u8 list" where
  "root_image h w ps = h @ concat (map (\<lambda>p. enc w (unat p)) ps)"

definition root_at :: "byte_mem \<Rightarrow> u64 \<Rightarrow> nat \<Rightarrow> ptr \<Rightarrow> u64 list \<Rightarrow> u8 list list \<Rightarrow> bool" where
  "root_at mem vma w table ps ss \<longleftrightarrow> table \<noteq> NULL \<and> length ss = length ps \<and>
     (\<exists>h. holds mem table (root_image h w ps) \<and> length h = 36 \<and>
        unat (acpi_length (parse_acpi_hdr h)) = 36 + w * length ps) \<and>
     (\<forall>i < length ps. unat (ps ! i) < 256 ^ w \<and> length (ss ! i) = 4 \<and> holds mem (ps ! i + vma) (ss ! i))"

lemma length_concat_enc: "length (concat (map (\<lambda>p. enc w (f p)) ps)) = w * length ps"
  by (induction ps) simp_all

lemma concat_enc_nth: "i < length ps \<Longrightarrow> take w (drop (w * i) (concat (map (\<lambda>p. enc w (f p)) ps))) = enc w (f (ps ! i))"
proof (induction ps arbitrary: i)
  case (Cons p ps)
  then show ?case by (cases i) simp_all
qed simp

lemma root_entry:
  assumes "root_at mem vma w table ps ss" "i < length ps"
  shows "rd mem (table + 36 + of_nat (w * i)) w = Ret (enc w (unat (ps ! i)))"
    "of_nat (le (enc w (unat (ps ! i)))) = ps ! i" "rd mem (ps ! i + vma) 4 = Ret (ss ! i)"
proof -
  obtain h where h: "holds mem table (root_image h w ps)" "length h = 36" using assms(1) by (auto simp: root_at_def)
  have s: "length (ss ! i) = 4" "holds mem (ps ! i + vma) (ss ! i)" "unat (ps ! i) < 256 ^ w"
    using assms by (simp_all add: root_at_def)
  have "w * i + w \<le> w * length ps" using assms(2) by (metis Suc_leI mult_Suc_right add.commute mult_le_mono2)
  then have "rd mem (table + of_nat (36 + w * i)) w = Ret (take w (drop (36 + w * i) (root_image h w ps)))"
    by (intro rd_holds [OF h(1)]) (simp add: root_image_def h(2) length_concat_enc)
  then show "rd mem (table + 36 + of_nat (w * i)) w = Ret (enc w (unat (ps ! i)))"
    using assms(2) by (simp add: root_image_def h(2) concat_enc_nth add.assoc)
  show "of_nat (le (enc w (unat (ps ! i)))) = ps ! i" using s(3) by (simp add: le_enc)
  show "rd mem (ps ! i + vma) 4 = Ret (ss ! i)" using rd_holds [OF s(2), of 0 4] s(1) by simp
qed

lemma scan_sdt_step:
  assumes "root_at mem vma w table ps ss" "i < length ps"
  shows "scan_sdt mem vma w table name i (Suc n) =
    (if strncmp_eq 4 (ss ! i) name then Ret (Some (ps ! i + vma)) else scan_sdt mem vma w table name (Suc i) n)"
  using root_entry [OF assms] by (simp del: of_nat_mult)

lemma scan_sdt_skip:
  assumes "root_at mem vma w table ps ss" "i + k \<le> length ps" "\<forall>j < k. \<not> strncmp_eq 4 (ss ! (i + j)) name"
  shows "scan_sdt mem vma w table name i (k + n) = scan_sdt mem vma w table name (i + k) n"
  using assms(2,3)
proof (induction k arbitrary: i)
  case (Suc k)
  have "scan_sdt mem vma w table name i (Suc (k + n)) = scan_sdt mem vma w table name (Suc i) (k + n)"
    using scan_sdt_step [OF assms(1), of i name "k + n"] Suc.prems by auto
  also have "\<dots> = scan_sdt mem vma w table name (Suc i + k) n"
    using Suc.prems by (intro Suc.IH) auto
  finally show ?case by simp
qed simp

lemma root_search_bound:
  assumes "root_at mem vma w table ps ss"
  shows "root_search mem vma w table name = scan_sdt mem vma w table name 0 (w * length ps)"
proof -
  obtain h where h: "holds mem table (root_image h w ps)" "length h = 36"
    "unat (acpi_length (parse_acpi_hdr h)) = 36 + w * length ps" using assms by (auto simp: root_at_def)
  have "rd mem table 36 = Ret h" using rd_holds [OF h(1), of 0 36] h(2) by (simp add: root_image_def)
  moreover have "unat (ucast (acpi_length (parse_acpi_hdr h)) :: u64) = 36 + w * length ps"
    using h(3) unsigned_less [of "acpi_length (parse_acpi_hdr h)", where ?'a = nat]
    by (simp add: unsigned_ucast_eq take_bit_nat_eq_self)
  ultimately show ?thesis using assms by (simp add: root_search_def root_at_def unat_sub_exact)
qed


section \<open>Properties\<close>

text \<open>
  \<^verbatim>\<open>acpi_find_sdt\<close> returns the direct-map address of the first table of the XSDT that carries the
  signature.
\<close>

theorem acpi_find_sdt_first:
  assumes "root_at mem vma 8 (xsdt R) ps ss" "k < length ps" "strncmp_eq 4 (ss ! k) name"
    and "\<forall>j < k. \<not> strncmp_eq 4 (ss ! j) name"
  shows "acpi_find_sdt mem vma R name = Ret (ps ! k + vma)"
proof -
  obtain n where n: "8 * length ps = k + Suc n" using assms(2) less_imp_Suc_add [of k "8 * length ps"] by auto
  have "root_search mem vma 8 (xsdt R) name = scan_sdt mem vma 8 (xsdt R) name (0 + k) (Suc n)"
    unfolding root_search_bound [OF assms(1)] n using assms by (intro scan_sdt_skip) auto
  also have "\<dots> = Ret (Some (ps ! k + vma))" using scan_sdt_step [OF assms(1,2)] assms(3) by simp
  finally show ?thesis by (simp add: acpi_find_sdt_def)
qed

definition demo_sdt :: "u8 list" where
  "demo_sdt = enc 4 0x54445358 @ enc 4 52 @ replicate 28 0"

text \<open>Two tables, \<^verbatim>\<open>APIC\<close> and \<^verbatim>\<open>HPET\<close>, cut down to their signatures, and an XSDT that names them.\<close>

definition demo_acpi :: byte_mem where
  "demo_acpi = image_at 0x1000 ([0x41, 0x50, 0x49, 0x43] @ ([0x48, 0x50, 0x45, 0x54] @ root_image demo_sdt 8 [0x1000, 0x1004]))"

lemma demo_root: "root_at demo_acpi 0 8 0x1008 [0x1000, 0x1004] [[0x41, 0x50, 0x49, 0x43], [0x48, 0x50, 0x45, 0x54]]"
proof -
  have "holds demo_acpi 0x1000 ([0x41, 0x50, 0x49, 0x43] @ ([0x48, 0x50, 0x45, 0x54] @ root_image demo_sdt 8 [0x1000, 0x1004]))"
    unfolding demo_acpi_def by (rule holds_image) (simp add: root_image_def demo_sdt_def)
  then have h: "holds demo_acpi 0x1000 [0x41, 0x50, 0x49, 0x43]" "holds demo_acpi 0x1004 [0x48, 0x50, 0x45, 0x54]"
    "holds demo_acpi 0x1008 (root_image demo_sdt 8 [0x1000, 0x1004])"
    unfolding holds_append by simp_all
  have l: "length demo_sdt = 36" by (simp add: demo_sdt_def)
  have "unat (acpi_length (parse_acpi_hdr demo_sdt)) = 52" by (simp add: parse_acpi_hdr_def demo_sdt_def field_def le_enc)
  then show ?thesis using h l by (auto simp: root_at_def less_Suc_eq intro!: exI [of _ demo_sdt])
qed

lemma demo_names:
  "strncmp_eq 4 [0x48, 0x50, 0x45, 0x54] [0x48, 0x50, 0x45, 0x54]" "\<not> strncmp_eq 4 [0x41, 0x50, 0x49, 0x43] [0x48, 0x50, 0x45, 0x54]"
  "\<not> strncmp_eq 4 [0x48, 0x50, 0x45, 0x54] [0x46, 0x41, 0x43, 0x50]" "\<not> strncmp_eq 4 [0x41, 0x50, 0x49, 0x43] [0x46, 0x41, 0x43, 0x50]"
  by (simp_all add: strncmp_eq_iff)

theorem acpi_find_sdt_first_witness:
  "acpi_find_sdt demo_acpi 0 \<lparr>xsdt = 0x1008, rsdt = NULL\<rparr> [0x48, 0x50, 0x45, 0x54] = Ret 0x1004"
  using acpi_find_sdt_first [of demo_acpi 0 "\<lparr>xsdt = 0x1008, rsdt = NULL\<rparr>", simplified, OF demo_root, of 1 "[0x48, 0x50, 0x45, 0x54]"]
  by (simp add: demo_names)

text \<open>
  When no table of the XSDT carries the signature, the loop does not stop at the end of the pointer
  array, since its bound counts bytes: it reads the next pointer from beyond the table, which faults
  when that memory is not mapped.
\<close>

theorem acpi_find_sdt_overruns:
  assumes "root_at mem vma 8 (xsdt R) ps ss" "ps \<noteq> []" "\<forall>s \<in> set ss. \<not> strncmp_eq 4 s name"
    and "mem (xsdt R + 36 + of_nat (8 * length ps)) = None"
  shows "acpi_find_sdt mem vma R name = Fault OutOfBounds"
proof -
  obtain n where n: "8 * length ps = length ps + Suc n"
    using assms(2) less_imp_Suc_add [of "length ps" "8 * length ps"] by (cases ps) auto
  have ss: "length ss = length ps" using assms(1) by (simp add: root_at_def)
  have "root_search mem vma 8 (xsdt R) name = scan_sdt mem vma 8 (xsdt R) name (0 + length ps) (Suc n)"
    unfolding root_search_bound [OF assms(1)] n using assms ss by (intro scan_sdt_skip) auto
  also have "\<dots> = Fault OutOfBounds" using rd_unmapped [of mem "xsdt R + 36 + of_nat (8 * length ps)" 8] assms(4) by (simp del: of_nat_mult)
  finally show ?thesis by (simp add: acpi_find_sdt_def)
qed

theorem acpi_find_sdt_overruns_witness:
  "acpi_find_sdt demo_acpi 0 \<lparr>xsdt = 0x1008, rsdt = NULL\<rparr> [0x46, 0x41, 0x43, 0x50] = Fault OutOfBounds"
proof -
  have "demo_acpi 0x103c = None" by (simp add: demo_acpi_def image_at_def root_image_def demo_sdt_def)
  then show ?thesis
    using acpi_find_sdt_overruns [of demo_acpi 0 "\<lparr>xsdt = 0x1008, rsdt = NULL\<rparr>", simplified, OF demo_root, of "[0x46, 0x41, 0x43, 0x50]"]
    by (simp add: demo_names)
qed

end
