(* ===== verification/Devices.thy ===== *)
theory Devices
  imports Acpi
begin

unbundle bit_operations_syntax

text \<open>
  The bus the drivers talk to, and the high precision event timer (\<^verbatim>\<open>kernel/arch/x86/hpet.c\<close>). The
  hardware is a parameter: \<open>bus\<close> has one field per kind of access, \<open>'d\<close> is the state of the devices
  and \<open>pause\<close> is what happens to it during one turn of a waiting loop.
\<close>

record 'd bus =
  mmio_write32 :: "u64 \<Rightarrow> u32 \<Rightarrow> 'd \<Rightarrow> 'd"
  mmio_read32 :: "u64 \<Rightarrow> 'd \<Rightarrow> u32"
  mmio_write64 :: "u64 \<Rightarrow> u64 \<Rightarrow> 'd \<Rightarrow> 'd"
  mmio_read64 :: "u64 \<Rightarrow> 'd \<Rightarrow> u64"
  outb :: "u16 \<Rightarrow> u8 \<Rightarrow> 'd \<Rightarrow> 'd"
  inb :: "u16 \<Rightarrow> 'd \<Rightarrow> u8"
  msr_read :: "u32 \<Rightarrow> 'd \<Rightarrow> u32 \<times> u32"
  msr_write :: "u32 \<Rightarrow> u32 \<times> u32 \<Rightarrow> 'd \<Rightarrow> 'd"
  cr_read :: "nat \<Rightarrow> 'd \<Rightarrow> u64"
  cr_write :: "nat \<Rightarrow> u64 \<Rightarrow> 'd \<Rightarrow> 'd"
  pause :: "'d \<Rightarrow> 'd"

text \<open>The instructions \<^verbatim>\<open>rdmsr\<close> and \<^verbatim>\<open>wrmsr\<close> have the value in two halves, \<^verbatim>\<open>eax\<close> and \<^verbatim>\<open>edx\<close>.\<close>

definition rdmsr :: "'d bus \<Rightarrow> u32 \<Rightarrow> 'd \<Rightarrow> u64" where
  "rdmsr B msr d = (let (eax, edx) = msr_read B msr d in push_bit 32 (ucast edx) OR ucast eax)"

definition wrmsr :: "'d bus \<Rightarrow> u32 \<Rightarrow> u64 \<Rightarrow> 'd \<Rightarrow> 'd" where
  "wrmsr B msr data d = msr_write B msr (ucast data, ucast (drop_bit 32 data)) d"

section \<open>The HPET\<close>

record hpet_table =
  hpet_hdr :: acpi_hdr
  hardware_rev_id :: u8
  hpet_info :: u8
  pci_id :: u16
  address_space_id :: u8
  register_width :: u8
  register_offset :: u8
  hpet_address :: u64
  hpet_num :: u8
  minim_ticks :: u16
  page_protection :: u8

definition parse_hpet_table :: "u8 list \<Rightarrow> hpet_table" where
  "parse_hpet_table bs = \<lparr>hpet_hdr = parse_acpi_hdr bs, hardware_rev_id = field 36 1 bs, hpet_info = field 37 1 bs,
     pci_id = field 38 2 bs, address_space_id = field 40 1 bs, register_width = field 41 1 bs, register_offset = field 42 1 bs,
     hpet_address = field 44 8 bs, hpet_num = field 52 1 bs, minim_ticks = field 53 2 bs, page_protection = field 55 1 bs\<rparr>"

text \<open>The registers of \<^verbatim>\<open>struct hpet_regs\<close> by their offsets.\<close>

definition capabilities :: "'d bus \<Rightarrow> ptr \<Rightarrow> 'd \<Rightarrow> u64" where
  "capabilities B regs d = mmio_read64 B regs d"

definition set_general_config :: "'d bus \<Rightarrow> ptr \<Rightarrow> u64 \<Rightarrow> 'd \<Rightarrow> 'd" where
  "set_general_config B regs x d = mmio_write64 B (regs + 0x10) x d"

definition counter_value :: "'d bus \<Rightarrow> ptr \<Rightarrow> 'd \<Rightarrow> u64" where
  "counter_value B regs d = mmio_read64 B (regs + 0xf0) d"

definition set_counter_value :: "'d bus \<Rightarrow> ptr \<Rightarrow> u64 \<Rightarrow> 'd \<Rightarrow> 'd" where
  "set_counter_value B regs x d = mmio_write64 B (regs + 0xf0) x d"

partial_function (option) hpet_wait :: "'d bus \<Rightarrow> ptr \<Rightarrow> u64 \<Rightarrow> 'd \<Rightarrow> 'd option" where
  "hpet_wait B regs ticks d =
     (if counter_value B regs d < ticks then hpet_wait B regs ticks (pause B d) else Some d)"

text \<open>The three sleep routines differ in the number of femtoseconds in a unit.\<close>

definition hpet_sleep :: "u64 \<Rightarrow> 'd bus \<Rightarrow> ptr \<Rightarrow> u64 \<Rightarrow> 'd \<Rightarrow> 'd outcome" where
  "hpet_sleep unit B regs n d =
     (let period = ucast (drop_bit 32 (capabilities B regs d)) :: u32 in
      if period = 0 then Fault DivideByZero
      else let ticks = counter_value B regs d + n * (unit div ucast period) in
        of_opt (hpet_wait B regs ticks d))"

definition hpet_msleep :: "'d bus \<Rightarrow> ptr \<Rightarrow> u64 \<Rightarrow> 'd \<Rightarrow> 'd outcome" where
  "hpet_msleep = hpet_sleep 1000000000000"

definition hpet_usleep :: "'d bus \<Rightarrow> ptr \<Rightarrow> u64 \<Rightarrow> 'd \<Rightarrow> 'd outcome" where
  "hpet_usleep = hpet_sleep 1000000000"

definition hpet_nsleep :: "'d bus \<Rightarrow> ptr \<Rightarrow> u64 \<Rightarrow> 'd \<Rightarrow> 'd outcome" where
  "hpet_nsleep = hpet_sleep 1000000"

definition hpet_init :: "'d bus \<Rightarrow> byte_mem \<Rightarrow> u64 \<Rightarrow> acpi_roots \<Rightarrow> 'd \<Rightarrow> (ptr \<times> 'd) outcome" where
  "hpet_init B mem vma R d =
     obind (acpi_find_sdt mem vma R [0x48, 0x50, 0x45, 0x54]) (\<lambda>t.
     if t = NULL then Fault NullDeref
     else obind (rd mem t 56) (\<lambda>bs.
       let regs = hpet_address (parse_hpet_table bs) + vma in
       Ret (regs, set_general_config B regs 1 (set_counter_value B regs 0 d))))"

section \<open>Waiting\<close>

text \<open>A counter that runs: every turn of a waiting loop sees it advance, up to its last value.\<close>

definition counter_runs :: "'d bus \<Rightarrow> ptr \<Rightarrow> bool" where
  "counter_runs B regs \<longleftrightarrow>
     (\<forall>d. counter_value B regs d \<noteq> - 1 \<longrightarrow> counter_value B regs d < counter_value B regs (pause B d))"

lemma hpet_wait_ends:
  assumes "counter_runs B regs"
  shows "\<exists>d'. hpet_wait B regs ticks d = Some d' \<and> ticks \<le> counter_value B regs d'"
proof (induction "unat ticks - unat (counter_value B regs d)" arbitrary: d rule: less_induct)
  case less
  show ?case
  proof (cases "counter_value B regs d < ticks")
    case True
    then have "counter_value B regs d \<noteq> - 1" by auto
    then have "counter_value B regs d < counter_value B regs (pause B d)" using assms by (simp add: counter_runs_def)
    then have "unat ticks - unat (counter_value B regs (pause B d)) < unat ticks - unat (counter_value B regs d)"
      using True by (simp add: word_less_nat_alt)
    from less [OF this] show ?thesis using True by (subst hpet_wait.simps) simp
  next
    case False
    then show ?thesis by (intro exI [of _ d] conjI, subst hpet_wait.simps) simp_all
  qed
qed

lemma period_exact:
  fixes c u :: u64
  defines "q \<equiv> ucast (drop_bit 32 c) :: u32"
  shows "unat q = unat (drop_bit 32 c)" "unat (u div ucast q) = unat u div unat (drop_bit 32 c)"
proof -
  have "unat (drop_bit 32 c) = unat c div 2 ^ 32" by (simp only: unat_drop_bit_eq) (simp add: drop_bit_eq_div)
  then have b: "unat (drop_bit 32 c) < 2 ^ 32" using u64_unat_bound [of c] by (simp add: div_less_iff_less_mult)
  then show q: "unat q = unat (drop_bit 32 c)" unfolding q_def by (simp add: unsigned_ucast_eq take_bit_nat_eq_self)
  have "unat (ucast q :: u64) = unat q"
    using b q by (simp only: unsigned_ucast_eq) (simp add: take_bit_nat_eq_self)
  then show "unat (u div ucast q) = unat u div unat (drop_bit 32 c)" using q by (simp add: unat_div)
qed

section \<open>Properties\<close>

text \<open>
  C35. \<^verbatim>\<open>hpet_msleep\<close> returns, and not before the counter has advanced by the number of ticks that fit
  into the time asked for, as long as that does not carry the counter past 64 bits; a period of zero
  is a division by zero.
\<close>

theorem hpet_msleep_waits:
  assumes "counter_runs B regs" "unat (drop_bit 32 (capabilities B regs d)) = p"
    and "unat (counter_value B regs d) + unat ms * (1000000000000 div p) < 2 ^ 64"
  shows "if p = 0 then hpet_msleep B regs ms d = Fault DivideByZero
    else \<exists>d'. hpet_msleep B regs ms d = Ret d' \<and>
      unat (counter_value B regs d) + unat ms * (1000000000000 div p) \<le> unat (counter_value B regs d')"
proof -
  define q where "q = (ucast (drop_bit 32 (capabilities B regs d)) :: u32)"
  note q = period_exact(1) [of "capabilities B regs d", folded q_def, unfolded assms(2)]
    period_exact(2) [of 1000000000000 "capabilities B regs d", folded q_def, unfolded assms(2)]
  have z: "q = 0 \<longleftrightarrow> p = 0" using q(1) by (auto simp: unat_eq_zero)
  show ?thesis
  proof (cases "p = 0")
    case False
    have t: "unat (counter_value B regs d + ms * (1000000000000 div ucast q)) =
        unat (counter_value B regs d) + unat ms * (1000000000000 div p)"
      using assms(3) q(2) by (subst unat_add_exact; subst unat_mult_exact) simp_all
    then show ?thesis
      using hpet_wait_ends [OF assms(1), of "counter_value B regs d + ms * (1000000000000 div ucast q)" d] False z
      by (auto simp: hpet_msleep_def hpet_sleep_def q_def [symmetric] Let_def word_le_nat_alt)
  qed (use z in \<open>simp add: hpet_msleep_def hpet_sleep_def q_def [symmetric] Let_def\<close>)
qed

text \<open>A timer of 10 MHz whose counter advances by one a turn.\<close>

definition demo_timer :: "u64 bus" where
  "demo_timer = \<lparr>mmio_write32 = (\<lambda>_ _ d. d), mmio_read32 = (\<lambda>_ _. 0), mmio_write64 = (\<lambda>_ _ d. d),
     mmio_read64 = (\<lambda>a d. if a = 0xf0 then d else 0x5f5e10000000000), outb = (\<lambda>_ _ d. d), inb = (\<lambda>_ _. 0),
     msr_read = (\<lambda>_ _. (0, 0)), msr_write = (\<lambda>_ _ d. d), cr_read = (\<lambda>_ _. 0), cr_write = (\<lambda>_ _ d. d),
     pause = (\<lambda>d. if d = - 1 then d else d + 1)\<rparr>"

lemma demo_timer_runs: "counter_runs demo_timer 0"
proof -
  have "d < d + 1" if "d \<noteq> - 1" for d :: u64
    using that unat_plus_one_less [of d "- 1"] by (simp add: word_less_nat_alt word_order.not_eq_extremum)
  then show ?thesis by (simp add: counter_runs_def counter_value_def demo_timer_def)
qed

theorem hpet_msleep_waits_witness:
  "\<exists>d'. hpet_msleep demo_timer 0 20 5 = Ret d' \<and> 200005 \<le> unat d'"
  using hpet_msleep_waits [OF demo_timer_runs, of 5 "10 ^ 8" 20]
  by (simp add: capabilities_def counter_value_def demo_timer_def)

text \<open>
  \<^verbatim>\<open>hpet_nsleep\<close> does not wait at all when the period of the counter is more than a nanosecond, since
  the number of ticks per nanosecond is rounded down to zero first.
\<close>

theorem hpet_nsleep_never_waits:
  assumes "1000000 < unat (drop_bit 32 (capabilities B regs d))"
  shows "hpet_nsleep B regs n d = Ret d"
proof -
  define q where "q = (ucast (drop_bit 32 (capabilities B regs d)) :: u32)"
  note q = period_exact(1) [of "capabilities B regs d", folded q_def]
    period_exact(2) [of 1000000 "capabilities B regs d", folded q_def]
  have "(1000000 div ucast q :: u64) = 0" using q(2) assms by (simp add: unat_eq_zero [symmetric])
  moreover have "q \<noteq> 0" using q(1) assms by auto
  ultimately show ?thesis
    by (simp add: hpet_nsleep_def hpet_sleep_def q_def [symmetric] Let_def hpet_wait.simps [of B regs "counter_value B regs d" d])
qed

theorem hpet_nsleep_never_waits_witness:
  "hpet_nsleep demo_timer 0 1000000 5 = Ret 5"
  by (rule hpet_nsleep_never_waits) (simp add: capabilities_def demo_timer_def)

end
