(* ===== verification/Cpu.thy ===== *)
theory Cpu
  imports Descriptors Devices
begin

unbundle bit_operations_syntax

text \<open>
  Processor set-up, \<^verbatim>\<open>kernel/arch/x86/cpu.c\<close> and the accessors of \<^verbatim>\<open>cpu.h\<close>: identification, the registers
  that configure system calls, and the serial port (\<^verbatim>\<open>arch/x86/debug.c\<close>). The instructions themselves are the
  \<open>bus\<close> of the drivers; \<open>insn\<close> is the instruction \<^verbatim>\<open>cpuid\<close>.
\<close>

section \<open>Identification\<close>

record cpuid_state =
  cpuid_leaf :: u64
  cpuid_subleaf :: u64
  cpuid_rax :: u64
  cpuid_rbx :: u64
  cpuid_rcx :: u64
  cpuid_rdx :: u64

type_synonym cpuid_insn = "u32 \<Rightarrow> u32 \<Rightarrow> u32 \<times> u32 \<times> u32 \<times> u32"

text \<open>
  The first use of the instruction leaves \<^verbatim>\<open>ecx\<close> as it happens to be (\<open>junk\<close>). The second names \<^verbatim>\<open>rbx\<close> as the
  destination of \<^verbatim>\<open>ebx\<close> and of \<^verbatim>\<open>edx\<close>, in that order, and \<^verbatim>\<open>rdx\<close> never.
\<close>

definition cpuid :: "cpuid_insn \<Rightarrow> u32 \<Rightarrow> u64 \<Rightarrow> u64 \<Rightarrow> cpuid_state" where
  "cpuid insn junk lf subleaf =
     (let ret = \<lparr>cpuid_leaf = lf, cpuid_subleaf = subleaf, cpuid_rax = 0, cpuid_rbx = 0, cpuid_rcx = 0, cpuid_rdx = 0\<rparr>;
          (max_leaf, _) = insn (ucast (lf AND 0x80000000)) junk
      in if lf > ucast max_leaf then ret
         else let (eax, ebx, ecx, edx) = insn (ucast lf) (ucast subleaf);
                  ret = ret\<lparr>cpuid_rax := ucast eax, cpuid_rbx := ucast ebx, cpuid_rcx := ucast ecx\<rparr>
              in ret\<lparr>cpuid_rbx := ucast edx\<rparr>)"

section \<open>The serial port\<close>

abbreviation COM1 :: u16 where "COM1 \<equiv> 0x3f8"

definition serial_init :: "'d bus \<Rightarrow> 'd \<Rightarrow> 'd" where
  "serial_init B d =
     (let d = outb B (COM1 + 3) 0x80 d; d = outb B COM1 0x0c d; d = outb B (COM1 + 1) 0 d;
          d = outb B (COM1 + 3) 3 d; d = outb B (COM1 + 2) 0xc7 d in outb B (COM1 + 4) 0 d)"

partial_function (option) serial_wait :: "'d bus \<Rightarrow> 'd \<Rightarrow> 'd option" where
  "serial_wait B d = (if inb B (COM1 + 5) d AND push_bit 5 1 \<noteq> 0 then Some d else serial_wait B (pause B d))"

definition serial_write :: "'d bus \<Rightarrow> u8 \<Rightarrow> 'd \<Rightarrow> 'd outcome" where
  "serial_write B data d =
     obind (of_opt (serial_wait B d)) (\<lambda>d.
     let d = (if data = 10 then outb B COM1 13 d else d) in Ret (outb B COM1 data d))"

section \<open>System calls\<close>

abbreviation MSR_EFER :: u32 where "MSR_EFER \<equiv> 0xc0000080"
abbreviation MSR_STAR :: u32 where "MSR_STAR \<equiv> 0xc0000081"
abbreviation MSR_LSTAR :: u32 where "MSR_LSTAR \<equiv> 0xc0000082"
abbreviation MSR_SFMASK :: u32 where "MSR_SFMASK \<equiv> 0xc0000084"
abbreviation MSR_GS_BASE :: u32 where "MSR_GS_BASE \<equiv> 0xc0000101"

definition x86_system_init :: "'d bus \<Rightarrow> u64 \<Rightarrow> 'd \<Rightarrow> 'd" where
  "x86_system_init B syscall_main d =
     (let d = wrmsr B MSR_EFER (rdmsr B MSR_EFER d OR push_bit 0 1 OR push_bit 11 1) d;
          d = wrmsr B MSR_STAR (push_bit 48 0x33 OR push_bit 32 0x28) d;
          d = wrmsr B MSR_LSTAR syscall_main d;
          d = wrmsr B MSR_SFMASK (ucast (NOT 2 :: u32)) d;
          cr0 = cr_read B 0 d AND NOT (push_bit 2 1) OR push_bit 1 1;
          d = cr_write B 0 cr0 d;
          cr4 = cr_read B 4 d OR push_bit 7 1 OR push_bit 9 1 OR push_bit 10 1;
          d = cr_write B 4 cr4 d
      in serial_init B d)"

section \<open>What the hardware does with the registers\<close>

text \<open>A model-specific register keeps what was written; control registers and ports do not change it.\<close>

definition msr_law :: "'d bus \<Rightarrow> bool" where
  "msr_law B \<longleftrightarrow> (\<forall>m m' v d. msr_read B m (msr_write B m' v d) = (if m = m' then v else msr_read B m d)) \<and>
     (\<forall>m r v d. msr_read B m (cr_write B r v d) = msr_read B m d) \<and> (\<forall>m p v d. msr_read B m (outb B p v d) = msr_read B m d)"

text \<open>The selectors \<^verbatim>\<open>syscall\<close> and \<^verbatim>\<open>sysret\<close> load for 64-bit code.\<close>

definition syscall_cs :: "u64 \<Rightarrow> u16" where "syscall_cs star = ucast (drop_bit 32 star) AND 0xfffc"
definition syscall_ss :: "u64 \<Rightarrow> u16" where "syscall_ss star = ucast (drop_bit 32 star) + 8"
definition sysret_cs :: "u64 \<Rightarrow> u16" where "sysret_cs star = (ucast (drop_bit 48 star) + 16) OR 3"
definition sysret_ss :: "u64 \<Rightarrow> u16" where "sysret_ss star = (ucast (drop_bit 48 star) + 8) OR 3"

definition segment_at :: "gdt \<Rightarrow> u16 \<Rightarrow> segment_descriptor option" where
  "segment_at g sel =
     (let segs = [null_seg g, code16 g, data16 g, code32 g, data32 g, kernel_code64 g, kernel_data64 g, user_data64 g, user_code64 g];
          i = unat (drop_bit 3 sel) in if i < length segs then Some (segs ! i) else None)"

text \<open>A present segment of code with the long-mode bit, or of writable data, at a privilege level.\<close>

definition long_code :: "u8 \<Rightarrow> segment_descriptor \<Rightarrow> bool" where
  "long_code dpl g \<longleftrightarrow> seg_access g AND 0x98 = 0x98 \<and> drop_bit 5 (seg_access g) AND 3 = dpl \<and> seg_granularity g AND 0x60 = 0x20"

definition writable_data :: "u8 \<Rightarrow> segment_descriptor \<Rightarrow> bool" where
  "writable_data dpl g \<longleftrightarrow> seg_access g AND 0x9a = 0x92 \<and> drop_bit 5 (seg_access g) AND 3 = dpl"

lemma split_msr: "push_bit 32 (ucast (ucast (drop_bit 32 v) :: u32)) OR ucast (ucast v :: u32) = (v :: u64)"
proof (rule bit_word_eqI)
  fix n assume "n < LENGTH(64)"
  then show "bit (push_bit 32 (ucast (ucast (drop_bit 32 v) :: u32)) OR ucast (ucast v :: u32) :: u64) n = bit v n"
    by (cases "n < 32") (auto simp: bit_simps)
qed

lemma rdmsr_wrmsr: "msr_law B \<Longrightarrow> rdmsr B m (wrmsr B m' v d) = (if m = m' then v else rdmsr B m d)"
  by (simp add: rdmsr_def wrmsr_def msr_law_def split_msr)

lemma rdmsr_other: "msr_law B \<Longrightarrow> rdmsr B m (cr_write B r v d) = rdmsr B m d" "msr_law B \<Longrightarrow> rdmsr B m (outb B p x d) = rdmsr B m d"
  by (simp_all add: rdmsr_def msr_law_def)

lemma rdmsr_serial_init: "msr_law B \<Longrightarrow> rdmsr B m (serial_init B d) = rdmsr B m d"
  by (simp add: serial_init_def rdmsr_other)

section \<open>Properties\<close>

text \<open>
  C19. After \<^verbatim>\<open>x86_system_init\<close> and \<^verbatim>\<open>gdt_init\<close> the system call instructions agree with the segment table: a
  system call enters \<^verbatim>\<open>syscall_main\<close> with interrupts masked, in a 64-bit code segment and a writable data
  segment of the kernel, and returns to a 64-bit code segment and a writable data segment of the user,
  whose selectors are those a new server's registers and the system call's frame have. System calls
  and execute protection are enabled, and no other bit of \<^verbatim>\<open>EFER\<close> changes.
\<close>

theorem system_call_segments:
  assumes "msr_law B" "gdt_init F s g t tss_addr = Ret (g', t', s')"
  shows "let d' = x86_system_init B syscall_main d; star = rdmsr B MSR_STAR d' in
    rdmsr B MSR_LSTAR d' = syscall_main \<and> bit (rdmsr B MSR_SFMASK d') 9 \<and>
    rdmsr B MSR_EFER d' = rdmsr B MSR_EFER d OR 0x801 \<and>
    (\<exists>kc kd uc ud. segment_at g' (syscall_cs star) = Some kc \<and> long_code 0 kc \<and> segment_at g' (syscall_ss star) = Some kd \<and> writable_data 0 kd \<and>
       segment_at g' (sysret_cs star) = Some uc \<and> long_code 3 uc \<and> segment_at g' (sysret_ss star) = Some ud \<and> writable_data 3 ud) \<and>
    sysret_cs star = 0x43 \<and> sysret_ss star = 0x3b"
proof -
  have g: "kernel_code64 g' = (kernel_code64 g)\<lparr>seg_access := 0x98, seg_granularity := 0x20\<rparr>"
    "kernel_data64 g' = (kernel_data64 g)\<lparr>seg_access := 0x96, seg_granularity := 0\<rparr>"
    "user_data64 g' = (user_data64 g)\<lparr>seg_access := 0xf2, seg_granularity := 0\<rparr>"
    "user_code64 g' = (user_code64 g)\<lparr>seg_access := 0xfa, seg_granularity := 0x20\<rparr>"
    using assms(2) by (auto simp: gdt_init_def Let_def)
  have sel: "syscall_cs 0x33002800000000 = 0x28" "syscall_ss 0x33002800000000 = 0x30"
    "sysret_cs 0x33002800000000 = 0x43" "sysret_ss 0x33002800000000 = 0x3b"
    by (simp_all add: syscall_cs_def syscall_ss_def sysret_cs_def sysret_ss_def)
  show ?thesis
    using g by (simp add: x86_system_init_def Let_def rdmsr_wrmsr rdmsr_other rdmsr_serial_init assms(1) sel segment_at_def
        long_code_def writable_data_def bit_simps)
qed


text \<open>Registers that keep what is written to them, and a port that is always ready.\<close>

definition demo_cpu :: "(u32 \<Rightarrow> u32 \<times> u32) bus" where
  "demo_cpu = \<lparr>mmio_write32 = (\<lambda>_ _ d. d), mmio_read32 = (\<lambda>_ _. 0), mmio_write64 = (\<lambda>_ _ d. d), mmio_read64 = (\<lambda>_ _. 0),
     outb = (\<lambda>_ _ d. d), inb = (\<lambda>_ _. 0x20), msr_read = (\<lambda>m d. d m), msr_write = (\<lambda>m v d. d(m := v)), cr_read = (\<lambda>_ _. 0),
     cr_write = (\<lambda>_ _ d. d), pause = (\<lambda>d. d)\<rparr>"

theorem system_call_segments_witness:
  "sysret_cs (rdmsr demo_cpu MSR_STAR (x86_system_init demo_cpu 0xffffffff80001000 (\<lambda>_. (0x500, 0)))) = 0x43 \<and>
   rdmsr demo_cpu MSR_EFER (x86_system_init demo_cpu 0xffffffff80001000 (\<lambda>_. (0x500, 0))) = 0xd01"
proof -
  have m: "msr_law demo_cpu" by (simp add: msr_law_def demo_cpu_def)
  obtain g t s where "gdt_init fayt_ref (demo 64) undefined \<lparr>rsp0 = 0, rsp1 = 0, rsp2 = 0\<rparr> 0xffff800012345678 = Ret (g, t, s)"
    using gdt_init_runs [OF fayt_laws_ref demo_inv [of 64]] by fastforce
  from system_call_segments [OF m this, of "0xffffffff80001000" "\<lambda>_. (0x500, 0)"]
  show ?thesis by (simp add: Let_def rdmsr_def demo_cpu_def)
qed

text \<open>
  Five-level tables are chosen exactly when the processor has leaf 7 and reports the feature in bit 16 of
  its \<^verbatim>\<open>ecx\<close>: the mistake in the destination of \<^verbatim>\<open>edx\<close> does not reach this test.
\<close>

theorem paging_mode_detected:
  "x86_paging_init (cpuid_rcx (cpuid insn junk 7 0)) =
     (if 7 \<le> fst (insn 0 junk) \<and> bit (fst (snd (snd (insn 7 0)))) 16 then Pml5Ops else Pml4Ops)"
proof -
  have e: "(0x10000 :: u64) = 2 ^ 16" by simp
  have b: "ucast x AND 0x10000 \<noteq> (0 :: u64) \<longleftrightarrow> bit x 16" for x :: u32
    unfolding e and_exp_eq_0_iff_not_bit by (simp add: bit_simps)
  have u: "unat (ucast x :: u64) = unat x" for x :: u32
    using unsigned_less [of x, where ?'a = nat] by (simp add: unsigned_ucast_eq take_bit_nat_eq_self)
  have l: "(7 :: u64) > ucast x \<longleftrightarrow> \<not> 7 \<le> x" for x :: u32
    by (simp add: word_less_nat_alt word_le_nat_alt u) linarith
  show ?thesis by (simp add: cpuid_def x86_paging_init_def Let_def split_beta l b)
qed

end
