(* ===== verification/Console.thy ===== *)
theory Console
  imports Cpu
begin

unbundle bit_operations_syntax

text \<open>
  The console and panics, \<^verbatim>\<open>kernel/core/debug.c\<close>. The formatter \<^verbatim>\<open>stream_print\<close> comes from \<open>fayt\<close>: it is an
  argument that is given the routine to write one character with. A message is a format string and its arguments.
\<close>

type_synonym message = "string \<times> u64 list"
type_synonym 'd formatter = "(u8 \<Rightarrow> 'd \<Rightarrow> 'd outcome) \<Rightarrow> message \<Rightarrow> 'd \<Rightarrow> 'd outcome"

section \<open>Printing\<close>

definition print_unlocked :: "'d formatter \<Rightarrow> 'd bus \<Rightarrow> message \<Rightarrow> 'd \<Rightarrow> 'd outcome" where
  "print_unlocked stream_print B msg d = stream_print (serial_write B) msg d"

definition print :: "'l fayt \<Rightarrow> 'd formatter \<Rightarrow> 'd bus \<Rightarrow> message \<Rightarrow> 'l \<times> 'd \<Rightarrow> ('l \<times> 'd) outcome" where
  "print F stream_print B msg = (\<lambda>(l, d).
     obind (of_opt (spinlock F l)) (\<lambda>l.
     obind (stream_print (serial_write B) msg d) (\<lambda>d. Ret (spinrelease F l, d))))"

definition syscall_log :: "'l fayt \<Rightarrow> 'd formatter \<Rightarrow> 'd bus \<Rightarrow> registers \<Rightarrow> 'l \<times> 'd \<Rightarrow> (s32 \<times> 'l \<times> 'd) outcome" where
  "syscall_log F stream_print B r st = obind (print F stream_print B (''%c'', [ucast (ucast (rdi r) :: u8)]) st) (\<lambda>st. Ret (0, st))"

section \<open>Panic\<close>

text \<open>The stack is read through \<open>stk\<close>, which has no value where nothing is mapped.\<close>

partial_function (option) stacktrace :: "'d formatter \<Rightarrow> 'd bus \<Rightarrow> (u64 \<Rightarrow> u64 option) \<Rightarrow> ptr \<Rightarrow> 'd \<Rightarrow> 'd outcome option" where
  "stacktrace stream_print B stk fp d =
     (if fp = NULL then Some (Ret d)
      else case (stk fp, stk (fp + 8)) of
        (Some previous_rbp, Some return_address) \<Rightarrow>
          if return_address = 0 then Some (Ret d)
          else (case print_unlocked stream_print B (''trace: [%x]'' @ [char_of (10::nat)], [return_address]) d of
              Ret d \<Rightarrow> stacktrace stream_print B stk previous_rbp d
            | Fault e \<Rightarrow> Some (Fault e)
            | NoReturn \<Rightarrow> Some NoReturn)
      | _ \<Rightarrow> Some (Fault NullDeref))"

text \<open>
  How a panic ends: it halts; it waits for a lock that is not released; a stage of it runs into an error or does not come
  back. The state of the device goes with each: what was sent before it waits, or before the stage that fails.
\<close>

datatype ('l, 'd) panic_end = Halts 'l 'd | Spins 'd | Crashes kerror 'd | Hangs 'd

primrec stage :: "'x outcome \<Rightarrow> 'd \<Rightarrow> ('x \<Rightarrow> ('l, 'd) panic_end) \<Rightarrow> ('l, 'd) panic_end" where
  "stage (Ret x) d rest = rest x"
| "stage (Fault e) d rest = Crashes e d"
| "stage NoReturn d rest = Hangs d"

definition locking :: "'l fayt \<Rightarrow> 'l \<Rightarrow> 'd \<Rightarrow> ('l \<Rightarrow> ('l, 'd) panic_end) \<Rightarrow> ('l, 'd) panic_end" where
  "locking F l d rest = (case spinlock F l of None \<Rightarrow> Spins d | Some l \<Rightarrow> rest l)"

definition panic ::
  "'l fayt \<Rightarrow> 'd formatter \<Rightarrow> 'd bus \<Rightarrow> (u64 \<Rightarrow> u64 option) \<Rightarrow> ptr \<Rightarrow> message \<Rightarrow> 'l \<times> 'd \<Rightarrow> ('l, 'd) panic_end" where
  "panic F stream_print B stk fp msg = (\<lambda>(l, d).
     locking F l d (\<lambda>_.
     stage (print F stream_print B (''KERNEL PANIC: < '', []) (l, d)) d (\<lambda>(l, d).
     locking F l d (\<lambda>l.
     stage (stream_print (serial_write B) msg d) d (\<lambda>d.
     stage (print_unlocked stream_print B ('' > HALTING'' @ [char_of (10::nat)], []) d) d (\<lambda>d.
     stage (case stacktrace stream_print B stk fp d of None \<Rightarrow> NoReturn | Some x \<Rightarrow> x) d (\<lambda>d.
     Halts (spinrelease F l) d)))))))"

section \<open>What is sent\<close>

text \<open>
  A formatter that renders a message to characters and writes them in order, and a serial line that becomes
  ready and remembers in \<open>sent\<close> what was written to its data port.
\<close>

fun write_all :: "(u8 \<Rightarrow> 'd \<Rightarrow> 'd outcome) \<Rightarrow> u8 list \<Rightarrow> 'd \<Rightarrow> 'd outcome" where
  "write_all w [] d = Ret d"
| "write_all w (c # xs) d = obind (w c d) (write_all w xs)"

definition renders :: "'d formatter \<Rightarrow> (message \<Rightarrow> u8 list) \<Rightarrow> bool" where
  "renders stream_print render \<longleftrightarrow> (\<forall>w msg d. stream_print w msg d = write_all w (render msg) d)"

definition line_law :: "'d bus \<Rightarrow> ('d \<Rightarrow> u8 list) \<Rightarrow> bool" where
  "line_law B sent \<longleftrightarrow> (\<forall>d. \<exists>d'. serial_wait B d = Some d' \<and> sent d' = sent d) \<and>
     (\<forall>c d. sent (outb B COM1 c d) = sent d @ [c])"

fun crlf :: "u8 list \<Rightarrow> u8 list" where
  "crlf [] = []"
| "crlf (c # xs) = (if c = 10 then [13, 10] else [c]) @ crlf xs"

lemma crlf_append [simp]: "crlf (xs @ ys) = crlf xs @ crlf ys"
  by (induction xs) auto

lemma serial_write_sent:
  assumes "line_law B sent"
  shows "\<exists>d'. serial_write B c d = Ret d' \<and> sent d' = sent d @ crlf [c]"
  using assms unfolding line_law_def serial_write_def by (auto simp: Let_def) (metis append.assoc append_Cons append_Nil of_opt.simps(2) obind.simps(1))+

lemma write_all_sent:
  assumes "line_law B sent"
  shows "\<exists>d'. write_all (serial_write B) xs d = Ret d' \<and> sent d' = sent d @ crlf xs"
proof (induction xs arbitrary: d)
  case (Cons c xs)
  obtain d1 where d1: "serial_write B c d = Ret d1" "sent d1 = sent d @ crlf [c]" using serial_write_sent [OF assms] by blast
  obtain d2 where "write_all (serial_write B) xs d1 = Ret d2" "sent d2 = sent d1 @ crlf xs" using Cons.IH by blast
  then show ?case using d1 by auto
qed simp

lemma rendersD: "renders stream_print render \<Longrightarrow> stream_print w msg d = write_all w (render msg) d"
  unfolding renders_def by blast

text \<open>A chain of stack frames with the return addresses \<open>ras\<close>, ended by a null frame pointer or return address.\<close>

fun frame_chain :: "(u64 \<Rightarrow> u64 option) \<Rightarrow> ptr \<Rightarrow> u64 list \<Rightarrow> bool" where
  "frame_chain stk fp [] \<longleftrightarrow> fp = NULL \<or> (stk fp \<noteq> None \<and> stk (fp + 8) = Some 0)"
| "frame_chain stk fp (a # ras) \<longleftrightarrow> fp \<noteq> NULL \<and> a \<noteq> 0 \<and> stk (fp + 8) = Some a \<and> (\<exists>q. stk fp = Some q \<and> frame_chain stk q ras)"

abbreviation trace_line :: "u64 \<Rightarrow> message" where
  "trace_line a \<equiv> (''trace: [%x]'' @ [char_of (10::nat)], [a])"

lemma stacktrace_sent:
  assumes "line_law B sent" "renders stream_print render"
  shows "frame_chain stk fp ras \<Longrightarrow>
    \<exists>d'. stacktrace stream_print B stk fp d = Some (Ret d') \<and> sent d' = sent d @ crlf (concat (map (\<lambda>a. render (trace_line a)) ras))"
proof (induction ras arbitrary: fp d)
  case Nil
  then show ?case by (subst stacktrace.simps) auto
next
  case (Cons a ras)
  then obtain q where q: "fp \<noteq> NULL" "a \<noteq> 0" "stk (fp + 8) = Some a" "stk fp = Some q" "frame_chain stk q ras" by auto
  obtain d1 where d1: "write_all (serial_write B) (render (trace_line a)) d = Ret d1" "sent d1 = sent d @ crlf (render (trace_line a))"
    using write_all_sent [OF assms(1)] by blast
  obtain d2 where "stacktrace stream_print B stk q d1 = Some (Ret d2)" "sent d2 = sent d1 @ crlf (concat (map (\<lambda>a. render (trace_line a)) ras))"
    using Cons.IH [OF q(5)] by blast
  then show ?case using q d1 by (subst stacktrace.simps) (simp add: print_unlocked_def rendersD [OF assms(2)])
qed

section \<open>Properties\<close>


text \<open>A line that records what is sent, and a formatter that writes the format string as it is.\<close>

definition demo_line :: "u8 list bus" where
  "demo_line = \<lparr>mmio_write32 = (\<lambda>_ _ d. d), mmio_read32 = (\<lambda>_ _. 0), mmio_write64 = (\<lambda>_ _ d. d), mmio_read64 = (\<lambda>_ _. 0),
     outb = (\<lambda>p c d. if p = COM1 then d @ [c] else d), inb = (\<lambda>_ _. 0x20), msr_read = (\<lambda>_ _. (0, 0)), msr_write = (\<lambda>_ _ d. d),
     cr_read = (\<lambda>_ _. 0), cr_write = (\<lambda>_ _ d. d), pause = (\<lambda>d. d)\<rparr>"

definition plain :: "message \<Rightarrow> u8 list" where
  "plain msg = map of_char (fst msg)"

lemma demo_line_law: "line_law demo_line (\<lambda>d. d)"
proof -
  have "serial_wait demo_line d = Some d" for d by (subst serial_wait.simps) (simp add: demo_line_def)
  then show ?thesis by (simp add: line_law_def demo_line_def)
qed


end
