(* ===== verification/Syscall.thy ===== *)
theory Syscall
  imports Scheduler Console
begin

unbundle bit_operations_syntax

text \<open>
  System calls (\<^verbatim>\<open>kernel/core/syscall.c\<close> and the \<^verbatim>\<open>SYSCALL_DEFINE\<close> wrappers of \<^verbatim>\<open>syscall.h\<close>): a
  handler reads its arguments from the saved registers and returns an \<^verbatim>\<open>int\<close>, or resumes a saved
  register frame and does not return; \<^verbatim>\<open>syscall_handler\<close> checks the index and the context's
  permission mask, calls the handler and stores the error of the core. All eight handlers are the code of the other
  theories, run on one state of the whole kernel: the scheduler's machine, the console, the portals of every page table
  and the user memory of the caller. User memory is reached through \<open>user_memory\<close>; that an access to it may fault is not
  modelled. Code and data from outside the repository are fields of the parameter \<open>sys_env\<close>.
\<close>

section \<open>The state of the kernel\<close>

record ('l, 'f, 'b, 'c, 'h, 'm, 'd, 'u) sys_state =
  machine_of :: "('l, 'f, 'b, 'c) machine"
  console :: "'l \<times> 'd"
  portal_roots :: "ptr \<Rightarrow> portal tree"
  pages_tables :: "ptr \<Rightarrow> 'h"
  share_map :: 'm
  share_point_at :: "ptr \<Rightarrow> portal_share_point option"
  link_at :: "u64 \<Rightarrow> portal_link option"
  queue_inits :: "(u64 \<times> u64 \<times> s32) list"
  user :: 'u

record 'u user_memory =
  read_action :: "'u \<Rightarrow> ptr \<Rightarrow> notification_action"
  write_action :: "ptr \<Rightarrow> notification_action \<Rightarrow> 'u \<Rightarrow> 'u"
  read_req :: "'u \<Rightarrow> ptr \<Rightarrow> portal_req"
  write_req :: "ptr \<Rightarrow> portal_req \<Rightarrow> 'u \<Rightarrow> 'u"
  read_resp :: "'u \<Rightarrow> ptr \<Rightarrow> portal_resp"
  write_resp :: "ptr \<Rightarrow> portal_resp \<Rightarrow> 'u \<Rightarrow> 'u"

text \<open>
  \<open>kernel_table\<close> is \<^verbatim>\<open>&kernel_mappings\<close>; \<open>interrupt_frame r\<close> is the frame that \<^verbatim>\<open>int $32\<close> saves inside the call that was
  made with the registers \<open>r\<close>.
\<close>

record ('l, 'h, 'm, 'd, 'u) sys_env =
  fayt_of :: "'l fayt"
  slab_of :: "'l slab"
  portal_lib :: "('h, 'm) portal_deps"
  raw_portal_of :: portal
  printer :: "'d formatter"
  bus_of :: "'d bus"
  user_of :: "'u user_memory"
  kernel_table :: ptr
  interrupt_frame :: "registers \<Rightarrow> registers"

abbreviation kernel_in :: "('l, 'f, 'b, 'c, 'h, 'm, 'd, 'u) sys_state \<Rightarrow> 'l kernel" where
  "kernel_in S \<equiv> kern (machine_of S)"

definition set_kernel :: "'l kernel \<Rightarrow> ('l, 'f, 'b, 'c, 'h, 'm, 'd, 'u) sys_state \<Rightarrow> ('l, 'f, 'b, 'c, 'h, 'm, 'd, 'u) sys_state" where
  "set_kernel k S = S\<lparr>machine_of := (machine_of S)\<lparr>kern := k\<rparr>\<rparr>"

section \<open>Handlers\<close>

datatype sysresult = Code s32 | Resume registers

type_synonym ('l, 'f, 'b, 'c, 'h, 'm, 'd, 'u) handler =
  "('l, 'f, 'b, 'c, 'h, 'm, 'd, 'u) sys_state \<Rightarrow> registers \<Rightarrow> (sysresult \<times> ('l, 'f, 'b, 'c, 'h, 'm, 'd, 'u) sys_state) outcome"

definition handle_log :: "('l, 'h, 'm, 'd, 'u) sys_env \<Rightarrow> ('l, 'f, 'b, 'c, 'h, 'm, 'd, 'u) handler" where
  "handle_log E S r =
     obind (syscall_log (fayt_of E) (printer E) (bus_of E) r (console S)) (\<lambda>(e, c). Ret (Code e, S\<lparr>console := c\<rparr>))"

subsection \<open>Portals\<close>

text \<open>The part of the state that a portal operation on the page table at \<open>t\<close> works on, and the state after it.\<close>

definition portal_view :: "ptr \<Rightarrow> 'l page_table \<Rightarrow> ('l, 'f, 'b, 'c, 'h, 'm, 'd, 'u) sys_state \<Rightarrow> ('l, 'h, 'm) pstate" where
  "portal_view t pt S = \<lparr>kst = mem (kernel_in S), ptab = pt, portal_root = portal_roots S t, pages = pages_tables S t,
     portal_share_map = share_map S, share_points = share_point_at S, links = link_at S, circular_queues = queue_inits S\<rparr>"

definition portal_update :: "ptr \<Rightarrow> ('l, 'h, 'm) pstate \<Rightarrow> ('l, 'f, 'b, 'c, 'h, 'm, 'd, 'u) sys_state \<Rightarrow> ('l, 'f, 'b, 'c, 'h, 'm, 'd, 'u) sys_state" where
  "portal_update t st S = S\<lparr>
     machine_of := (machine_of S)\<lparr>kern := (kernel_in S)\<lparr>mem := kst st\<rparr>, tables := (tables (machine_of S))(t \<mapsto> ptab st)\<rparr>,
     portal_roots := (portal_roots S)(t := portal_root st), pages_tables := (pages_tables S)(t := pages st),
     share_map := portal_share_map st, share_point_at := share_points st, link_at := links st, queue_inits := circular_queues st\<rparr>"

text \<open>The page table \<^verbatim>\<open>portal\<close> works on.\<close>

definition portal_table :: "('l, 'h, 'm, 'd, 'u) sys_env \<Rightarrow> ('l, 'f, 'b, 'c, 'h, 'm, 'd, 'u) sys_state \<Rightarrow> ptr outcome" where
  "portal_table E S =
     (let c = current_context (core (kernel_in S)) in
      if c = NULL then Ret (kernel_table E) else obind (deref (contexts (kernel_in S)) c) (\<lambda>C. Ret (page_table_of C)))"

text \<open>\<^verbatim>\<open>portal\<close>: \<open>None\<close> is the early return without a response. Without a page table the request fails before anything is done.\<close>

definition portal_call ::
  "('l, 'h, 'm, 'd, 'u) sys_env \<Rightarrow> ('l, 'f, 'b, 'c, 'h, 'm, 'd, 'u) sys_state \<Rightarrow> ptr \<Rightarrow> ptr \<Rightarrow>
   (s32 \<times> portal_resp option \<times> ('l, 'f, 'b, 'c, 'h, 'm, 'd, 'u) sys_state) outcome" where
  "portal_call E S req resp =
     (if req = NULL \<or> resp = NULL then Ret (- 1, None, S)
      else obind (portal_table E S) (\<lambda>t.
        if t = NULL
        then Ret (- 1, Some \<lparr>resp_base = 0, resp_limit = 0, resp_flags = PORTAL_RESP_FAILURE OR pflags (raw_portal_of E)\<rparr>, S)
        else obind (deref (tables (machine_of S)) t) (\<lambda>pt.
          obind (portal_request (fayt_of E) (portal_lib E) (raw_portal_of E) (portal_view t pt S) (read_req (user_of E) (user S) req))
            (\<lambda>(ret, rsp, st). Ret (ret, Some rsp, portal_update t st S)))))"

definition handle_portal :: "('l, 'h, 'm, 'd, 'u) sys_env \<Rightarrow> ('l, 'f, 'b, 'c, 'h, 'm, 'd, 'u) handler" where
  "handle_portal E S r =
     (let req = rdi r; resp = rsi r in
      obind (portal_call E S req resp) (\<lambda>(ret, rsp, S).
      let S = (case rsp of None \<Rightarrow> S | Some x \<Rightarrow> S\<lparr>user := write_resp (user_of E) resp x (user S)\<rparr>) in
      if ret \<noteq> 0 then Ret (Code ret, S) else Ret (Code 0, S)))"

subsection \<open>Scheduling\<close>

text \<open>
  \<^verbatim>\<open>yield\<close> raises the interrupt of \<^verbatim>\<open>reschedule\<close> inside the kernel. When there is nothing to switch to, the interrupt handler ends
  the interrupt and the call returns.
\<close>

definition handle_yield :: "('l, 'h, 'm, 'd, 'u) sys_env \<Rightarrow> ('l, 'f, 'b, 'c, 'h, 'm, 'd, 'u) handler" where
  "handle_yield E S r =
     obind (reschedule (fayt_of E) (slab_of E) (machine_of S) (interrupt_frame E r)) (\<lambda>(g, m).
     case g of
       Some g \<Rightarrow> Ret (Resume g, S\<lparr>machine_of := m\<rparr>)
     | None \<Rightarrow> Ret (Code 0, S\<lparr>machine_of := m\<lparr>eois := Suc (eois m)\<rparr>\<rparr>))"

subsection \<open>Notifications\<close>

definition code :: "('l, 'f, 'b, 'c, 'h, 'm, 'd, 'u) sys_state \<Rightarrow> (s32 \<times> 'l kernel) outcome \<Rightarrow> (sysresult \<times> ('l, 'f, 'b, 'c, 'h, 'm, 'd, 'u) sys_state) outcome" where
  "code S x = obind x (\<lambda>(e, k). Ret (Code e, set_kernel k S))"

text \<open>
  \<^verbatim>\<open>*old\<close> is written before \<^verbatim>\<open>*action\<close> is read: with \<^verbatim>\<open>old == action\<close> the action stays what it was.
\<close>

definition handle_action :: "('l, 'h, 'm, 'd, 'u) sys_env \<Rightarrow> ('l, 'f, 'b, 'c, 'h, 'm, 'd, 'u) handler" where
  "handle_action E S r =
     (let action = rsi r; old = rdx r in
      obind (syscall_notification_action (fayt_of E) (kernel_in S) (ucast (rdi r))
        (if action = NULL \<or> action = old then None else Some (read_action (user_of E) (user S) action)) (old \<noteq> NULL))
      (\<lambda>(e, prev, k).
        let S = set_kernel k S in
        Ret (Code e, case prev of None \<Rightarrow> S | Some a \<Rightarrow> S\<lparr>user := write_action (user_of E) old a (user S)\<rparr>)))"

definition handle_define_stack :: "('l, 'h, 'm, 'd, 'u) sys_env \<Rightarrow> ('l, 'f, 'b, 'c, 'h, 'm, 'd, 'u) handler" where
  "handle_define_stack E S r =
     code S (syscall_notification_define_stack (fayt_of E) (slab_of E) (kernel_in S) (rdi r) (rsi r))"

definition handle_return :: "('l, 'f, 'b, 'c, 'h, 'm, 'd, 'u) handler" where
  "handle_return S r = obind (syscall_notification_return (kernel_in S)) (\<lambda>(x, k).
     Ret (case x of Inl e \<Rightarrow> Code e | Inr f \<Rightarrow> Resume f, set_kernel k S))"

definition handle_unmute :: "('l, 'f, 'b, 'c, 'h, 'm, 'd, 'u) handler" where
  "handle_unmute S r = code S (syscall_notification_unmute (kernel_in S))"

definition handle_mute :: "('l, 'f, 'b, 'c, 'h, 'm, 'd, 'u) handler" where
  "handle_mute S r = code S (syscall_notification_mute (kernel_in S))"

definition syscall_handles :: "('l, 'h, 'm, 'd, 'u) sys_env \<Rightarrow> ('l, 'f, 'b, 'c, 'h, 'm, 'd, 'u) handler option list" where
  "syscall_handles E =
     [Some (handle_log E), Some (handle_portal E), Some (handle_yield E), Some (handle_action E), Some (handle_define_stack E),
      Some handle_return, Some handle_unmute, Some handle_mute]"

section \<open>The dispatcher\<close>

definition set_error :: "s32 \<Rightarrow> ('l, 'f, 'b, 'c, 'h, 'm, 'd, 'u) sys_state \<Rightarrow> ('l, 'f, 'b, 'c, 'h, 'm, 'd, 'u) sys_state" where
  "set_error error S = set_kernel ((kernel_in S)\<lparr>core := (core (kernel_in S))\<lparr>core_error := scast error\<rparr>\<rparr>) S"

definition SYSRET :: "s32 \<Rightarrow> s32 \<Rightarrow> ('l, 'f, 'b, 'c, 'h, 'm, 'd, 'u) sys_state \<Rightarrow> u64 \<times> ('l, 'f, 'b, 'c, 'h, 'm, 'd, 'u) sys_state" where
  "SYSRET ret error S = (scast (if error \<noteq> 0 then error else ret), set_error error S)"

definition report :: "('l, 'h, 'm, 'd, 'u) sys_env \<Rightarrow> message \<Rightarrow> ('l, 'f, 'b, 'c, 'h, 'm, 'd, 'u) sys_state \<Rightarrow> ('l, 'f, 'b, 'c, 'h, 'm, 'd, 'u) sys_state outcome" where
  "report E msg S = obind (print (fayt_of E) (printer E) (bus_of E) msg (console S)) (\<lambda>c. Ret (S\<lparr>console := c\<rparr>))"

abbreviation unknown_index :: "s32 \<Rightarrow> message" where
  "unknown_index idx \<equiv> (''SYSCALL: unknown index %x'' @ [char_of (10 :: nat)], [scast idx])"

text \<open>
  The index is an \<^verbatim>\<open>int\<close> compared with a \<^verbatim>\<open>size_t\<close>, so a negative one is as large as an address.
  The result is the value returned and the state, or the frame that is resumed instead. Without a current
  context the kernel panics, which is \<open>Fault Halted\<close> here; \<open>panic\<close> of \<open>Console\<close> says what it prints.
\<close>

definition syscall_handler ::
  "(nat \<Rightarrow> u64) \<Rightarrow> ('l, 'h, 'm, 'd, 'u) sys_env \<Rightarrow> ('l, 'f, 'b, 'c, 'h, 'm, 'd, 'u) handler option list \<Rightarrow> ('l, 'f, 'b, 'c, 'h, 'm, 'd, 'u) sys_state \<Rightarrow> registers \<Rightarrow>
   ((u64 + registers) \<times> ('l, 'f, 'b, 'c, 'h, 'm, 'd, 'u) sys_state) outcome" where
  "syscall_handler lengthof E H S r =
     (let idx = ucast (rax r) :: s32; done = (\<lambda>(v, S). Ret (Inl v, S)) in
      if lengthof (length H) \<le> scast idx then obind (report E (unknown_index idx) S) (\<lambda>S. done (SYSRET (- 1) 0 S))
      else if current_context (core (kernel_in S)) = NULL then Fault Halted
      else obind (deref (contexts (kernel_in S)) (current_context (core (kernel_in S)))) (\<lambda>C.
        if sysperm C AND scast (push_bit (nat (sint idx)) 1 :: s32) \<noteq> 0 then done (SYSRET (- 1) 0 S)
        else case H ! nat (sint idx) of
          None \<Rightarrow> obind (report E (''SYSCALL: handler not properly initialised'' @ [char_of (10 :: nat)], []) S) (\<lambda>S. done (SYSRET (- 1) 0 S))
        | Some f \<Rightarrow> obind (f S r) (\<lambda>(x, S).
            case x of Code error \<Rightarrow> done (SYSRET (if error \<noteq> 0 then error else 0) error S)
            | Resume g \<Rightarrow> Ret (Inr g, S))))"

section \<open>Behaviour\<close>

text \<open>The index test accepts exactly the indices of the table.\<close>

lemma index_test:
  fixes idx :: s32
  assumes "n < 2 ^ 31"
  shows "(of_nat n :: u64) \<le> scast idx \<longleftrightarrow> sint idx < 0 \<or> int n \<le> sint idx"
proof -
  have b: "- (2 ^ 31) \<le> sint idx" "sint idx < 2 ^ 31"
    using sint_ge [of idx] sint_lt [of idx] by simp_all
  have u: "uint (scast idx :: u64) = sint idx mod 2 ^ 64"
    by (simp only: scast_eq uint_word_of_int) simp
  have n: "uint (of_nat n :: u64) = int n" using assms by (simp add: unsigned_of_nat take_bit_nat_eq_self)
  show ?thesis
  proof (cases "sint idx < 0")
    case True
    then have "sint idx mod 2 ^ 64 = sint idx + 2 ^ 64"
      using b mod_pos_pos_trivial [of "sint idx + 2 ^ 64" "2 ^ 64"] by simp
    then show ?thesis using True b assms by (simp add: word_le_def u n)
  next
    case False
    then have "sint idx mod 2 ^ 64 = sint idx" using b by (intro mod_pos_pos_trivial) auto
    then show ?thesis using False by (simp add: word_le_def u n)
  qed
qed

lemma perm_test:
  fixes p :: u64
  assumes "i < 31"
  shows "p AND scast (push_bit i 1 :: s32) \<noteq> 0 \<longleftrightarrow> bit p i"
proof -
  have "scast (push_bit i 1 :: s32) = (push_bit i 1 :: u64)"
    using assms by (intro bit_word_eqI) (auto simp: bit_signed_iff bit_simps min_def)
  then show ?thesis by (simp add: and_exp_eq_0_iff_not_bit push_bit_of_1)
qed

lemma handler_rejects:
  assumes "lengthof (length H) = of_nat (length H)" "length H < 2 ^ 31"
    and "sint (ucast (rax r) :: s32) < 0 \<or> int (length H) \<le> sint (ucast (rax r) :: s32)"
  shows "syscall_handler lengthof E H S r =
    obind (report E (unknown_index (ucast (rax r))) S) (\<lambda>S. Ret (Inl FAILED, set_error 0 S))"
  using assms(3) by (simp add: syscall_handler_def Let_def assms(1) index_test [OF assms(2)] SYSRET_def)

lemma handler_accepts:
  assumes "lengthof (length H) = of_nat (length H)" "length H \<le> 31"
    and "sint (ucast (rax r) :: s32) = int i" "i < length H" "H ! i = Some f"
    and "current_context (core (kernel_in S)) = c" "c \<noteq> NULL" "contexts (kernel_in S) c = Some C"
  shows "syscall_handler lengthof E H S r =
    (if bit (sysperm C) i then Ret (Inl FAILED, set_error 0 S)
     else obind (f S r) (\<lambda>(x, S'). case x of Code e \<Rightarrow> Ret (Inl (scast e), set_error e S') | Resume g \<Rightarrow> Ret (Inr g, S')))"
proof -
  have n: "length H < 2 ^ 31" using assms(2) by simp
  have "i < 31" using assms(2,4) by simp
  then have p: "sysperm C AND scast (2 ^ i :: s32) = 0 \<longleftrightarrow> \<not> bit (sysperm C) i"
    using perm_test [of i "sysperm C"] by (auto simp: push_bit_eq_mult)
  show ?thesis using assms(3-8)
    by (auto simp: syscall_handler_def Let_def assms(1) index_test [OF n] SYSRET_def p push_bit_eq_mult
      intro!: arg_cong2 [where f = obind] ext split: sysresult.splits)
qed

lemma length_handles [simp]: "length (syscall_handles E) = 8"
  by (simp add: syscall_handles_def)

text \<open>A call of \<^verbatim>\<open>yield\<close> runs its handler; with nothing to switch to it returns.\<close>

lemma yield_runs:
  assumes "lengthof 8 = 8" "current_context (core (kernel_in S)) = c" "c \<noteq> NULL" "contexts (kernel_in S) c = Some C" "\<not> bit (sysperm C) 2"
    and "ucast (rax r) = (2 :: s32)"
  shows "syscall_handler lengthof E (syscall_handles E) S r = obind (handle_yield E S r) (\<lambda>(x, S'). case x of
    Code e \<Rightarrow> Ret (Inl (scast e), set_error e S') | Resume g \<Rightarrow> Ret (Inr g, S'))"
  using handler_accepts [of lengthof "syscall_handles E" r 2 "handle_yield E" S c C E] assms
  by (simp add: length_handles) (simp add: syscall_handles_def)

lemma yield_idle:
  assumes "vector_pop_law (slab_of E)" "spinlock (fayt_of E) (reschedule_lock (machine_of S)) = Some l" "delivery_stack (core (kernel_in S)) = []"
    and "thread_queue (core (kernel_in S)) = []" "scheduling_server (core (kernel_in S)) = NULL"
  shows "handle_yield E S r = Ret (Code 0, S\<lparr>machine_of := (machine_of S)\<lparr>reschedule_lock := spinrelease (fayt_of E) l, eois := Suc (eois (machine_of S))\<rparr>\<rparr>)"
proof -
  have "reschedule (fayt_of E) (slab_of E) (machine_of S) (interrupt_frame E r) = Ret (None, (machine_of S)\<lparr>reschedule_lock := spinrelease (fayt_of E) l\<rparr>)"
    using assms vector_pop_Nil [OF assms(1)] by (simp add: reschedule_def next_context_def Let_def)
  then show ?thesis by (simp add: handle_yield_def)
qed

section \<open>Properties\<close>

text \<open>
  C32. \<^verbatim>\<open>syscall_handler\<close> on the kernel's table, for a core with a current context: an index outside
  0 to 7, negative ones included, is reported on the console and returns -1 with the core's error cleared; an index whose bit is
  set in the context's \<^verbatim>\<open>sysperm\<close> returns the same and changes nothing else (\<^verbatim>\<open>sysperm\<close> is a mask of denied calls); any
  other index runs the handler of that slot, and what the handler returns is both the value returned
  and the error stored. \<^verbatim>\<open>LENGTHOF\<close> is taken to give the number of entries.
\<close>

theorem syscall_handler_gates:
  fixes S :: "('l, 'f, 'b, 'c, 'h, 'm, 'd, 'u) sys_state"
  assumes "lengthof 8 = 8"
    and "current_context (core (kernel_in S)) = c" "c \<noteq> NULL" "contexts (kernel_in S) c = Some C"
  shows "syscall_handler lengthof E (syscall_handles E) S r =
    (let i = sint (ucast (rax r) :: s32) in
     if i < 0 \<or> 8 \<le> i then obind (report E (unknown_index (ucast (rax r))) S) (\<lambda>S. Ret (Inl FAILED, set_error 0 S))
     else if bit (sysperm C) (nat i) then Ret (Inl FAILED, set_error 0 S)
     else obind (([handle_log E, handle_portal E, handle_yield E, handle_action E, handle_define_stack E, handle_return,
         handle_unmute, handle_mute] ! nat i) S r) (\<lambda>(x, S'). case x of
         Code e \<Rightarrow> Ret (Inl (scast e), set_error e S') | Resume g \<Rightarrow> Ret (Inr g, S')))"
proof -
  define H :: "('l, 'f, 'b, 'c, 'h, 'm, 'd, 'u) handler option list" where "H = syscall_handles E"
  define hs :: "('l, 'f, 'b, 'c, 'h, 'm, 'd, 'u) handler list" where "hs = [handle_log E, handle_portal E, handle_yield E, handle_action E, handle_define_stack E, handle_return,
    handle_unmute, handle_mute]"
  define i where "i = sint (ucast (rax r) :: s32)"
  have H: "H = map Some hs" "length hs = 8" by (simp_all add: H_def hs_def syscall_handles_def)
  then have m: "lengthof (length H) = of_nat (length H)" using assms(1) by simp
  show ?thesis
  proof (cases "i < 0 \<or> 8 \<le> i")
    case True
    then show ?thesis using handler_rejects [of lengthof H r E S] H m
      by (auto simp: Let_def i_def H_def)
  next
    case False
    then have n: "sint (ucast (rax r) :: s32) = int (nat i)" "nat i < length H"
      using H by (auto simp: i_def [symmetric])
    then have "H ! nat i = Some (hs ! nat i)" using H by (simp only: nth_map length_map)
    note handler_accepts [of lengthof H r "nat i" "hs ! nat i" S c C E, OF m _ n this assms(2-4)]
    then show ?thesis using False H(2) unfolding Let_def i_def [symmetric] hs_def [symmetric] H_def [symmetric] by (simp add: H(1))
  qed
qed

text \<open>
  C28. \<^verbatim>\<open>yield\<close> through the dispatcher: when the call is permitted and a context waits on the thread queue, the call does not
  return; that context is entered with its registers, address space and FPU state, and the caller is left with
  the frame of the interrupt inside the call, so that it can be resumed. With no context waiting and no scheduling server the call
  returns 0; the lock is free again and one end-of-interrupt has been written.
\<close>

theorem syscall_yield_switches:
  assumes "lengthof 8 = 8" "fayt_laws (fayt_of E)" "vector_pop_law (slab_of E)" "m = machine_of S" "lock_free (fayt_of E) (reschedule_lock m)"
    and "delivery_stack (core (kern m)) = []" "current_context (core (kern m)) = c" "runnable m c C ptc fc" "\<not> bit (sysperm C) 2"
    and "ucast (rax r) = (2 :: s32)"
  shows "(\<forall>q n N pt f. thread_queue (core (kern m)) = q @ [n] \<longrightarrow> runnable m n N pt f \<longrightarrow> c \<noteq> n \<longrightarrow> fpu_context C \<noteq> fpu_context N \<longrightarrow>
      (\<exists>m'. syscall_handler lengthof E (syscall_handles E) S r = Ret (Inr (regs N), S\<lparr>machine_of := m'\<rparr>) \<and>
        current_context (core (kern m')) = n \<and> thread_queue (core (kern m')) = q \<and> cr3 m' = pmlt pt - HIGH_VMA (mem (kern m)) \<and> fpu m' = f \<and>
        lock_free (fayt_of E) (reschedule_lock m') \<and> fpu_areas m' (fpu_context C) = Some (fpu m) \<and>
        map_option regs (contexts (kern m') c) = Some (interrupt_frame E r))) \<and>
    (thread_queue (core (kern m)) = [] \<longrightarrow> scheduling_server (core (kern m)) = NULL \<longrightarrow>
      (\<exists>l. syscall_handler lengthof E (syscall_handles E) S r =
          Ret (Inl 0, set_error 0 (S\<lparr>machine_of := m\<lparr>reschedule_lock := l, eois := Suc (eois m)\<rparr>\<rparr>)) \<and> lock_free (fayt_of E) l))"
proof -
  have c: "c \<noteq> NULL" "contexts (kernel_in S) c = Some C" "current_context (core (kernel_in S)) = c"
    using assms(4,7,8) by (auto simp: runnable_def)
  note h = yield_runs [of lengthof S c C r E, OF assms(1) c(3,1,2) assms(9,10)]
  obtain l where l: "spinlock (fayt_of E) (reschedule_lock m) = Some l" using assms(5) by (auto simp: lock_free_iff)
  have "\<exists>m'. syscall_handler lengthof E (syscall_handles E) S r = Ret (Inr (regs N), S\<lparr>machine_of := m'\<rparr>) \<and>
        current_context (core (kern m')) = n \<and> thread_queue (core (kern m')) = q \<and> cr3 m' = pmlt pt - HIGH_VMA (mem (kern m)) \<and> fpu m' = f \<and>
        lock_free (fayt_of E) (reschedule_lock m') \<and> fpu_areas m' (fpu_context C) = Some (fpu m) \<and>
        map_option regs (contexts (kern m') c) = Some (interrupt_frame E r)"
    if "thread_queue (core (kern m)) = q @ [n]" "runnable m n N pt f" "c \<noteq> n" "fpu_context C \<noteq> fpu_context N" for q n N pt f
  proof -
    note s = reschedule_switch [OF assms(3) l assms(6) that(1) assms(7,8) that(2-4), of "interrupt_frame E r"]
    show ?thesis using s assms(2,4) h
      by (intro exI [of _ "switched (fayt_of E) c C n N pt f q (interrupt_frame E r) l m"])
        (simp add: handle_yield_def switched_def SWAP_TLS_def)
  qed
  moreover have "\<exists>l. syscall_handler lengthof E (syscall_handles E) S r =
      Ret (Inl 0, set_error 0 (S\<lparr>machine_of := m\<lparr>reschedule_lock := l, eois := Suc (eois m)\<rparr>\<rparr>)) \<and> lock_free (fayt_of E) l"
    if "thread_queue (core (kern m)) = []" "scheduling_server (core (kern m)) = NULL"
    using yield_idle [OF assms(3), of S l r] l that assms(2,4,6) h by (intro exI [of _ "spinrelease (fayt_of E) l"]) simp
  ultimately show ?thesis by blast
qed

section \<open>A concrete system\<close>

text \<open>
  The machine of \<open>Scheduler\<close> with a serial line, an address pool of four, portals in a tree and an empty share map. User memory is a
  store for each kind of structure.
\<close>

type_synonym demo_user = "(ptr \<Rightarrow> notification_action) \<times> (ptr \<Rightarrow> portal_req) \<times> (ptr \<Rightarrow> portal_resp)"

definition demo_um :: "demo_user user_memory" where
  "demo_um = \<lparr>read_action = (\<lambda>(a, q, r). a), write_action = (\<lambda>p x (a, q, r). (a(p := x), q, r)),
     read_req = (\<lambda>(a, q, r). q), write_req = (\<lambda>p x (a, q, r). (a, q(p := x), r)),
     read_resp = (\<lambda>(a, q, r). r), write_resp = (\<lambda>p x (a, q, r). (a, q, r(p := x)))\<rparr>"

definition demo_sys_env :: "(bool, (u64 \<times> page) list, (string \<times> ptr) list, u8 list, demo_user) sys_env" where
  "demo_sys_env = \<lparr>fayt_of = fayt_ref, slab_of = slab_ref 0x70, portal_lib = deps_ref, raw_portal_of = Portal.raw_portal,
     printer = (\<lambda>w msg. write_all w (plain msg)), bus_of = demo_line, user_of = demo_um, kernel_table = 0x7f,
     interrupt_frame = (\<lambda>r. r\<lparr>cs := 8\<rparr>)\<rparr>"

definition demo_user_memory :: demo_user where
  "demo_user_memory = ((\<lambda>_. \<lparr>action_handler = 0\<rparr>), (\<lambda>_. demo_req), (\<lambda>_. \<lparr>resp_base = 0, resp_limit = 0, resp_flags = 0\<rparr>))"

definition demo_sys ::
  "(bool, nat, nat, s32 \<Rightarrow> ptr) machine \<Rightarrow> (bool, nat, nat, s32 \<Rightarrow> ptr, (u64 \<times> page) list, (string \<times> ptr) list, u8 list, demo_user) sys_state" where
  "demo_sys m = \<lparr>machine_of = m, console = (False, []), portal_roots = (\<lambda>_. Leaf), pages_tables = (\<lambda>_. []), share_map = [],
     share_point_at = Map.empty, link_at = Map.empty, queue_inits = [], user = demo_user_memory\<rparr>"

theorem syscall_handler_gates_witness:
  "\<exists>S'. syscall_handler of_nat demo_sys_env (syscall_handles demo_sys_env) (demo_sys demo_machine) (zero_registers\<lparr>rax := 0xffffffff\<rparr>) = Ret (Inl FAILED, S') \<and>
     take 7 (snd (console S')) = map of_char ''SYSCALL'' \<and> core_error (core (kernel_in S')) = 0"
proof -
  let ?S = "demo_sys demo_machine" and ?r = "zero_registers\<lparr>rax := 0xffffffff\<rparr>"
  have w: "\<exists>d. write_all (serial_write demo_line) xs [] = Ret d \<and> d = crlf xs" for xs
    using write_all_sent [OF demo_line_law, of xs "[]"] by simp
  have m: "current_context (core (kernel_in ?S)) = 0x10" "contexts (kernel_in ?S) 0x10 = Some (demo_context\<lparr>nqueue := NULL, page_table_of := 0x80, fpu_context := 0x90\<rparr>)"
    by (simp_all add: demo_sys_def demo_machine_def demo_kernel_def)
  have i: "sint (ucast (rax ?r) :: s32) = - 1" by simp
  have p: "report demo_sys_env (unknown_index (ucast (rax ?r))) ?S =
      Ret (?S\<lparr>console := (False, crlf (plain (unknown_index (ucast (rax ?r)))))\<rparr>)"
    using w [of "plain (unknown_index (ucast (rax ?r)))"]
    by (auto simp: report_def print_def demo_sys_env_def demo_sys_def fayt_ref_def)
  show ?thesis
    using syscall_handler_gates [of of_nat ?S "0x10" _ demo_sys_env ?r, OF _ m(1) _ m(2)] i p
    by (simp add: Let_def set_error_def set_kernel_def plain_def)
qed

theorem syscall_yield_switches_witness:
  "\<exists>S'. syscall_handler of_nat demo_sys_env (syscall_handles demo_sys_env) (demo_sys demo_machine) (zero_registers\<lparr>rax := 2\<rparr>) =
       Ret (Inr (zero_registers\<lparr>rip := 0x400000\<rparr>), S') \<and>
     current_context (core (kernel_in S')) = 0x11 \<and> map_option regs (contexts (kernel_in S') 0x10) = Some (zero_registers\<lparr>rax := 2, cs := 8\<rparr>)"
proof -
  let ?S = "demo_sys demo_machine" and ?r = "zero_registers\<lparr>rax := 2\<rparr>"
  let ?C = "demo_context\<lparr>nqueue := NULL, page_table_of := 0x80, fpu_context := 0x90\<rparr>"
  let ?N = "demo_context\<lparr>nqueue := NULL, page_table_of := 0x81, fpu_context := 0x91, regs := zero_registers\<lparr>rip := 0x400000\<rparr>\<rparr>"
  have e: "fayt_of demo_sys_env = fayt_ref" "slab_of demo_sys_env = slab_ref 0x70" "interrupt_frame demo_sys_env ?r = ?r\<lparr>cs := 8\<rparr>"
    "machine_of ?S = demo_machine" by (simp_all add: demo_sys_env_def demo_sys_def)
  have l: "lock_free (fayt_of demo_sys_env) (reschedule_lock demo_machine)" "fayt_laws (fayt_of demo_sys_env)" "vector_pop_law (slab_of demo_sys_env)"
    using fayt_laws_ref by (simp_all add: e vector_pop_law_def slab_ref_def lock_free_def demo_machine_def fayt_ref_def [THEN arg_cong, of spinlock])
  have m: "delivery_stack (core (kern demo_machine)) = []" "current_context (core (kern demo_machine)) = 0x10"
    "runnable demo_machine 0x10 ?C \<lparr>pmlt = 0x5000, pt_lock = False, ops = Pml4Ops\<rparr> 1" "\<not> bit (sysperm ?C) 2" "ucast (rax ?r) = (2 :: s32)"
    by (simp_all add: demo_machine_def demo_kernel_def demo_context_def runnable_def quiet_def)
  have q: "thread_queue (core (kern demo_machine)) = [] @ [0x11]" "runnable demo_machine 0x11 ?N \<lparr>pmlt = 0x6000, pt_lock = False, ops = Pml4Ops\<rparr> 2"
    "(0x10 :: ptr) \<noteq> 0x11" "fpu_context ?C \<noteq> fpu_context ?N"
    by (simp_all add: demo_machine_def demo_kernel_def demo_context_def runnable_def quiet_def)
  have "(of_nat 8 :: u64) = 8" by simp
  note y = syscall_yield_switches [of of_nat demo_sys_env demo_machine ?S "0x10" ?C _ 1 ?r, OF this l(2,3) e(4) [symmetric] l(1) m, THEN conjunct1, rule_format, OF q]
  then show ?thesis by (elim exE conjE) (auto simp: e(3))
qed

end
