(* ===== verification/Sched.thy ===== *)
theory Sched
  imports Prelude "HOL-Library.Tree"
begin

unbundle bit_operations_syntax

text \<open>
  The user-space scheduling server, \<^verbatim>\<open>servers/sched/sched.c\<close>: its tree of threads, the handlers of
  the enqueue and dequeue notifications, and the choice of the thread to run next. The red-black
  tree, the hash table, the link lock, \<^verbatim>\<open>alloc\<close> and the system call stub come from \<open>fayt\<close> and are
  fields of the parameter \<open>sched_deps\<close>; \<open>sched_laws\<close> states what the handlers rely on. A
  \<^verbatim>\<open>struct thread *\<close> with its \<^verbatim>\<open>left\<close> and \<^verbatim>\<open>right\<close> is a tree, null is \<open>Leaf\<close>.
\<close>

section \<open>Data\<close>

record thread =
  t_cid :: s32
  t_cgroup :: s32
  t_weight :: s32
  t_vruntime :: s32
  t_runtime :: s32

record sched_descriptor =
  processor_id :: s32
  queue_default_refill :: s32
  load :: s32
  d_cid :: s32

record sched_queue_config =
  q_cid :: s32
  q_cgroup :: s32
  q_nice :: s32
  q_offload :: s32

record sched_deps =
  link_opens :: bool
  thread_alloc :: bool
  RB_INSERT :: "thread tree \<Rightarrow> thread \<Rightarrow> thread tree option"
  RB_DELETE :: "thread tree \<Rightarrow> thread \<Rightarrow> thread tree option"
  table_search :: "s32 \<Rightarrow> thread option option"

text \<open>
  What a notification handler did before it returned to the kernel. \<open>Forwarded\<close> stands for the system call \<^verbatim>\<open>SYSCALL_NOTIFY\<close> with the
  context number of its target, whatever it returns: the handler ends after it on both branches, and the table of the kernel has no such call. That
  \<^verbatim>\<open>offload\<close> is cleared in the message that is passed on is not kept.
\<close>

datatype handled = Dropped | Forwarded s32 | Queued | Removed

section \<open>Choice of the thread to run\<close>

fun traverse :: "thread tree \<Rightarrow> thread option" where
  "traverse Leaf = None"
| "traverse (Node (Node ll a lr) x (Node rl b rr)) =
     (if sint (t_vruntime a) > sint (t_vruntime b) then traverse (Node rl b rr) else traverse (Node ll a lr))"
| "traverse (Node (Node ll a lr) x Leaf) = traverse (Node ll a lr)"
| "traverse (Node Leaf x (Node rl b rr)) = traverse (Node rl b rr)"
| "traverse (Node Leaf x Leaf) = Some x"

definition traverse_and_queue :: "thread tree \<Rightarrow> s32 \<times> thread option" where
  "traverse_and_queue thread_tree = (0, traverse thread_tree)"

text \<open>
  One round of the loop in \<^verbatim>\<open>sched\<close>: \<^verbatim>\<open>queue_default_refill\<close> times, under the link lock, a thread is
  chosen and pushed to the queue shared with the kernel; a failure ends the server with -1.
\<close>

fun refill ::
  "sched_deps \<Rightarrow> (thread option list \<Rightarrow> thread option \<Rightarrow> thread option list option) \<Rightarrow> thread tree \<Rightarrow> nat \<Rightarrow>
   thread option list \<Rightarrow> thread option list option" where
  "refill E push thread_tree 0 q = Some q"
| "refill E push thread_tree (Suc n) q =
     (if \<not> link_opens E then None
      else case push q (snd (traverse_and_queue thread_tree)) of
        None \<Rightarrow> None
      | Some q \<Rightarrow> refill E push thread_tree n q)"

section \<open>Notification handlers\<close>

text \<open>
  The search for the core to send the thread to: the server's own descriptor (\<open>Own\<close>, a null pointer
  included) or an entry of the shared array (\<open>Peer i\<close>).
\<close>

datatype pick = Own | Peer nat

fun load_of :: "sched_descriptor option \<Rightarrow> sched_descriptor list \<Rightarrow> pick \<Rightarrow> int option" where
  "load_of sched_desc ds Own = map_option (\<lambda>d. sint (load d)) sched_desc"
| "load_of sched_desc ds (Peer i) = Some (sint (load (ds ! i)))"

function find_optimal :: "sched_descriptor option \<Rightarrow> sched_descriptor list \<Rightarrow> nat \<Rightarrow> pick \<Rightarrow> pick" where
  "find_optimal sched_desc ds i optimal =
     (if i < length ds then
        find_optimal sched_desc ds (Suc i)
          (case load_of sched_desc ds optimal of
             None \<Rightarrow> Peer i
           | Some n \<Rightarrow> if sint (load (ds ! i)) > n then Peer i else optimal)
      else optimal)"
  by pat_completeness auto
termination
  by (relation "measure (\<lambda>(d, ds, i, p). length ds - i)") auto

declare find_optimal.simps [simp del]

text \<open>\<^verbatim>\<open>1024 * (1 << (19 - config->nice))\<close> on \<^verbatim>\<open>int\<close>: a shift or product out of range is undefined.\<close>

definition weight_of :: "s32 \<Rightarrow> s32 outcome" where
  "weight_of nice =
     (let s = 19 - sint nice in
      if s < 0 \<or> 31 \<le> s then Fault BadShift
      else if 1024 * 2 ^ nat s \<ge> (2 ^ 31 :: int) then Fault Overflow
      else Ret (1024 * 2 ^ nat s))"

definition enqueue_here :: "sched_deps \<Rightarrow> thread tree \<Rightarrow> sched_queue_config \<Rightarrow> (handled \<times> thread tree) outcome" where
  "enqueue_here E thread_tree config =
     (if \<not> thread_alloc E then Fault NullDeref
      else obind (weight_of (q_nice config)) (\<lambda>w.
        let thread = \<lparr>t_cid = q_cid config, t_cgroup = q_cgroup config, t_weight = w, t_vruntime = 0, t_runtime = 0\<rparr> in
        case RB_INSERT E thread_tree thread of
          None \<Rightarrow> Ret (Dropped, thread_tree)
        | Some t \<Rightarrow> Ret (Queued, t)))"

definition notify_enqueue_thread ::
  "sched_deps \<Rightarrow> sched_descriptor option \<Rightarrow> sched_descriptor list \<Rightarrow> thread tree \<Rightarrow> sched_queue_config option \<Rightarrow>
   (handled \<times> thread tree) outcome" where
  "notify_enqueue_thread E sched_desc ds thread_tree data =
     (case data of
        None \<Rightarrow> Ret (Dropped, thread_tree)
      | Some config \<Rightarrow>
          if q_offload config \<noteq> 0 then
            if \<not> link_opens E then Ret (Dropped, thread_tree)
            else case find_optimal sched_desc ds 0 Own of
              Own \<Rightarrow> enqueue_here E thread_tree config
            | Peer i \<Rightarrow> Ret (Forwarded (d_cid (ds ! i)), thread_tree)
          else enqueue_here E thread_tree config)"

definition notify_dequeue_thread ::
  "sched_deps \<Rightarrow> thread tree \<Rightarrow> sched_queue_config option \<Rightarrow> handled \<times> thread tree" where
  "notify_dequeue_thread E thread_tree data =
     (case data of
        None \<Rightarrow> (Dropped, thread_tree)
      | Some config \<Rightarrow>
          (case table_search E (q_cid config) of
             Some (Some thread) \<Rightarrow>
               (case RB_DELETE E thread_tree thread of
                  None \<Rightarrow> (Dropped, thread_tree)
                | Some t \<Rightarrow> (Removed, t))
           | _ \<Rightarrow> (Dropped, thread_tree)))"

section \<open>The descriptors the kernel writes\<close>

text \<open>
  \<^verbatim>\<open>launch_schedulers\<close> writes an array of the kernel's three-field \<^verbatim>\<open>struct sched_descriptor\<close>
  (\<^verbatim>\<open>core/server.h\<close>); the server reads the same words as its own four-field one.
\<close>

record kernel_descriptor =
  k_processor_id :: s32
  k_queue_default_refill :: s32
  k_load :: s32

definition write_descriptors :: "nat \<Rightarrow> s32 list" where
  "write_descriptors bootable_processor_cnt = concat (map (\<lambda>i.
     let d = \<lparr>k_processor_id = of_nat i, k_queue_default_refill = 0, k_load = 0\<rparr> in
     [k_processor_id d, k_queue_default_refill d, k_load d]) [0..<bootable_processor_cnt])"

fun read_descriptors :: "s32 list \<Rightarrow> sched_descriptor list" where
  "read_descriptors (a # b # c # d # ws) =
     \<lparr>processor_id = a, queue_default_refill = b, load = c, d_cid = d\<rparr> # read_descriptors ws"
| "read_descriptors ws = []"

section \<open>Search trees\<close>

text \<open>What the tree macros promise: one more node, in the order of the key.\<close>

abbreviation vruntimes :: "thread tree \<Rightarrow> int list" where
  "vruntimes t \<equiv> map (\<lambda>x. sint (t_vruntime x)) (inorder t)"

definition sched_laws :: "sched_deps \<Rightarrow> bool" where
  "sched_laws E \<longleftrightarrow> (\<forall>t x t'. RB_INSERT E t x = Some t' \<longrightarrow> sorted (vruntimes t) \<longrightarrow>
     sorted (vruntimes t') \<and> set_tree t' = insert x (set_tree t))"

text \<open>The first node in order, with its right subtree.\<close>

fun leftmost :: "thread tree \<Rightarrow> (thread \<times> thread tree) option" where
  "leftmost Leaf = None"
| "leftmost (Node Leaf x r) = Some (x, r)"
| "leftmost (Node (Node ll a lr) x r) = leftmost (Node ll a lr)"

lemma leftmost_first: "leftmost t = Some (x, r) \<Longrightarrow> \<exists>rest. inorder t = x # inorder r @ rest"
proof (induction t rule: leftmost.induct)
  case (3 ll a lr y r')
  then obtain rest where "inorder (Node ll a lr) = x # inorder r @ rest" by auto
  then have "inorder (Node (Node ll a lr) y r') = x # inorder r @ rest @ y # inorder r'" by simp
  then show ?case by blast
qed auto

lemma leftmost_total: "t \<noteq> Leaf \<Longrightarrow> \<exists>x r. leftmost t = Some (x, r)"
  by (induction t rule: leftmost.induct) auto

lemma traverse_total: "t \<noteq> Leaf \<Longrightarrow> \<exists>x. traverse t = Some x \<and> x \<in> set_tree t"
  by (induction t rule: traverse.induct) auto

lemma children_ordered:
  "sorted (vruntimes (Node (Node ll a lr) x (Node rl b rr))) \<Longrightarrow> sint (t_vruntime a) \<le> sint (t_vruntime b)"
  by (auto simp: sorted_append)

lemma traverse_leftmost:
  "sorted (vruntimes t) \<Longrightarrow> leftmost t = Some (x, r) \<Longrightarrow>
   traverse t = (if r = Leaf then Some x else traverse r)"
proof (induction t rule: traverse.induct)
  case (2 ll a lr y rl b rr)
  then show ?case using children_ordered [OF "2.prems"(1)] by (auto simp: sorted_append)
qed (auto simp: sorted_append)


section \<open>Load and weight\<close>

lemma find_optimal_max:
  "(\<And>i. p = Peer i \<Longrightarrow> i < length ds) \<Longrightarrow>
   (\<And>j m. j < n \<Longrightarrow> j < length ds \<Longrightarrow> load_of own ds p = Some m \<Longrightarrow> sint (load (ds ! j)) \<le> m) \<Longrightarrow>
   (load_of own ds p = None \<Longrightarrow> n = 0) \<Longrightarrow>
   (\<And>i d. p = Peer i \<Longrightarrow> own = Some d \<Longrightarrow> sint (load d) < sint (load (ds ! i))) \<Longrightarrow>
   find_optimal own ds n p = p' \<Longrightarrow>
   (p' = Own \<longrightarrow> (\<forall>j < length ds. \<forall>d. own = Some d \<longrightarrow> sint (load (ds ! j)) \<le> sint (load d))) \<and>
   (\<forall>i. p' = Peer i \<longrightarrow> i < length ds \<and> (\<forall>j < length ds. sint (load (ds ! j)) \<le> sint (load (ds ! i))) \<and>
      (\<forall>d. own = Some d \<longrightarrow> sint (load d) < sint (load (ds ! i))))"
proof (induction own ds n p rule: find_optimal.induct)
  case (1 own ds n p)
  show ?case
  proof (cases "n < length ds")
    case True
    let ?p = "case load_of own ds p of None \<Rightarrow> Peer n | Some m \<Rightarrow> if sint (load (ds ! n)) > m then Peer n else p"
    have "find_optimal own ds (Suc n) ?p = p'" using "1.prems"(5) True by (simp add: find_optimal.simps [of own ds n p])
    moreover have "\<And>i. ?p = Peer i \<Longrightarrow> i < length ds" using "1.prems"(1) True by (auto split: option.splits if_splits)
    moreover have "sint (load (ds ! j)) \<le> m"
      if "j < Suc n" "j < length ds" "load_of own ds ?p = Some m" for j m
    proof (cases "load_of own ds p")
      case None
      then show ?thesis using that "1.prems"(3) by simp
    next
      case (Some v)
      then have "j < n \<Longrightarrow> sint (load (ds ! j)) \<le> v" using "1.prems"(2) that(2) by blast
      moreover have "j = n \<or> j < n" using that(1) by auto
      ultimately show ?thesis using that(3) Some by (auto split: if_splits)
    qed
    moreover have "load_of own ds ?p = None \<Longrightarrow> Suc n = 0" by (auto split: option.splits if_splits)
    moreover have "\<And>i d. ?p = Peer i \<Longrightarrow> own = Some d \<Longrightarrow> sint (load d) < sint (load (ds ! i))"
      using "1.prems"(4) by (cases p) (auto split: option.splits if_splits intro: less_trans)
    ultimately show ?thesis using "1.IH" [OF True] by blast
  next
    case False
    then have "p' = p" using "1.prems"(5) by (simp add: find_optimal.simps [of own ds n p])
    then show ?thesis using "1.prems"(1,2,4) False by (auto simp: not_less)
  qed
qed


lemma weight_exact:
  assumes "- 1 \<le> sint nice" "sint nice \<le> 19"
  shows "weight_of nice = Ret (2 ^ nat (29 - sint nice))" "sint (2 ^ nat (29 - sint nice) :: s32) = 2 ^ nat (29 - sint nice)"
proof -
  obtain s where s: "19 - sint nice = int s" "s \<le> 20" using assms nonneg_int_cases [of "19 - sint nice"] by auto
  have e: "nat (29 - sint nice) = 10 + s" using s by simp
  have b: "(1024 :: int) * 2 ^ s \<le> 1024 * 2 ^ 20" using s(2) by (intro mult_left_mono power_increasing) auto
  show "weight_of nice = Ret (2 ^ nat (29 - sint nice))"
    using s b by (simp add: weight_of_def e power_add)
  have lo: "- (2 ^ 31) \<le> (2 :: int) ^ (10 + s)" by (rule order_trans [of _ 0]) simp_all
  have hi: "(2 :: int) ^ (10 + s) < 2 ^ 31" using b by (simp add: power_add)
  have "signed_take_bit 31 ((2 :: int) ^ (10 + s)) = 2 ^ (10 + s)"
    by (rule signed_take_bit_int_eq_self [OF lo hi])
  then have "sint (word_of_int (2 ^ (10 + s)) :: s32) = 2 ^ (10 + s)" by (subst signed_of_int) simp
  then show "sint (2 ^ nat (29 - sint nice) :: s32) = 2 ^ nat (29 - sint nice)" by (simp add: e)
qed

lemma weight_undefined: "sint nice < - 1 \<Longrightarrow> \<exists>e. weight_of nice = Fault e"
proof -
  assume "sint nice < - 1"
  then have "21 \<le> nat (19 - sint nice)" by simp
  then have "(1024 :: int) * 2 ^ 21 \<le> 1024 * 2 ^ nat (19 - sint nice)"
    by (intro mult_left_mono power_increasing) auto
  then show ?thesis by (auto simp: weight_of_def Let_def)
qed

lemma refill_repeats:
  "link_opens E \<Longrightarrow> (\<And>q x. push q x = Some (q @ [x])) \<Longrightarrow>
   refill E push t n q = Some (q @ replicate n (traverse t))"
  by (induction n arbitrary: q) (auto simp: traverse_and_queue_def)

text \<open>
  Four processors: the server finds three descriptors, takes the number of the second processor for
  the first one's context id and that of the third for the second one's load.
\<close>

lemma descriptors_misread:
  "read_descriptors (write_descriptors 4) =
     [\<lparr>processor_id = 0, queue_default_refill = 0, load = 0, d_cid = 1\<rparr>,
      \<lparr>processor_id = 0, queue_default_refill = 0, load = 2, d_cid = 0\<rparr>,
      \<lparr>processor_id = 0, queue_default_refill = 3, load = 0, d_cid = 0\<rparr>]"
  by (simp add: write_descriptors_def upt_rec)

section \<open>Properties\<close>

text \<open>
  \<^verbatim>\<open>traverse_and_queue\<close> on a non-empty tree ordered by \<^verbatim>\<open>vruntime\<close> always ends at a thread of the
  tree; it is one of smallest \<^verbatim>\<open>vruntime\<close> when the first node in order has no right child. When it has
  one, and the keys differ, the walk goes past it and the thread chosen has a greater \<^verbatim>\<open>vruntime\<close>, so
  the thread that ran least is passed over. Since the tree is not changed by the choice, one round
  of \<^verbatim>\<open>queue_default_refill\<close> pushes puts the same thread on the shared queue each time.
\<close>

theorem traverse_and_queue_leaf:
  assumes "t \<noteq> Leaf" "sorted_wrt (<) (vruntimes t)"
    and "link_opens E" "\<And>q x. push q x = Some (q @ [x])"
  shows "\<exists>x y r. traverse_and_queue t = (0, Some x) \<and> x \<in> set_tree t \<and> leftmost t = Some (y, r) \<and>
    (\<forall>z \<in> set_tree t. sint (t_vruntime y) \<le> sint (t_vruntime z)) \<and>
    (if r = Leaf then x = y else sint (t_vruntime y) < sint (t_vruntime x)) \<and>
    refill E push t n q = Some (q @ replicate n (Some x))"
proof -
  obtain x where x: "traverse t = Some x" "x \<in> set_tree t" using traverse_total [OF assms(1)] by blast
  obtain y r where y: "leftmost t = Some (y, r)" using leftmost_total [OF assms(1)] by blast
  then obtain rest where i: "inorder t = y # inorder r @ rest" using leftmost_first by blast
  have s: "sorted (vruntimes t)" using assms(2) by (simp add: strict_sorted_iff)
  have min: "\<forall>z \<in> set_tree t. sint (t_vruntime y) \<le> sint (t_vruntime z)"
    using s unfolding i set_inorder [symmetric] by auto
  have "x \<in> set_tree r" "r \<noteq> Leaf \<Longrightarrow> sint (t_vruntime y) < sint (t_vruntime x)" if "r \<noteq> Leaf"
  proof -
    have "traverse r = Some x" using traverse_leftmost [OF s y] x(1) that by simp
    then show "x \<in> set_tree r" using traverse_total [OF that] by auto
    then show "sint (t_vruntime y) < sint (t_vruntime x)"
      using assms(2) unfolding i set_inorder [symmetric] by auto
  qed
  then show ?thesis
    using x y min traverse_leftmost [OF s y] refill_repeats [OF assms(3,4), where t = t and n = n and q = q]
    by (auto simp: traverse_and_queue_def)
qed

definition demo_thread :: "s32 \<Rightarrow> s32 \<Rightarrow> thread" where
  "demo_thread c v = \<lparr>t_cid = c, t_cgroup = 0, t_weight = 1024, t_vruntime = v, t_runtime = 0\<rparr>"

text \<open>Insertion in an ordinary search tree, as an instance of the tree macros.\<close>

fun insert_thread :: "thread \<Rightarrow> thread tree \<Rightarrow> thread tree" where
  "insert_thread x Leaf = Node Leaf x Leaf"
| "insert_thread x (Node l a r) =
     (if sint (t_vruntime x) \<le> sint (t_vruntime a) then Node (insert_thread x l) a r
      else Node l a (insert_thread x r))"

lemma insert_thread_set: "set_tree (insert_thread x t) = insert x (set_tree t)"
  by (induction t) auto

lemma insert_thread_sorted: "sorted (vruntimes t) \<Longrightarrow> sorted (vruntimes (insert_thread x t))"
  by (induction t) (auto simp: sorted_append insert_thread_set)

definition demo_deps :: sched_deps where
  "demo_deps = \<lparr>link_opens = True, thread_alloc = True,
     RB_INSERT = (\<lambda>t x. Some (insert_thread x t)), RB_DELETE = (\<lambda>t x. None), table_search = (\<lambda>_. None)\<rparr>"

lemma demo_deps_laws: "sched_laws demo_deps"
  by (auto simp: sched_laws_def demo_deps_def insert_thread_set insert_thread_sorted)

lemma enqueue_here_forwards: "enqueue_here E t c \<noteq> Ret (Forwarded target, t')"
  by (auto simp: enqueue_here_def Let_def split: option.splits)

theorem traverse_and_queue_leaf_witness:
  "traverse_and_queue (Node Leaf (demo_thread 1 5) (Node Leaf (demo_thread 2 9) Leaf)) = (0, Some (demo_thread 2 9))"
  using traverse_and_queue_leaf [of "Node Leaf (demo_thread 1 5) (Node Leaf (demo_thread 2 9) Leaf)" demo_deps
      "\<lambda>q x. Some (q @ [x])" 1 "[]"]
  by (auto simp: demo_thread_def demo_deps_def)

text \<open>
  C37. \<^verbatim>\<open>notify_enqueue_thread\<close>. Without \<^verbatim>\<open>offload\<close> and for a nice value from -1 to 19 the thread is put
  on the tree with weight \<open>2 ^ (29 - nice)\<close> and zero runtimes; for a nice value below -1 the weight is an
  undefined shift or product, and no thread is queued. With \<^verbatim>\<open>offload\<close> the thread is forwarded only
  to a core whose load is the greatest of all and greater than this core's, although the choice is
  meant to be the least loaded one.
\<close>

theorem notify_enqueue_weight_and_target:
  assumes "sched_laws E" "link_opens E" "thread_alloc E" "sorted (vruntimes t)"
    and "x = \<lparr>t_cid = q_cid c, t_cgroup = q_cgroup c, t_weight = 2 ^ nat (29 - sint (q_nice c)), t_vruntime = 0, t_runtime = 0\<rparr>"
    and "RB_INSERT E t x = Some u"
  shows "(q_offload c = 0 \<and> - 1 \<le> sint (q_nice c) \<and> sint (q_nice c) \<le> 19 \<longrightarrow>
      notify_enqueue_thread E own ds t (Some c) = Ret (Queued, u) \<and> sorted (vruntimes u) \<and>
      set_tree u = insert x (set_tree t) \<and> sint (t_weight x) = 2 ^ nat (29 - sint (q_nice c))) \<and>
    (q_offload c = 0 \<and> sint (q_nice c) < - 1 \<longrightarrow> (\<exists>e. notify_enqueue_thread E own ds t (Some c) = Fault e)) \<and>
    (\<forall>target t'. q_offload c \<noteq> 0 \<and> notify_enqueue_thread E own ds t (Some c) = Ret (Forwarded target, t') \<longrightarrow>
      t' = t \<and> (\<exists>d \<in> set ds. d_cid d = target \<and> (\<forall>d' \<in> set ds. sint (load d') \<le> sint (load d)) \<and>
        (\<forall>d'. own = Some d' \<longrightarrow> sint (load d') < sint (load d))))"
proof (intro conjI impI allI)
  assume "q_offload c = 0 \<and> - 1 \<le> sint (q_nice c) \<and> sint (q_nice c) \<le> 19"
  then show "notify_enqueue_thread E own ds t (Some c) = Ret (Queued, u)" "sorted (vruntimes u)"
      "set_tree u = insert x (set_tree t)" "sint (t_weight x) = 2 ^ nat (29 - sint (q_nice c))"
    using assms weight_exact [of "q_nice c"]
    by (auto simp: notify_enqueue_thread_def enqueue_here_def sched_laws_def)
next
  assume "q_offload c = 0 \<and> sint (q_nice c) < - 1"
  then show "\<exists>e. notify_enqueue_thread E own ds t (Some c) = Fault e"
    using assms(3) weight_undefined [of "q_nice c"] by (auto simp: notify_enqueue_thread_def enqueue_here_def)
next
  fix target t'
  assume f: "q_offload c \<noteq> 0 \<and> notify_enqueue_thread E own ds t (Some c) = Ret (Forwarded target, t')"
  obtain i where i: "find_optimal own ds 0 Own = Peer i" "target = d_cid (ds ! i)" "t' = t"
    using f assms(2) enqueue_here_forwards [of E t c target t']
    by (auto simp: notify_enqueue_thread_def split: pick.splits)
  then show "t' = t" by simp
  have "i < length ds \<and> (\<forall>j < length ds. sint (load (ds ! j)) \<le> sint (load (ds ! i))) \<and>
      (\<forall>d. own = Some d \<longrightarrow> sint (load d) < sint (load (ds ! i)))"
    using find_optimal_max [of Own ds 0 own "Peer i"] i(1) by simp
  then show "\<exists>d \<in> set ds. d_cid d = target \<and> (\<forall>d' \<in> set ds. sint (load d') \<le> sint (load d)) \<and>
        (\<forall>d'. own = Some d' \<longrightarrow> sint (load d') < sint (load d))"
    by (intro bexI [of _ "ds ! i"]) (auto simp: i(2) in_set_conv_nth)
qed

theorem notify_enqueue_weight_and_target_witness:
  "notify_enqueue_thread demo_deps None [] Leaf (Some \<lparr>q_cid = 3, q_cgroup = 0, q_nice = 0, q_offload = 0\<rparr>) =
     Ret (Queued, Node Leaf \<lparr>t_cid = 3, t_cgroup = 0, t_weight = 2 ^ 29, t_vruntime = 0, t_runtime = 0\<rparr> Leaf)"
  using notify_enqueue_weight_and_target [of demo_deps Leaf
      "\<lparr>t_cid = 3, t_cgroup = 0, t_weight = 2 ^ 29, t_vruntime = 0, t_runtime = 0\<rparr>"
      "\<lparr>q_cid = 3, q_cgroup = 0, q_nice = 0, q_offload = 0\<rparr>"
      "Node Leaf \<lparr>t_cid = 3, t_cgroup = 0, t_weight = 2 ^ 29, t_vruntime = 0, t_runtime = 0\<rparr> Leaf" None "[]"]
    demo_deps_laws
  by (auto simp: demo_deps_def)

end
