(* ===== verification/Elf.thy ===== *)
theory Elf
  imports Vmm Bytes
begin

unbundle bit_operations_syntax

text \<open>
  The ELF loader, \<^verbatim>\<open>kernel/core/elf.c\<close>. A file is the list of its bytes; the packed headers are
  records decoded from little-endian fields. \<^verbatim>\<open>memcpy\<close> into the direct map comes from \<open>fayt\<close> and is an
  argument whose law (\<open>memcpy_law\<close>) speaks of the bytes of the memory cells. Page counts are taken as
  they are computed; the \<^verbatim>\<open>int\<close> loop counters of the source hold them up to 2 GiB pages.
\<close>

section \<open>Headers\<close>

record elf64_hdr =
  ident :: "u8 list"
  e_type :: u16
  machine :: u16
  e_version :: u32
  e_entry :: u64
  phoff :: u64
  shoff :: u64
  e_flags :: u32
  hdr_size :: u16
  phdr_size :: u16
  ph_num :: u16
  shdr_size :: u16
  sh_num :: u16
  shstrndx :: u16

record elf64_phdr =
  p_type :: u32
  p_flags :: u32
  p_offset :: u64
  p_vaddr :: u64
  p_paddr :: u64
  p_filesz :: u64
  p_memsz :: u64
  p_align :: u64

record elf64_shdr =
  sh_name :: u32
  sh_type :: u32
  sh_flags :: u64
  sh_addr :: u64
  sh_offset :: u64
  sh_size :: u64
  sh_link :: u32
  sh_info :: u32
  sh_addr_align :: u64
  sh_entsize :: u64

record aux =
  at_phnum :: u64
  at_phent :: u64
  at_phdr :: u64
  at_entry :: u64

record elf64_file =
  hdr :: elf64_hdr
  phdr :: "elf64_phdr list"
  shdr :: "elf64_shdr list"
  strtab :: "u8 list"
  data_buffer :: "u8 list option"
  data_length :: s32
  load_offset :: u64

definition parse_hdr :: "u8 list \<Rightarrow> elf64_hdr" where
  "parse_hdr bs = \<lparr>ident = take 16 bs, e_type = field 16 2 bs, machine = field 18 2 bs, e_version = field 20 4 bs,
     e_entry = field 24 8 bs, phoff = field 32 8 bs, shoff = field 40 8 bs, e_flags = field 48 4 bs,
     hdr_size = field 52 2 bs, phdr_size = field 54 2 bs, ph_num = field 56 2 bs, shdr_size = field 58 2 bs,
     sh_num = field 60 2 bs, shstrndx = field 62 2 bs\<rparr>"

definition parse_phdr :: "u8 list \<Rightarrow> elf64_phdr" where
  "parse_phdr bs = \<lparr>p_type = field 0 4 bs, p_flags = field 4 4 bs, p_offset = field 8 8 bs, p_vaddr = field 16 8 bs,
     p_paddr = field 24 8 bs, p_filesz = field 32 8 bs, p_memsz = field 40 8 bs, p_align = field 48 8 bs\<rparr>"

definition parse_shdr :: "u8 list \<Rightarrow> elf64_shdr" where
  "parse_shdr bs = \<lparr>sh_name = field 0 4 bs, sh_type = field 4 4 bs, sh_flags = field 8 8 bs, sh_addr = field 16 8 bs,
     sh_offset = field 24 8 bs, sh_size = field 32 8 bs, sh_link = field 40 4 bs, sh_info = field 44 4 bs,
     sh_addr_align = field 48 8 bs, sh_entsize = field 56 8 bs\<rparr>"

definition parse_array :: "(u8 list \<Rightarrow> 'a) \<Rightarrow> nat \<Rightarrow> nat \<Rightarrow> u8 list \<Rightarrow> 'a list" where
  "parse_array parse sz n bs = map (\<lambda>i. parse (take sz (drop (i * sz) bs))) [0..<n]"

section \<open>Reading\<close>

text \<open>
  The requested end is computed in 64 bits, the number of bytes to copy is an \<^verbatim>\<open>int\<close>; a copy that is
  negative or leaves the file is undefined.
\<close>

definition elf64_read :: "elf64_file \<Rightarrow> s32 \<Rightarrow> u64 \<Rightarrow> (s32 \<times> u8 list) outcome" where
  "elf64_read f offset cnt =
     (case data_buffer f of
        None \<Rightarrow> Ret (- 1, [])
      | Some bs \<Rightarrow>
          if sint (data_length f) < sint offset then Ret (0, [])
          else
            let n = (if (scast (data_length f) :: u64) < scast offset + cnt then data_length f - offset else ucast cnt) in
            if sint n < 0 \<or> sint offset < 0 \<or> int (length bs) < sint offset + sint n then Fault OutOfBounds
            else Ret (n, take (nat (sint n)) (drop (nat (sint offset)) bs)))"

definition read_exact :: "elf64_file \<Rightarrow> u64 \<Rightarrow> u64 \<Rightarrow> (u8 list option) outcome" where
  "read_exact f offset cnt =
     obind (elf64_read f (ucast offset) cnt) (\<lambda>(ret, bs). Ret (if scast ret = cnt then Some bs else None))"

section \<open>Validation and set-up\<close>

definition elf64_validate :: "elf64_hdr \<Rightarrow> s32" where
  "elf64_validate h =
     (if le (take 4 (ident h)) \<noteq> 0x464C457F then - 1
      else if ident h ! 7 \<noteq> 0 \<and> ident h ! 7 \<noteq> 3 then - 1
      else if ident h ! 5 \<noteq> 1 then - 1
      else if ident h ! 4 \<noteq> 2 then - 1
      else if machine h \<noteq> 0x3e \<and> machine h \<noteq> 0 then - 1
      else 0)"

definition elf64_file_init :: "elf64_file \<Rightarrow> (s32 \<times> elf64_file) outcome" where
  "elf64_file_init f =
     obind (read_exact f 0 64) (\<lambda>r. case r of None \<Rightarrow> Ret (- 1, f) | Some bs \<Rightarrow>
     let f = f\<lparr>hdr := parse_hdr bs\<rparr> in
     obind (read_exact f (shoff (hdr f)) (64 * ucast (sh_num (hdr f)))) (\<lambda>r. case r of None \<Rightarrow> Ret (- 1, f) | Some bs \<Rightarrow>
     let f = f\<lparr>shdr := parse_array parse_shdr 64 (unat (sh_num (hdr f))) bs\<rparr> in
     if elf64_validate (hdr f) = - 1 then Ret (- 1, f)
     else obind (read_exact f (phoff (hdr f)) (56 * ucast (ph_num (hdr f)))) (\<lambda>r. case r of None \<Rightarrow> Ret (- 1, f) | Some bs \<Rightarrow>
     let f = f\<lparr>phdr := parse_array parse_phdr 56 (unat (ph_num (hdr f))) bs\<rparr> in
     if length (shdr f) \<le> unat (shstrndx (hdr f)) then Fault OutOfBounds
     else let h = shdr f ! unat (shstrndx (hdr f)) in
     obind (read_exact f (sh_offset h) (sh_size h)) (\<lambda>r. case r of None \<Rightarrow> Ret (- 1, f) | Some bs \<Rightarrow>
     Ret (0, f\<lparr>strtab := bs\<rparr>)))))"

definition elf64_file_aux :: "elf64_file \<Rightarrow> aux" where
  "elf64_file_aux f =
     foldl (\<lambda>a p. if p_type p = 6 then a\<lparr>at_phdr := load_offset f + p_vaddr p\<rparr> else a)
       \<lparr>at_phnum = ucast (ph_num (hdr f)), at_phent = 56, at_phdr = 0, at_entry = load_offset f + e_entry (hdr f)\<rparr>
       (phdr f)"

section \<open>Loading\<close>

definition load_flags :: "u64 \<Rightarrow> u64" where
  "load_flags fl =
     (let flags = X86_FLAGS_P OR X86_FLAGS_US OR X86_FLAGS_NX;
          flags = (if fl AND 2 \<noteq> 0 then flags OR X86_FLAGS_RW else flags)
      in if fl AND 4 \<noteq> 0 then flags AND NOT X86_FLAGS_NX else flags)"

definition load_page_cnt :: "'l fayt \<Rightarrow> u64 \<Rightarrow> u64 \<Rightarrow> u64" where
  "load_page_cnt F misalignment sz =
     (let page_cnt = DIV_ROUNDUP F (misalignment + sz) PAGE_SIZE in
      if misalignment + sz > (sz + PAGE_SIZE - 1) AND NOT (PAGE_SIZE - 1) then page_cnt + 1 else page_cnt)"

fun load_pages ::
  "'l fayt \<Rightarrow> 'l kstate \<Rightarrow> 'l page_table \<Rightarrow> u64 \<Rightarrow> u64 \<Rightarrow> nat \<Rightarrow> (u64 list \<times> 'l page_table \<times> 'l kstate) outcome" where
  "load_pages F s pt virtual flags 0 = Ret ([], pt, s)"
| "load_pages F s pt virtual flags (Suc n) =
     obind (pmm_alloc F s 1 1) (\<lambda>(a, s).
     obind (map_page F s pt virtual a flags) (\<lambda>(_, pt, s).
     obind (load_pages F s pt (virtual + PAGE_SIZE) flags n) (\<lambda>(as, pt, s).
     Ret (a # as, pt, s))))"

definition section_named :: "elf64_file \<Rightarrow> elf64_shdr \<Rightarrow> u8 list \<Rightarrow> bool outcome" where
  "section_named f sh name =
     (let i = unat (sh_name sh) in
      if length (strtab f) < i + length name then Fault OutOfBounds
      else Ret (take (length name) (drop i (strtab f)) = name))"

fun load_section_from ::
  "'l fayt \<Rightarrow> elf64_file \<Rightarrow> 'l kstate \<Rightarrow> 'l page_table \<Rightarrow> u8 list \<Rightarrow> elf64_shdr list \<Rightarrow>
   ('l page_table \<times> 'l kstate) outcome" where
  "load_section_from F f s pt name [] = Ret (pt, s)"
| "load_section_from F f s pt name (sh # shs) =
     obind (section_named f sh name) (\<lambda>b.
     if b then
       let misalignment = sh_addr sh AND (PAGE_SIZE - 1);
           page_cnt = load_page_cnt F misalignment (sh_size sh) in
       if page_cnt = 0 then load_section_from F f s pt name shs
       else obind (load_pages F s pt (sh_addr sh + load_offset f - misalignment) (load_flags (sh_flags sh)) (unat page_cnt))
         (\<lambda>(_, pt, s). Ret (pt, s))
     else load_section_from F f s pt name shs)"

definition elf64_load_section ::
  "'l fayt \<Rightarrow> elf64_file \<Rightarrow> 'l kstate \<Rightarrow> 'l page_table \<Rightarrow> u8 list \<Rightarrow> ('l page_table \<times> 'l kstate) outcome" where
  "elf64_load_section F f s pt name = load_section_from F f s pt name (shdr f)"

type_synonym memcpy_fn = "u64 \<Rightarrow> u8 list \<Rightarrow> cells \<Rightarrow> cells"

definition page_bytes :: "elf64_phdr \<Rightarrow> nat \<Rightarrow> u64 outcome" where
  "page_bytes p j =
     (if PAGE_SIZE + of_nat j * PAGE_SIZE > p_filesz p
      then if of_nat j * PAGE_SIZE = 0 then Fault DivideByZero else Ret (p_filesz p mod (of_nat j * PAGE_SIZE))
      else Ret PAGE_SIZE)"

fun fill_pages :: "memcpy_fn \<Rightarrow> elf64_file \<Rightarrow> elf64_phdr \<Rightarrow> u64 \<Rightarrow> 'l kstate \<Rightarrow> nat \<Rightarrow> u64 list \<Rightarrow> 'l kstate outcome" where
  "fill_pages memcpy f p misalignment s j [] = Ret s"
| "fill_pages memcpy f p misalignment s j (a # as) =
     obind (page_bytes p j) (\<lambda>cnt.
     let skip = (if j = 0 then misalignment else 0) in
     obind (elf64_read f (ucast (p_offset p + of_nat j * PAGE_SIZE)) (cnt - skip)) (\<lambda>(_, bs).
     fill_pages memcpy f p misalignment (s\<lparr>memory := memcpy (a + HIGH_VMA s + skip) bs (memory s)\<rparr>) (Suc j) as))"

definition load_segment ::
  "'l fayt \<Rightarrow> memcpy_fn \<Rightarrow> elf64_file \<Rightarrow> 'l kstate \<Rightarrow> 'l page_table \<Rightarrow> elf64_phdr \<Rightarrow> ('l page_table \<times> 'l kstate) outcome" where
  "load_segment F memcpy f s pt p =
     (let misalignment = p_vaddr p AND (PAGE_SIZE - 1);
          page_cnt = load_page_cnt F misalignment (p_filesz p) in
      if page_cnt = 0 then Ret (pt, s)
      else obind (load_pages F s pt (p_vaddr p + load_offset f - misalignment) (load_flags (ucast (p_flags p))) (unat page_cnt))
        (\<lambda>(as, pt, s). obind (fill_pages memcpy f p misalignment s 0 as) (\<lambda>s. Ret (pt, s))))"

fun load_segments ::
  "'l fayt \<Rightarrow> memcpy_fn \<Rightarrow> elf64_file \<Rightarrow> 'l kstate \<Rightarrow> 'l page_table \<Rightarrow> elf64_phdr list \<Rightarrow> ('l page_table \<times> 'l kstate) outcome" where
  "load_segments F memcpy f s pt [] = Ret (pt, s)"
| "load_segments F memcpy f s pt (p # ps) =
     (if p_type p \<noteq> 1 then load_segments F memcpy f s pt ps
      else obind (load_segment F memcpy f s pt p) (\<lambda>(pt, s). load_segments F memcpy f s pt ps))"

text \<open>The name \<^verbatim>\<open>.bss\<close>.\<close>

definition elf64_file_load ::
  "'l fayt \<Rightarrow> memcpy_fn \<Rightarrow> elf64_file \<Rightarrow> 'l kstate \<Rightarrow> 'l page_table \<Rightarrow> (s32 \<times> 'l page_table \<times> 'l kstate) outcome" where
  "elf64_file_load F memcpy f s pt =
     obind (elf64_load_section F f s pt [0x2e, 0x62, 0x73, 0x73]) (\<lambda>(pt, s).
     obind (load_segments F memcpy f s pt (phdr f)) (\<lambda>(pt, s). Ret (0, pt, s)))"


section \<open>The pages of a segment\<close>

context frame_budget
begin

lemma load_pages_apart:
  assumes "tables_apart F m D s pt" "budget s (n * Suc (levels m) + k)" "map_flags f" "\<not> huge f"
    "small_range (view m s pt) v 0x1000 n"
  shows "\<exists>as pt' s'. load_pages F s pt v f n = Ret (as, pt', s') \<and> tables_apart F m (D \<union> set as) s' pt' \<and>
    budget s' k \<and> HIGH_VMA s' = HIGH_VMA s \<and> length as = n \<and> distinct as \<and>
    set as \<inter> pmm_owned F s = {} \<and> pmm_owned F s \<subseteq> pmm_owned F s' \<and> (\<forall>a \<in> set as. 4096 dvd unat a) \<and>
    view m s' pt' = fresh_view (vpn m) 0x1000 f as v (view m s pt) \<and> agree_on D s s' \<and> (\<forall>a \<in> set as. zero_frame s' a)"
  using assms
proof (induction n arbitrary: s pt v D)
  case 0
  then show ?case by auto
next
  case (Suc n)
  have room: "budget s (Suc (levels m + (n * Suc (levels m) + k)))"
    using Suc.prems(2) by (simp add: algebra_simps)
  obtain a s1 where a: "pmm_alloc F s 1 1 = Ret (a, s1)" "tables_apart F m (insert a D) s1 pt" "a \<notin> pmm_owned F s"
    "pmm_owned F s1 = insert a (pmm_owned F s)" "budget s1 (levels m + (n * Suc (levels m) + k))"
    "HIGH_VMA s1 = HIGH_VMA s" "4096 dvd unat a" "agree_on D s s1" "zero_frame s1 a" and v1: "\<forall>w. view m s1 pt w = view m s pt w"
    using apart_alloc [OF Suc.prems(1) room] by blast
  have sm: "\<not> huge e" if "view m s1 pt v = Some e" for e
    using small_range_first [OF Suc.prems(5)] that v1 by simp
  obtain r pt2 s2 where mp: "map_page F s1 pt v a f = Ret (Some r, pt2, s2)" "tables_apart F m (insert a D) s2 pt2"
    "budget s2 (n * Suc (levels m) + k)" "pmm_owned F s1 \<subseteq> pmm_owned F s2" "HIGH_VMA s2 = HIGH_VMA s1"
    "agree_on (insert a D) s1 s2" and vw: "\<forall>w. view m s2 pt2 w = (if vpn m w = vpn m v then Some (a OR f) else view m s1 pt w)"
    using apart_map [OF a(2,5) Suc.prems(3,4), of v a] sm by blast
  have vw': "view m s2 pt2 = map_view (vpn m) v (a OR f) (view m s pt)"
    using vw v1 by (auto simp: map_view_def)
  have "small_range (view m s2 pt2) (v + 0x1000) 0x1000 n"
    unfolding vw' using Suc.prems(4,5) aligned_not_huge [OF a(7)]
    by (intro small_range_map) (simp_all add: huge_or)
  then obtain as pt' s' where ih: "load_pages F s2 pt2 (v + 0x1000) f n = Ret (as, pt', s')"
    "tables_apart F m (insert a D \<union> set as) s' pt'" "budget s' k" "HIGH_VMA s' = HIGH_VMA s2"
    "length as = n" "distinct as" "set as \<inter> pmm_owned F s2 = {}" "pmm_owned F s2 \<subseteq> pmm_owned F s'"
    "\<forall>b \<in> set as. 4096 dvd unat b" "agree_on (insert a D) s2 s'" "\<forall>b \<in> set as. zero_frame s' b" "view m s' pt' = fresh_view (vpn m) 0x1000 f as (v + 0x1000) (view m s2 pt2)"
    using Suc.IH [OF mp(2,3) Suc.prems(3,4), of "v + 0x1000"] by blast
  have "a \<notin> set as" "set as \<inter> pmm_owned F s = {}" using ih(7) a(4) mp(4) by auto
  moreover have "insert a D \<union> set as = D \<union> set (a # as)" by auto
  moreover have "load_pages F s pt v f (Suc n) = Ret (a # as, pt', s')" using a(1) mp(1) ih(1) by simp
  moreover have "pmm_owned F s \<subseteq> pmm_owned F s'" using a(4) mp(4) ih(8) by auto
  moreover have ag: "agree_on (insert a D) s1 s'" by (rule agree_on_trans [OF mp(6) ih(10)]) simp
  moreover have "agree_on D s s'" by (rule agree_on_trans [OF a(8) ag]) auto
  moreover have "zero_frame s' a" by (rule zero_frame_agree [OF a(9) ag]) simp
  ultimately show ?case
    using ih a(3,6,7) mp(5) vw' by (intro exI [of _ "a # as"] exI [of _ pt'] exI [of _ s']) auto
qed

end

section \<open>Bytes of the memory cells\<close>

definition cell_byte :: "cells \<Rightarrow> u64 \<Rightarrow> u8" where
  "cell_byte c a = ucast (drop_bit (8 * (unat a mod 8)) (c (a - of_nat (unat a mod 8))))"

definition memcpy_law :: "memcpy_fn \<Rightarrow> bool" where
  "memcpy_law memcpy \<longleftrightarrow> (\<forall>d bs c x. cell_byte (memcpy d bs c) x =
     (if unat (x - d) < length bs then bs ! unat (x - d) else cell_byte c x))"

lemma unat_plus_small:
  fixes x :: u64
  assumes "2 ^ b dvd unat x" "k < 2 ^ b" "b < 64"
  shows "unat (x + of_nat k) = unat x + k"
proof -
  have "(2::nat) ^ b dvd 2 ^ 64" using assms(3) by (intro le_imp_power_dvd) simp
  then obtain q where q: "(2::nat) ^ 64 = 2 ^ b * q" by (elim dvdE)
  obtain r where r: "unat x = 2 ^ b * r" using assms(1) by (elim dvdE)
  have "2 ^ b * r < 2 ^ b * q" using u64_unat_bound [of x] r q by simp
  then have "Suc r \<le> q" by simp
  then have "2 ^ b * Suc r \<le> 2 ^ b * q" by (rule mult_le_mono2)
  then have "unat x + k < 2 ^ 64" using r q assms(2) by simp
  then show ?thesis by (subst unat_add_exact) (simp_all add: unat_of_nat_u64)
qed

lemma cell_byte_at: "8 dvd unat x \<Longrightarrow> k < 8 \<Longrightarrow> cell_byte c (x + of_nat k) = ucast (drop_bit (8 * k) (c x))"
  using unat_plus_small [of 3 x k] by (auto simp: cell_byte_def elim!: dvdE)

lemma cell_eq:
  assumes "8 dvd unat x" "\<And>k. k < 8 \<Longrightarrow> cell_byte c (x + of_nat k) = cell_byte c' (x + of_nat k)"
  shows "c x = c' x"
proof (rule bit_word_eqI)
  fix n assume "n < LENGTH(64)"
  then have k: "n div 8 < 8" by simp
  have b: "bit (cell_byte d (x + of_nat (n div 8))) (n mod 8) = bit (d x) n" for d
    using cell_byte_at [OF assms(1) k, of d] by (simp add: bit_simps)
  show "bit (c x) n = bit (c' x) n" using assms(2) [OF k] b [of c] b [of c'] by simp
qed

text \<open>Distinct frames do not share an address of the direct map.\<close>

lemma frames_apart:
  fixes a b :: u64
  assumes "4096 dvd unat a" "4096 dvd unat b" "a \<noteq> b" "i < 4096"
  shows "4096 \<le> unat (a + h + of_nat i - (b + h))"
proof -
  have d: "4096 dvd unat (a - b)" using dvd_unat_sub [of 12 a b] assms(1,2) by simp
  have "unat (a - b) \<noteq> 0" using assms(3) by (simp add: unat_eq_zero)
  then have "4096 \<le> unat (a - b)" using d by (auto dest: dvd_imp_le)
  moreover have "unat (a - b + of_nat i) = unat (a - b) + i" using unat_plus_small [of 12 "a - b" i] d assms(4) by simp
  moreover have e: "a + h + of_nat i - (b + h) = a - b + of_nat i" by simp
  ultimately show ?thesis unfolding e by linarith
qed


section \<open>Reading whole ranges\<close>

definition file_of :: "elf64_file \<Rightarrow> u8 list \<Rightarrow> bool" where
  "file_of f bs \<longleftrightarrow> data_buffer f = Some bs \<and> data_length f = of_nat (length bs) \<and> length bs < 2 ^ 31"

lemma sint_of_nat: "n < 2 ^ 31 \<Longrightarrow> sint (of_nat n :: s32) = int n"
proof -
  assume n: "n < 2 ^ 31"
  then have "signed_take_bit 31 (int n) = int n" by (intro signed_take_bit_int_eq_self) auto
  then show ?thesis by (subst of_int_of_nat_eq [symmetric], subst signed_of_int) simp
qed

lemma scast_of_nat: "n < 2 ^ 31 \<Longrightarrow> (scast (of_nat n :: s32) :: u64) = of_nat n"
  by (simp only: scast_eq sint_of_nat) simp

text \<open>Whatever is asked for, a read returns exactly the bytes of the file in that range.\<close>

lemma ucast_of_nat_s32: "c < 2 ^ 64 \<Longrightarrow> (ucast (of_nat c :: u64) :: s32) = of_nat c"
  by (simp add: unsigned_of_nat take_bit_nat_eq_self)

lemma elf64_read_range:
  assumes f: "file_of f bs" and o: "q < 2 ^ 31" "c < 2 ^ 63"
  shows "elf64_read f (of_nat q) (of_nat c) =
    Ret (of_nat (length (take c (drop q bs))), take c (drop q bs))"
proof (cases "length bs < q")
  case True
  then show ?thesis using f o by (simp add: elf64_read_def file_of_def sint_of_nat)
next
  case False
  define n where "n = length (take c (drop q bs))"
  have L: "length bs < 2 ^ 31" and d: "data_buffer f = Some bs" "data_length f = of_nat (length bs)"
    using f by (simp_all add: file_of_def)
  have n: "n = (if length bs < q + c then length bs - q else c)" using False by (auto simp: n_def)
  have lt: "(of_nat (length bs) :: u64) < of_nat q + of_nat c \<longleftrightarrow> length bs < q + c"
  proof -
    have "unat (of_nat q + of_nat c :: u64) = q + c" using o by (subst unat_add_exact) (simp_all add: unat_of_nat_u64)
    moreover have "unat (of_nat (length bs) :: u64) = length bs" using L by (simp add: unat_of_nat_u64)
    ultimately show ?thesis by (simp add: word_less_nat_alt)
  qed
  have w: "(if (scast (data_length f) :: u64) < scast (of_nat q :: s32) + of_nat c then data_length f - of_nat q
      else ucast (of_nat c :: u64)) = (of_nat n :: s32)"
    using L o(1) lt False unfolding d(2) n by (simp add: scast_of_nat of_nat_diff ucast_of_nat_s32)
  have nb: "n < 2 ^ 31" "q + n \<le> length bs" using L False unfolding n by auto
  have "take n (drop q bs) = take c (drop q bs)" using False unfolding n by auto
  then show ?thesis
    using False nb o(1) L d(1) unfolding elf64_read_def Let_def w
    by (simp add: d(2) sint_of_nat) (simp add: n_def)
qed


section \<open>Filling the pages of a segment\<close>

lemma page_bytes_exact:
  assumes "unat (p_filesz p) = fz" "4096 \<le> fz" "4096 * j < fz" "fz < 2 ^ 31"
  shows "page_bytes p j = Ret (of_nat (min 4096 (fz - 4096 * j)))"
proof -
  have j: "unat (of_nat j * PAGE_SIZE :: u64) = 4096 * j"
    using assms(3,4) by (subst unat_mult_exact) (simp_all add: unat_of_nat_u64)
  have t: "unat (PAGE_SIZE + of_nat j * PAGE_SIZE) = 4096 + 4096 * j"
    using assms(3,4) j by (subst unat_add_exact) simp_all
  have gt: "PAGE_SIZE + of_nat j * PAGE_SIZE > p_filesz p \<longleftrightarrow> fz < 4096 + 4096 * j"
    using t assms(1) by (simp add: word_less_nat_alt)
  show ?thesis
  proof (cases "fz < 4096 + 4096 * j")
    case True
    then have "0 < j" using assms(2) by (cases j) auto
    then have z: "of_nat j * PAGE_SIZE \<noteq> (0 :: u64)" using j by (metis mult_is_0 neq0_conv unsigned_0 zero_neq_numeral)
    have "fz mod (4096 * j) = fz - 4096 * j"
      using True assms(3) \<open>0 < j\<close> by (simp add: le_mod_geq)
    then have "unat (p_filesz p mod (of_nat j * PAGE_SIZE)) = fz - 4096 * j"
      using assms(1) j by (simp add: unat_mod)
    then have "p_filesz p mod (of_nat j * PAGE_SIZE) = of_nat (fz - 4096 * j)"
      using assms(4) by (intro word_eq_of_unat) (simp add: unat_of_nat_u64)
    then show ?thesis using gt True z by (simp add: page_bytes_def min_def)
  next
    case False
    then show ?thesis using gt by (simp add: page_bytes_def)
  qed
qed

text \<open>One page of a segment: its part of the file is copied to its frame, and nothing else.\<close>

lemma fill_page_step:
  assumes mc: "memcpy_law memcpy" and f: "file_of f bs" "unat (p_filesz p) = fz" "4096 \<le> fz" "unat (p_offset p) = off" "off + fz \<le> length bs"
    and jf: "4096 * j < fz" and n: "n = min 4096 (fz - 4096 * j)"
  shows "\<exists>c. fill_pages memcpy f p 0 s j (a # as) = fill_pages memcpy f p 0 (s\<lparr>memory := c\<rparr>) (Suc j) as \<and>
    (\<forall>i < n. cell_byte c (a + HIGH_VMA s + of_nat i) = bs ! (off + 4096 * j + i)) \<and>
    (\<forall>x. n \<le> unat (x - (a + HIGH_VMA s)) \<longrightarrow> cell_byte c x = cell_byte (memory s) x)"
proof -
  have L: "length bs < 2 ^ 31" using f(1) by (simp add: file_of_def)
  define chunk where "chunk = take n (drop (off + 4096 * j) bs)"
  have ln: "length chunk = n" "n \<le> 4096" using f(5) jf by (simp_all add: chunk_def n)
  have "unat (p_offset p + of_nat j * PAGE_SIZE) = off + 4096 * j"
    using f(4,5) jf L by (subst unat_add_exact) (auto simp: unat_mult_exact unat_of_nat_u64)
  then have po: "p_offset p + of_nat j * PAGE_SIZE = of_nat (off + 4096 * j)"
    using f(5) jf L by (intro word_eq_of_unat) (subst unat_of_nat_u64, auto)
  have rd: "elf64_read f (ucast (p_offset p + of_nat j * PAGE_SIZE)) (of_nat n) = Ret (of_nat n, chunk)"
    using elf64_read_range [OF f(1), of "off + 4096 * j" n] f(5) jf L ln
    unfolding po by (subst ucast_of_nat_s32) (auto simp: chunk_def n)
  have "page_bytes p j = Ret (of_nat n)" using page_bytes_exact [OF f(2,3) jf] f(5) L by (simp add: n)
  then have "fill_pages memcpy f p 0 s j (a # as) = fill_pages memcpy f p 0 (s\<lparr>memory := memcpy (a + HIGH_VMA s) chunk (memory s)\<rparr>) (Suc j) as"
    using rd by simp
  moreover have c: "cell_byte (memcpy (a + HIGH_VMA s) chunk (memory s)) x = (if unat (x - (a + HIGH_VMA s)) < n
      then chunk ! unat (x - (a + HIGH_VMA s)) else cell_byte (memory s) x)" for x
    using mc ln by (simp add: memcpy_law_def)
  moreover have "chunk ! i = bs ! (off + 4096 * j + i)" if "i < n" for i using that ln f(5) jf by (simp add: chunk_def n)
  ultimately show ?thesis using ln(2) by (intro exI [of _ "memcpy (a + HIGH_VMA s) chunk (memory s)"]) (simp add: unat_of_nat_u64)
qed

lemma fill_pages_exact:
  assumes "memcpy_law memcpy" "file_of f bs" "unat (p_filesz p) = fz" "4096 \<le> fz" "unat (p_offset p) = off"
    "off + fz \<le> length bs"
    and "4096 * (j + length as) < fz + 4096" "\<forall>a \<in> set as. 4096 dvd unat a" "distinct as"
  shows "\<exists>c. fill_pages memcpy f p 0 s j as = Ret (s\<lparr>memory := c\<rparr>) \<and>
    (\<forall>k < length as. \<forall>i < min 4096 (fz - 4096 * (j + k)).
       cell_byte c (as ! k + HIGH_VMA s + of_nat i) = bs ! (off + 4096 * (j + k) + i)) \<and>
    (\<forall>x. (\<forall>a \<in> set as. 4096 \<le> unat (x - (a + HIGH_VMA s))) \<longrightarrow> cell_byte c x = cell_byte (memory s) x)"
  using assms(7-9)
proof (induction as arbitrary: j s)
  case Nil
  then show ?case by (intro exI [of _ "memory s"]) simp
next
  case (Cons a as)
  define n where "n = min 4096 (fz - 4096 * j)"
  have jf: "4096 * j < fz" using Cons.prems(1) by simp
  obtain c1 where 1: "fill_pages memcpy f p 0 s j (a # as) = fill_pages memcpy f p 0 (s\<lparr>memory := c1\<rparr>) (Suc j) as"
    "\<forall>i < n. cell_byte c1 (a + HIGH_VMA s + of_nat i) = bs ! (off + 4096 * j + i)"
    "\<forall>x. n \<le> unat (x - (a + HIGH_VMA s)) \<longrightarrow> cell_byte c1 x = cell_byte (memory s) x"
    using fill_page_step [OF assms(1-6) jf n_def, of s a as] by blast
  obtain c where c: "fill_pages memcpy f p 0 (s\<lparr>memory := c1\<rparr>) (Suc j) as = Ret (s\<lparr>memory := c\<rparr>)"
    and in_as: "\<forall>k < length as. \<forall>i < min 4096 (fz - 4096 * (Suc j + k)).
       cell_byte c (as ! k + HIGH_VMA s + of_nat i) = bs ! (off + 4096 * (Suc j + k) + i)"
    and out: "\<forall>x. (\<forall>a \<in> set as. 4096 \<le> unat (x - (a + HIGH_VMA s))) \<longrightarrow> cell_byte c x = cell_byte c1 x"
    using Cons.IH [of "Suc j" "s\<lparr>memory := c1\<rparr>"] Cons.prems by auto
  have here: "cell_byte c (a + HIGH_VMA s + of_nat i) = bs ! (off + 4096 * j + i)" if "i < n" for i
  proof -
    have "\<forall>b \<in> set as. 4096 \<le> unat (a + HIGH_VMA s + of_nat i - (b + HIGH_VMA s))"
      using Cons.prems(2,3) that by (intro ballI frames_apart) (auto simp: n_def)
    then show ?thesis using out 1(2) that by simp
  qed
  have all: "cell_byte c ((a # as) ! k + HIGH_VMA s + of_nat i) = bs ! (off + 4096 * (j + k) + i)"
    if "k < length (a # as)" "i < min 4096 (fz - 4096 * (j + k))" for k i
    using here in_as that by (cases k) (simp_all add: n_def)
  have "cell_byte c x = cell_byte (memory s) x" if "\<forall>b \<in> set (a # as). 4096 \<le> unat (x - (b + HIGH_VMA s))" for x
    using out that 1(3) [rule_format, of x] by (simp add: n_def min_le_iff_disj)
  then show ?case
    using 1(1) c all by (intro exI [of _ c]) simp
qed


text \<open>Writing into the frames of \<open>E\<close> changes no other frame, so no table and no translation.\<close>

lemma data_write_agree:
  assumes A: "frames_aligned A s" and E: "\<forall>a \<in> E. 4096 dvd unat a" "A \<inter> E = {}"
    and out: "\<forall>x. (\<forall>a \<in> E. 4096 \<le> unat (x - (a + HIGH_VMA s))) \<longrightarrow> cell_byte c x = cell_byte (memory s) x"
  shows "agree_on A s (s\<lparr>memory := c\<rparr>)"
proof -
  have "pml_read (s\<lparr>memory := c\<rparr>) t i = pml_read s t i" if t: "t - HIGH_VMA s \<in> A" and i: "i < 512" for t i
  proof -
    define b where "b = t - HIGH_VMA s"
    have b: "4096 dvd unat b" using A t by (simp add: b_def frames_aligned_def)
    have ta: "4096 dvd unat t" using table_aligned [OF A t] .
    have ui: "unat i < 512" using i by (simp add: word_less_nat_alt)
    have "c (slot t i) = memory s (slot t i)"
    proof (rule cell_eq [of "slot t i" c "memory s"])
      show "8 dvd unat (slot t i)" using slot_aligned [OF ta i] .
      fix k :: nat assume k: "k < 8"
      have e: "slot t i + of_nat k = b + HIGH_VMA s + of_nat (8 * unat i + k)"
        by (simp add: slot_def b_def)
      have "4096 \<le> unat (slot t i + of_nat k - (a + HIGH_VMA s))" if "a \<in> E" for a
        unfolding e by (rule frames_apart) (use b E that t ui k in \<open>auto simp: b_def\<close>)
      then show "cell_byte c (slot t i + of_nat k) = cell_byte (memory s) (slot t i + of_nat k)" using out by blast
    qed
    then show ?thesis by (simp add: pml_read_def)
  qed
  then show ?thesis by (simp add: agree_on_def)
qed

lemma apart_data_write:
  assumes ok: "tables_apart F m D s pt" and al: "\<forall>a \<in> E. 4096 dvd unat a" "E \<subseteq> D"
    and out: "\<forall>x. (\<forall>a \<in> E. 4096 \<le> unat (x - (a + HIGH_VMA s))) \<longrightarrow> cell_byte c x = cell_byte (memory s) x"
  shows "tables_apart F m D (s\<lparr>memory := c\<rparr>) pt" "view m (s\<lparr>memory := c\<rparr>) pt w = view m s pt w" "agree_on (D - E) s (s\<lparr>memory := c\<rparr>)"
proof -
  let ?s = "s\<lparr>memory := c\<rparr>"
  have inv: "fayt_laws F \<and> pmm_inv F s" and wf: "tables_wf (pmm_owned F s - D) (levels m) s (pmlt pt)"
    using ok by (simp_all add: tables_apart_def)
  have fr: "frames_aligned (pmm_owned F s - D) s" "frames_aligned (D - E) s"
    using pmm.frames_aligned_owned [OF inv] apart_frames_aligned [OF ok] by (auto simp: frames_aligned_def)
  have ag: "agree_on (pmm_owned F s - D) s ?s" by (rule data_write_agree [OF fr(1) al(1) _ out]) (use al(2) in auto)
  have "tables_wf (pmm_owned F ?s - D) (levels m) ?s (pmlt pt)" by (rule tables_wf_agree [OF wf ag]) simp
  then show "tables_apart F m D ?s pt" using ok by (simp add: tables_apart_def pmm_inv_def)
  show "view m ?s pt w = view m s pt w" using keeps_translate [OF keeps_agree [OF wf ag]] by simp
  show "agree_on (D - E) s ?s" by (rule data_write_agree [OF fr(2) al(1) _ out]) auto
qed

section \<open>Segments\<close>

lemma roundup_nat:
  fixes n :: nat
  shows "n \<le> 4096 * ((n + 4095) div 4096)" and "4096 * ((n + 4095) div 4096) < n + 4096"
  using mult_div_mod_eq [of 4096 "n + 4095"] mod_less_divisor [of 4096 "n + 4095"] by linarith+

lemma load_flags_ok: "map_flags (load_flags fl)" "\<not> huge (load_flags fl)"
  by (simp_all add: load_flags_def Let_def map_flags_def present_def huge_def)

lemma and_page_mask: "x AND (PAGE_SIZE - 1) = take_bit 12 x" for x :: u64
  by (simp add: take_bit_eq_mask mask_eq_exp_minus_1)

lemma page_round_down: "unat (x AND NOT (PAGE_SIZE - 1)) = unat x div 4096 * 4096" for x :: u64
proof -
  have "x = (x AND (PAGE_SIZE - 1)) + (x AND NOT (PAGE_SIZE - 1))"
    by (subst disjunctive_add) (auto simp: bit_eq_iff bit_simps)
  then have "x AND NOT (PAGE_SIZE - 1) = x - take_bit 12 x" using and_page_mask [of x] by (metis add_diff_cancel_left')
  moreover have "unat (take_bit 12 x) = unat x mod 4096" by (simp add: unat_take_bit)
  moreover have "unat x mod 4096 \<le> unat x" by (rule mod_less_eq_dividend)
  ultimately have "unat (x AND NOT (PAGE_SIZE - 1)) = unat x - unat x mod 4096" by (simp add: unat_sub_exact)
  then show ?thesis by (simp add: minus_mod_eq_div_mult)
qed

lemma page_cnt_aligned:
  assumes "fayt_laws F" "unat sz = fz" "fz < 2 ^ 63"
  shows "unat (load_page_cnt F 0 sz) = (fz + 4095) div 4096"
proof -
  have "unat (sz + PAGE_SIZE - 1) = fz + 4095"
    using unat_add_exact [of "0xfff" sz] assms(2,3) by simp
  then have "unat ((sz + PAGE_SIZE - 1) AND NOT (PAGE_SIZE - 1)) = (fz + 4095) div 4096 * 4096"
    by (simp only: page_round_down)
  then have "\<not> sz > (sz + PAGE_SIZE - 1) AND NOT (PAGE_SIZE - 1)"
    using roundup_nat(1) [of fz] assms(2) by (simp add: word_less_nat_alt not_less mult.commute)
  moreover have "unat (DIV_ROUNDUP F sz PAGE_SIZE) = (fz + 4095) div 4096"
    using DIV_ROUNDUP_exact [OF assms(1), of PAGE_SIZE sz] assms(2,3) by simp
  ultimately show ?thesis by (simp add: load_page_cnt_def Let_def)
qed


context frame_budget
begin

lemma segment_bytes:
  assumes "\<forall>k < length as. \<forall>i < min 4096 (fz - 4096 * k). cell_byte c (as ! k + v + of_nat i) = bs ! (off + 4096 * k + i)"
    and "length as = (fz + 4095) div 4096" "i < fz"
  shows "cell_byte c (as ! (i div 4096) + v + of_nat (i mod 4096)) = bs ! (off + i)"
proof -
  have "i div 4096 < length as" using assms(3) roundup_nat(1) [of fz] unfolding assms(2) by (simp add: div_less_iff_less_mult)
  moreover have "i mod 4096 < min 4096 (fz - 4096 * (i div 4096))"
    using assms(3) mult_div_mod_eq [of 4096 i] by (simp add: less_diff_conv)
  ultimately show ?thesis using assms(1) mult_div_mod_eq [of 4096 i] by (simp add: add.assoc)
qed

lemma load_segment_exact:
  assumes apart: "tables_apart F m D s pt" and mc: "memcpy_law memcpy"
    and f: "file_of f bs" and va: "4096 dvd unat (p_vaddr p)" and fz: "unat (p_filesz p) = fz" "4096 \<le> fz"
    and off: "unat (p_offset p) = off" "off + fz \<le> length bs"
    and n: "n = (fz + 4095) div 4096" and room: "budget s (n * Suc (levels m) + k)"
    and sm: "small_range (view m s pt) (p_vaddr p + load_offset f) 0x1000 n"
  shows "\<exists>as pt' s'. load_segment F memcpy f s pt p = Ret (pt', s') \<and> tables_apart F m (D \<union> set as) s' pt' \<and>
    length as = n \<and> distinct as \<and> set as \<inter> pmm_owned F s = {} \<and> pmm_owned F s \<subseteq> pmm_owned F s' \<and> budget s' k \<and> HIGH_VMA s' = HIGH_VMA s \<and> agree_on D s s' \<and>
    (\<forall>j < n. view m s' pt' (range_addr (p_vaddr p + load_offset f) 0x1000 j) = Some (as ! j OR load_flags (ucast (p_flags p)))) \<and>
    (\<forall>w. (\<forall>j < n. vpn m w \<noteq> vpn m (range_addr (p_vaddr p + load_offset f) 0x1000 j)) \<longrightarrow> view m s' pt' w = view m s pt w) \<and>
    (\<forall>i < fz. cell_byte (memory s') (as ! (i div 4096) + HIGH_VMA s' + of_nat (i mod 4096)) = bs ! (off + i))"
proof -
  have F: "fayt_laws F" and own: "D \<subseteq> pmm_owned F s" using apart by (simp_all add: tables_apart_def)
  have fzb: "fz < 2 ^ 31" using off(2) f by (simp add: file_of_def)
  have "unat (take_bit 12 (p_vaddr p)) = 0" using va by (simp add: unat_take_bit)
  then have mis: "p_vaddr p AND (PAGE_SIZE - 1) = 0" unfolding and_page_mask by (simp add: unat_eq_zero)
  have cnt: "unat (load_page_cnt F 0 (p_filesz p)) = n" using page_cnt_aligned [OF F fz(1)] fzb n by simp
  have np: "0 < n" unfolding n using fz(2) by simp
  then have nz: "load_page_cnt F 0 (p_filesz p) \<noteq> 0" using cnt by auto
  obtain as pt' s1 where lp: "load_pages F s pt (p_vaddr p + load_offset f) (load_flags (ucast (p_flags p))) n = Ret (as, pt', s1)"
    and ap: "tables_apart F m (D \<union> set as) s1 pt'" and r: "budget s1 k" "HIGH_VMA s1 = HIGH_VMA s" "length as = n"
      "distinct as" "set as \<inter> pmm_owned F s = {}" "pmm_owned F s \<subseteq> pmm_owned F s1" "\<forall>a \<in> set as. 4096 dvd unat a"
      "agree_on D s s1"
    and vw: "view m s1 pt' = fresh_view (vpn m) 0x1000 (load_flags (ucast (p_flags p))) as (p_vaddr p + load_offset f) (view m s pt)"
    using load_pages_apart [OF apart room load_flags_ok sm, of "ucast (p_flags p)"] by blast
  have le: "4096 * (0 + length as) < fz + 4096" using roundup_nat(2) [of fz] r(3) n by simp
  obtain c where c: "fill_pages memcpy f p 0 s1 0 as = Ret (s1\<lparr>memory := c\<rparr>)"
    and bytes: "\<forall>k < length as. \<forall>i < min 4096 (fz - 4096 * (0 + k)).
       cell_byte c (as ! k + HIGH_VMA s1 + of_nat i) = bs ! (off + 4096 * (0 + k) + i)"
    and out: "\<forall>x. (\<forall>a \<in> set as. 4096 \<le> unat (x - (a + HIGH_VMA s1))) \<longrightarrow> cell_byte c x = cell_byte (memory s1) x"
    using fill_pages_exact [OF mc f fz off le r(7,4), of s1] by blast
  note w = apart_data_write [OF ap r(7) Un_upper2 out]
  have D: "D \<subseteq> D \<union> set as - set as" using own r(5) by auto
  have "agree_on D s (s1\<lparr>memory := c\<rparr>)" by (rule agree_on_trans [OF r(8) w(3) D])
  moreover
  have "cell_byte c (as ! (i div 4096) + HIGH_VMA s1 + of_nat (i mod 4096)) = bs ! (off + i)" if "i < fz" for i
    by (rule segment_bytes [OF _ _ that]) (use bytes r(3) n in simp_all)
  moreover have "load_segment F memcpy f s pt p = Ret (pt', s1\<lparr>memory := c\<rparr>)"
    using lp c nz using mis by (simp add: load_segment_def Let_def cnt)
  moreover have n36: "n \<le> 2 ^ 36" unfolding n using fzb by simp
  have inj: "inj_on (\<lambda>i. vpn m (range_addr (p_vaddr p + load_offset f) 0x1000 i)) {..<length as}"
    using vpn_range_inj [OF n36] r(3) by simp
  have vs: "view m (s1\<lparr>memory := c\<rparr>) pt' = view m s1 pt'" using w(2) by auto
  have "\<forall>j < n. view m (s1\<lparr>memory := c\<rparr>) pt' (range_addr (p_vaddr p + load_offset f) 0x1000 j) = Some (as ! j OR load_flags (ucast (p_flags p)))"
    using fresh_view_at [OF inj] r(3) unfolding vs vw by simp
  moreover have "view m (s1\<lparr>memory := c\<rparr>) pt' w = view m s pt w"
    if "\<forall>j < n. vpn m w \<noteq> vpn m (range_addr (p_vaddr p + load_offset f) 0x1000 j)" for w
    unfolding vs vw by (rule fresh_view_other) (use that r(3) in simp)
  ultimately show ?thesis using w(1) r
    by (intro exI [of _ as] exI [of _ pt'] exI [of _ "s1\<lparr>memory := c\<rparr>"]) (simp add: pmm_owned_def)
qed

lemma small_segment_faults:
  assumes F: "fayt_laws F" and inv: "pmm_inv F s" and pt: "pt_ok F m s pt"
    and small: "unat (p_filesz p) < 4096" and n: "n = unat (load_page_cnt F (p_vaddr p AND (PAGE_SIZE - 1)) (p_filesz p))" "n \<noteq> 0"
    and room: "budget s (n * Suc (levels m))"
    and sm: "small_range (view m s pt) (p_vaddr p + load_offset f - (p_vaddr p AND (PAGE_SIZE - 1))) 0x1000 n"
  shows "load_segment F memcpy f s pt p = Fault DivideByZero"
proof -
  have apart: "tables_apart F m {} s pt" using F inv pt by (simp add: tables_apart_empty)
  have room': "budget s (n * Suc (levels m) + 0)" using room by simp
  obtain as pt' s1 where lp: "load_pages F s pt (p_vaddr p + load_offset f - (p_vaddr p AND (PAGE_SIZE - 1)))
      (load_flags (ucast (p_flags p))) n = Ret (as, pt', s1)" and l: "length as = n"
    using load_pages_apart [OF apart room' load_flags_ok sm, of "ucast (p_flags p)"] by blast
  obtain a as' where as: "as = a # as'" using l n(2) by (cases as) auto
  have "page_bytes p 0 = Fault DivideByZero" using small by (simp add: page_bytes_def word_less_nat_alt)
  moreover have "load_page_cnt F (p_vaddr p AND (PAGE_SIZE - 1)) (p_filesz p) \<noteq> 0" using n by auto
  ultimately show ?thesis using lp as n(1) by (simp add: load_segment_def Let_def)
qed

end

section \<open>Headers inside the file\<close>

definition int_offset :: "u64 \<Rightarrow> nat" where
  "int_offset off = nat (sint (ucast off :: s32))"

lemma unat_scast: "0 \<le> sint n \<Longrightarrow> unat (scast n :: u64) = nat (sint n)" for n :: s32
proof -
  assume n: "0 \<le> sint n"
  have "sint n < 2 ^ 31" using sint_lt [of n] by simp
  then have "uint (scast n :: u64) = sint n"
    using n by (simp only: scast_eq uint_word_of_int) simp
  then show ?thesis by (simp add: unat_eq_nat_uint)
qed

lemma read_exact_Some:
  assumes "data_buffer f = Some bs" "read_exact f off cnt = Ret (Some r)"
  shows "r = take (unat cnt) (drop (int_offset off) bs)" "length r = unat cnt"
proof -
  obtain ret where rd: "elf64_read f (ucast off) cnt = Ret (ret, r)" "scast ret = cnt"
    using assms(2) by (auto simp: read_exact_def split: if_splits)
  show "r = take (unat cnt) (drop (int_offset off) bs)" "length r = unat cnt"
  proof (atomize (full), cases "sint (data_length f) < sint (ucast off :: s32)")
    case True
    then show "r = take (unat cnt) (drop (int_offset off) bs) \<and> length r = unat cnt"
      using rd assms(1) by (auto simp: elf64_read_def)
  next
    case False
    then have n: "0 \<le> sint ret" "0 \<le> sint (ucast off :: s32)" "sint (ucast off :: s32) + sint ret \<le> int (length bs)"
      "r = take (nat (sint ret)) (drop (nat (sint (ucast off :: s32))) bs)"
      using rd(1) assms(1) by (auto simp: elf64_read_def Let_def split: if_splits)
    moreover have "unat cnt = nat (sint ret)" using unat_scast [OF n(1)] rd(2) by simp
    ultimately show "r = take (unat cnt) (drop (int_offset off) bs) \<and> length r = unat cnt"
      by (auto simp: int_offset_def)
  qed
qed

definition file_slice :: "u8 list \<Rightarrow> u64 \<Rightarrow> nat \<Rightarrow> u8 list" where
  "file_slice bs off n = take n (drop (int_offset off) bs)"

lemma read_step:
  "obind x (\<lambda>r. case r of None \<Rightarrow> Ret (- 1 :: s32, f) | Some b \<Rightarrow> g b) = Ret (0, f') \<longleftrightarrow>
   (\<exists>b. x = Ret (Some b) \<and> g b = Ret (0, f'))"
  by (cases x) (auto split: option.splits)

lemma unat_mult_u16: "unat k \<le> 64 \<Longrightarrow> unat (k * ucast x) = unat k * unat x" for k :: u64 and x :: u16
proof -
  assume k: "unat k \<le> 64"
  have x: "unat x < 65536" using unsigned_less [of x, where ?'a = nat] by simp
  then have "unat k * unat x \<le> 64 * 65536" using k by (intro mult_le_mono) auto
  moreover have "unat (ucast x :: u64) = unat x" using x by (simp add: unsigned_ucast_eq take_bit_nat_eq_self)
  ultimately show ?thesis by (subst unat_mult_exact) simp_all
qed

lemma init_sound:
  assumes d: "data_buffer f = Some bs" and ok: "elf64_file_init f = Ret (0, f')"
  defines "h \<equiv> parse_hdr (take 64 bs)"
  shows "64 \<le> length bs" "hdr f' = h" "elf64_validate h = 0" "shdr f' = parse_array parse_shdr 64 (unat (sh_num h)) (file_slice bs (shoff h) (64 * unat (sh_num h)))"
    "length (file_slice bs (shoff h) (64 * unat (sh_num h))) = 64 * unat (sh_num h)"
    "phdr f' = parse_array parse_phdr 56 (unat (ph_num h)) (file_slice bs (phoff h) (56 * unat (ph_num h)))"
    "length (file_slice bs (phoff h) (56 * unat (ph_num h))) = 56 * unat (ph_num h)"
    "unat (shstrndx h) < unat (sh_num h)" "data_buffer f' = Some bs"
    "strtab f' = file_slice bs (sh_offset (shdr f' ! unat (shstrndx h))) (length (strtab f'))"
    "length (strtab f') = unat (sh_size (shdr f' ! unat (shstrndx h)))"
proof -
  obtain b1 b2 b3 b4 where r1: "read_exact f 0 64 = Ret (Some b1)"
    and r2: "read_exact (f\<lparr>hdr := parse_hdr b1\<rparr>) (shoff (parse_hdr b1)) (64 * ucast (sh_num (parse_hdr b1))) = Ret (Some b2)"
    and v: "elf64_validate (parse_hdr b1) \<noteq> - 1"
    and r3: "read_exact (f\<lparr>hdr := parse_hdr b1, shdr := parse_array parse_shdr 64 (unat (sh_num (parse_hdr b1))) b2\<rparr>)
       (phoff (parse_hdr b1)) (56 * ucast (ph_num (parse_hdr b1))) = Ret (Some b3)"
    and i: "unat (shstrndx (parse_hdr b1)) < length (parse_array parse_shdr 64 (unat (sh_num (parse_hdr b1))) b2)"
    and r4: "read_exact (f\<lparr>hdr := parse_hdr b1, shdr := parse_array parse_shdr 64 (unat (sh_num (parse_hdr b1))) b2,
         phdr := parse_array parse_phdr 56 (unat (ph_num (parse_hdr b1))) b3\<rparr>)
       (sh_offset (parse_array parse_shdr 64 (unat (sh_num (parse_hdr b1))) b2 ! unat (shstrndx (parse_hdr b1))))
       (sh_size (parse_array parse_shdr 64 (unat (sh_num (parse_hdr b1))) b2 ! unat (shstrndx (parse_hdr b1)))) = Ret (Some b4)"
    and f': "f' = f\<lparr>hdr := parse_hdr b1, shdr := parse_array parse_shdr 64 (unat (sh_num (parse_hdr b1))) b2,
         phdr := parse_array parse_phdr 56 (unat (ph_num (parse_hdr b1))) b3, strtab := b4\<rparr>"
    using ok unfolding elf64_file_init_def Let_def read_step by (auto simp: read_step not_le simp del: obind_eq_Ret split: if_splits)
  have b1: "b1 = take 64 bs" "length b1 = 64" using read_exact_Some [OF d r1] by (simp_all add: int_offset_def)
  then have hb: "parse_hdr b1 = h" by (simp add: h_def)
  note m = unat_mult_u16
  note b2 = read_exact_Some [OF _ r2, of bs, unfolded hb] and b3 = read_exact_Some [OF _ r3, of bs, unfolded hb]
    and b4 = read_exact_Some [OF _ r4, of bs, unfolded hb]
  show "64 \<le> length bs" using b1 by simp
  show "hdr f' = h" "data_buffer f' = Some bs" using f' hb d by simp_all
  show "elf64_validate h = 0" using v hb by (auto simp: elf64_validate_def split: if_splits)
  show "shdr f' = parse_array parse_shdr 64 (unat (sh_num h)) (file_slice bs (shoff h) (64 * unat (sh_num h)))"
    "length (file_slice bs (shoff h) (64 * unat (sh_num h))) = 64 * unat (sh_num h)"
    using b2 d f' hb by (simp_all add: file_slice_def m)
  show "phdr f' = parse_array parse_phdr 56 (unat (ph_num h)) (file_slice bs (phoff h) (56 * unat (ph_num h)))"
    "length (file_slice bs (phoff h) (56 * unat (ph_num h))) = 56 * unat (ph_num h)"
    using b3 d f' hb by (simp_all add: file_slice_def m)
  show "unat (shstrndx h) < unat (sh_num h)" using i hb by (simp add: parse_array_def)
  show "strtab f' = file_slice bs (sh_offset (shdr f' ! unat (shstrndx h))) (length (strtab f'))"
    "length (strtab f') = unat (sh_size (shdr f' ! unat (shstrndx h)))"
    using b4 d f' hb by (simp_all add: file_slice_def)
qed


text \<open>Conversely, a file whose headers are valid and lie inside it is accepted.\<close>

lemma read_exact_in:
  assumes f: "file_of f bs" and r: "unat off + unat cnt \<le> length bs"
  shows "read_exact f off cnt = Ret (Some (take (unat cnt) (drop (unat off) bs)))"
proof -
  have b: "unat off < 2 ^ 31" "unat cnt < 2 ^ 31" using f r by (simp_all add: file_of_def)
  have "(ucast off :: s32) = of_nat (unat off)" using ucast_of_nat_s32 [of "unat off"] b(1) by simp
  moreover have l: "length (take (unat cnt) (drop (unat off) bs)) = unat cnt" using r by simp
  ultimately have "elf64_read f (ucast off) cnt = Ret (of_nat (unat cnt), take (unat cnt) (drop (unat off) bs))"
    using elf64_read_range [OF f b(1), of "unat cnt"] b(2) by simp
  moreover have "(scast (of_nat (unat cnt) :: s32) :: u64) = cnt" using scast_of_nat [OF b(2)] by simp
  ultimately show ?thesis by (simp add: read_exact_def)
qed

lemma init_complete:
  assumes f: "file_of f bs" and h: "h = parse_hdr (take 64 bs)" "64 \<le> length bs" "elf64_validate h = 0"
    and sh: "unat (shoff h) + 64 * unat (sh_num h) \<le> length bs" "unat (shstrndx h) < unat (sh_num h)"
    and ph: "unat (phoff h) + 56 * unat (ph_num h) \<le> length bs"
    and st: "st = parse_array parse_shdr 64 (unat (sh_num h)) (take (64 * unat (sh_num h)) (drop (unat (shoff h)) bs)) ! unat (shstrndx h)"
      "unat (sh_offset st) + unat (sh_size st) \<le> length bs"
  shows "\<exists>f'. elf64_file_init f = Ret (0, f') \<and> strtab f' = take (unat (sh_size st)) (drop (unat (sh_offset st)) bs)"
proof -
  have rd: "read_exact g off cnt = Ret (Some (take (unat cnt) (drop (unat off) bs)))"
    if "data_buffer g = data_buffer f" "data_length g = data_length f" "unat off + unat cnt \<le> length bs" for g off cnt
    using that f by (intro read_exact_in) (simp_all add: file_of_def)
  have l: "length (parse_array parse_shdr 64 (unat (sh_num h)) x) = unat (sh_num h)" for x by (simp add: parse_array_def)
  show ?thesis
    using h sh ph st(2) unfolding elf64_file_init_def
    by (simp add: rd h(1) [symmetric] unat_mult_u16 l not_le st(1) [symmetric])
qed


section \<open>An instance of the copy routine\<close>

definition memcpy_ref :: memcpy_fn where
  "memcpy_ref d bs c = (\<lambda>x. if 8 dvd unat x
     then of_nat (le (map (\<lambda>k. let y = x + of_nat k in
       if unat (y - d) < length bs then bs ! unat (y - d) else cell_byte c y) [0..<8]))
     else c x)"

lemma memcpy_law_ref: "memcpy_law memcpy_ref"
  unfolding memcpy_law_def
proof (intro allI)
  fix d bs c and x :: u64
  define k where "k = unat x mod 8"
  define z where "z = x - of_nat k"
  have k: "k < 8" "k \<le> unat x" by (simp_all add: k_def)
  have uz: "unat z = unat x - k" using k u64_unat_bound [of x] unfolding z_def by (subst unat_sub_exact) (simp_all add: unat_of_nat_u64)
  have z: "8 dvd unat z" unfolding uz k_def by (simp add: minus_mod_eq_mult_div)
  define ys where "ys = map (\<lambda>k. let y = z + of_nat k in
       if unat (y - d) < length bs then bs ! unat (y - d) else cell_byte c y) [0..<8]"
  have l: "length ys = 8" by (simp add: ys_def)
  have "le ys < 2 ^ 64" using le_bound [of ys] l by simp
  then have u: "unat (of_nat (le ys) :: u64) = le ys" by (rule unat_of_nat_u64)
  have "unat (drop_bit (8 * k) (of_nat (le ys) :: u64)) = le ys div 2 ^ (8 * k)"
    by (simp only: unat_drop_bit_eq u) (simp add: drop_bit_eq_div)
  then have "unat (ucast (drop_bit (8 * k) (of_nat (le ys) :: u64)) :: u8) = le ys div 2 ^ (8 * k) mod 256"
    by (simp add: unsigned_ucast_eq take_bit_eq_mod)
  also have "\<dots> = le ys div 256 ^ k mod 256" by (simp add: power_mult)
  also have "\<dots> = unat (ys ! k)" using le_nth [of k ys] l k(1) by simp
  finally have b: "ucast (drop_bit (8 * k) (of_nat (le ys) :: u64)) = ys ! k" by (rule word_eq_of_unat)
  have "cell_byte (memcpy_ref d bs c) x = ucast (drop_bit (8 * k) (memcpy_ref d bs c z))"
    by (simp add: cell_byte_def k_def [symmetric] z_def)
  also have "\<dots> = ys ! k" using z b by (simp add: memcpy_ref_def ys_def)
  also have "\<dots> = (if unat (x - d) < length bs then bs ! unat (x - d) else cell_byte c x)"
    using k(1) by (simp add: ys_def Let_def z_def)
  finally show "cell_byte (memcpy_ref d bs c) x = (if unat (x - d) < length bs then bs ! unat (x - d) else cell_byte c x)" .
qed


section \<open>Properties\<close>

text \<open>
  Loading a page-aligned \<^verbatim>\<open>PT_LOAD\<close> segment of at least one page: it returns; each page of the
  segment is translated to a frame of its own, unowned before, with the segment's protections; no other
  translation changes; and the frames hold exactly the segment's bytes of the file, which the copying
  cannot have damaged since no page table lies in them.
\<close>

theorem load_segment_contents:
  assumes "fayt_laws F" "pmm_inv F s" "pt_ok F m s pt" "memcpy_law memcpy" "file_of f bs"
    and "4096 dvd unat (p_vaddr p)" "unat (p_filesz p) = fz" "4096 \<le> fz" "unat (p_offset p) = off" "off + fz \<le> length bs"
    and "n = (fz + 4095) div 4096" "pmm_room F (modules s) (n * Suc (levels m) + k)"
    and "small_range (view m s pt) (p_vaddr p + load_offset f) 0x1000 n"
  shows "\<exists>as pt' s'. load_segment F memcpy f s pt p = Ret (pt', s') \<and> pmm_inv F s' \<and> pt_ok F m s' pt' \<and>
    length as = n \<and> distinct as \<and> set as \<inter> pmm_owned F s = {} \<and>
    (\<forall>j < n. view m s' pt' (range_addr (p_vaddr p + load_offset f) 0x1000 j) = Some (as ! j OR load_flags (ucast (p_flags p)))) \<and>
    (\<forall>w. (\<forall>j < n. vpn m w \<noteq> vpn m (range_addr (p_vaddr p + load_offset f) 0x1000 j)) \<longrightarrow> view m s' pt' w = view m s pt w) \<and>
    (\<forall>i < fz. cell_byte (memory s') (as ! (i div 4096) + HIGH_VMA s' + of_nat (i mod 4096)) = bs ! (off + i))"
proof -
  have ap: "tables_apart F m {} s pt" using assms(1-3) by (simp add: tables_apart_empty)
  from singles.load_segment_exact [OF ap assms(4-13)] tables_apart_ok show ?thesis
    unfolding tables_apart_def by (elim exE conjE) (intro exI conjI, auto simp: pt_ok_def tables_wf_def)
qed

definition demo_elf :: "u8 list \<Rightarrow> elf64_file" where
  "demo_elf bs = \<lparr>hdr = parse_hdr [], phdr = [], shdr = [], strtab = [], data_buffer = Some bs,
     data_length = of_nat (length bs), load_offset = 0\<rparr>"

definition demo_phdr :: "u64 \<Rightarrow> elf64_phdr" where
  "demo_phdr fz = \<lparr>p_type = 1, p_flags = 5, p_offset = 64, p_vaddr = 0x400000, p_paddr = 0, p_filesz = fz,
     p_memsz = fz, p_align = 0x1000\<rparr>"

lemma demo_file_of: "length bs < 2 ^ 31 \<Longrightarrow> file_of (demo_elf bs) bs"
  by (simp add: file_of_def demo_elf_def)

lemma demo_elf_offset: "load_offset (demo_elf bs) = 0" by (simp add: demo_elf_def)

theorem load_segment_contents_witness:
  "\<exists>as pt' s'. load_segment fayt_ref memcpy_ref (demo_elf (replicate 9000 7)) (demo 4096) (demo_pt Pml4Ops) (demo_phdr 8000) = Ret (pt', s') \<and>
     view Pml4Ops s' pt' 0x400000 = Some (as ! 0 OR load_flags 5) \<and>
     cell_byte (memory s') (as ! 1 + HIGH_VMA s' + 100) = 7"
proof -
  obtain bs :: "u8 list" where bs: "bs = replicate 9000 7" by blast
  have l: "length bs = 9000" "\<And>i. i < 9000 \<Longrightarrow> bs ! i = 7" by (simp_all only: bs length_replicate nth_replicate)
  have r: "pmm_room fayt_ref (modules (demo 4096)) (2 * Suc (levels Pml4Ops) + 0)" using demo_ready(3) [of 8] by simp
  have f: "file_of (demo_elf bs) bs" by (rule demo_file_of) (simp add: l)
  have p: "4096 dvd unat (p_vaddr (demo_phdr 8000))" "unat (p_filesz (demo_phdr 8000)) = 8000" "(4096::nat) \<le> 8000"
    "unat (p_offset (demo_phdr 8000)) = 64" "64 + 8000 \<le> length bs" "(2::nat) = (8000 + 4095) div 4096"
    by (simp_all add: demo_phdr_def l)
  obtain as pt' s' where run: "load_segment fayt_ref memcpy_ref (demo_elf bs) (demo 4096) (demo_pt Pml4Ops) (demo_phdr 8000) = Ret (pt', s')"
    and vw: "\<forall>j < 2. view Pml4Ops s' pt' (range_addr (p_vaddr (demo_phdr 8000) + load_offset (demo_elf bs)) 0x1000 j) =
      Some (as ! j OR load_flags (ucast (p_flags (demo_phdr 8000))))"
    and byt: "\<forall>i < 8000. cell_byte (memory s') (as ! (i div 4096) + HIGH_VMA s' + of_nat (i mod 4096)) = bs ! (64 + i)"
    using load_segment_contents [OF fayt_laws_ref demo_ready(1) demo_ready(2) memcpy_law_ref f p r demo_small_range] by blast
  have "view Pml4Ops s' pt' 0x400000 = Some (as ! 0 OR load_flags 5)"
    using vw [rule_format, of 0] by (simp add: demo_phdr_def demo_elf_offset range_addr_def)
  moreover have "cell_byte (memory s') (as ! 1 + HIGH_VMA s' + 100) = 7"
    using byt [rule_format, of 4196] l(2) [of 4260] by simp
  ultimately show ?thesis using run unfolding bs by blast
qed

text \<open>
  C26. When \<^verbatim>\<open>elf64_file_init\<close> reports success on a file, its header is valid and everything it kept lies
  inside the file: the section and program headers are the decoded bytes at \<^verbatim>\<open>shoff\<close> and \<^verbatim>\<open>phoff\<close>
  (truncated to \<^verbatim>\<open>int\<close>), none of them cut short, the string table index is in range and the string
  table is the whole of that section's bytes.
\<close>

theorem elf64_file_init_sound:
  assumes "data_buffer f = Some bs" "elf64_file_init f = Ret (0, f')" "h = parse_hdr (take 64 bs)"
  shows "64 \<le> length bs \<and> hdr f' = h \<and> elf64_validate h = 0 \<and>
    shdr f' = parse_array parse_shdr 64 (unat (sh_num h)) (file_slice bs (shoff h) (64 * unat (sh_num h))) \<and>
    length (file_slice bs (shoff h) (64 * unat (sh_num h))) = 64 * unat (sh_num h) \<and>
    phdr f' = parse_array parse_phdr 56 (unat (ph_num h)) (file_slice bs (phoff h) (56 * unat (ph_num h))) \<and>
    length (file_slice bs (phoff h) (56 * unat (ph_num h))) = 56 * unat (ph_num h) \<and>
    unat (shstrndx h) < unat (sh_num h) \<and>
    strtab f' = file_slice bs (sh_offset (shdr f' ! unat (shstrndx h))) (length (strtab f')) \<and>
    length (strtab f') = unat (sh_size (shdr f' ! unat (shstrndx h)))"
  using init_sound [OF assms(1,2)] unfolding assms(3) [symmetric] by (intro conjI) assumption+

text \<open>A file of one section header, the string table \<^verbatim>\<open>.bss\<close>, and no program header.\<close>

definition demo_image :: "u8 list" where
  "demo_image =
     [0x7f, 0x45, 0x4c, 0x46, 2, 1, 1, 0, 0, 0, 0, 0, 0, 0, 0, 0,
      2, 0, 0x3e, 0, 1, 0, 0, 0, 0, 0, 0x40, 0, 0, 0, 0, 0,
      64, 0, 0, 0, 0, 0, 0, 0, 64, 0, 0, 0, 0, 0, 0, 0,
      0, 0, 0, 0, 64, 0, 56, 0, 0, 0, 64, 0, 1, 0, 0, 0,
      0, 0, 0, 0, 3, 0, 0, 0, 0, 0, 0, 0, 0, 0, 0, 0,
      0, 0, 0, 0, 0, 0, 0, 0, 128, 0, 0, 0, 0, 0, 0, 0,
      5, 0, 0, 0, 0, 0, 0, 0, 0, 0, 0, 0, 0, 0, 0, 0,
      1, 0, 0, 0, 0, 0, 0, 0, 0, 0, 0, 0, 0, 0, 0, 0,
      0x2e, 0x62, 0x73, 0x73, 0]"

lemma demo_image_hdr: "parse_hdr (take 64 demo_image) =
   \<lparr>ident = [0x7f, 0x45, 0x4c, 0x46, 2, 1, 1, 0, 0, 0, 0, 0, 0, 0, 0, 0], e_type = 2, machine = 0x3e, e_version = 1,
     e_entry = 0x400000, phoff = 64, shoff = 64, e_flags = 0, hdr_size = 64, phdr_size = 56, ph_num = 0, shdr_size = 64,
     sh_num = 1, shstrndx = 0\<rparr>"
  by (simp add: parse_hdr_def demo_image_def field_def)

lemma demo_image_run: "\<exists>f'. elf64_file_init (demo_elf demo_image) = Ret (0, f') \<and> length (strtab f') = 5"
proof -
  have l: "length demo_image = 133" by (simp add: demo_image_def)
  have st: "parse_array parse_shdr 64 (Suc 0) (take 64 (drop 64 demo_image)) ! 0 =
     \<lparr>sh_name = 0, sh_type = 3, sh_flags = 0, sh_addr = 0, sh_offset = 128, sh_size = 5, sh_link = 0, sh_info = 0,
      sh_addr_align = 1, sh_entsize = 0\<rparr>"
    by (simp add: parse_array_def parse_shdr_def field_def demo_image_def)
  show ?thesis
    using init_complete [OF demo_file_of [of demo_image] demo_image_hdr [symmetric] _ _ _ _ _ refl] l
    by (simp add: elf64_validate_def st) (elim exE conjE, simp)
qed

theorem elf64_file_init_sound_witness:
  "\<exists>f'. elf64_file_init (demo_elf demo_image) = Ret (0, f') \<and> elf64_validate (hdr f') = 0 \<and> unat (sh_num (hdr f')) = 1 \<and>
     length (strtab f') = 5"
proof -
  obtain f' where f': "elf64_file_init (demo_elf demo_image) = Ret (0, f')" "length (strtab f') = 5"
    using demo_image_run by blast
  have d: "data_buffer (demo_elf demo_image) = Some demo_image" by (simp add: demo_elf_def)
  note h = elf64_file_init_sound [OF d f'(1) refl]
  then have "hdr f' = parse_hdr (take 64 demo_image)" "elf64_validate (hdr f') = 0" by simp_all
  then show ?thesis using f' by (intro exI [of _ f']) (simp add: demo_image_hdr)
qed

text \<open>
  A \<^verbatim>\<open>PT_LOAD\<close> segment that holds something but less than a page of file bytes stops the loader: the
  size of its first page is computed as a remainder modulo zero.
\<close>

theorem small_segment_divides_by_zero:
  assumes "fayt_laws F" "pmm_inv F s" "pt_ok F m s pt" "unat (p_filesz p) < 4096"
    and "n = unat (load_page_cnt F (p_vaddr p AND (PAGE_SIZE - 1)) (p_filesz p))" "n \<noteq> 0"
    and "pmm_room F (modules s) (n * Suc (levels m))"
    and "small_range (view m s pt) (p_vaddr p + load_offset f - (p_vaddr p AND (PAGE_SIZE - 1))) 0x1000 n"
  shows "load_segment F memcpy f s pt p = Fault DivideByZero"
  using singles.small_segment_faults [OF assms] .

theorem small_segment_divides_by_zero_witness:
  "load_segment fayt_ref memcpy_ref (demo_elf demo_image) (demo 4096) (demo_pt Pml4Ops) (demo_phdr 100) = Fault DivideByZero"
proof -
  have n: "1 = unat (load_page_cnt fayt_ref (p_vaddr (demo_phdr 100) AND (PAGE_SIZE - 1)) (p_filesz (demo_phdr 100)))"
    using page_cnt_aligned [OF fayt_laws_ref, of 100 100] by (simp add: demo_phdr_def)
  show ?thesis
    by (rule small_segment_divides_by_zero [OF fayt_laws_ref demo_ready(1,2) _ n _ _ demo_small_range])
      (simp_all add: demo_phdr_def demo_ready(3))
qed

end
