(* ===== verification/Server.thy ===== *)
theory Server
  imports Elf Scheduler
begin

unbundle bit_operations_syntax

text \<open>
  The server registry and the launch of servers, \<^verbatim>\<open>kernel/core/server.c\<close>. Namespaces and servers live in
  stores; the hash tables that find them by name and the bitmaps that number them come from \<open>fayt\<close> and
  are fields of the parameter \<open>registry_deps\<close>.
\<close>

section \<open>State\<close>

record server_id =
  nid :: s32
  sid :: s32

record ('b, 'h) namespace_obj =
  ns_name :: string
  ns_nid :: s32
  sid_bitmap :: 'b
  server_table :: 'h

record limine_file =
  file_address :: "u8 list option"
  file_size :: u64
  cmdline :: string

record server_obj =
  server_name :: string
  server_id_of :: server_id
  server_file :: "limine_file option"

record ('b, 'h) registry =
  namespace_table :: 'h
  nid_bitmap :: 'b
  namespaces :: "ptr \<Rightarrow> ('b, 'h) namespace_obj option"
  servers :: "ptr \<Rightarrow> server_obj option"

record ('b, 'h) registry_deps =
  hash_table_search :: "'h \<Rightarrow> string \<Rightarrow> s32 \<times> ptr"
  hash_table_push :: "'h \<Rightarrow> string \<Rightarrow> ptr \<Rightarrow> s32 \<times> 'h"
  id_alloc :: "'b \<Rightarrow> s32 \<times> s32 \<times> 'b"
  zero_table :: 'h
  zero_bitmap :: 'b
  alloc_namespace :: "('b, 'h) registry \<Rightarrow> ptr"

section \<open>Names\<close>

definition take_id :: "('b, 'h) registry_deps \<Rightarrow> 'b \<Rightarrow> s32 \<times> 'b" where
  "take_id D b = (let (ret, i, b) = id_alloc D b in (if ret = - 1 then ret else i, b))"

definition create_namespace :: "('b, 'h) registry_deps \<Rightarrow> ('b, 'h) registry \<Rightarrow> string \<Rightarrow> s32 \<times> ('b, 'h) registry" where
  "create_namespace D R name =
     (let p = alloc_namespace D R;
          (i, b) = take_id D (nid_bitmap R);
          R = R\<lparr>nid_bitmap := b, namespaces := (namespaces R)(p \<mapsto>
            \<lparr>ns_name = name, ns_nid = i, sid_bitmap = zero_bitmap D, server_table = zero_table D\<rparr>)\<rparr>;
          (ret, t) = hash_table_push D (namespace_table R) name p;
          R = R\<lparr>namespace_table := t\<rparr>
      in (if ret = - 1 then - 1 else 0, R))"

text \<open>The server's other fields are zero after the assignment, among them \<^verbatim>\<open>file\<close> and \<^verbatim>\<open>context\<close>.\<close>

definition create_server ::
  "('b, 'h) registry_deps \<Rightarrow> ('b, 'h) registry \<Rightarrow> string \<Rightarrow> string \<Rightarrow> ptr \<Rightarrow> (s32 \<times> ('b, 'h) registry) outcome" where
  "create_server D R namespace_name name srv =
     (let (ret, p) = hash_table_search D (namespace_table R) namespace_name in
      if ret = - 1 \<or> p = NULL then Ret (- 1, R)
      else obind (deref (namespaces R) p) (\<lambda>N.
        let (i, b) = take_id D (sid_bitmap N);
            R = R\<lparr>servers := (servers R)(srv \<mapsto>
              \<lparr>server_name = name, server_id_of = \<lparr>nid = ns_nid N, sid = i\<rparr>, server_file = None\<rparr>)\<rparr>;
            (ret, t) = hash_table_push D (server_table N) name srv;
            R = R\<lparr>namespaces := (namespaces R)(p \<mapsto> N\<lparr>sid_bitmap := b, server_table := t\<rparr>)\<rparr>
        in Ret (if ret = - 1 then - 1 else 0, R)))"

definition find_server :: "('b, 'h) registry_deps \<Rightarrow> ('b, 'h) registry \<Rightarrow> string \<Rightarrow> string \<Rightarrow> ptr outcome" where
  "find_server D R namespace_name name =
     (let (ret, p) = hash_table_search D (namespace_table R) namespace_name in
      if ret = - 1 \<or> p = NULL then Ret NULL
      else obind (deref (namespaces R) p) (\<lambda>N.
        let (ret, srv) = hash_table_search D (server_table N) name in
        Ret (if ret = - 1 then NULL else srv)))"

section \<open>Launching a server\<close>

abbreviation LINK_RAW :: s32 where "LINK_RAW \<equiv> 4"
abbreviation SERVER_DEFAULT_STACK_LOCATION :: u64 where "SERVER_DEFAULT_STACK_LOCATION \<equiv> 0x20000"
abbreviation SERVER_DEFAULT_STACK_SIZE :: u64 where "SERVER_DEFAULT_STACK_SIZE \<equiv> 0x10000"

text \<open>The user stack and the argument on it: \<^verbatim>\<open>rdi\<close> when there is an argument, \<^verbatim>\<open>rsp\<close>, and the new state.\<close>

definition launch_stack ::
  "'l fayt \<Rightarrow> memcpy_fn \<Rightarrow> 'l kstate \<Rightarrow> 'l page_table \<Rightarrow> u8 list option \<Rightarrow> (u64 option \<times> u64 \<times> 'l page_table \<times> 'l kstate) outcome" where
  "launch_stack F memcpy s pt arg =
     (let stack_virtual = SERVER_DEFAULT_STACK_LOCATION + SERVER_DEFAULT_STACK_SIZE in
      obind (pmm_alloc F s (stack_virtual div PAGE_SIZE) 1) (\<lambda>(a, s).
      let stack_physical = a + SERVER_DEFAULT_STACK_SIZE in
      obind (map_linear (map_page F) s pt stack_virtual stack_physical (unat (SERVER_DEFAULT_STACK_SIZE div PAGE_SIZE))
          (X86_FLAGS_P OR X86_FLAGS_RW OR X86_FLAGS_US) (- PAGE_SIZE)) (\<lambda>(pt, s).
      let location = stack_physical + HIGH_VMA s;
          (rdi, location, s) = (case arg of
              None \<Rightarrow> (None, location, s)
            | Some bs \<Rightarrow>
                let location = location - of_nat (length bs) in
                (Some (stack_virtual - (stack_physical - (location - HIGH_VMA s))), location,
                 s\<lparr>memory := memcpy location bs (memory s)\<rparr>));
          location = location AND - 16
      in Ret (rdi, stack_virtual - (stack_physical - (location - HIGH_VMA s)), pt, s))))"

record 'l launch_deps =
  raw_elf :: elf64_file
  raw_context :: "'l kcontext"
  raw_server :: server_obj
  raw_portal :: portal
  core_name :: "nat \<Rightarrow> string"
  SCHED_NOTIFY_ENQUEUE :: s32

definition launch_server ::
  "'l fayt \<Rightarrow> memcpy_fn \<Rightarrow> boot_info \<Rightarrow> ('l, 'f, 'b, 'c) ctx_deps \<Rightarrow> 'l launch_deps \<Rightarrow>
   (ptr \<Rightarrow> server_obj option) \<Rightarrow> ('l, 'f, 'b, 'c) machine \<Rightarrow> ptr \<Rightarrow> u8 list option \<Rightarrow> (s32 \<times> ('l, 'f, 'b, 'c) machine) outcome" where
  "launch_server F memcpy B D L srvs m srv arg =
     (if srv = NULL then Ret (- 1, m)
      else let (_, m) = alloc D m in
        obind (deref srvs srv) (\<lambda>S.
        case server_file S of None \<Rightarrow> Fault NullDeref | Some file \<Rightarrow>
        let elf = (raw_elf L)\<lparr>data_buffer := file_address file, data_length := ucast (file_size file)\<rparr> in
        obind (elf64_file_init elf) (\<lambda>(ret, elf).
        if ret = - 1 then Ret (- 1, m)
        else let at = elf64_file_aux elf; (c, m) = alloc D m;
            m = set_context c (raw_context L) m in
        obind (create_blank_context F B D m c) (\<lambda>(ret, m).
        if ret = - 1 then Ret (- 1, m)
        else obind (deref (contexts (kern m)) c) (\<lambda>C.
        obind (deref (tables m) (page_table_of C)) (\<lambda>pt.
        obind (elf64_file_load F memcpy elf (mem (kern m)) pt) (\<lambda>(ret, pt, s).
        if ret = - 1 then Ret (- 1, m\<lparr>kern := (kern m)\<lparr>mem := s\<rparr>, tables := (tables m)(page_table_of C \<mapsto> pt)\<rparr>)
        else obind (launch_stack F memcpy s pt arg) (\<lambda>(rdi', rsp', pt, s).
        let r = (regs C)\<lparr>rip := at_entry at, cs := 0x43, rflags := 0x202, ss := 0x3b\<rparr>;
            r = (case rdi' of None \<Rightarrow> r | Some x \<Rightarrow> r\<lparr>rdi := x\<rparr>);
            C = C\<lparr>regs := r\<lparr>rsp := rsp'\<rparr>,
              user_stack := (user_stack C)\<lparr>sp := SERVER_DEFAULT_STACK_LOCATION + SERVER_DEFAULT_STACK_SIZE,
                stack_size := SERVER_DEFAULT_STACK_SIZE\<rparr>\<rparr>;
            m = m\<lparr>kern := (kern m)\<lparr>mem := s\<rparr>, tables := (tables m)(page_table_of C \<mapsto> pt),
              server_contexts := (server_contexts m)(srv \<mapsto> c)\<rparr>
        in Ret (0, set_context c C m)))))))))"

section \<open>Launching the schedulers\<close>

text \<open>
  The whole state: the registry, the machine, the portal state (its page table is that of the current
  context, or the kernel's), and the scheduling servers of the cores. The memory of the machine is
  the one that counts; \<open>with_portal\<close> lends it to a portal operation.
\<close>

record ('l, 'f, 'b, 'c, 'h, 'p, 'm) world =
  reg :: "('b, 'h) registry"
  mach :: "('l, 'f, 'b, 'c) machine"
  pst :: "('l, 'p, 'm) pstate"
  master_scheduler :: ptr
  scheduling_servers :: "nat \<Rightarrow> ptr"
  bootable_processor_cnt :: nat

definition with_portal ::
  "(('l, 'p, 'm) pstate \<Rightarrow> ('a \<times> ('l, 'p, 'm) pstate) outcome) \<Rightarrow> ('l, 'f, 'b, 'c, 'h, 'p, 'm) world \<Rightarrow>
   ('a \<times> ('l, 'f, 'b, 'c, 'h, 'p, 'm) world) outcome" where
  "with_portal f w =
     obind (f ((pst w)\<lparr>kst := mem (kern (mach w))\<rparr>)) (\<lambda>(x, st).
     Ret (x, w\<lparr>pst := st, mach := (mach w)\<lparr>kern := (kern (mach w))\<lparr>mem := kst st\<rparr>\<rparr>\<rparr>))"

fun create_schedulers ::
  "('b, 'h) registry_deps \<Rightarrow> ('l, 'f, 'b, 'c) ctx_deps \<Rightarrow> 'l launch_deps \<Rightarrow> limine_file \<Rightarrow>
   ('l, 'f, 'b, 'c, 'h, 'p, 'm) world \<Rightarrow> nat \<Rightarrow> nat \<Rightarrow> (s32 \<times> ptr list \<times> ('l, 'f, 'b, 'c, 'h, 'p, 'm) world) outcome" where
  "create_schedulers RD D L file w i 0 = Ret (0, [], w)"
| "create_schedulers RD D L file w i (Suc n) =
     (let (srv, m) = alloc D (mach w);
          w = w\<lparr>mach := m, master_scheduler := srv\<rparr> in
      obind (create_server RD (reg w) ''SCHEDULER'' (core_name L i) srv) (\<lambda>(ret, R).
      if ret = - 1 then Ret (- 1, [], w\<lparr>reg := R\<rparr>)
      else obind (deref (servers R) srv) (\<lambda>S.
        let R = R\<lparr>servers := (servers R)(srv \<mapsto> S\<lparr>server_file := Some file\<rparr>)\<rparr>;
            w = w\<lparr>reg := R, scheduling_servers := (scheduling_servers w)(i := srv)\<rparr> in
        obind (create_schedulers RD D L file w (Suc i) n) (\<lambda>(ret, sv, w). Ret (ret, srv # sv, w)))))"

definition descriptor_bytes :: "nat \<Rightarrow> u8 list" where
  "descriptor_bytes i = enc 4 i @ enc 4 0 @ enc 4 0"

fun start_schedulers ::
  "'l fayt \<Rightarrow> memcpy_fn \<Rightarrow> boot_info \<Rightarrow> ('p, 'm) portal_deps \<Rightarrow> ('l, 'f, 'b, 'c) ctx_deps \<Rightarrow> 'l launch_deps \<Rightarrow> u64 \<Rightarrow>
   ('l, 'f, 'b, 'c, 'h, 'p, 'm) world \<Rightarrow> nat \<Rightarrow> ptr list \<Rightarrow> (s32 \<times> ('l, 'f, 'b, 'c, 'h, 'p, 'm) world) outcome" where
  "start_schedulers F memcpy B PD D L descriptors w i [] = Ret (0, w)"
| "start_schedulers F memcpy B PD D L descriptors w i (srv # sv) =
     (let m = mach w;
          c = memcpy_ref (descriptors + 12 * of_nat i) (descriptor_bytes i) (memory (mem (kern m)));
          m = m\<lparr>kern := (kern m)\<lparr>mem := (mem (kern m))\<lparr>memory := c\<rparr>\<rparr>\<rparr> in
      obind (launch_server F memcpy B D L (servers (reg w)) m srv (Some (descriptor_bytes i))) (\<lambda>(ret, m).
      let w = w\<lparr>mach := m\<rparr> in
      if ret = - 1 then start_schedulers F memcpy B PD D L descriptors w (Suc i) sv
      else obind (deref (servers (reg w)) srv) (\<lambda>S.
        obind (with_portal (\<lambda>st. sched_establish_shared_link F PD (raw_portal L) st (server_name S)) w) (\<lambda>(ret, w).
        if ret = - 1 then Ret (- 1, w)
        else start_schedulers F memcpy B PD D L descriptors w (Suc i) sv))))"

definition launch_schedulers ::
  "'l fayt \<Rightarrow> memcpy_fn \<Rightarrow> boot_info \<Rightarrow> ('p, 'm) portal_deps \<Rightarrow> ('b, 'h) registry_deps \<Rightarrow> ('l, 'f, 'b, 'c) ctx_deps \<Rightarrow>
   'l launch_deps \<Rightarrow> ('l, 'f, 'b, 'c, 'h, 'p, 'm) world \<Rightarrow> limine_file \<Rightarrow> (s32 \<times> ('l, 'f, 'b, 'c, 'h, 'p, 'm) world) outcome" where
  "launch_schedulers F memcpy B PD RD D L w file =
     (let (ret, R) = create_namespace RD (reg w) ''SCHEDULER''; w = w\<lparr>reg := R\<rparr> in
      if ret = - 1 then Ret (- 1, w)
      else obind (create_schedulers RD D L file w 0 (bootable_processor_cnt w)) (\<lambda>(ret, sv, w).
        if ret = - 1 then Ret (- 1, w)
        else let page_cnt = DIV_ROUNDUP F (of_nat (bootable_processor_cnt w) * 12) PAGE_SIZE in
          obind (pmm_alloc F (mem (kern (mach w))) page_cnt 1) (\<lambda>(phys_base, s).
          let virtual_base = phys_base + HIGH_VMA s;
              w = w\<lparr>mach := (mach w)\<lparr>kern := (kern (mach w))\<lparr>mem := s\<rparr>\<rparr>\<rparr> in
          obind (with_portal (\<lambda>st. obind (portal_request F PD (raw_portal L) st
              (share_request (HIGH_VMA s) phys_base page_cnt ''SCHEDULER META'' LINK_RAW)) (\<lambda>(ret, _, st). Ret (ret, st))) w) (\<lambda>(ret, w).
          if ret = - 1 then Ret (- 1, w)
          else start_schedulers F memcpy B PD D L virtual_base w 0 sv))))"

section \<open>Launching all servers\<close>

definition io_server :: "limine_file \<Rightarrow> bool" where
  "io_server f \<longleftrightarrow> cmdline f \<in> {''vfs'', ''device'', ''ahci'', ''nvme'', ''block'', ''ext''}"

fun launch_all_schedulers ::
  "'l fayt \<Rightarrow> memcpy_fn \<Rightarrow> boot_info \<Rightarrow> ('p, 'm) portal_deps \<Rightarrow> ('b, 'h) registry_deps \<Rightarrow> ('l, 'f, 'b, 'c) ctx_deps \<Rightarrow>
   'l launch_deps \<Rightarrow> ('l, 'f, 'b, 'c, 'h, 'p, 'm) world \<Rightarrow> limine_file list \<Rightarrow> ('l, 'f, 'b, 'c, 'h, 'p, 'm) world outcome" where
  "launch_all_schedulers F memcpy B PD RD D L w [] = Ret w"
| "launch_all_schedulers F memcpy B PD RD D L w (f # fs) =
     (if cmdline f = ''scheduler''
      then obind (launch_schedulers F memcpy B PD RD D L w f) (\<lambda>(_, w). launch_all_schedulers F memcpy B PD RD D L w fs)
      else launch_all_schedulers F memcpy B PD RD D L w fs)"

text \<open>\<open>yield\<close> is the software interrupt of \<^verbatim>\<open>notification_send\<close>, \<open>A\<close> its allocator.\<close>

fun launch_io_servers ::
  "'l fayt \<Rightarrow> 'l slab \<Rightarrow> ('l kernel \<Rightarrow> 'l kernel outcome) \<Rightarrow> memcpy_fn \<Rightarrow> boot_info \<Rightarrow> ('b, 'h) registry_deps \<Rightarrow>
   ('l, 'f, 'b, 'c) ctx_deps \<Rightarrow> 'l launch_deps \<Rightarrow> ('l, 'f, 'b, 'c, 'h, 'p, 'm) world \<Rightarrow> limine_file list \<Rightarrow>
   (s32 \<times> ('l, 'f, 'b, 'c, 'h, 'p, 'm) world) outcome" where
  "launch_io_servers F A yield memcpy B RD D L w [] = Ret (0, w)"
| "launch_io_servers F A yield memcpy B RD D L w (f # fs) =
     (if \<not> io_server f then launch_io_servers F A yield memcpy B RD D L w fs
      else
        let (srv, m) = alloc D (mach w);
            w = w\<lparr>mach := m, reg := (reg w)\<lparr>servers := (servers (reg w))(srv \<mapsto> (raw_server L)\<lparr>server_file := Some f\<rparr>)\<rparr>\<rparr> in
        obind (create_server RD (reg w) ''IO'' (cmdline f) srv) (\<lambda>(ret, R).
        let w = w\<lparr>reg := R\<rparr> in
        if ret = - 1 then Ret (- 1, w)
        else obind (launch_server F memcpy B D L (servers (reg w)) (mach w) srv None) (\<lambda>(ret, m).
        let w = w\<lparr>mach := m\<rparr> in
        if ret = - 1 then Ret (- 1, w)
        else obind (deref (server_contexts (mach w)) (master_scheduler w)) (\<lambda>sender.
        obind (deref (server_contexts (mach w)) srv) (\<lambda>target.
        obind (notification_send A yield (kern (mach w)) sender target (SCHED_NOTIFY_ENQUEUE L) (NOTIFY_WEIGHT_TICK A)) (\<lambda>(ret, k).
        let w = w\<lparr>mach := (mach w)\<lparr>kern := k\<rparr>\<rparr> in
        if ret = - 1 then Ret (- 1, w)
        else launch_io_servers F A yield memcpy B RD D L w fs))))))"

definition launch_servers ::
  "'l fayt \<Rightarrow> 'l slab \<Rightarrow> ('l kernel \<Rightarrow> 'l kernel outcome) \<Rightarrow> memcpy_fn \<Rightarrow> boot_info \<Rightarrow> ('p, 'm) portal_deps \<Rightarrow> ('b, 'h) registry_deps \<Rightarrow>
   ('l, 'f, 'b, 'c) ctx_deps \<Rightarrow> 'l launch_deps \<Rightarrow> ('l, 'f, 'b, 'c, 'h, 'p, 'm) world \<Rightarrow> limine_file list option \<Rightarrow>
   (s32 \<times> ('l, 'f, 'b, 'c, 'h, 'p, 'm) world) outcome" where
  "launch_servers F A yield memcpy B PD RD D L w mods =
     (case mods of
        None \<Rightarrow> Ret (- 1, w)
      | Some fs \<Rightarrow>
          obind (launch_all_schedulers F memcpy B PD RD D L w fs) (\<lambda>w.
          let (ret, R) = create_namespace RD (reg w) ''IO''; w = w\<lparr>reg := R\<rparr> in
          if ret = - 1 then Ret (- 1, w) else launch_io_servers F A yield memcpy B RD D L w fs))"


section \<open>The notify call\<close>

text \<open>
  \<^verbatim>\<open>SYSCALL_DEFINE1(notify, ..)\<close> of \<^verbatim>\<open>core/notification.c\<close>, which looks its target up by name or by identifier. Of the
  structure \<^verbatim>\<open>comm_bridge\<close> the fields it reads are kept; a server that has not been launched has no context.
\<close>

record comm_bridge =
  bridge_not :: s32
  bridge_cid :: s32
  bridge_weight :: s32
  bridge_namespace :: "string option"
  bridge_destination :: "string option"

definition syscall_notify ::
  "'l slab \<Rightarrow> ('l kernel \<Rightarrow> 'l kernel outcome) \<Rightarrow> ('b, 'h) registry_deps \<Rightarrow> ('l, 'f, 'b, 'c) ctx_deps \<Rightarrow> ('b, 'h) registry \<Rightarrow>
   ('l, 'f, 'b, 'c) machine \<Rightarrow> comm_bridge option \<Rightarrow> (s32 \<times> ('l, 'f, 'b, 'c) machine) outcome" where
  "syscall_notify A yield D X R m bridge =
     (case bridge of None \<Rightarrow> Ret (- 1, m)
      | Some b \<Rightarrow>
          let c = current_context (core (kern m)) in
          obind (case bridge_destination b of
              Some destination \<Rightarrow>
                obind (deref (contexts (kern m)) c) (\<lambda>C.
                let ns = (case bridge_namespace b of None \<Rightarrow> namespace C | Some n \<Rightarrow> n) in
                obind (find_server D R ns destination) (\<lambda>srv.
                Ret (if srv = NULL then NULL else case server_contexts m srv of None \<Rightarrow> NULL | Some x \<Rightarrow> x)))
            | None \<Rightarrow> let (ret, x) = SEARCH_CONTEXT X m (bridge_cid b) in Ret (if ret = - 1 then NULL else x)) (\<lambda>destination.
          if destination = NULL then Ret (- 1, m)
          else obind (notification_send A yield (kern m) c destination (bridge_not b) (bridge_weight b)) (\<lambda>(e, k). Ret (e, m\<lparr>kern := k\<rparr>))))"

section \<open>The registry\<close>

text \<open>What the registry relies on: a table returns what was pushed last under a name.\<close>

definition hash_laws :: "('b, 'h) registry_deps \<Rightarrow> bool" where
  "hash_laws D \<longleftrightarrow> (\<forall>t name p t'. hash_table_push D t name p = (0, t') \<longrightarrow> hash_table_search D t' name = (0, p) \<and>
     (\<forall>name'. name' \<noteq> name \<longrightarrow> hash_table_search D t' name' = hash_table_search D t name'))"

text \<open>
  C20. The registry finds what it has been given: after a namespace has been created and a server registered
  in it, both with success, \<^verbatim>\<open>find_server\<close> returns that server under its names; its identifier is that of
  the namespace with the number the bitmap gave. The file the caller had set is lost.
\<close>

theorem create_server_found:
  assumes "hash_laws D" "alloc_namespace D R \<noteq> NULL" "namespaces R (alloc_namespace D R) = None" "srv \<noteq> NULL"
    and "hash_table_push D (namespace_table R) ns (alloc_namespace D R) = (0, t)"
    and "hash_table_push D (zero_table D) name srv = (0, t')"
    and "id_alloc D (nid_bitmap R) = (0, n, b)" "id_alloc D (zero_bitmap D) = (0, i, b')"
  shows "\<exists>R1 R2 S. create_namespace D R ns = (0, R1) \<and> create_server D R1 ns name srv = Ret (0, R2) \<and>
    find_server D R2 ns name = Ret srv \<and> servers R2 srv = Some S \<and> server_name S = name \<and>
    server_id_of S = \<lparr>nid = n, sid = i\<rparr> \<and> server_file S = None"
proof -
  have h: "hash_table_search D t ns = (0, alloc_namespace D R)" "hash_table_search D t' name = (0, srv)"
    using assms(1,5,6) by (simp_all add: hash_laws_def)
  show ?thesis
    using assms(2-8) h by (simp add: create_namespace_def create_server_def find_server_def take_id_def)
qed

definition demo_registry :: "(nat, (string \<times> ptr) list) registry" where
  "demo_registry = \<lparr>namespace_table = [], nid_bitmap = 3, namespaces = Map.empty, servers = Map.empty\<rparr>"

definition registry_ref :: "(nat, (string \<times> ptr) list) registry_deps" where
  "registry_ref = \<lparr>hash_table_search = (\<lambda>t name. case map_of t name of None \<Rightarrow> (- 1, NULL) | Some p \<Rightarrow> (0, p)),
     hash_table_push = (\<lambda>t name p. (0, (name, p) # t)), id_alloc = (\<lambda>b. (0, of_nat b, Suc b)), zero_table = [], zero_bitmap = 0,
     alloc_namespace = (\<lambda>_. 0x4000)\<rparr>"

lemma hash_laws_ref: "hash_laws registry_ref"
  by (simp add: hash_laws_def registry_ref_def)

theorem create_server_found_witness:
  "\<exists>R1 R2. create_namespace registry_ref demo_registry ''IO'' = (0, R1) \<and> create_server registry_ref R1 ''IO'' ''vfs'' 0x5000 = Ret (0, R2) \<and>
     find_server registry_ref R2 ''IO'' ''vfs'' = Ret 0x5000"
  using create_server_found [OF hash_laws_ref, of demo_registry "0x5000" "''IO''" "[(''IO'', 0x4000)]" "''vfs''" "[(''vfs'', 0x5000)]" 3 4 0 1]
  by (auto simp: registry_ref_def demo_registry_def)

lemma launch_io_skip: "\<forall>f \<in> set fs. \<not> io_server f \<Longrightarrow>
   launch_io_servers F A yield memcpy B RD D L w (fs @ gs) = launch_io_servers F A yield memcpy B RD D L w gs"
  by (induction fs) simp_all

lemma launch_no_schedulers: "\<forall>f \<in> set fs. cmdline f \<noteq> ''scheduler'' \<Longrightarrow> launch_all_schedulers F memcpy B PD RD D L w fs = Ret w"
  by (induction fs) simp_all

text \<open>
  No server of the \<^verbatim>\<open>IO\<close> namespace can be launched: \<^verbatim>\<open>launch_servers\<close> sets the file of a new server and then
  has \<^verbatim>\<open>create_server\<close> overwrite the whole structure, so that \<^verbatim>\<open>launch_server\<close> follows a null pointer at the
  first module that names such a server.
\<close>

theorem launch_servers_io_faults:
  assumes "hash_laws RD" "alloc_namespace RD (reg w) \<noteq> NULL" "alloc_at D (allocs (mach w)) \<noteq> NULL"
    and "hash_table_push RD (namespace_table (reg w)) ''IO'' (alloc_namespace RD (reg w)) = (0, t)"
    and "hash_table_push RD (zero_table RD) (cmdline f) (alloc_at D (allocs (mach w))) = (0, t')"
    and "\<forall>g \<in> set (fs @ f # gs). cmdline g \<noteq> ''scheduler''" "\<forall>g \<in> set fs. \<not> io_server g" "io_server f"
  shows "launch_servers F A yield memcpy B PD RD D L w (Some (fs @ f # gs)) = Fault NullDeref"
proof -
  have h: "hash_table_search RD t ''IO'' = (0, alloc_namespace RD (reg w))"
    using assms(1,4) by (simp add: hash_laws_def)
  have n: "launch_all_schedulers F memcpy B PD RD D L w (fs @ f # gs) = Ret w"
    by (rule launch_no_schedulers [OF assms(6)])
  obtain i b i' b' where ids: "take_id RD (nid_bitmap (reg w)) = (i, b)" "take_id RD (zero_bitmap RD) = (i', b')" by fastforce
  show ?thesis
    unfolding launch_servers_def option.case n obind.simps
    using assms(2-5,8) h ids
    by (simp add: create_namespace_def create_server_def launch_io_skip [OF assms(7)] alloc_def launch_server_def)
qed

text \<open>A machine without modules but the file system server.\<close>

definition demo_world :: "(bool, nat, nat, s32 \<Rightarrow> ptr, (string \<times> ptr) list, nat, nat) world" where
  "demo_world = \<lparr>reg = demo_registry, mach = demo_machine,
     pst = \<lparr>kst = demo 64, ptab = demo_pt Pml4Ops, portal_root = Leaf, pages = 0, portal_share_map = 0, share_points = Map.empty,
       links = Map.empty, circular_queues = []\<rparr>,
     master_scheduler = NULL, scheduling_servers = (\<lambda>_. NULL), bootable_processor_cnt = 1\<rparr>"

definition demo_launch :: "bool launch_deps" where
  "demo_launch = \<lparr>raw_elf = demo_elf [], raw_context = demo_context,
     raw_server = \<lparr>server_name = [], server_id_of = \<lparr>nid = 0, sid = 0\<rparr>, server_file = None\<rparr>,
     raw_portal = \<lparr>ptype = 0, prot = 0, share_identifier = None, base = 0, limit = 0, pflags = 0\<rparr>,
     core_name = (\<lambda>i. ''SCHEDULER CORE'' @ [char_of (48 + i)]), SCHED_NOTIFY_ENQUEUE = 1\<rparr>"

definition demo_portal_deps :: "(nat, nat) portal_deps" where
  "demo_portal_deps = \<lparr>BST_INSERT = (\<lambda>t p. Node Leaf p t), push_page = (\<lambda>h _ _. (0, h)), search_share = (\<lambda>_ _. NULL),
     push_share = (\<lambda>m _ _. (0, m)), alloc_share = (\<lambda>_. 0x6000), sizeof_share_point = 16, sizeof_circular_queue = 32\<rparr>"

theorem launch_servers_io_faults_witness:
  "launch_servers fayt_ref (slab_ref 0x70) Ret memcpy_ref demo_boot demo_portal_deps registry_ref demo_deps demo_launch demo_world
     (Some [\<lparr>file_address = None, file_size = 0, cmdline = ''limine''\<rparr>, \<lparr>file_address = Some demo_image, file_size = 133, cmdline = ''vfs''\<rparr>]) =
   Fault NullDeref"
  using launch_servers_io_faults [OF hash_laws_ref, of demo_world demo_deps "[(''IO'', 0x4000)]"
      "\<lparr>file_address = Some demo_image, file_size = 133, cmdline = ''vfs''\<rparr>" "[(''vfs'', 0x1000)]"
      "[\<lparr>file_address = None, file_size = 0, cmdline = ''limine''\<rparr>]" "[]"]
  by (simp add: registry_ref_def demo_world_def demo_registry_def demo_machine_def demo_deps_def io_server_def)


section \<open>The user stack\<close>

text \<open>A run of frames given out for data: the tables of an address space lie elsewhere.\<close>

lemma run_frame_aligned: "4096 dvd unat a \<Longrightarrow> b \<in> run_frames a c \<Longrightarrow> 4096 dvd unat b"
proof -
  assume a: "4096 dvd unat a" and "b \<in> run_frames a c"
  then obtain k where k: "b = a + of_nat k * PAGE_SIZE" by (auto simp: run_frames_def)
  have "unat (of_nat k * PAGE_SIZE :: u64) = k * 4096 mod 2 ^ 64" by (simp add: unat_word_ariths unat_of_nat take_bit_eq_mod mod_mult_left_eq)
  then have "4096 dvd unat (of_nat k * PAGE_SIZE :: u64)" by (simp add: dvd_mod_iff)
  then show ?thesis using dvd_unat_add [of 12 a "of_nat k * PAGE_SIZE"] a k by simp
qed

lemma alloc_run_apart:
  assumes "tables_apart F m D s pt" "alloc_post F s c 4096 a s'" "a \<noteq> FAILED"
  shows "tables_apart F m (D \<union> run_frames a c) s' pt" "view m s' pt = view m s pt" "agree_on D s s'" "run_frames a c \<inter> pmm_owned F s = {}"
    "pmm_owned F s' = pmm_owned F s \<union> run_frames a c"
proof -
  have t: "fayt_laws F" "pmm_inv F s" "D \<subseteq> pmm_owned F s" "tables_wf (pmm_owned F s - D) (levels m) s (pmlt pt)"
    using assms(1) by (simp_all add: tables_apart_def)
  note ag = alloc_run_agree [OF t(1,2) assms(2)]
  have p: "pmm_inv F s'" "pmm_owned F s' = pmm_owned F s \<union> run_frames a c" "run_frames a c \<inter> pmm_owned F s = {}"
    using assms(2,3) by (auto simp: alloc_post_def)
  have ag': "agree_on (pmm_owned F s - D) s s'" by (rule agree_on_subset [OF ag]) auto
  have "tables_wf (pmm_owned F s' - (D \<union> run_frames a c)) (levels m) s' (pmlt pt)"
    by (rule tables_wf_agree [OF t(4) ag']) (use p in auto)
  then show "tables_apart F m (D \<union> run_frames a c) s' pt" using assms(1) p by (auto simp: tables_apart_def)
  show "view m s' pt = view m s pt" using keeps_translate [OF keeps_agree [OF t(4) ag']] by (intro ext)
  show "agree_on D s s'" by (rule agree_on_subset [OF ag t(3)])
  show "run_frames a c \<inter> pmm_owned F s = {}" "pmm_owned F s' = pmm_owned F s \<union> run_frames a c" by (rule p)+
qed

lemma range_addr_down: "i \<le> n \<Longrightarrow> range_addr (v + of_nat n * step) (- step) i = range_addr v step (n - i)"
  by (simp add: range_addr_def of_nat_diff algebra_simps)

lemma stack_pages_inj: "inj_on (\<lambda>i. vpn m (range_addr 0x30000 (- 0x1000) i)) {..<16}"
proof (rule inj_onI)
  fix i j assume ij: "i \<in> {..<16::nat}" "j \<in> {..<16}" and eq: "vpn m (range_addr 0x30000 (- 0x1000) i) = vpn m (range_addr 0x30000 (- 0x1000) j)"
  have r: "range_addr 0x30000 (- 0x1000) k = 0x20000 + of_nat (16 - k) * 0x1000" if "k \<le> 16" for k
    using range_addr_down [OF that, of "0x20000" "0x1000"] by (simp add: range_addr_def)
  have "vpn m (0x20000 + of_nat (16 - i) * 0x1000) = vpn m (0x20000 + of_nat (16 - j) * 0x1000)"
    using eq r [of i] r [of j] ij by simp
  then have "16 - i = 16 - j" by (rule vpn_inj) simp_all
  then show "i = j" using ij by simp
qed

text \<open>The bytes of an argument below the top of the first sixteen frames.\<close>

lemma argument_frames:
  fixes a h x :: u64
  assumes "n \<le> 0x10000" "unat (x - (a + 0x10000 + h - of_nat n)) < n"
  shows "\<exists>b \<in> run_frames a 16. unat (x - (b + h)) < 4096"
proof -
  define j where "j = unat (x - (a + 0x10000 + h - of_nat n))"
  define q where "q = 0x10000 - n + j"
  have j: "x = a + 0x10000 + h - of_nat n + of_nat j" by (simp add: j_def)
  have q: "q < 0x10000" using assms by (simp add: q_def j_def)
  have "of_nat q = (0x10000 - of_nat n + of_nat j :: u64)" using assms(1) by (simp add: q_def of_nat_diff)
  then have xq: "x = a + h + of_nat q" unfolding j by simp
  have "of_nat q = (of_nat (q div 4096) * 0x1000 + of_nat (q mod 4096) :: u64)"
    by (metis div_mult_mod_eq of_nat_add of_nat_mult of_nat_numeral)
  then have "x - (a + of_nat (q div 4096) * PAGE_SIZE + h) = of_nat (q mod 4096)" unfolding xq by simp
  moreover have "q mod 4096 < 2 ^ 64" by (rule less_trans [of _ 4096]) simp_all
  ultimately have "unat (x - (a + of_nat (q div 4096) * PAGE_SIZE + h)) < 4096" by (simp add: unat_of_nat_u64)
  moreover have "q div 4096 < 16" using q by (simp add: div_less_iff_less_mult)
  ultimately show ?thesis by (auto simp: run_frames_def)
qed

context frame_budget
begin

lemma stack_maps:
  assumes "tables_apart F m D s pt" "budget s (16 * levels m + k)" "4096 dvd unat a"
    and "small_range (view m s pt) 0x30000 (- 0x1000) 16"
  shows "\<exists>pt' s'. map_linear (map_page F) s pt 0x30000 (a + 0x10000) 16 7 (- 0x1000) = Ret (pt', s') \<and>
    tables_apart F m D s' pt' \<and> HIGH_VMA s' = HIGH_VMA s \<and> budget s' k \<and> agree_on D s s' \<and> pmm_owned F s \<subseteq> pmm_owned F s' \<and>
    (\<forall>i < 16. view m s' pt' (range_addr 0x30000 (- 0x1000) i) = Some (range_addr (a + 0x10000) (- 0x1000) i OR 7)) \<and>
    (\<forall>w. (\<forall>i < 16. vpn m w \<noteq> vpn m (range_addr 0x30000 (- 0x1000) i)) \<longrightarrow> view m s' pt' w = view m s pt w)"
proof -
  have inv: "fayt_laws F \<and> pmm_inv F s \<and> D \<subseteq> pmm_owned F s" using assms(1) by (simp add: tables_apart_def)
  have al: "4096 dvd unat (a + 0x10000)" "4096 dvd unat (- 0x1000 :: u64)"
    using dvd_unat_add [of 12 a "0x10000"] assms(3) by simp_all
  obtain pt' s' where r: "map_linear (map_page F) s pt 0x30000 (a + 0x10000) 16 7 (- 0x1000) = Ret (pt', s')" "budget s' k"
    "tables_apart F m D s' pt'" "HIGH_VMA s' = HIGH_VMA s" "pmm_owned F s - D \<subseteq> pmm_owned F s' - D" "untouched (pmm_owned F s' - D) s s'"
    and vw: "view m s' pt' = linear_view (vpn m) (- 0x1000) 7 16 0x30000 (a + 0x10000) (view m s pt)"
    using apart_vm.map_linear_small [OF inv assms(2,1) demo_flags(1,2) assms(4) al] by blast
  have "agree_on D s s'" by (rule untouched_agree [OF apart_frames_aligned [OF assms(1)] r(6)]) (use r(4) in auto)
  moreover have "pmm_owned F s \<subseteq> pmm_owned F s'" using r(3,5) inv by (auto simp: tables_apart_def)
  moreover have inj: "inj_on (\<lambda>i. vpn m (range_addr 0x30000 (- 0x1000) i)) {..<length (map (range_addr (a + 0x10000) (- 0x1000)) [0..<16])}"
    using stack_pages_inj by simp
  have "view m s' pt' (range_addr 0x30000 (- 0x1000) i) = Some (range_addr (a + 0x10000) (- 0x1000) i OR 7)" if "i < 16" for i
    unfolding vw linear_fresh using fresh_view_at [OF inj, of i] that by simp
  moreover have "view m s' pt' w = view m s pt w" if "\<forall>i < 16. vpn m w \<noteq> vpn m (range_addr 0x30000 (- 0x1000) i)" for w
    unfolding vw linear_fresh by (rule fresh_view_other) (use that in simp)
  ultimately show ?thesis using r(1-4) by blast
qed

end

text \<open>Rounding an address down to a multiple of sixteen, as the code aligns the stack pointer.\<close>

lemma round_down_16: "unat ((x :: u64) AND - 16) mod 16 = 0" "unat (x - (x AND - 16)) < 16"
proof -
  have n: "(- 16 :: u64) = NOT 15" by (simp add: not_eq_complement)
  have m: "x AND 15 = take_bit 4 x" by (simp add: take_bit_eq_mask mask_eq_exp_minus_1)
  have "x = (x AND 15) + (x AND NOT 15)" by (subst disjunctive_add) (auto simp: bit_eq_iff bit_simps)
  then have d: "x - (x AND - 16) = take_bit 4 x" unfolding n m by (metis add_diff_cancel_right')
  then show "unat (x - (x AND - 16)) < 16" by (simp add: unat_take_bit)
  have "take_bit 4 (x AND - 16) = 0" unfolding n by (auto simp: bit_eq_iff bit_simps m [symmetric] take_bit_eq_mask mask_eq_exp_minus_1)
  moreover have "unat (take_bit 4 y) = unat y mod 16" for y :: u64 by (simp only: unat_take_bit) (simp add: take_bit_eq_mod)
  ultimately show "unat (x AND - 16) mod 16 = 0" by (metis unat_0)
qed


lemma stack_pointer:
  fixes a h :: u64
  assumes "4096 dvd unat a" "4096 dvd unat h" "l = a + 0x10000 + h - of_nat n"
  shows "0x30000 - (a + 0x10000 - (l - h)) = 0x30000 - of_nat n"
    and "16 dvd unat (0x30000 - (a + 0x10000 - ((l AND - 16) - h)))"
    and "unat (0x30000 - of_nat n - (0x30000 - (a + 0x10000 - ((l AND - 16) - h)))) < 16"
proof -
  show "0x30000 - (a + 0x10000 - (l - h)) = 0x30000 - of_nat n" using assms(3) by simp
  have m16: "16 dvd x" if "4096 dvd x" for x :: nat by (rule dvd_trans [OF _ that]) simp
  have "16 dvd unat ((l AND - 16) - h)"
    using dvd_unat_sub [of 4 "l AND - 16" h] round_down_16(1) [of l] m16 [OF assms(2)] by (simp add: dvd_eq_mod_eq_0)
  moreover have "16 dvd unat (0x20000 - a)" using dvd_unat_sub [of 4 "0x20000" a] m16 [OF assms(1)] by simp
  ultimately have "16 dvd unat (0x20000 - a + ((l AND - 16) - h))" using dvd_unat_add [of 4 "0x20000 - a" "(l AND - 16) - h"] by simp
  moreover have e: "0x30000 - (a + 0x10000 - ((l AND - 16) - h)) = 0x20000 - a + ((l AND - 16) - h)" by simp
  ultimately show "16 dvd unat (0x30000 - (a + 0x10000 - ((l AND - 16) - h)))" by (simp only: e)
  have d: "0x30000 - of_nat n - (0x30000 - (a + 0x10000 - ((l AND - 16) - h))) = l - (l AND - 16)"
    unfolding e using assms(3) by (simp only: algebra_simps) simp
  show "unat (0x30000 - of_nat n - (0x30000 - (a + 0x10000 - ((l AND - 16) - h)))) < 16"
    unfolding d by (rule round_down_16(2))
qed

text \<open>The argument, if there is one, is written into the upper part of the stack, and nowhere else.\<close>

lemma argument_written:
  assumes ok: "tables_apart F m D s pt" and mc: "memcpy_law memcpy" and a: "4096 dvd unat a" "run_frames a 16 \<subseteq> D" and n: "length bs \<le> 0x10000"
    and c: "c = memcpy (a + 0x10000 + HIGH_VMA s - of_nat (length bs)) bs (memory s)"
  shows "tables_apart F m D (s\<lparr>memory := c\<rparr>) pt" "view m (s\<lparr>memory := c\<rparr>) pt = view m s pt" "agree_on (D - run_frames a 16) s (s\<lparr>memory := c\<rparr>)"
    "\<forall>j < length bs. cell_byte c (a + 0x10000 + HIGH_VMA s - of_nat (length bs) + of_nat j) = bs ! j"
proof -
  define l where "l = a + 0x10000 + HIGH_VMA s - of_nat (length bs)"
  have cb: "cell_byte c x = (if unat (x - l) < length bs then bs ! unat (x - l) else cell_byte (memory s) x)" for x
    using mc by (simp add: memcpy_law_def c l_def)
  have out: "\<forall>x. (\<forall>b \<in> run_frames a 16. 4096 \<le> unat (x - (b + HIGH_VMA s))) \<longrightarrow> cell_byte c x = cell_byte (memory s) x"
    using argument_frames [OF n] unfolding cb l_def by (metis not_less)
  have al: "\<forall>b \<in> run_frames a 16. 4096 dvd unat b" using run_frame_aligned [OF a(1)] by blast
  note w = apart_data_write [OF ok al a(2) out]
  show "tables_apart F m D (s\<lparr>memory := c\<rparr>) pt" "agree_on (D - run_frames a 16) s (s\<lparr>memory := c\<rparr>)" by (rule w)+
  show "view m (s\<lparr>memory := c\<rparr>) pt = view m s pt" using w(2) by (intro ext)
  show "\<forall>j < length bs. cell_byte c (a + 0x10000 + HIGH_VMA s - of_nat (length bs) + of_nat j) = bs ! j"
    using n by (simp add: cb l_def [symmetric] unat_of_nat_u64)
qed

context frame_budget
begin

lemma launch_stack_apart:
  assumes ok: "tables_apart F m D s pt" and mc: "memcpy_law memcpy"
    and run: "pmm_alloc F s 48 1 = Ret (a, s1)" "a \<noteq> FAILED" "budget s1 (16 * levels m + k)"
    and sr: "small_range (view m s pt) 0x30000 (- 0x1000) 16" and n: "n = (case arg of None \<Rightarrow> 0 | Some bs \<Rightarrow> length bs)" "n \<le> 0x10000"
  shows "\<exists>rsp pt' s'. launch_stack F memcpy s pt arg = Ret (map_option (\<lambda>bs. 0x30000 - of_nat (length bs)) arg, rsp, pt', s') \<and>
    tables_apart F m (D \<union> run_frames a 48) s' pt' \<and> budget s' k \<and> agree_on D s s' \<and> pmm_owned F s \<subseteq> pmm_owned F s' \<and>
    16 dvd unat rsp \<and> unat (0x30000 - of_nat n - rsp) < 16 \<and>
    (\<forall>i < 16. view m s' pt' (range_addr 0x30000 (- 0x1000) i) = Some (range_addr (a + 0x10000) (- 0x1000) i OR 7)) \<and>
    (\<forall>w. (\<forall>i < 16. vpn m w \<noteq> vpn m (range_addr 0x30000 (- 0x1000) i)) \<longrightarrow> view m s' pt' w = view m s pt w) \<and>
    (\<forall>bs. arg = Some bs \<longrightarrow> (\<forall>j < n. cell_byte (memory s') (a + 0x10000 + HIGH_VMA s - of_nat n + of_nat j) = bs ! j))"
proof -
  have t: "fayt_laws F" "pmm_inv F s" "D \<subseteq> pmm_owned F s" using ok by (simp_all add: tables_apart_def)
  have post: "alloc_post F s 48 4096 a s1" using pmm_alloc_correct [OF t(1,2), of 48 0] run(1) by auto
  have al: "4096 dvd unat a" "HIGH_VMA s1 = HIGH_VMA s" using post run(2) by (simp_all add: alloc_post_def)
  have hv: "4096 dvd unat (HIGH_VMA s)" using t(2) by (simp add: pmm_inv_def)
  note ap = alloc_run_apart [OF ok post run(2)]
  let ?D = "D \<union> run_frames a 48"
  obtain pt' s2 where r: "map_linear (map_page F) s1 pt 0x30000 (a + 0x10000) 16 7 (- 0x1000) = Ret (pt', s2)" "tables_apart F m ?D s2 pt'"
    "HIGH_VMA s2 = HIGH_VMA s1" "budget s2 k" "agree_on ?D s1 s2" "pmm_owned F s1 \<subseteq> pmm_owned F s2"
    and vw: "\<forall>i < 16. view m s2 pt' (range_addr 0x30000 (- 0x1000) i) = Some (range_addr (a + 0x10000) (- 0x1000) i OR 7)"
      "\<forall>w. (\<forall>i < 16. vpn m w \<noteq> vpn m (range_addr 0x30000 (- 0x1000) i)) \<longrightarrow> view m s2 pt' w = view m s1 pt w"
    using stack_maps [OF ap(1) run(3) al(1)] sr ap(2) by auto
  define l where "l = a + 0x10000 + HIGH_VMA s - of_nat n"
  define c where "c = (case arg of None \<Rightarrow> memory s2 | Some bs \<Rightarrow> memcpy l bs (memory s2))"
  let ?s = "s2\<lparr>memory := c\<rparr>"
  have "run_frames a 16 \<subseteq> run_frames a 48" by (auto simp: run_frames_def)
  then have sub: "run_frames a 16 \<subseteq> ?D" "D \<subseteq> ?D - run_frames a 16" using t(3) ap(4) by auto
  have w: "tables_apart F m ?D ?s pt' \<and> view m ?s pt' = view m s2 pt' \<and> agree_on D s2 ?s \<and>
      (\<forall>bs. arg = Some bs \<longrightarrow> (\<forall>j < n. cell_byte c (l + of_nat j) = bs ! j))"
  proof (cases arg)
    case None
    then show ?thesis using r(2) by (simp add: c_def)
  next
    case (Some bs)
    then have nb: "length bs = n" "length bs \<le> 0x10000" and cc: "c = memcpy (a + 0x10000 + HIGH_VMA s2 - of_nat (length bs)) bs (memory s2)"
      using n al(2) r(3) by (simp_all add: c_def l_def)
    note w = argument_written [OF r(2) mc al(1) sub(1) nb(2) cc]
    have "agree_on D s2 ?s" by (rule agree_on_subset [OF w(3) sub(2)])
    then show ?thesis using w(1,2,4) nb(1) Some al(2) r(3) by (simp add: l_def)
  qed
  note sp = stack_pointer [OF al(1) hv l_def]
  have "launch_stack F memcpy s pt arg = Ret (map_option (\<lambda>bs. 0x30000 - of_nat (length bs)) arg,
      0x30000 - (a + 0x10000 - ((l AND - 16) - HIGH_VMA s)), pt', ?s)"
    using run(1) r(1,3) al(2) sp(1) n(1) by (cases arg) (simp_all add: launch_stack_def c_def l_def Let_def)
  moreover have "agree_on D s ?s"
    using agree_on_trans [OF agree_on_trans [OF ap(3) r(5) Un_upper1], of D ?s] w by blast
  moreover have "pmm_owned F s \<subseteq> pmm_owned F ?s" using ap(5) r(6) by (auto simp: pmm_owned_def)
  moreover have "budget ?s k" using r(4) by simp
  ultimately show ?thesis using w sp(2,3) vw ap(2) unfolding l_def by (intro exI conjI) (assumption | simp)+
qed

end

text \<open>
  C18. The stack of a new server: with memory for a run of 48 frames and the tables, the set-up returns.
  The pages \<^verbatim>\<open>0x30000\<close> down to \<^verbatim>\<open>0x21000\<close> are translated, writable for the user, to the frames
  sixteen to one of the run, and no other page is: the page \<^verbatim>\<open>0x20000\<close>, the lowest of the stack, is left
  out and the page above it is mapped instead. \<^verbatim>\<open>rdi\<close> points to the argument, whose bytes lie below the
  top of the stack, and \<^verbatim>\<open>rsp\<close> is the next multiple of 16 below it.
\<close>

theorem launch_stack_ready:
  assumes "fayt_laws F" "pmm_inv F s" "pt_ok F m s pt" "memcpy_law memcpy"
    and "pmm_alloc F s 48 1 = Ret (a, s1)" "a \<noteq> FAILED" "pmm_room F (modules s1) (16 * levels m)"
    and "small_range (view m s pt) 0x30000 (- 0x1000) 16" "length bs \<le> 0x10000"
  shows "\<exists>rsp pt' s'. launch_stack F memcpy s pt (Some bs) = Ret (Some (0x30000 - of_nat (length bs)), rsp, pt', s') \<and>
    pmm_inv F s' \<and> pt_ok F m s' pt' \<and> 16 dvd unat rsp \<and> unat (0x30000 - of_nat (length bs) - rsp) < 16 \<and>
    (\<forall>i < 16. view m s' pt' (range_addr 0x30000 (- 0x1000) i) = Some (range_addr (a + 0x10000) (- 0x1000) i OR 7)) \<and>
    (\<forall>w. (\<forall>i < 16. vpn m w \<noteq> vpn m (range_addr 0x30000 (- 0x1000) i)) \<longrightarrow> view m s' pt' w = view m s pt w) \<and>
    (\<forall>j < length bs. cell_byte (memory s') (a + 0x10000 + HIGH_VMA s - of_nat (length bs) + of_nat j) = bs ! j)"
proof -
  have ap: "tables_apart F m {} s pt" using assms(1-3) by (simp add: tables_apart_empty)
  have room: "pmm_room F (modules s1) (16 * levels m + 0)" using assms(7) by simp
  have n: "length bs = (case Some bs of None \<Rightarrow> 0 | Some bs \<Rightarrow> length bs)" by simp
  from singles.launch_stack_apart [OF ap assms(4-6) room assms(8) n assms(9)]
  obtain rsp pt' s' where "launch_stack F memcpy s pt (Some bs) = Ret (Some (0x30000 - of_nat (length bs)), rsp, pt', s')"
    "tables_apart F m ({} \<union> run_frames a 48) s' pt'" "16 dvd unat rsp" "unat (0x30000 - of_nat (length bs) - rsp) < 16"
    "\<forall>i < 16. view m s' pt' (range_addr 0x30000 (- 0x1000) i) = Some (range_addr (a + 0x10000) (- 0x1000) i OR 7)"
    "\<forall>w. (\<forall>i < 16. vpn m w \<noteq> vpn m (range_addr 0x30000 (- 0x1000) i)) \<longrightarrow> view m s' pt' w = view m s pt w"
    "\<forall>j < length bs. cell_byte (memory s') (a + 0x10000 + HIGH_VMA s - of_nat (length bs) + of_nat j) = bs ! j"
    by auto
  moreover from this(2) have "pmm_inv F s'" "pt_ok F m s' pt'"
    using tables_apart_ok [of F m "{} \<union> run_frames a 48" s' pt'] by (simp_all add: tables_apart_def)
  ultimately show ?thesis by blast
qed

theorem launch_stack_ready_witness:
  "\<exists>rsp pt' s'. launch_stack fayt_ref memcpy_ref (demo 4096) (demo_pt Pml4Ops) (Some [1, 2, 3]) = Ret (Some 0x2fffd, rsp, pt', s') \<and>
     16 dvd unat rsp \<and> view Pml4Ops s' pt' 0x20000 = view Pml4Ops (demo 4096) (demo_pt Pml4Ops) 0x20000"
proof -
  have wf: "module_wf fayt_ref (demo_module 4096)" "tail_free fayt_ref (demo_module 4096)" "mod_pages (demo_module 4096) = 4096"
    using demo_wf [of 4096] demo_tail_free [of 4096] demo_pages [of 4096] by simp_all
  have "modules (demo 4096) = demo_module 4096 # []" by (simp add: demo_def)
  then obtain a s1 where r: "pmm_alloc fayt_ref (demo 4096) 48 1 = Ret (a, s1)" "a \<noteq> FAILED"
    "pmm_room fayt_ref (modules s1) (16 * levels Pml4Ops)"
    using tail_free_run_room [OF fayt_laws_ref wf(1,2), of "demo 4096" "[]" 48 "16 * levels Pml4Ops"] wf(3)
    by (auto simp: demo_module_def)
  have np: "vpn Pml4Ops 0x20000 \<noteq> vpn Pml4Ops (range_addr 0x30000 (- 0x1000) i)" if "i < 16" for i
  proof
    have d: "range_addr 0x30000 (- 0x1000) i = 0x20000 + of_nat (16 - i) * 0x1000"
      using range_addr_down [of i 16 "0x20000" "0x1000"] that by (simp add: range_addr_def)
    assume "vpn Pml4Ops 0x20000 = vpn Pml4Ops (range_addr 0x30000 (- 0x1000) i)"
    then have "vpn Pml4Ops (0x20000 + of_nat 0 * 0x1000) = vpn Pml4Ops (0x20000 + of_nat (16 - i) * 0x1000)" unfolding d by simp
    then have "0 = 16 - i" by (rule vpn_inj) simp_all
    then show False using that by simp
  qed
  show ?thesis
    using launch_stack_ready [OF fayt_laws_ref demo_ready(1,2) memcpy_law_ref r demo_small_range, of "[1, 2, 3]"] np
    by simp blast
qed

section \<open>Sending from user space\<close>

text \<open>
  C40. No server can notify another: whatever target a bridge names, by name or by identifier, \<^verbatim>\<open>notify\<close> with a valid number
  that returns has returned -1 and has changed nothing.
\<close>

theorem notify_never_sends:
  assumes "1 \<le> sint (bridge_not b)" "sint (bridge_not b) \<le> 64" "syscall_notify A yield D X R m (Some b) = Ret (e, m')"
  shows "e = - 1 \<and> m' = m"
  using assms(3) by (auto simp: syscall_notify_def Let_def send_valid_rejected [OF assms(1,2)] split: if_splits)

theorem notify_never_sends_witness:
  "syscall_notify (slab_ref 0x70) Ret registry_ref demo_deps demo_registry (demo_machine\<lparr>context_table := \<lambda>_. 0x11\<rparr>)
     (Some \<lparr>bridge_not = 2, bridge_cid = 1, bridge_weight = 0, bridge_namespace = None, bridge_destination = None\<rparr>) =
   Ret (- 1, demo_machine\<lparr>context_table := \<lambda>_. 0x11\<rparr>)"
proof -
  let ?m = "demo_machine\<lparr>context_table := \<lambda>_. 0x11\<rparr>"
  let ?b = "\<lparr>bridge_not = 2, bridge_cid = 1, bridge_weight = 0, bridge_namespace = None, bridge_destination = None\<rparr>"
  obtain e m' where "syscall_notify (slab_ref 0x70) Ret registry_ref demo_deps demo_registry ?m (Some ?b) = Ret (e, m')"
    by (simp add: syscall_notify_def SEARCH_CONTEXT_def demo_deps_def notification_send_def notification_is_valid_def)
  with notify_never_sends [OF _ _ this] show ?thesis by simp
qed

end
