(* ===== verification/Pmm_Init.thy ===== *)
theory Pmm_Init
  imports Pmm
begin

unbundle bit_operations_syntax

text \<open>
  Start of the frame allocator, \<^verbatim>\<open>pmm_init\<close> and \<^verbatim>\<open>pmm_init_module\<close> of \<^verbatim>\<open>kernel/core/physical.c\<close>. The
  three loops over the boot memory map are three functions: the first sizes the metadata buffer and
  clips what lies below 1 MiB, the second takes the buffer out of the first usable region that is
  large enough, the third builds a module per usable region in that buffer. \<^verbatim>\<open>sizeof(struct pmm_module)\<close>
  depends on the lock of \<open>fayt\<close> and is an argument, as are the bytes found in the buffer. Clearing a module struct and
  a bitmap with \<^verbatim>\<open>memset8\<close> has its effect on the module and on the bitmap's bytes; the cells of \<open>memory\<close> under the buffer are not kept up to date, and
  the theorem says that no region handed out overlaps the buffer.
\<close>

section \<open>The three passes\<close>

abbreviation usable :: "limine_memmap_entry \<Rightarrow> bool" where
  "usable e \<equiv> me_type e = LIMINE_MEMMAP_USABLE"

definition entry_meta :: "'l fayt \<Rightarrow> u64 \<Rightarrow> limine_memmap_entry \<Rightarrow> u64" where
  "entry_meta F module_size e =
     module_size * 2 + DIV_ROUNDUP F (DIV_ROUNDUP F (me_length e) PAGE_SIZE) 8"

text \<open>The length is reduced after the base has changed, so by zero.\<close>

definition clip_entry :: "limine_memmap_entry \<Rightarrow> limine_memmap_entry" where
  "clip_entry e =
     (if me_base e < 0x100000 then
        if 0x100000 - me_base e > me_length e then e\<lparr>me_length := 0\<rparr>
        else let e = e\<lparr>me_base := me_base e + (0x100000 - me_base e)\<rparr>
             in e\<lparr>me_length := me_length e - (0x100000 - me_base e)\<rparr>
      else e)"

fun pmm_init_size ::
  "'l fayt \<Rightarrow> u64 \<Rightarrow> limine_memmap_entry list \<Rightarrow> u64 \<Rightarrow> u64 \<times> limine_memmap_entry list" where
  "pmm_init_size F module_size [] buffer_size = (buffer_size, [])"
| "pmm_init_size F module_size (e # es) buffer_size =
     (let buffer_size = (if usable e then buffer_size + entry_meta F module_size e else buffer_size);
          (total, es) = pmm_init_size F module_size es buffer_size
      in (total, clip_entry e # es))"

definition carve_entry :: "'l fayt \<Rightarrow> u64 \<Rightarrow> limine_memmap_entry \<Rightarrow> limine_memmap_entry" where
  "carve_entry F buffer_size e =
     (let e = e\<lparr>me_base := me_base e + buffer_size, me_length := me_length e - buffer_size\<rparr>
      in e\<lparr>me_base := ALIGN_UP F (me_base e) PAGE_SIZE,
           me_length := me_length e div PAGE_SIZE * PAGE_SIZE\<rparr>)"

fun pmm_init_carve ::
  "'l fayt \<Rightarrow> u64 \<Rightarrow> u64 \<Rightarrow> limine_memmap_entry list \<Rightarrow> u64 \<times> limine_memmap_entry list" where
  "pmm_init_carve F hv buffer_size [] = (NULL, [])"
| "pmm_init_carve F hv buffer_size (e # es) =
     (if usable e \<and> buffer_size \<le> me_length e then (me_base e + hv, carve_entry F buffer_size e # es)
      else let (meta, es) = pmm_init_carve F hv buffer_size es in (meta, e # es))"

definition pmm_init_module ::
  "'l fayt \<Rightarrow> (u64 \<Rightarrow> u8) \<Rightarrow> u64 \<Rightarrow> 'l pmm_module \<Rightarrow> limine_memmap_entry \<Rightarrow> u64 \<times> 'l pmm_module" where
  "pmm_init_module F found meta_buffer m e =
     (let page_cnt = DIV_ROUNDUP F (me_length e) PAGE_SIZE;
          size = DIV_ROUNDUP F page_cnt 8;
          raw = map (\<lambda>i. found (meta_buffer + of_nat i)) [0..<unat size]
      in (meta_buffer + size,
          m\<lparr>mmap_entry := e, bitmap_size := size, bitmap_entry_cnt := page_cnt, bitmap_ptr := meta_buffer,
            bitmap := memset8 F raw 0 size\<rparr>))"

text \<open>A module struct after \<^verbatim>\<open>memset8(.., 0, sizeof(struct pmm_module))\<close>.\<close>

definition blank_module :: "'l fayt \<Rightarrow> u64 \<Rightarrow> 'l pmm_module" where
  "blank_module F p = \<lparr>self = p, mmap_entry = \<lparr>me_base = 0, me_length = 0, me_type = 0\<rparr>, bitmap_size = 0,
     bitmap_entry_cnt = 0, last_free = 0, bitmap_ptr = 0, bitmap = [], module_lock = lock_zero F\<rparr>"

fun pmm_init_modules ::
  "'l fayt \<Rightarrow> (u64 \<Rightarrow> u8) \<Rightarrow> u64 \<Rightarrow> u64 \<Rightarrow> limine_memmap_entry list \<Rightarrow> u64 \<Rightarrow> 'l pmm_module list \<Rightarrow> 'l pmm_module list" where
  "pmm_init_modules F found module_size hv [] meta_buffer ms = ms"
| "pmm_init_modules F found module_size hv (e # es) meta_buffer ms =
     (if usable e \<and> me_length e \<noteq> 0 then
        let node = ALIGN_UP F (meta_buffer - hv) module_size + hv;
            (meta_buffer, m) = pmm_init_module F found (node + module_size * 2) (blank_module F node) e
        in pmm_init_modules F found module_size hv es meta_buffer (ms @ [m])
      else pmm_init_modules F found module_size hv es meta_buffer ms)"

definition pmm_init ::
  "'l fayt \<Rightarrow> (u64 \<Rightarrow> u8) \<Rightarrow> u64 \<Rightarrow> limine_memmap_entry list \<Rightarrow> 'l kstate \<Rightarrow> 'l kstate" where
  "pmm_init F found module_size mmap s =
     (let (buffer_size, mmap) = pmm_init_size F module_size mmap 0;
          (meta_buffer, mmap) = pmm_init_carve F (HIGH_VMA s) buffer_size mmap
      in s\<lparr>modules := pmm_init_modules F found module_size (HIGH_VMA s) mmap meta_buffer []\<rparr>)"

section \<open>Regions\<close>

definition region :: "limine_memmap_entry \<Rightarrow> nat set" where
  "region e = (if usable e then {unat (me_base e)..<unat (me_base e) + unat (me_length e)} else {})"

text \<open>
  What the boot protocol promises of a usable entry: whole frames, below the end of the physical
  address space; and that it does not straddle or end at the 1 MiB line.
\<close>

definition entry_ok :: "limine_memmap_entry \<Rightarrow> bool" where
  "entry_ok e \<longleftrightarrow> (usable e \<longrightarrow> 4096 dvd unat (me_base e) \<and> 4096 dvd unat (me_length e) \<and>
     unat (me_base e) + unat (me_length e) \<le> 2 ^ 52)"

definition off_the_line :: "limine_memmap_entry \<Rightarrow> bool" where
  "off_the_line e \<longleftrightarrow> (usable e \<longrightarrow> 0x100000 \<le> unat (me_base e) \<or> unat (me_base e) + unat (me_length e) < 0x100000)"

definition shrinks :: "limine_memmap_entry \<Rightarrow> limine_memmap_entry \<Rightarrow> bool" where
  "shrinks e e' \<longleftrightarrow> (entry_ok e \<longrightarrow> entry_ok e') \<and> region e' \<subseteq> region e"

lemma shrinks_refl [simp]: "shrinks e e"
  by (simp add: shrinks_def)

lemma shrinks_trans [trans]: "shrinks a b \<Longrightarrow> shrinks b c \<Longrightarrow> shrinks a c"
  by (auto simp: shrinks_def)

lemma shrinks_all: "list_all2 shrinks es fs \<Longrightarrow> list_all entry_ok es \<Longrightarrow> list_all entry_ok fs"
  by (induction rule: list_all2_induct) (auto simp: shrinks_def)

lemma shrinks_disjoint:
  "list_all2 shrinks es fs \<Longrightarrow> sorted_wrt (\<lambda>a b. region a \<inter> region b = {}) es \<Longrightarrow>
   sorted_wrt (\<lambda>a b. region a \<inter> region b = {}) fs"
proof (induction rule: list_all2_induct)
  case (Cons e es f fs)
  have "region f \<inter> region g = {}" if g: "g \<in> set fs" for g
  proof -
    obtain i where i: "i < length fs" "g = fs ! i" using g unfolding in_set_conv_nth by blast
    have "shrinks (es ! i) g" using list_all2_nthD2 [OF Cons.hyps(2) i(1)] i(2) by simp
    moreover have "region e \<inter> region (es ! i) = {}"
      using Cons.prems list_all2_lengthD [OF Cons.hyps(2)] i(1) by simp
    ultimately show ?thesis using Cons.hyps(1) unfolding shrinks_def by blast
  qed
  then show ?case using Cons by auto
qed simp

lemma shrinks_Union: "list_all2 shrinks es fs \<Longrightarrow> \<Union> (region ` set fs) \<subseteq> \<Union> (region ` set es)"
  by (induction rule: list_all2_induct) (auto simp: shrinks_def)

lemma clip_shrinks: "off_the_line e \<Longrightarrow> shrinks e (clip_entry e)"
proof (cases "me_base e < 0x100000")
  case True
  moreover assume o: "off_the_line e"
  moreover have d: "unat (0x100000 - me_base e) = 0x100000 - unat (me_base e)"
    using True by (subst unat_sub_exact) (auto simp: word_less_nat_alt)
  ultimately have "usable e \<Longrightarrow> 0x100000 - me_base e > me_length e"
    by (auto simp: word_less_nat_alt off_the_line_def)
  then show ?thesis using True o by (auto simp: clip_entry_def shrinks_def entry_ok_def region_def Let_def)
qed (simp add: clip_entry_def)

lemma roundup_ge: "n \<le> 4096 * ((n + 4095) div 4096)" for n :: nat
  using mult_div_mod_eq [of 4096 "n + 4095"] mod_less_divisor [of 4096 "n + 4095"] by linarith

lemma rounddown_sub:
  fixes n y :: nat
  assumes "n \<le> 4096 * y"
  shows "(n + 4095) div 4096 \<le> y" "(4096 * y - n) div 4096 = y - (n + 4095) div 4096"
proof -
  define q where "q = (n + 4095) div 4096"
  have q: "n \<le> 4096 * q" "4096 * q \<le> n + 4095"
    using roundup_ge [of n] div_times_less_eq_dividend [of "n + 4095" 4096] by (simp_all add: q_def mult.commute)
  then show le: "(n + 4095) div 4096 \<le> y" using assms unfolding q_def [symmetric] by linarith
  then obtain t where "y = q + t" using le_Suc_ex unfolding q_def by blast
  then have "(4096 * y - n) div 4096 = t" using q by (intro div_nat_eqI) auto
  then show "(4096 * y - n) div 4096 = y - (n + 4095) div 4096" using \<open>y = q + t\<close> by (simp add: q_def)
qed

lemma carve_aligned:
  assumes "fayt_laws F" "entry_ok e" "usable e" "bs \<le> me_length e"
  defines "e' \<equiv> carve_entry F bs e"
  defines "q \<equiv> (unat bs + 4095) div 4096"
  shows "unat (me_base e') = unat (me_base e) + 4096 * q"
    and "unat (me_length e') = unat (me_length e) - 4096 * q" and "4096 * q \<le> unat (me_length e)"
    and "me_type e' = me_type e"
proof -
  have ok: "4096 dvd unat (me_base e)" "4096 dvd unat (me_length e)" "unat (me_base e) + unat (me_length e) \<le> 2 ^ 52"
    using assms(2,3) by (simp_all add: entry_ok_def)
  have b: "unat bs \<le> unat (me_length e)" using assms(4) by (simp add: word_le_nat_alt)
  obtain x y where xy: "unat (me_base e) = 4096 * x" "unat (me_length e) = 4096 * y" using ok unfolding dvd_def by blast
  have q: "q \<le> y" using rounddown_sub(1) [of "unat bs" y] b xy by (simp add: q_def)
  then show "4096 * q \<le> unat (me_length e)" by (simp add: xy)
  have s: "unat (me_base e + bs) = unat (me_base e) + unat bs" using ok b by (subst unat_add_exact) auto
  have "unat (ALIGN_UP F (me_base e + bs) (2 ^ 12)) = (unat (me_base e + bs) + 2 ^ 12 - 1) div 2 ^ 12 * 2 ^ 12"
    using s ok b by (intro ALIGN_UP_exact [OF assms(1)]) auto
  also have "\<dots> = unat (me_base e) + 4096 * q"
    using div_mult_self4 [of 4096 x "unat bs + 4095"] unfolding s xy q_def by (simp add: ac_simps)
  finally show "unat (me_base e') = unat (me_base e) + 4096 * q" by (simp add: e'_def carve_entry_def Let_def)
  have l: "unat (me_length e - bs) = 4096 * y - unat bs" using b xy by (simp add: unat_sub_exact)
  have d: "(4096 * y - unat bs) div 4096 = y - q" using rounddown_sub(2) [of "unat bs" y] b xy by (simp add: q_def)
  have "unat ((me_length e - bs) div PAGE_SIZE * PAGE_SIZE) = (y - q) * 4096"
    using l d u64_unat_bound [of "me_length e - bs"] by (subst unat_mult_exact) (auto simp: unat_div)
  then show "unat (me_length e') = unat (me_length e) - 4096 * q"
    by (simp add: e'_def carve_entry_def Let_def xy diff_mult_distrib)
  show "me_type e' = me_type e" by (simp add: e'_def carve_entry_def Let_def)
qed


lemma carve_shrinks:
  assumes "fayt_laws F" "entry_ok e" "usable e" "bs \<le> me_length e"
  shows "shrinks e (carve_entry F bs e)"
    and "region (carve_entry F bs e) \<inter> {unat (me_base e)..<unat (me_base e) + unat bs} = {}"
proof -
  define q where "q = 4096 * ((unat bs + 4095) div 4096)"
  note c = carve_aligned [OF assms, folded q_def]
  have r: "region (carve_entry F bs e) = {unat (me_base e) + q..<unat (me_base e) + unat (me_length e)}"
    using c assms(3) by (simp add: region_def)
  show "region (carve_entry F bs e) \<inter> {unat (me_base e)..<unat (me_base e) + unat bs} = {}"
    using roundup_ge [of "unat bs"] unfolding r q_def by auto
  have "4096 dvd q" by (simp add: q_def)
  then have "entry_ok (carve_entry F bs e)"
    using c assms(2,3) by (simp add: entry_ok_def)
  moreover have "region (carve_entry F bs e) \<subseteq> region e" unfolding r using assms(3) by (auto simp: region_def)
  ultimately show "shrinks e (carve_entry F bs e)" by (simp add: shrinks_def)
qed

lemma size_shrinks: "list_all off_the_line es \<Longrightarrow> list_all2 shrinks es (snd (pmm_init_size F z es bs))"
  by (induction es arbitrary: bs) (simp_all add: Let_def clip_shrinks split_beta)

lemma carve_pass_shrinks:
  "fayt_laws F \<Longrightarrow> list_all entry_ok es \<Longrightarrow> list_all2 shrinks es (snd (pmm_init_carve F hv bs es))"
  by (induction es) (auto simp: carve_shrinks list_all2_refl split: prod.splits)

text \<open>The metadata buffer, as physical addresses.\<close>

definition buffer_at :: "u64 \<Rightarrow> u64 \<Rightarrow> u64 \<Rightarrow> nat set" where
  "buffer_at hv meta bs = {unat (meta - hv)..<unat (meta - hv) + unat bs}"

lemma buffer_in_region:
  "usable e \<Longrightarrow> bs \<le> me_length e \<Longrightarrow> buffer_at hv (me_base e + hv) bs \<subseteq> region e"
  by (auto simp: buffer_at_def region_def word_le_nat_alt)

lemma carve_pass_buffer:
  assumes "fayt_laws F" "list_all entry_ok es" "sorted_wrt (\<lambda>a b. region a \<inter> region b = {}) es"
    and "\<exists>e \<in> set es. usable e \<and> bs \<le> me_length e" "pmm_init_carve F hv bs es = (meta, fs)"
  shows "buffer_at hv meta bs \<subseteq> \<Union> (region ` set es) \<and> (\<forall>f \<in> set fs. region f \<inter> buffer_at hv meta bs = {})"
  using assms(2-5)
proof (induction es arbitrary: fs)
  case (Cons e es)
  show ?case
  proof (cases "usable e \<and> bs \<le> me_length e")
    case True
    then have m: "meta = me_base e + hv" "fs = carve_entry F bs e # es" using Cons.prems(4) by auto
    have "region (carve_entry F bs e) \<inter> buffer_at hv meta bs = {}"
      using carve_shrinks(2) [OF assms(1), of e bs] True Cons.prems(1) by (simp add: m(1) buffer_at_def)
    moreover have "buffer_at hv meta bs \<subseteq> region e" using buffer_in_region [of e bs hv] True m(1) by simp
    ultimately show ?thesis using Cons.prems(2) m(2) by fastforce
  next
    case False
    then obtain gs where g: "pmm_init_carve F hv bs es = (meta, gs)" "fs = e # gs"
      using Cons.prems(4) by (auto split: prod.splits)
    then have "buffer_at hv meta bs \<subseteq> \<Union> (region ` set es) \<and> (\<forall>f \<in> set gs. region f \<inter> buffer_at hv meta bs = {})"
      using Cons False by auto
    then show ?thesis using Cons.prems(2) g(2) by fastforce
  qed
qed simp

section \<open>Modules\<close>

definition fresh_module :: "'l fayt \<Rightarrow> 'l pmm_module \<Rightarrow> bool" where
  "fresh_module F m \<longleftrightarrow>
     bitmap_entry_cnt m = DIV_ROUNDUP F (me_length (mmap_entry m)) PAGE_SIZE \<and>
     bitmap m = replicate (unat (DIV_ROUNDUP F (bitmap_entry_cnt m) 8)) 0 \<and>
     last_free m = 0 \<and> module_lock m = lock_zero F"

lemma init_module_fresh:
  assumes "fayt_laws F"
  shows "fresh_module F (snd (pmm_init_module F found b (blank_module F p) e))"
    and "mmap_entry (snd (pmm_init_module F found b (blank_module F p) e)) = e"
  by (simp_all add: pmm_init_module_def fresh_module_def blank_module_def Let_def memset8_exact [OF assms])

lemma init_modules_entries:
  "fayt_laws F \<Longrightarrow> list_all (fresh_module F) ms \<Longrightarrow>
   list_all (fresh_module F) (pmm_init_modules F found z hv es b ms) \<and>
   map mmap_entry (pmm_init_modules F found z hv es b ms) =
     map mmap_entry ms @ filter (\<lambda>e. usable e \<and> me_length e \<noteq> 0) es"
proof (induction es arbitrary: b ms)
  case (Cons e es)
  note f = init_module_fresh [OF Cons.prems(1)]
  show ?case
    by (simp add: Let_def split_beta Cons.IH [OF Cons.prems(1)] Cons.prems(2) f)
qed simp

text \<open>The byte addresses of a frame, and how consecutive frames tile a region.\<close>

definition frame_bytes :: "u64 \<Rightarrow> nat set" where
  "frame_bytes a = {unat a..<unat a + 4096}"

lemma frames_tile: "(\<Union>k<n. {b + 4096 * k..<b + 4096 * Suc k}) = {b..<b + 4096 * n}" for b n :: nat
  by (induction n) (auto simp: lessThan_Suc)

lemma fresh_module_geo:
  assumes F: "fayt_laws F" and m: "fresh_module F m" and e: "usable (mmap_entry m)" "entry_ok (mmap_entry m)"
  shows "module_wf F m" "mod_taken F m = {}" "\<Union> (frame_bytes ` mod_frames m) = region (mmap_entry m)"
proof -
  define b l where "b = unat (module_base m)" and "l = unat (me_length (mmap_entry m))"
  have ok: "4096 dvd b" "4096 dvd l" "b + l \<le> 2 ^ 52" using e by (simp_all add: entry_ok_def b_def l_def)
  have "unat (DIV_ROUNDUP F (me_length (mmap_entry m)) PAGE_SIZE) = (l + 4096 - 1) div 4096"
    using DIV_ROUNDUP_exact [OF F, of PAGE_SIZE "me_length (mmap_entry m)"] ok by (simp add: l_def)
  also have "\<dots> = l div 4096" using ok(2) by (auto elim!: dvdE)
  finally have p: "mod_pages m = l div 4096" using m by (simp add: fresh_module_def mod_pages_def)
  have "unat (DIV_ROUNDUP F (bitmap_entry_cnt m) 8) = (mod_pages m + 7) div 8"
    using DIV_ROUNDUP_exact [OF F, of 8 "bitmap_entry_cnt m"] p ok by (simp add: mod_pages_def)
  then have bm: "bitmap m = replicate ((mod_pages m + 7) div 8) 0" using m by (simp add: fresh_module_def)
  have pl: "4096 * mod_pages m = l" using p ok(2) by simp
  then show wf: "module_wf F m"
    using m ok F unfolding module_wf_def module_geo_def b_def [symmetric] bm by (simp add: fresh_module_def)
  have "\<not> taken F (bitmap m) k" if "k < mod_pages m" for k
    unfolding taken_def bm using that p ok(3) by (intro BIT_TEST_zero [OF F]) (simp add: in_bitmap_def)
  then show "mod_taken F m = {}" by (auto simp: mod_taken_def)
  have "frame_bytes (frame_addr m k) = {b + 4096 * k..<b + 4096 * Suc k}" if "k < mod_pages m" for k
    using unat_frame_addr [of m k] wf that by (simp add: module_wf_def b_def frame_bytes_def ac_simps)
  then have "\<Union> (frame_bytes ` mod_frames m) = (\<Union>k<mod_pages m. {b + 4096 * k..<b + 4096 * Suc k})"
    by (auto simp: mod_frames_def)
  also have "\<dots> = {b..<b + 4096 * mod_pages m}" by (rule frames_tile)
  finally show "\<Union> (frame_bytes ` mod_frames m) = region (mmap_entry m)"
    using e(1) pl by (simp add: region_def b_def l_def)
qed

lemma fresh_modules_inv:
  assumes F: "fayt_laws F" and ms: "list_all (fresh_module F) ms" "map mmap_entry ms = filter (\<lambda>e. usable e \<and> me_length e \<noteq> 0) fs"
    and fs: "list_all entry_ok fs" "sorted_wrt (\<lambda>a b. region a \<inter> region b = {}) fs"
  shows "list_all (module_wf F) ms" "sorted_wrt (\<lambda>m n. mod_frames m \<inter> mod_frames n = {}) ms"
    "(\<Union>m \<in> set ms. mod_owned F m) = {}" "(\<Union>m \<in> set ms. \<Union> (frame_bytes ` mod_frames m)) = \<Union> (region ` set fs)"
proof -
  have "set (map mmap_entry ms) = {e \<in> set fs. usable e \<and> me_length e \<noteq> 0}" unfolding ms(2) by auto
  then have ents: "mmap_entry ` set ms = {e \<in> set fs. usable e \<and> me_length e \<noteq> 0}" by simp
  then have e: "usable (mmap_entry m)" "entry_ok (mmap_entry m)" if "m \<in> set ms" for m
    using that fs(1) by (auto simp: list_all_iff)
  note g = fresh_module_geo [OF F]
  have fr: "fresh_module F m" if "m \<in> set ms" for m using ms(1) that by (simp add: list_all_iff)
  show "list_all (module_wf F) ms" using g(1) [OF fr e] by (simp add: list_all_iff)
  show "(\<Union>m \<in> set ms. mod_owned F m) = {}" using g(2) [OF fr e] by (simp add: mod_owned_def)
  have "(\<Union>m \<in> set ms. \<Union> (frame_bytes ` mod_frames m)) = \<Union> (region ` (mmap_entry ` set ms))"
    using g(3) [OF fr e] by simp
  also have "\<dots> = \<Union> (region ` set fs)" unfolding ents by (auto simp: region_def)
  finally show "(\<Union>m \<in> set ms. \<Union> (frame_bytes ` mod_frames m)) = \<Union> (region ` set fs)" .
  have "sorted_wrt (\<lambda>a b. region a \<inter> region b = {}) (map mmap_entry ms)"
    unfolding ms(2) by (rule sorted_wrt_filter [OF fs(2)])
  then have "sorted_wrt (\<lambda>m n. region (mmap_entry m) \<inter> region (mmap_entry n) = {}) ms" by (simp add: sorted_wrt_map)
  then show "sorted_wrt (\<lambda>m n. mod_frames m \<inter> mod_frames n = {}) ms"
  proof (rule sorted_wrt_mono_rel [rotated])
    fix m n assume m: "m \<in> set ms" "n \<in> set ms" "region (mmap_entry m) \<inter> region (mmap_entry n) = {}"
    then have "\<Union> (frame_bytes ` mod_frames m) \<inter> \<Union> (frame_bytes ` mod_frames n) = {}"
      using g(3) [OF fr e, of m] g(3) [OF fr e, of n] by simp
    moreover have "unat a \<in> frame_bytes a" for a by (simp add: frame_bytes_def)
    ultimately show "mod_frames m \<inter> mod_frames n = {}" by blast
  qed
qed


lemma carved_map_ok:
  assumes F: "fayt_laws F" and mm: "list_all entry_ok mmap" "list_all off_the_line mmap" "sorted_wrt (\<lambda>a b. region a \<inter> region b = {}) mmap"
    and p1: "pmm_init_size F module_size mmap 0 = (bs, es)" and p2: "pmm_init_carve F hv bs es = (meta, fs)"
  shows "list_all entry_ok es" "sorted_wrt (\<lambda>a b. region a \<inter> region b = {}) es"
    "list_all entry_ok fs" "sorted_wrt (\<lambda>a b. region a \<inter> region b = {}) fs"
    "\<Union> (region ` set es) \<subseteq> \<Union> (region ` set mmap)" "\<Union> (region ` set fs) \<subseteq> \<Union> (region ` set es)"
proof -
  have sh1: "list_all2 shrinks mmap es" using size_shrinks [OF mm(2), of F module_size 0] p1 by simp
  show ok1: "list_all entry_ok es" using shrinks_all [OF sh1 mm(1)] .
  show dj1: "sorted_wrt (\<lambda>a b. region a \<inter> region b = {}) es" using shrinks_disjoint [OF sh1 mm(3)] .
  have sh2: "list_all2 shrinks es fs" using carve_pass_shrinks [OF F ok1, of hv bs] p2 by simp
  show "list_all entry_ok fs" using shrinks_all [OF sh2 ok1] .
  show "sorted_wrt (\<lambda>a b. region a \<inter> region b = {}) fs" using shrinks_disjoint [OF sh2 dj1] .
  show "\<Union> (region ` set es) \<subseteq> \<Union> (region ` set mmap)" using shrinks_Union [OF sh1] .
  show "\<Union> (region ` set fs) \<subseteq> \<Union> (region ` set es)" using shrinks_Union [OF sh2] .
qed

text \<open>How many single frames can be had after \<^verbatim>\<open>pmm_init\<close>: as many as the largest usable entry has.\<close>

lemma fresh_module_room:
  assumes F: "fayt_laws F" and ms: "list_all (fresh_module F) ms" "list_all (module_wf F) ms" "m \<in> set ms"
    and e: "usable (mmap_entry m)" "entry_ok (mmap_entry m)" "4096 * n \<le> unat (me_length (mmap_entry m))"
  shows "pmm_room F ms n"
proof -
  obtain ms1 ms2 where sp: "ms = ms1 @ m # ms2" using split_list [OF ms(3)] by blast
  have fm: "fresh_module F m" "module_wf F m" using ms by (simp_all add: list_all_iff)
  note g = fresh_module_geo [OF F fm(1) e(1,2)]
  have l: "4096 dvd unat (me_length (mmap_entry m))" "unat (me_length (mmap_entry m)) + 4096 \<le> 2 ^ 64" using e(1,2) by (auto simp: entry_ok_def)
  have "mod_pages m = (unat (me_length (mmap_entry m)) + 4096 - 1) div 4096"
    using DIV_ROUNDUP_exact [OF F, of PAGE_SIZE "me_length (mmap_entry m)"] l(2) fm(1) by (simp add: fresh_module_def mod_pages_def)
  then have "n \<le> mod_pages m" using e(3) by simp
  moreover have "last_free m = 0" using fm(1) by (simp add: fresh_module_def)
  moreover from this have "tail_free F m" using g(2) by (auto simp: tail_free_def mod_taken_def)
  ultimately show ?thesis unfolding sp using ms(2) fm(2) sp by (intro tail_free_room_any [OF F]) (simp_all add: list_all_iff)
qed

lemma pmm_init_room:
  assumes F: "fayt_laws F" and mm: "list_all entry_ok mmap" "list_all off_the_line mmap" "sorted_wrt (\<lambda>a b. region a \<inter> region b = {}) mmap"
    and p1: "pmm_init_size F module_size mmap 0 = (bs, es)" and p2: "pmm_init_carve F (HIGH_VMA s) bs es = (meta, fs)"
    and f: "f \<in> set fs" "usable f" "4096 * n \<le> unat (me_length f)" "0 < n"
  shows "pmm_room F (modules (pmm_init F found module_size mmap s)) n"
proof -
  define ms where "ms = pmm_init_modules F found module_size (HIGH_VMA s) fs meta []"
  have ok: "list_all entry_ok fs" "sorted_wrt (\<lambda>a b. region a \<inter> region b = {}) fs"
    using carved_map_ok [OF F mm p1 p2] by simp_all
  have fresh: "list_all (fresh_module F) ms" "map mmap_entry ms = filter (\<lambda>e. usable e \<and> me_length e \<noteq> 0) fs"
    using init_modules_entries [OF F, of "[]" found module_size "HIGH_VMA s" fs meta] by (simp_all add: ms_def)
  note wf = fresh_modules_inv(1) [OF F fresh ok]
  have "me_length f \<noteq> 0" using f(3,4) by auto
  then have "f \<in> set (map mmap_entry ms)" unfolding fresh(2) using f(1,2) by simp
  then obtain m where m: "m \<in> set ms" "mmap_entry m = f" by auto
  have "pmm_room F ms n" by (rule fresh_module_room [OF F fresh(1) wf m(1)]) (use m f ok(1) in \<open>simp_all add: list_all_iff\<close>)
  then show ?thesis by (simp add: pmm_init_def p1 p2 ms_def)
qed

lemma pmm_init_correct:
  assumes F: "fayt_laws F" and hv: "4096 dvd unat (HIGH_VMA s)"
    and mm: "list_all entry_ok mmap" "list_all off_the_line mmap" "sorted_wrt (\<lambda>a b. region a \<inter> region b = {}) mmap"
    and p1: "pmm_init_size F module_size mmap 0 = (bs, es)" and p2: "pmm_init_carve F (HIGH_VMA s) bs es = (meta, fs)"
    and fit: "\<exists>e \<in> set es. usable e \<and> bs \<le> me_length e" and left: "\<exists>f \<in> set fs. usable f \<and> me_length f \<noteq> 0"
  shows "let s' = pmm_init F found module_size mmap s in
    pmm_inv F s' \<and> pmm_owned F s' = {} \<and> \<Union> (frame_bytes ` pmm_frames s') = \<Union> (region ` set fs) \<and>
    \<Union> (region ` set fs) \<subseteq> \<Union> (region ` set mmap) \<and>
    buffer_at (HIGH_VMA s) meta bs \<subseteq> \<Union> (region ` set mmap) \<and>
    \<Union> (frame_bytes ` pmm_frames s') \<inter> buffer_at (HIGH_VMA s) meta bs = {}"
proof -
  define ms where "ms = pmm_init_modules F found module_size (HIGH_VMA s) fs meta []"
  have s': "pmm_init F found module_size mmap s = s\<lparr>modules := ms\<rparr>"
    by (simp add: pmm_init_def p1 p2 ms_def)
  note c = carved_map_ok [OF F mm p1 p2]
  have fresh: "list_all (fresh_module F) ms" "map mmap_entry ms = filter (\<lambda>e. usable e \<and> me_length e \<noteq> 0) fs"
    using init_modules_entries [OF F, of "[]" found module_size "HIGH_VMA s" fs meta] by (simp_all add: ms_def)
  note m = fresh_modules_inv [OF F fresh c(3,4)]
  have "filter (\<lambda>e. usable e \<and> me_length e \<noteq> 0) fs \<noteq> []" using left by (simp add: filter_empty_conv)
  then have "ms \<noteq> []" using fresh(2) by auto
  then have inv: "pmm_inv F (s\<lparr>modules := ms\<rparr>)" using m(1,2) hv by (simp add: pmm_inv_def)
  have own: "pmm_owned F (s\<lparr>modules := ms\<rparr>) = {}" using m(3) by (simp add: pmm_owned_def)
  have fr: "\<Union> (frame_bytes ` pmm_frames (s\<lparr>modules := ms\<rparr>)) = \<Union> (region ` set fs)"
    using m(4) unfolding pmm_frames_def by (simp add: UN_UN_flatten)
  note b = carve_pass_buffer [OF F c(1,2) fit p2]
  then have out: "\<Union> (region ` set fs) \<inter> buffer_at (HIGH_VMA s) meta bs = {}" by blast
  show ?thesis unfolding s' Let_def fr
    using inv own order_trans [OF c(6,5)] order_trans [OF conjunct1 [OF b] c(5)] out by (intro conjI refl)
qed

section \<open>Properties\<close>

text \<open>
  C3. \<^verbatim>\<open>pmm_init\<close> on a memory map whose usable entries are whole, disjoint frames that do not touch the
  1 MiB line from below, with one entry that holds the metadata buffer: it establishes the allocator's
  invariant with no frame taken, the frames it manages are exactly the bytes of the clipped and carved
  map, all of them inside usable entries of the map it was given, and none of them overlaps the
  metadata buffer, which itself lies inside a usable entry.
\<close>

theorem pmm_init_establishes:
  assumes F: "fayt_laws F" and hv: "4096 dvd unat (HIGH_VMA s)"
    and mm: "list_all entry_ok mmap" "list_all off_the_line mmap" "sorted_wrt (\<lambda>a b. region a \<inter> region b = {}) mmap"
    and p1: "pmm_init_size F module_size mmap 0 = (bs, es)" and p2: "pmm_init_carve F (HIGH_VMA s) bs es = (meta, fs)"
    and fit: "\<exists>e \<in> set es. usable e \<and> bs \<le> me_length e" and left: "\<exists>f \<in> set fs. usable f \<and> me_length f \<noteq> 0"
  shows "let s' = pmm_init F found module_size mmap s in
    pmm_inv F s' \<and> pmm_owned F s' = {} \<and> \<Union> (frame_bytes ` pmm_frames s') = \<Union> (region ` set fs) \<and>
    \<Union> (region ` set fs) \<subseteq> \<Union> (region ` set mmap) \<and>
    buffer_at (HIGH_VMA s) meta bs \<subseteq> \<Union> (region ` set mmap) \<and>
    \<Union> (frame_bytes ` pmm_frames s') \<inter> buffer_at (HIGH_VMA s) meta bs = {}"
  using pmm_init_correct [OF assms] .

definition demo_map :: "limine_memmap_entry list" where
  "demo_map = [\<lparr>me_base = 0x100000, me_length = 0x40000, me_type = 0\<rparr>, \<lparr>me_base = 0xf0000000, me_length = 0x1000, me_type = 1\<rparr>]"

lemma demo_map_sized: "pmm_init_size fayt_ref 64 demo_map 0 = (136, demo_map)"
  by (simp add: demo_map_def entry_meta_def clip_entry_def LIMINE_MEMMAP_USABLE_def fayt_ref_def)

lemma demo_map_carved: "pmm_init_carve fayt_ref 0xffff800000000000 136 demo_map =
    (0xffff800000100000, [\<lparr>me_base = 0x101000, me_length = 0x3f000, me_type = 0\<rparr>, \<lparr>me_base = 0xf0000000, me_length = 0x1000, me_type = 1\<rparr>])"
  by (simp add: demo_map_def carve_entry_def LIMINE_MEMMAP_USABLE_def fayt_ref_def)

theorem pmm_init_establishes_witness:
  "pmm_inv fayt_ref (pmm_init fayt_ref (\<lambda>_. 0xff) 64 demo_map (demo 64))"
  using pmm_init_establishes [OF fayt_laws_ref _ _ _ _ demo_map_sized, of "demo 64" "0xffff800000100000" _ "\<lambda>_. 0xff"]
    demo_map_carved
  by (simp add: demo_def Let_def entry_ok_def off_the_line_def region_def LIMINE_MEMMAP_USABLE_def)
     (simp add: demo_map_def entry_ok_def off_the_line_def region_def LIMINE_MEMMAP_USABLE_def)

text \<open>
  The clip at 1 MiB for an entry that straddles the line: its base moves up to the line and its length
  stays, because the length is reduced by the distance computed from the new base, which is zero. The
  entry then covers bytes past its end, as many as lay below the line; none of them belong to it.
\<close>

theorem clip_entry_overruns:
  assumes "usable e" "unat (me_base e) < 0x100000" "0x100000 \<le> unat (me_base e) + unat (me_length e)"
  shows "region (clip_entry e) = {0x100000..<0x100000 + unat (me_length e)} \<and>
    region (clip_entry e) - region e =
      {unat (me_base e) + unat (me_length e)..<unat (me_base e) + unat (me_length e) + (0x100000 - unat (me_base e))}"
proof -
  have d: "unat (0x100000 - me_base e) = 0x100000 - unat (me_base e)"
    using assms(2) by (subst unat_sub_exact) auto
  have "\<not> 0x100000 - me_base e > me_length e" using assms(3) by (simp add: word_less_nat_alt d)
  then have "clip_entry e = e\<lparr>me_base := 0x100000\<rparr>"
    using assms(2) by (simp add: clip_entry_def word_less_nat_alt)
  then show ?thesis using assms by (auto simp: region_def)
qed

theorem clip_entry_overruns_witness:
  "region (clip_entry \<lparr>me_base = 0x90000, me_length = 0x80000, me_type = 0\<rparr>) = {0x100000..<0x180000}"
  using clip_entry_overruns [of "\<lparr>me_base = 0x90000, me_length = 0x80000, me_type = 0\<rparr>"]
  by (simp add: LIMINE_MEMMAP_USABLE_def)

end
