(* ===== verification/Apic.thy ===== *)
theory Apic
  imports Devices Vmm
begin

unbundle bit_operations_syntax

text \<open>
  The interrupt controllers, \<^verbatim>\<open>kernel/arch/x86/apic.c\<close>: the walk over the multiple APIC description
  table, the I/O APIC redirection entries, the masking of the legacy interrupts and the local APIC
  timer. The growing vectors come from \<open>fayt\<close>; \<open>vectors\<close> has one push operation per element type.
\<close>

section \<open>State\<close>

record ioapic =
  ioapic_id :: u32
  ioapic_version :: u32
  maximum_redirection_entry :: u32
  ioapic_arbitration_id :: u32
  ioapic_base :: ptr
  madt1 :: madt_ent1

record madt_lists =
  madt_ent0_list :: "madt_ent0 list"
  madt_ent1_list :: "madt_ent1 list"
  madt_ent2_list :: "madt_ent2 list"
  madt_ent4_list :: "madt_ent4 list"
  madt_ent5_list :: "madt_ent5 list"

record vectors =
  push0 :: "madt_ent0 list \<Rightarrow> madt_ent0 \<Rightarrow> madt_ent0 list"
  push1 :: "madt_ent1 list \<Rightarrow> madt_ent1 \<Rightarrow> madt_ent1 list"
  push2 :: "madt_ent2 list \<Rightarrow> madt_ent2 \<Rightarrow> madt_ent2 list"
  push4 :: "madt_ent4 list \<Rightarrow> madt_ent4 \<Rightarrow> madt_ent4 list"
  push5 :: "madt_ent5 list \<Rightarrow> madt_ent5 \<Rightarrow> madt_ent5 list"
  push_ioapic :: "ioapic list \<Rightarrow> ioapic \<Rightarrow> ioapic list"

definition vectors_laws :: "vectors \<Rightarrow> bool" where
  "vectors_laws V \<longleftrightarrow> push0 V = (\<lambda>xs x. xs @ [x]) \<and> push1 V = (\<lambda>xs x. xs @ [x]) \<and> push2 V = (\<lambda>xs x. xs @ [x]) \<and>
     push4 V = (\<lambda>xs x. xs @ [x]) \<and> push5 V = (\<lambda>xs x. xs @ [x]) \<and> push_ioapic V = (\<lambda>xs x. xs @ [x])"

definition vectors_ref :: vectors where
  "vectors_ref = \<lparr>push0 = (\<lambda>xs x. xs @ [x]), push1 = (\<lambda>xs x. xs @ [x]), push2 = (\<lambda>xs x. xs @ [x]),
     push4 = (\<lambda>xs x. xs @ [x]), push5 = (\<lambda>xs x. xs @ [x]), push_ioapic = (\<lambda>xs x. xs @ [x])\<rparr>"

lemma vectors_laws_ref: "vectors_laws vectors_ref"
  by (simp add: vectors_laws_def vectors_ref_def)

section \<open>Registers\<close>

definition ioapic_read :: "'d bus \<Rightarrow> ioapic \<Rightarrow> u8 \<Rightarrow> 'd \<Rightarrow> u32 \<times> 'd" where
  "ioapic_read B io reg d =
     (let d = mmio_write32 B (ioapic_base io) (ucast reg) d in (mmio_read32 B (ioapic_base io + 16) d, d))"

definition ioapic_write :: "'d bus \<Rightarrow> ioapic \<Rightarrow> u32 \<Rightarrow> u32 \<Rightarrow> 'd \<Rightarrow> 'd" where
  "ioapic_write B io reg data d =
     (let d = mmio_write32 B (ioapic_base io) reg d in mmio_write32 B (ioapic_base io + 16) data d)"

definition lapic_base :: "'d bus \<Rightarrow> u64 \<Rightarrow> 'd \<Rightarrow> u64" where
  "lapic_base B vma d = (rdmsr B 0x1b d AND 0xfffff000) + vma"

definition xapic_write :: "'d bus \<Rightarrow> u64 \<Rightarrow> u32 \<Rightarrow> u32 \<Rightarrow> 'd \<Rightarrow> 'd" where
  "xapic_write B vma reg data d = mmio_write32 B (lapic_base B vma d + ucast reg) data d"

definition xapic_read :: "'d bus \<Rightarrow> u64 \<Rightarrow> u32 \<Rightarrow> 'd \<Rightarrow> u32" where
  "xapic_read B vma reg d = mmio_read32 B (lapic_base B vma d + ucast reg) d"

definition ioapic_write_redirection_table :: "'d bus \<Rightarrow> ioapic \<Rightarrow> u32 \<Rightarrow> u64 \<Rightarrow> 'd \<Rightarrow> 'd" where
  "ioapic_write_redirection_table B io redirection_entry data d =
     (let d = ioapic_write B io (redirection_entry + 0x10) (ucast (data AND 0xffffffff)) d in
      ioapic_write B io (redirection_entry + 0x10 + 1) (ucast (drop_bit 32 data AND 0xffffffff)) d)"

definition ioapic_read_redirection_table :: "'d bus \<Rightarrow> ioapic \<Rightarrow> u8 \<Rightarrow> 'd \<Rightarrow> u64 \<times> 'd" where
  "ioapic_read_redirection_table B io redirection_entry d =
     (let (lo, d) = ioapic_read B io (redirection_entry + 0x10) d;
          (hi, d) = ioapic_read B io (redirection_entry + 0x10 + 1) d
      in (ucast lo OR push_bit 32 (ucast hi), d))"

definition apic_timer_init :: "'d bus \<Rightarrow> u64 \<Rightarrow> ptr \<Rightarrow> u32 \<Rightarrow> 'd \<Rightarrow> 'd outcome" where
  "apic_timer_init B vma hpet_regs ms d =
     (let d = xapic_write B vma 0x3e0 0x3 d;
          d = xapic_write B vma 0x380 (- 1) d
      in obind (hpet_msleep B hpet_regs (ucast ms) d) (\<lambda>d.
        let ticks = - 1 - xapic_read B vma 0x390 d;
            d = xapic_write B vma 0x320 (0x20 OR push_bit 17 1) d;
            d = xapic_write B vma 0x3e0 0x3 d
        in Ret (xapic_write B vma 0x380 ticks d)))"

section \<open>Redirection of an interrupt\<close>

text \<open>The first source override for the interrupt gives its flags and its global number, cut to 8 bits.\<close>

fun irq_override :: "madt_ent2 list \<Rightarrow> u8 \<Rightarrow> u64 \<times> u8" where
  "irq_override [] irq = (0, irq)"
| "irq_override (e # es) irq =
     (if irq_src e \<noteq> irq then irq_override es irq
      else (if flags2 e AND 2 \<noteq> 0 then 0x2000 else if flags2 e AND 8 \<noteq> 0 then 0x8000 else 0, ucast (gsi e)))"

fun redirect :: "'d bus \<Rightarrow> ioapic list \<Rightarrow> u8 \<Rightarrow> u64 \<Rightarrow> 'd \<Rightarrow> 'd" where
  "redirect B [] irq data d = d"
| "redirect B (io # ios) irq data d =
     (if ucast irq \<le> maximum_redirection_entry io \<and> gsi_base (madt1 io) \<le> ucast irq
      then ioapic_write_redirection_table B io ((ucast irq - gsi_base (madt1 io)) * 2) data d
      else redirect B ios irq data d)"

definition redirection_data :: "u32 \<Rightarrow> u8 \<Rightarrow> u64 \<Rightarrow> bool \<Rightarrow> u64" where
  "redirection_data lapic_id vec flags masked =
     ucast vec OR (if masked then flags OR 0x10000 else flags) OR push_bit 56 (ucast lapic_id)"

definition ioapic_set_irq_redirection ::
  "'d bus \<Rightarrow> madt_ent2 list \<Rightarrow> ioapic list \<Rightarrow> u32 \<Rightarrow> u8 \<Rightarrow> u8 \<Rightarrow> bool \<Rightarrow> 'd \<Rightarrow> u8 \<times> 'd" where
  "ioapic_set_irq_redirection B ents ios lapic_id vec irq masked d =
     (let (flags, irq) = irq_override ents irq in
      (irq, redirect B ios irq (redirection_data lapic_id vec flags masked) d))"

section \<open>The walk over the table\<close>

definition push_entry :: "vectors \<Rightarrow> byte_mem \<Rightarrow> ptr \<Rightarrow> u8 \<Rightarrow> madt_lists \<Rightarrow> madt_lists outcome" where
  "push_entry V mem a entry_type l =
     (if entry_type = 0 then obind (rd mem a 6) (\<lambda>bs. Ret (l\<lparr>madt_ent0_list := push0 V (madt_ent0_list l) (parse_ent0 bs)\<rparr>))
      else if entry_type = 1 then obind (rd mem a 10) (\<lambda>bs. Ret (l\<lparr>madt_ent1_list := push1 V (madt_ent1_list l) (parse_ent1 bs)\<rparr>))
      else if entry_type = 2 then obind (rd mem a 8) (\<lambda>bs. Ret (l\<lparr>madt_ent2_list := push2 V (madt_ent2_list l) (parse_ent2 bs)\<rparr>))
      else if entry_type = 4 then obind (rd mem a 4) (\<lambda>bs. Ret (l\<lparr>madt_ent4_list := push4 V (madt_ent4_list l) (parse_ent4 bs)\<rparr>))
      else if entry_type = 5 then obind (rd mem a 3) (\<lambda>bs. Ret (l\<lparr>madt_ent5_list := push5 V (madt_ent5_list l) (parse_ent5 bs)\<rparr>))
      else Ret l)"

text \<open>One turn of the loop: two bytes are taken, the entry is copied, and the index moves on.\<close>

definition madt_step :: "vectors \<Rightarrow> byte_mem \<Rightarrow> ptr \<Rightarrow> madt_lists \<Rightarrow> u64 \<Rightarrow> (madt_lists \<times> u64) outcome" where
  "madt_step V mem entries l i =
     obind (rd mem (entries + i) 1) (\<lambda>entry_type. let i = i + 1 in
     obind (rd mem (entries + i) 1) (\<lambda>entry_size. let i = i + 1 in
     obind (push_entry V mem (entries + i) (hd entry_type) l) (\<lambda>l.
     Ret (l, i + (ucast (hd entry_size) - 3) + 1))))"

partial_function (option) madt_walk ::
  "vectors \<Rightarrow> byte_mem \<Rightarrow> ptr \<Rightarrow> u64 \<Rightarrow> madt_lists \<Rightarrow> u64 \<Rightarrow> madt_lists outcome option" where
  "madt_walk V mem entries n l i =
     (if i < n then
        case madt_step V mem entries l i of
          Ret li \<Rightarrow> madt_walk V mem entries n (fst li) (snd li)
        | Fault e \<Rightarrow> Some (Fault e)
        | NoReturn \<Rightarrow> Some NoReturn
      else Some (Ret l))"

section \<open>Initialisation\<close>

type_synonym ('l, 'd) machine = "'l kstate \<times> 'l page_table \<times> 'd"

definition mmio_flags :: u64 where
  "mmio_flags = X86_FLAGS_P OR X86_FLAGS_RW OR X86_FLAGS_G OR X86_FLAGS_PS"

fun init_ioapics ::
  "'l fayt \<Rightarrow> 'd bus \<Rightarrow> vectors \<Rightarrow> madt_ent1 list \<Rightarrow> ioapic list \<Rightarrow> ('l, 'd) machine \<Rightarrow> (ioapic list \<times> ('l, 'd) machine) outcome" where
  "init_ioapics F B V [] ios m = Ret (ios, m)"
| "init_ioapics F B V (e # es) ios (s, pt, d) =
     (let io = \<lparr>ioapic_id = 0, ioapic_version = 0, maximum_redirection_entry = 0, ioapic_arbitration_id = 0,
            ioapic_base = ucast (ioapic_addr e) + HIGH_VMA s, madt1 = e\<rparr> in
      obind (map_page F s pt (ioapic_base io) (ioapic_base io - HIGH_VMA s) mmio_flags) (\<lambda>(_, pt, s).
      let (r0, d) = ioapic_read B io 0 d;
          (r1, d) = ioapic_read B io 1 d;
          (r2, d) = ioapic_read B io 1 d;
          (r3, d) = ioapic_read B io 2 d;
          io = io\<lparr>ioapic_id := r0, ioapic_version := r1 AND 0xff, maximum_redirection_entry := drop_bit 16 r2 AND 0xff,
            ioapic_arbitration_id := drop_bit 23 r3 AND 0xf\<rparr>
      in init_ioapics F B V es (push_ioapic V ios io) (s, pt, d)))"

text \<open>The legacy interrupt controllers are moved to vectors 32 to 47 and masked.\<close>

definition pic_ports :: "(u16 \<times> u8) list" where
  "pic_ports = [(0x20, 0x11), (0xa0, 0x11), (0x21, 0x20), (0xa1, 0x28), (0x21, 0x4), (0xa1, 0x2), (0x21, 0x1), (0xa1, 0x1),
     (0x21, 0x0), (0xa1, 0x0), (0xa1, 0xff), (0x21, 0xff)]"

definition pic_mask :: "'d bus \<Rightarrow> 'd \<Rightarrow> 'd" where
  "pic_mask B d = fold (\<lambda>(port, x). outb B port x) pic_ports d"

text \<open>\<^verbatim>\<open>irq_bitmap\<close> is one 64-bit word, updated as an array of bytes.\<close>

fun mask_irqs ::
  "'l fayt \<Rightarrow> 'd bus \<Rightarrow> u64 \<Rightarrow> madt_ent2 list \<Rightarrow> ioapic list \<Rightarrow> nat \<Rightarrow> nat \<Rightarrow> u8 list \<Rightarrow> 'd \<Rightarrow> 'd outcome" where
  "mask_irqs F B vma ents ios i 0 irq_bitmap d = Ret d"
| "mask_irqs F B vma ents ios i (Suc n) irq_bitmap d =
     (if \<not> BIT_TEST F irq_bitmap (of_nat i) then
        let (irq, d) = ioapic_set_irq_redirection B ents ios (xapic_read B vma 0x20 d) (of_nat (i + 32)) (of_nat i) True d in
        if \<not> in_bitmap irq_bitmap (ucast irq) then Fault OutOfBounds
        else mask_irqs F B vma ents ios (Suc i) n (BIT_SET F irq_bitmap (ucast irq)) d
      else mask_irqs F B vma ents ios (Suc i) n irq_bitmap d)"

definition no_lists :: madt_lists where
  "no_lists = \<lparr>madt_ent0_list = [], madt_ent1_list = [], madt_ent2_list = [], madt_ent4_list = [], madt_ent5_list = []\<rparr>"

definition apic_init ::
  "'l fayt \<Rightarrow> 'd bus \<Rightarrow> vectors \<Rightarrow> byte_mem \<Rightarrow> acpi_roots \<Rightarrow> ('l, 'd) machine \<Rightarrow>
   (madt_lists \<times> ioapic list \<times> ('l, 'd) machine) outcome" where
  "apic_init F B V mem R = (\<lambda>(s, pt, d).
     obind (acpi_find_sdt mem (HIGH_VMA s) R [0x41, 0x50, 0x49, 0x43]) (\<lambda>madt_hdr.
     if madt_hdr = NULL then Ret (no_lists, [], s, pt, d)
     else obind (rd mem madt_hdr 44) (\<lambda>h.
     obind (case madt_walk V mem (madt_hdr + 44) (ucast (acpi_length (parse_acpi_hdr h)) - 44) no_lists 0 of
         None \<Rightarrow> NoReturn | Some r \<Rightarrow> r) (\<lambda>l.
     obind (init_ioapics F B V (madt_ent1_list l) [] (s, pt, d)) (\<lambda>(ios, s, pt, d).
     let d = pic_mask B d in
     obind (mask_irqs F B (HIGH_VMA s) (madt_ent2_list l) ios 0 16 (replicate 8 0) d) (\<lambda>d.
     obind (map_page F s pt (lapic_base B (HIGH_VMA s) d) (rdmsr B 0x1b d AND 0xfffff000) mmio_flags) (\<lambda>(_, pt, s).
     let d = xapic_write B (HIGH_VMA s) 0x80 0 d;
         d = xapic_write B (HIGH_VMA s) 0xf0 (xapic_read B (HIGH_VMA s) 0xf0 d OR 0x1ff) d
     in Ret (l, ios, s, pt, cr_write B 8 0 d))))))))"


section \<open>The entries of a table\<close>

text \<open>
  The entries as the firmware writes them. The address of a local APIC override (type 5) has 64 bits,
  of which the structure of the source has a byte.
\<close>

datatype madt_entry = Ent0 madt_ent0 | Ent1 madt_ent1 | Ent2 madt_ent2 | Ent4 madt_ent4 | Ent5 u64 | Other u8 "u8 list"

fun enc_entry :: "madt_entry \<Rightarrow> u8 list" where
  "enc_entry (Ent0 e) = [0, 8, acpi_id0 e, apic_id0 e] @ enc 4 (unat (flags0 e))"
| "enc_entry (Ent1 e) = [1, 12, ioapic_id1 e, 0] @ enc 4 (unat (ioapic_addr e)) @ enc 4 (unat (gsi_base e))"
| "enc_entry (Ent2 e) = [2, 10, bus_src e, irq_src e] @ enc 4 (unat (gsi e)) @ enc 2 (unat (flags2 e))"
| "enc_entry (Ent4 e) = [4, 6, acpi_id4 e] @ enc 2 (unat (flags4 e)) @ [lint e]"
| "enc_entry (Ent5 a) = [5, 12, 0, 0] @ enc 8 (unat a)"
| "enc_entry (Other t bs) = [t, of_nat (2 + length bs)] @ bs"

fun wf_entry :: "madt_entry \<Rightarrow> bool" where
  "wf_entry (Other t bs) \<longleftrightarrow> t \<notin> {0, 1, 2, 4, 5} \<and> length bs < 254"
| "wf_entry e \<longleftrightarrow> True"

fun add_entry :: "madt_entry \<Rightarrow> madt_lists \<Rightarrow> madt_lists" where
  "add_entry (Ent0 e) l = l\<lparr>madt_ent0_list := madt_ent0_list l @ [e]\<rparr>"
| "add_entry (Ent1 e) l = l\<lparr>madt_ent1_list := madt_ent1_list l @ [e]\<rparr>"
| "add_entry (Ent2 e) l = l\<lparr>madt_ent2_list := madt_ent2_list l @ [e]\<rparr>"
| "add_entry (Ent4 e) l = l\<lparr>madt_ent4_list := madt_ent4_list l @ [e]\<rparr>"
| "add_entry (Ent5 a) l = l\<lparr>madt_ent5_list := madt_ent5_list l @ [\<lparr>lapic_override = ucast a\<rparr>]\<rparr>"
| "add_entry (Other t bs) l = l"

lemma le_enc_word: "LENGTH('a) = 8 * n \<Longrightarrow> le (enc n (unat x)) = unat x" for x :: "'a::len word"
proof -
  assume "LENGTH('a) = 8 * n"
  then have "unat x < 256 ^ n" using unsigned_less [of x, where ?'a = nat] by (simp add: power_mult)
  then show ?thesis by (simp add: le_enc)
qed

lemmas le_enc_words = le_enc_word [where 'a = 32 and n = 4, simplified] le_enc_word [where 'a = 16 and n = 2, simplified]

lemma enc_8: "enc 8 k = of_nat k # enc 7 (k div 256)"
  using enc.simps(2) [of 7 k] by (simp del: enc.simps)

lemma parse_enc:
  "parse_ent0 ([acpi_id0 e0, apic_id0 e0] @ enc 4 (unat (flags0 e0))) = e0"
  "parse_ent1 ([ioapic_id1 e1, 0] @ enc 4 (unat (ioapic_addr e1)) @ enc 4 (unat (gsi_base e1))) = e1"
  "parse_ent2 ([bus_src e2, irq_src e2] @ enc 4 (unat (gsi e2)) @ enc 2 (unat (flags2 e2))) = e2"
  "parse_ent4 ([acpi_id4 e4] @ enc 2 (unat (flags4 e4)) @ [lint e4]) = e4"
  "parse_ent5 (take 3 ([0, 0] @ enc 8 (unat a))) = \<lparr>lapic_override = ucast a\<rparr>"
  by (simp_all add: parse_ent0_def parse_ent1_def parse_ent2_def parse_ent4_def parse_ent5_def field_def le_enc_words enc_8 del: enc.simps)

lemma madt_step_shape:
  assumes h: "holds mem (entries + i) (t # sz # bs)" and p: "push_entry V mem (entries + i + 2) t l = Ret l'"
  shows "madt_step V mem entries l i = Ret (l', i + ucast sz)"
proof -
  have "rd mem (entries + i) 1 = Ret [t]" using rd_holds [OF h, of 0 1] by simp
  moreover have "rd mem (entries + (i + 1)) 1 = Ret [sz]" using rd_holds [OF h, of 1 1] by (simp add: add.assoc)
  moreover have "push_entry V mem (entries + (i + 1 + 1)) t l = Ret l'" using p by (simp add: add.assoc)
  moreover have "i + 1 + 1 + (ucast sz - 3) + 1 = i + ucast sz" by simp
  ultimately show ?thesis by (simp only: madt_step_def obind.simps Let_def list.sel)
qed

lemma holds_tail: "holds mem a (t # sz # bs) \<Longrightarrow> holds mem (a + 2) bs"
  using holds_append [of mem a "[t, sz]" bs] by simp

text \<open>The entry without its two leading bytes, and its size.\<close>

lemma push_entry_exact:
  assumes V: "vectors_laws V"
  shows "holds mem a (drop 2 (enc_entry e)) \<Longrightarrow> wf_entry e \<Longrightarrow> push_entry V mem a (hd (enc_entry e)) l = Ret (add_entry e l)"
proof (cases e)
  case (Ent0 x)
  assume "holds mem a (drop 2 (enc_entry e))"
  then have h: "holds mem a ([acpi_id0 x, apic_id0 x] @ enc 4 (unat (flags0 x)))" by (simp add: Ent0)
  show ?thesis using rd_holds [OF h, of 0 6] V parse_enc(1) [of x] by (simp add: Ent0 push_entry_def vectors_laws_def)
next
  case (Ent1 x)
  assume "holds mem a (drop 2 (enc_entry e))"
  then have h: "holds mem a ([ioapic_id1 x, 0] @ enc 4 (unat (ioapic_addr x)) @ enc 4 (unat (gsi_base x)))" by (simp add: Ent1)
  show ?thesis using rd_holds [OF h, of 0 10] V parse_enc(2) [of x] by (simp add: Ent1 push_entry_def vectors_laws_def)
next
  case (Ent2 x)
  assume "holds mem a (drop 2 (enc_entry e))"
  then have h: "holds mem a ([bus_src x, irq_src x] @ enc 4 (unat (gsi x)) @ enc 2 (unat (flags2 x)))" by (simp add: Ent2)
  show ?thesis using rd_holds [OF h, of 0 8] V parse_enc(3) [of x] by (simp add: Ent2 push_entry_def vectors_laws_def)
next
  case (Ent4 x)
  assume "holds mem a (drop 2 (enc_entry e))"
  then have h: "holds mem a ([acpi_id4 x] @ enc 2 (unat (flags4 x)) @ [lint x])" by (simp add: Ent4)
  show ?thesis using rd_holds [OF h, of 0 4] V parse_enc(4) [of x] by (simp add: Ent4 push_entry_def vectors_laws_def)
next
  case (Ent5 x)
  assume "holds mem a (drop 2 (enc_entry e))"
  then have h: "holds mem a ([0, 0] @ enc 8 (unat x))" by (simp add: Ent5)
  show ?thesis using rd_holds [OF h, of 0 3] V parse_enc(5) [of x] by (simp add: Ent5 push_entry_def vectors_laws_def)
next
  case (Other t bs)
  assume "wf_entry e"
  then show ?thesis by (simp add: Other push_entry_def)
qed

lemma byte_of_nat: "k < 256 \<Longrightarrow> unat (of_nat k :: u8) = k"
  by (simp add: unsigned_of_nat take_bit_nat_eq_self)

lemma ucast_byte_of_nat: "k < 256 \<Longrightarrow> (ucast (of_nat k :: u8) :: 'a::len word) = of_nat k"
  by (metis byte_of_nat of_nat_unat)

lemma enc_entry_shape:
  assumes "wf_entry e"
  shows "\<exists>t sz bs. enc_entry e = t # sz # bs \<and> unat sz = length (enc_entry e)"
proof (cases e)
  case (Other t bs)
  from byte_of_nat [of "2 + length bs"] show ?thesis using Other assms by simp
qed simp_all

lemma madt_step_entry:
  assumes V: "vectors_laws V" and h: "holds mem (entries + i) (enc_entry e)" and wf: "wf_entry e"
  shows "madt_step V mem entries l i = Ret (add_entry e l, i + of_nat (length (enc_entry e)))"
proof -
  obtain t sz bs where e: "enc_entry e = t # sz # bs" "unat sz = length (enc_entry e)" using enc_entry_shape [OF wf] by blast
  have "push_entry V mem (entries + i + 2) t l = Ret (add_entry e l)"
    using push_entry_exact [OF V _ wf, of mem "entries + i + 2" l] holds_tail [of mem "entries + i" t sz bs] h e(1) by simp
  moreover have "(ucast sz :: u64) = of_nat (length (enc_entry e))" by (simp add: e(2) [symmetric])
  ultimately show ?thesis using madt_step_shape [of mem entries i t sz bs V l] h e(1) by simp
qed

lemma madt_walk_entries:
  assumes V: "vectors_laws V" and wf: "list_all wf_entry es"
    and h: "holds mem (entries + i) (concat (map enc_entry es))"
    and n: "unat n = unat i + length (concat (map enc_entry es))"
  shows "madt_walk V mem entries n l i = Some (Ret (fold add_entry es l))"
  using wf h n
proof (induction es arbitrary: l i)
  case Nil
  then have "\<not> i < n" by (simp add: word_less_nat_alt)
  then show ?case by (subst madt_walk.simps) simp
next
  case (Cons e es)
  let ?k = "length (enc_entry e)"
  have he: "holds mem (entries + i) (enc_entry e)" "holds mem (entries + (i + of_nat ?k)) (concat (map enc_entry es))"
    using Cons.prems(2) by (simp_all add: holds_append add.assoc)
  have k: "0 < ?k" using enc_entry_shape [of e] Cons.prems(1) by auto
  then have lt: "i < n" using Cons.prems(3) by (simp add: word_less_nat_alt)
  have u: "unat (i + of_nat ?k) = unat i + ?k"
    using Cons.prems(3) u64_unat_bound [of n] by (subst unat_add_exact) (simp_all add: unat_of_nat_u64)
  have "madt_walk V mem entries n l i = madt_walk V mem entries n (add_entry e l) (i + of_nat ?k)"
    using madt_step_entry [OF V he(1)] Cons.prems(1) lt by (subst madt_walk.simps) simp
  also have "\<dots> = Some (Ret (fold add_entry es (add_entry e l)))"
    by (rule Cons.IH) (use Cons.prems he u in auto)
  finally show ?case by simp
qed

text \<open>An entry that claims to have no bytes is met again and again.\<close>

lemma madt_walk_none:
  assumes lt: "i < n" and st: "\<And>l. \<exists>l'. madt_step V mem entries l i = Ret (l', i)"
  shows "madt_walk V mem entries n l i = None"
proof -
  have "madt_walk V mem entries n l j = Some y \<Longrightarrow> j \<noteq> i" for l j y
  proof (rule madt_walk.raw_induct [of "\<lambda>V' mem' entries' n' l j y. V' = V \<longrightarrow> mem' = mem \<longrightarrow> entries' = entries \<longrightarrow> n' = n \<longrightarrow> j \<noteq> i",
        THEN mp, THEN mp, THEN mp, THEN mp], goal_cases)
    case (1 walk V' mem' entries' n' l j y)
    then show ?case using st [of l] lt by (auto split: if_splits) blast
  qed auto
  then show ?thesis by (cases "madt_walk V mem entries n l i") auto
qed

section \<open>The redirection table\<close>

text \<open>
  The registers of an I/O APIC at address \<open>b\<close> as its data sheet has them: the window at 16 bytes shows the
  register selected last, and a write through it sets the register, its reserved and read-only bits
  excepted. Entry \<open>k\<close> of the redirection table is the pair of registers \<open>16 + 2 k\<close> and \<open>17 + 2 k\<close>.
\<close>

definition reserved_bits :: "u32 \<Rightarrow> u32" where
  "reserved_bits r = (if r AND 1 = 0 then 0xfffe5000 else 0x00ffffff)"

definition ioapic_law :: "'d bus \<Rightarrow> ptr \<Rightarrow> (u32 \<Rightarrow> 'd \<Rightarrow> u32) \<Rightarrow> bool" where
  "ioapic_law B b reg \<longleftrightarrow>
     (\<forall>r d. mmio_read32 B (b + 16) (mmio_write32 B b r d) = reg r d) \<and>
     (\<forall>r r' d. reg r' (mmio_write32 B b r d) = reg r' d) \<and>
     (\<forall>r r' x d. 0x10 \<le> r \<longrightarrow> r < 0x40 \<longrightarrow> r' < 0x40 \<longrightarrow> x AND reserved_bits r = 0 \<longrightarrow>
        reg r' (mmio_write32 B (b + 16) x (mmio_write32 B b r d)) = (if r' = r then x else reg r' d))"

definition entry_at :: "(u32 \<Rightarrow> 'd \<Rightarrow> u32) \<Rightarrow> nat \<Rightarrow> 'd \<Rightarrow> u64" where
  "entry_at reg k d = ucast (reg (of_nat (16 + 2 * k)) d) OR push_bit 32 (ucast (reg (of_nat (17 + 2 * k)) d))"

definition entry_ok :: "u64 \<Rightarrow> bool" where
  "entry_ok x \<longleftrightarrow> x AND 0x00fffffffffe5000 = 0"

lemma of_nat_u32: "k < 2 ^ 32 \<Longrightarrow> unat (of_nat k :: u32) = k"
  by (simp add: unsigned_of_nat take_bit_nat_eq_self)

lemma of_nat_u32_eq: "j < 2 ^ 32 \<Longrightarrow> k < 2 ^ 32 \<Longrightarrow> (of_nat j :: u32) = of_nat k \<longleftrightarrow> j = k"
  by (metis of_nat_u32)

lemma entry_split:
  fixes x :: u64
  defines "lo \<equiv> ucast (x AND 0xffffffff) :: u32" and "hi \<equiv> ucast (drop_bit 32 x AND 0xffffffff) :: u32"
  shows "(ucast lo OR push_bit 32 (ucast hi)) = x"
    and "entry_ok x \<Longrightarrow> lo AND 0xfffe5000 = 0" "entry_ok x \<Longrightarrow> hi AND 0x00ffffff = 0"
proof -
  have m: "(0xffffffff :: u64) = Bit_Operations.mask 32" by (simp add: mask_eq_exp_minus_1)
  show "(ucast lo OR push_bit 32 (ucast hi)) = x"
    unfolding lo_def hi_def m by (rule bit_word_eqI) (auto simp: bit_simps)
  have c: "ucast (y AND 0xffffffff :: u64) AND ucast z = (ucast (y AND z) :: u32)" for y z
    unfolding m by (rule bit_word_eqI) (auto simp: bit_simps)
  show "lo AND 0xfffe5000 = 0" if "entry_ok x"
  proof -
    have "x AND 0xfffe5000 = (x AND 0x00fffffffffe5000) AND 0xfffe5000" by (simp add: and.assoc)
    then show ?thesis using c [of x "0xfffe5000"] that by (simp add: lo_def entry_ok_def)
  qed
  show "hi AND 0x00ffffff = 0" if "entry_ok x"
  proof -
    have "drop_bit 32 x AND 0x00ffffff = drop_bit 32 (x AND 0x00fffffffffe5000)" by (simp add: drop_bit_and)
    also have "\<dots> = 0" using that by (simp only: entry_ok_def) simp
    finally have "drop_bit 32 x AND 0x00ffffff = 0" .
    then show ?thesis using c [of "drop_bit 32 x" "0x00ffffff"] by (simp add: hi_def)
  qed
qed

lemma write_redirection:
  assumes law: "ioapic_law B (ioapic_base io) reg" and k: "k < 24" "k' < 24" and x: "entry_ok x"
  shows "entry_at reg k' (ioapic_write_redirection_table B io (of_nat (2 * k)) x d) = (if k' = k then x else entry_at reg k' d)"
proof -
  let ?lo = "ucast (x AND 0xffffffff) :: u32" and ?hi = "ucast (drop_bit 32 x AND 0xffffffff) :: u32"
  let ?r = "of_nat (16 + 2 * k) :: u32" and ?q = "of_nat (17 + 2 * k) :: u32"
  have b: "0x10 \<le> ?r" "?r < 0x40" "0x10 \<le> ?q" "?q < 0x40"
    using k(1) by (simp_all add: word_le_nat_alt word_less_nat_alt of_nat_u32 del: of_nat_add of_nat_mult)
  have res: "reserved_bits ?r = 0xfffe5000" "reserved_bits ?q = 0x00ffffff"
  proof -
    have "unat (?r mod 2) = 0" "unat (?q mod 2) = 1"
      using k(1) by (simp_all add: unat_mod of_nat_u32 mod_Suc del: of_nat_add of_nat_mult)
    then have "?r mod 2 = 0" "?q mod 2 = 1" by (simp_all only: word_unat_eq_iff) simp_all
    then show "reserved_bits ?r = 0xfffe5000" "reserved_bits ?q = 0x00ffffff"
      by (simp_all add: reserved_bits_def and_one_eq del: of_nat_add of_nat_mult)
  qed
  have w: "reg r' (ioapic_write B io r y d) = (if r' = r then y else reg r' d)"
    if "0x10 \<le> r" "r < 0x40" "r' < 0x40" "y AND reserved_bits r = 0" for r r' y d
    using law that by (simp add: ioapic_law_def ioapic_write_def Let_def)
  have st: "of_nat (2 * k) + 0x10 = ?r" "?r + 1 = ?q" by simp_all
  have b': "(of_nat (16 + 2 * k') :: u32) < 0x40" "(of_nat (17 + 2 * k') :: u32) < 0x40"
    using k(2) by (simp_all add: word_less_nat_alt of_nat_u32 del: of_nat_add of_nat_mult)
  have ne: "(of_nat (16 + 2 * k') :: u32) = ?r \<longleftrightarrow> k' = k" "(of_nat (17 + 2 * k') :: u32) = ?q \<longleftrightarrow> k' = k"
    "(of_nat (16 + 2 * k') :: u32) \<noteq> ?q" "(of_nat (17 + 2 * k') :: u32) \<noteq> ?r"
    using k by (simp_all add: of_nat_u32_eq del: of_nat_add of_nat_mult) presburger+
  show ?thesis
    unfolding ioapic_write_redirection_table_def Let_def st entry_at_def
    using entry_split [of x] x by (simp add: w b b' res ne del: of_nat_add of_nat_mult)
qed

section \<open>Masking the legacy interrupts\<close>

text \<open>
  What \<^verbatim>\<open>mask_irqs\<close> writes for interrupt \<open>j\<close>: its vector, the flags of its override and the mask bit.
  The destination is empty when the low byte of the identification register is.
\<close>

definition masked_entry :: "madt_ent2 list \<Rightarrow> nat \<Rightarrow> u64" where
  "masked_entry ents j = of_nat (j + 32) OR (fst (irq_override ents (of_nat j)) OR 0x10000)"

definition target :: "madt_ent2 list \<Rightarrow> nat \<Rightarrow> nat" where
  "target ents j = unat (snd (irq_override ents (of_nat j)))"

lemma override_flags: "fst (irq_override ents irq) \<in> {0, 0x2000, 0x8000}"
  by (induction ents irq rule: irq_override.induct) auto

lemma masked_entry_ok: "j < 16 \<Longrightarrow> entry_ok (masked_entry ents j)"
proof -
  assume "j < 16"
  then have "j = 0 \<or> j = 1 \<or> j = 2 \<or> j = 3 \<or> j = 4 \<or> j = 5 \<or> j = 6 \<or> j = 7 \<or> j = 8 \<or> j = 9 \<or> j = 10 \<or> j = 11 \<or>
    j = 12 \<or> j = 13 \<or> j = 14 \<or> j = 15" by presburger
  then show ?thesis using override_flags [of ents "of_nat j"] by (elim disjE insertE) (simp_all add: entry_ok_def masked_entry_def)
qed

lemma redirection_data_masked:
  assumes j: "j < 16" and i: "idr AND 0xff = 0"
  shows "redirection_data idr (of_nat (j + 32)) (fst (irq_override ents (of_nat j))) True = masked_entry ents j"
proof -
  have "(push_bit 56 (ucast idr) :: u64) = push_bit 56 (ucast (idr AND 0xff))"
  proof -
    have m: "(0xff :: u32) = Bit_Operations.mask 8" by (simp add: mask_eq_exp_minus_1)
    show ?thesis unfolding m by (rule bit_word_eqI) (auto simp: bit_simps)
  qed
  then have p: "(push_bit 56 (ucast idr) :: u64) = 0" using i by simp
  have "(ucast (of_nat (j + 32) :: u8) :: u64) = of_nat (j + 32)" using j by (intro ucast_byte_of_nat) simp
  then show ?thesis using p by (simp add: redirection_data_def masked_entry_def or.assoc)
qed

definition mask_inv :: "'l fayt \<Rightarrow> madt_ent2 list \<Rightarrow> (u32 \<Rightarrow> 'd \<Rightarrow> u32) \<Rightarrow> 'd \<Rightarrow> nat \<Rightarrow> u8 list \<Rightarrow> 'd \<Rightarrow> bool" where
  "mask_inv F ents reg d0 i bm d \<longleftrightarrow> length bm = 8 \<and>
     (\<forall>g < 24. if BIT_TEST F bm (of_nat g) then \<exists>j < 16. target ents j = g \<and> entry_at reg g d = masked_entry ents j
        else entry_at reg g d = entry_at reg g d0) \<and>
     (\<forall>j < i. BIT_TEST F bm (of_nat j) \<or> BIT_TEST F bm (of_nat (target ents j)))"

lemma mask_inv_step:
  assumes F: "fayt_laws F" and law: "ioapic_law B (ioapic_base io) reg" and inv: "mask_inv F ents reg d0 i bm d"
    and i: "i < 16" and T: "\<And>j. j < 16 \<Longrightarrow> target ents j < 24" and d': "d' = ioapic_write_redirection_table B io (of_nat (2 * target ents i)) (masked_entry ents i) d"
  shows "mask_inv F ents reg d0 (Suc i) (BIT_SET F bm (of_nat (target ents i))) d'"
proof -
  have bm: "length bm = 8" using inv by (simp add: mask_inv_def)
  have t: "target ents i < 24" using T i by simp
  have in_bm: "in_bitmap bm (of_nat g)" if "g < 24" for g using that by (simp add: in_bitmap_def bm)
  have eq: "(of_nat g :: u64) = of_nat h \<longleftrightarrow> g = h" if "g < 24" "h < 24" for g h
  proof -
    have "unat (of_nat g :: u64) = g" "unat (of_nat h :: u64) = h" using that by (simp_all add: unat_of_nat_u64)
    then show ?thesis by metis
  qed
  have bt: "BIT_TEST F (BIT_SET F bm (of_nat (target ents i))) (of_nat g) \<longleftrightarrow> g = target ents i \<or> BIT_TEST F bm (of_nat g)"
    if "g < 24" for g
    using BIT_TEST_update(1) [OF F in_bm [OF t] in_bm [OF that]] eq [OF that t] by simp
  have e: "entry_at reg g d' = (if g = target ents i then masked_entry ents i else entry_at reg g d)" if "g < 24" for g
    unfolding d' by (rule write_redirection [OF law t that masked_entry_ok [OF i]])
  have "if BIT_TEST F (BIT_SET F bm (of_nat (target ents i))) (of_nat g)
      then \<exists>j < 16. target ents j = g \<and> entry_at reg g d' = masked_entry ents j else entry_at reg g d' = entry_at reg g d0"
    if "g < 24" for g
    using inv that bt [OF that] e [OF that] i unfolding mask_inv_def by (cases "g = target ents i") auto
  moreover have "BIT_TEST F (BIT_SET F bm (of_nat (target ents i))) (of_nat j) \<or>
      BIT_TEST F (BIT_SET F bm (of_nat (target ents i))) (of_nat (target ents j))" if "j < Suc i" for j
  proof (cases "j = i")
    case False
    then have "BIT_TEST F bm (of_nat j) \<or> BIT_TEST F bm (of_nat (target ents j))" using inv that by (simp add: mask_inv_def)
    moreover have "target ents j < 24" using T that i by simp
    ultimately show ?thesis using bt [of j] bt [of "target ents j"] that i by auto
  qed (use bt [OF t] in simp)
  ultimately show ?thesis using bm F by (simp add: mask_inv_def)
qed

lemma set_irq_masked:
  assumes io: "gsi_base (madt1 io) = 0" "23 \<le> maximum_redirection_entry io" and idr: "idr AND 0xff = 0"
    and i: "i < 16" "target ents i < 24"
  shows "ioapic_set_irq_redirection B ents [io] idr (of_nat (i + 32)) (of_nat i) True d =
    (of_nat (target ents i), ioapic_write_redirection_table B io (of_nat (2 * target ents i)) (masked_entry ents i) d)"
proof -
  obtain flags irq where o: "irq_override ents (of_nat i) = (flags, irq)" by fastforce
  have t: "unat irq = target ents i" using o by (simp add: target_def)
  then have irq: "(ucast irq :: u32) = of_nat (target ents i)" "irq = of_nat (target ents i)" by (simp_all flip: t)
  have "(ucast irq :: u32) \<le> 23" using i(2) unfolding irq(1) by (simp add: word_le_nat_alt of_nat_u32)
  then have "ucast irq \<le> maximum_redirection_entry io" using io(2) by (rule order_trans)
  then show ?thesis
    using redirection_data_masked [OF i(1) idr, of ents] o io(1) irq
    by (simp add: ioapic_set_irq_redirection_def mult.commute)
qed

lemma mask_irqs_inv:
  assumes F: "fayt_laws F" and law: "ioapic_law B (ioapic_base io) reg"
    and io: "gsi_base (madt1 io) = 0" "23 \<le> maximum_redirection_entry io"
    and idr: "\<And>d. xapic_read B vma 0x20 d AND 0xff = 0" and T: "\<And>j. j < 16 \<Longrightarrow> target ents j < 24"
  shows "mask_inv F ents reg d0 i bm d \<Longrightarrow> i + n = 16 \<Longrightarrow>
    \<exists>bm' d'. mask_irqs F B vma ents [io] i n bm d = Ret d' \<and> mask_inv F ents reg d0 16 bm' d'"
proof (induction n arbitrary: i bm d)
  case (Suc n)
  have i: "i < 16" using Suc.prems(2) by simp
  note t = T [OF i]
  have bm: "length bm = 8" using Suc.prems(1) by (simp add: mask_inv_def)
  show ?case
  proof (cases "BIT_TEST F bm (of_nat i)")
    case True
    then have "mask_inv F ents reg d0 (Suc i) bm d" using Suc.prems(1) by (auto simp: mask_inv_def less_Suc_eq)
    from Suc.IH [OF this] show ?thesis using True Suc.prems(2) by simp
  next
    case False
    define d' where "d' = ioapic_write_redirection_table B io (of_nat (2 * target ents i)) (masked_entry ents i) d"
    have "mask_inv F ents reg d0 (Suc i) (BIT_SET F bm (of_nat (target ents i))) d'"
      by (rule mask_inv_step [OF F law Suc.prems(1) i T d'_def])
    moreover have u: "(ucast (of_nat (target ents i) :: u8) :: u64) = of_nat (target ents i)"
      using t by (intro ucast_byte_of_nat) simp
    have "in_bitmap bm (of_nat (target ents i))" using t by (simp add: in_bitmap_def bm)
    then have "mask_irqs F B vma ents [io] i (Suc n) bm d =
        mask_irqs F B vma ents [io] (Suc i) n (BIT_SET F bm (of_nat (target ents i))) d'"
      using False u by (simp add: set_irq_masked [OF io idr i t] d'_def del: of_nat_add)
    ultimately show ?thesis using Suc.IH [of "Suc i"] Suc.prems(2) by simp
  qed
qed auto


section \<open>Properties\<close>

text \<open>
  C33. The walk of \<^verbatim>\<open>apic_init\<close> over a table of well-formed entries ends and collects the entries of each
  type in their order; entries of other types are skipped.
\<close>

theorem madt_walk_roundtrip:
  assumes "vectors_laws V" "list_all wf_entry es" "holds mem entries (concat (map enc_entry es))"
    and "unat n = length (concat (map enc_entry es))"
  shows "madt_walk V mem entries n no_lists 0 = Some (Ret \<lparr>
     madt_ent0_list = concat (map (\<lambda>e. case e of Ent0 x \<Rightarrow> [x] | _ \<Rightarrow> []) es),
     madt_ent1_list = concat (map (\<lambda>e. case e of Ent1 x \<Rightarrow> [x] | _ \<Rightarrow> []) es),
     madt_ent2_list = concat (map (\<lambda>e. case e of Ent2 x \<Rightarrow> [x] | _ \<Rightarrow> []) es),
     madt_ent4_list = concat (map (\<lambda>e. case e of Ent4 x \<Rightarrow> [x] | _ \<Rightarrow> []) es),
     madt_ent5_list = concat (map (\<lambda>e. case e of Ent5 a \<Rightarrow> [\<lparr>lapic_override = ucast a\<rparr>] | _ \<Rightarrow> []) es)\<rparr>)"
proof -
  have "fold add_entry es l = \<lparr>
     madt_ent0_list = madt_ent0_list l @ concat (map (\<lambda>e. case e of Ent0 x \<Rightarrow> [x] | _ \<Rightarrow> []) es),
     madt_ent1_list = madt_ent1_list l @ concat (map (\<lambda>e. case e of Ent1 x \<Rightarrow> [x] | _ \<Rightarrow> []) es),
     madt_ent2_list = madt_ent2_list l @ concat (map (\<lambda>e. case e of Ent2 x \<Rightarrow> [x] | _ \<Rightarrow> []) es),
     madt_ent4_list = madt_ent4_list l @ concat (map (\<lambda>e. case e of Ent4 x \<Rightarrow> [x] | _ \<Rightarrow> []) es),
     madt_ent5_list = madt_ent5_list l @ concat (map (\<lambda>e. case e of Ent5 a \<Rightarrow> [\<lparr>lapic_override = ucast a\<rparr>] | _ \<Rightarrow> []) es)\<rparr>" for l
  proof (induction es arbitrary: l)
    case (Cons e es)
    then show ?case by (cases e) simp_all
  qed simp
  then show ?thesis
    using madt_walk_entries [OF assms(1,2), of mem entries 0 n no_lists] assms(3,4) by (simp add: no_lists_def)
qed

definition demo_madt :: "madt_entry list" where
  "demo_madt = [Ent0 \<lparr>acpi_id0 = 0, apic_id0 = 3, flags0 = 1\<rparr>, Other 9 [1, 2], Ent1 \<lparr>ioapic_id1 = 0, ioapic_addr = 0xfec00000, gsi_base = 0\<rparr>,
     Ent2 \<lparr>bus_src = 0, irq_src = 0, gsi = 2, flags2 = 0\<rparr>]"

theorem madt_walk_roundtrip_witness:
  "\<exists>l. madt_walk vectors_ref (image_at 0x1000 (concat (map enc_entry demo_madt))) 0x1000 34 no_lists 0 = Some (Ret l) \<and>
     map apic_id0 (madt_ent0_list l) = [3] \<and> map ioapic_addr (madt_ent1_list l) = [0xfec00000] \<and> map gsi (madt_ent2_list l) = [2]"
proof -
  have l: "length (concat (map enc_entry demo_madt)) = 34" by (simp add: demo_madt_def)
  have h: "holds (image_at 0x1000 (concat (map enc_entry demo_madt))) 0x1000 (concat (map enc_entry demo_madt))"
    by (rule holds_image) (simp only: l, simp)
  have w: "list_all wf_entry demo_madt" by (simp add: demo_madt_def)
  show ?thesis
    by (rule exI, rule conjI, rule madt_walk_roundtrip [OF vectors_laws_ref w h], simp only: l, simp, simp add: demo_madt_def)
qed

text \<open>
  An entry whose size byte is zero makes the walk run forever: the index comes back to the same entry,
  whatever its type.
\<close>

theorem madt_walk_stuck:
  assumes "i < n" "holds mem (entries + i) (t # 0 # bs)" "10 \<le> length bs"
  shows "madt_walk V mem entries n l i = None"
proof (rule madt_walk_none [OF assms(1)])
  fix l
  have "holds mem (entries + i + 2) bs" using holds_tail assms(2) by blast
  then have "k \<le> 10 \<Longrightarrow> rd mem (entries + i + 2) k = Ret (take k bs)" for k using rd_holds [of mem _ bs 0 k] assms(3) by simp
  then have "\<exists>l'. push_entry V mem (entries + i + 2) t l = Ret l'" by (simp add: push_entry_def)
  then obtain l' where "push_entry V mem (entries + i + 2) t l = Ret l'" ..
  from madt_step_shape [OF assms(2) this] show "\<exists>l'. madt_step V mem entries l i = Ret (l', i)" by simp
qed

theorem madt_walk_stuck_witness:
  "madt_walk vectors_ref (image_at 0x1000 (3 # 0 # replicate 10 7)) 0x1000 12 no_lists 0 = None"
proof -
  have "holds (image_at 0x1000 (3 # 0 # replicate 10 7)) (0x1000 + 0) (3 # 0 # replicate 10 7)"
    using holds_image [of "3 # 0 # replicate 10 7" "0x1000"] by simp
  then show ?thesis by (rule madt_walk_stuck [rotated]) simp_all
qed

text \<open>
  A redirection entry written to the I/O APIC reads back as it was written, and no other entry changes.
\<close>

theorem redirection_table_roundtrip:
  assumes "ioapic_law B (ioapic_base io) reg" "k < 24" "entry_ok x"
    and "d' = ioapic_write_redirection_table B io (of_nat (2 * k)) x d"
  shows "fst (ioapic_read_redirection_table B io (of_nat (2 * k)) d') = x \<and>
    (\<forall>j < 24. j \<noteq> k \<longrightarrow> entry_at reg j d' = entry_at reg j d)"
proof -
  have u: "(ucast (of_nat (2 * k) + 0x10 :: u8) :: u32) = of_nat (16 + 2 * k)"
    "(ucast (of_nat (2 * k) + 0x10 + 1 :: u8) :: u32) = of_nat (17 + 2 * k)"
  proof -
    have "of_nat (2 * k) + 0x10 = (of_nat (16 + 2 * k) :: u8)" "of_nat (2 * k) + 0x10 + 1 = (of_nat (17 + 2 * k) :: u8)" by simp_all
    then show "(ucast (of_nat (2 * k) + 0x10 :: u8) :: u32) = of_nat (16 + 2 * k)"
      "(ucast (of_nat (2 * k) + 0x10 + 1 :: u8) :: u32) = of_nat (17 + 2 * k)"
      using assms(2) by (simp_all only:) (rule ucast_byte_of_nat; simp)+
  qed
  have "fst (ioapic_read_redirection_table B io (of_nat (2 * k)) d') = entry_at reg k d'"
    using assms(1) unfolding ioapic_read_redirection_table_def ioapic_read_def Let_def ioapic_law_def u
    by (simp add: entry_at_def del: of_nat_add of_nat_mult)
  moreover have "entry_at reg j d' = (if j = k then x else entry_at reg j d)" if "j < 24" for j
    unfolding assms(4) by (rule write_redirection [OF assms(1,2) that assms(3)])
  ultimately show ?thesis using assms(2) by simp
qed

text \<open>
  A device for the examples: an I/O APIC at \<open>0xfec00000\<close> with its selected register and its register
  file, and a local APIC whose identification register reads \<open>0x03000000\<close>.
\<close>

definition demo_bus :: "(u32 \<times> (u32 \<Rightarrow> u32)) bus" where
  "demo_bus = \<lparr>mmio_write32 = (\<lambda>a x d. if a = 0xfec00000 then (x, snd d)
       else if a = 0xfec00010 then (fst d, (snd d)(fst d := x)) else d),
     mmio_read32 = (\<lambda>a d. if a = 0xfec00010 then snd d (fst d) else if a = 0xfee00020 then 0x03000000 else 0),
     mmio_write64 = (\<lambda>_ _ d. d), mmio_read64 = (\<lambda>_ _. 0), outb = (\<lambda>_ _ d. d), inb = (\<lambda>_ _. 0),
     msr_read = (\<lambda>_ _. (0xfee00900, 0)), msr_write = (\<lambda>_ _ d. d), cr_read = (\<lambda>_ _. 0), cr_write = (\<lambda>_ _ d. d),
     pause = (\<lambda>d. d)\<rparr>"

definition demo_ioapic :: ioapic where
  "demo_ioapic = \<lparr>ioapic_id = 0, ioapic_version = 0x11, maximum_redirection_entry = 23, ioapic_arbitration_id = 0,
     ioapic_base = 0xfec00000, madt1 = \<lparr>ioapic_id1 = 0, ioapic_addr = 0xfec00000, gsi_base = 0\<rparr>\<rparr>"

lemma demo_ioapic_law: "ioapic_law demo_bus (ioapic_base demo_ioapic) (\<lambda>r d. snd d r)"
  by (simp add: ioapic_law_def demo_bus_def demo_ioapic_def)

theorem redirection_table_roundtrip_witness:
  "fst (ioapic_read_redirection_table demo_bus demo_ioapic 4
     (ioapic_write_redirection_table demo_bus demo_ioapic 4 0x0300000000010020 (0, \<lambda>_. 0))) = 0x0300000000010020"
  using redirection_table_roundtrip [OF demo_ioapic_law, of 2 "0x0300000000010020" _ "(0, \<lambda>_. 0)"]
  by (simp add: entry_ok_def)

text \<open>
  C34. With one I/O APIC that starts at global interrupt 0, the masking loop returns and leaves, for each of
  the 16 legacy interrupts, its own redirection entry or that of its override masked, with a vector
  from 32 on; every entry is masked like that or unchanged. The destination is always 0: the
  identification register, which keeps the identifier in its top byte, is shifted as if it were the
  identifier.
\<close>

theorem mask_irqs_masks:
  assumes "fayt_laws F" "ioapic_law B (ioapic_base io) reg" "gsi_base (madt1 io) = 0" "23 \<le> maximum_redirection_entry io"
    and "\<And>d. xapic_read B vma 0x20 d AND 0xff = 0" "\<And>j. j < 16 \<Longrightarrow> target ents j < 24"
  shows "\<exists>d'. mask_irqs F B vma ents [io] 0 16 (replicate 8 0) d = Ret d' \<and>
    (\<forall>i < 16. \<exists>g \<in> {i, target ents i}. \<exists>j < 16. target ents j = g \<and> entry_at reg g d' = masked_entry ents j) \<and>
    (\<forall>g < 24. entry_at reg g d' = entry_at reg g d \<or> (\<exists>j < 16. target ents j = g \<and> entry_at reg g d' = masked_entry ents j))"
proof -
  have z: "\<not> BIT_TEST F (replicate 8 0) (of_nat g)" if "g < 24" for g
    by (rule BIT_TEST_zero [OF assms(1)]) (use that in \<open>simp add: in_bitmap_def\<close>)
  have "mask_inv F ents reg d 0 (replicate 8 0) d" using z by (simp add: mask_inv_def)
  from mask_irqs_inv [OF assms this, of 16] obtain bm d' where
    r: "mask_irqs F B vma ents [io] 0 16 (replicate 8 0) d = Ret d'" and inv: "mask_inv F ents reg d 16 bm d'" by auto
  have g: "entry_at reg g d' = entry_at reg g d \<or> (\<exists>j < 16. target ents j = g \<and> entry_at reg g d' = masked_entry ents j)"
    "BIT_TEST F bm (of_nat g) \<Longrightarrow> \<exists>j < 16. target ents j = g \<and> entry_at reg g d' = masked_entry ents j" if "g < 24" for g
    using inv that unfolding mask_inv_def by (metis (full_types))+
  have "\<exists>g \<in> {i, target ents i}. \<exists>j < 16. target ents j = g \<and> entry_at reg g d' = masked_entry ents j" if "i < 16" for i
    using inv that g(2) [of i] g(2) [OF assms(6) [OF that]] by (auto simp: mask_inv_def)
  then show ?thesis using r g(1) by blast
qed

definition demo_override :: "madt_ent2 list" where
  "demo_override = [\<lparr>bus_src = 0, irq_src = 0, gsi = 2, flags2 = 0\<rparr>]"

lemma demo_target: "j < 16 \<Longrightarrow> target demo_override j = (if j = 0 then 2 else j)"
proof -
  assume j: "j < 16"
  then have "unat (of_nat j :: u8) = j" by (intro byte_of_nat) simp
  then have "(of_nat j :: u8) = 0 \<longleftrightarrow> j = 0" by auto
  then show ?thesis using \<open>unat (of_nat j :: u8) = j\<close> by (auto simp: target_def demo_override_def)
qed

theorem mask_irqs_masks_witness:
  "\<exists>d'. mask_irqs fayt_ref demo_bus 0 demo_override [demo_ioapic] 0 16 (replicate 8 0) (0, \<lambda>_. 0) = Ret d' \<and>
     (\<forall>i < 16. i \<noteq> 0 \<longrightarrow> (\<exists>j < 16. entry_at (\<lambda>r d. snd d r) i d' = masked_entry demo_override j))"
proof -
  have T: "target demo_override j < 24" if "j < 16" for j using demo_target [OF that] that by simp
  have idr: "xapic_read demo_bus 0 0x20 d AND 0xff = 0" for d
    by (simp add: xapic_read_def lapic_base_def rdmsr_def demo_bus_def)
  have io: "gsi_base (madt1 demo_ioapic) = 0" "23 \<le> maximum_redirection_entry demo_ioapic" by (simp_all add: demo_ioapic_def)
  obtain d' where r: "mask_irqs fayt_ref demo_bus 0 demo_override [demo_ioapic] 0 16 (replicate 8 0) (0, \<lambda>_. 0) = Ret d'"
    and m: "\<forall>i < 16. \<exists>g \<in> {i, target demo_override i}. \<exists>j < 16. target demo_override j = g \<and>
      entry_at (\<lambda>r d. snd d r) g d' = masked_entry demo_override j"
    using mask_irqs_masks [OF fayt_laws_ref demo_ioapic_law io idr T, of "(0, \<lambda>_. 0)"] by blast
  have "\<exists>j < 16. entry_at (\<lambda>r d. snd d r) i d' = masked_entry demo_override j" if "i < 16" "i \<noteq> 0" for i
    using m [rule_format, OF that(1)] demo_target [OF that(1)] that(2) by auto
  then show ?thesis using r by blast
qed

end
