(* ===== verification/Smp.thy ===== *)
theory Smp
  imports Cpu Apic
begin

unbundle bit_operations_syntax

text \<open>
  Starting the other processors, \<^verbatim>\<open>kernel/arch/x86/smp.c\<close>. Several cores run at once, so the code is a step
  relation: each core has a position in the code, and a step executes one core up to its next access to
  the lock or to the next place where another core can notice. The real-mode code that a new core runs first
  is not C; what the C code relies on is one step here: the core reads its parameters from the page at
  \<^verbatim>\<open>0x81000\<close> and jumps to \<^verbatim>\<open>core_bootstrap\<close>. That page is the list \<open>parameters\<close> and not part of \<open>smem\<close>, and the
  messages that the code prints are left out. A core is named by its APIC identifier. A core that runs into an error
  (a null block, an index out of range, a division by zero) stops for good at the position \<open>Faulted\<close>.
\<close>

section \<open>State\<close>

text \<open>The fields of \<^verbatim>\<open>struct cpu_local\<close> that start-up sets.\<close>

record start_local =
  start_stack :: u64
  start_apic_id :: s32
  fpu_context_size :: s32

datatype core_pc =
    Off
  | Starting            \<comment> \<open>has received the start-up interrupt\<close>
  | Entry u64 ptr       \<comment> \<open>at \<^verbatim>\<open>core_bootstrap\<close>, with its stack and its argument\<close>
  | Init ptr            \<comment> \<open>in \<^verbatim>\<open>core_bootstrap\<close>, behind the release of the lock\<close>
  | Chain               \<comment> \<open>at \<^verbatim>\<open>chain_aps\<close>\<close>
  | Acquire nat         \<comment> \<open>at the first lock, to start the processor with this number\<close>
  | Wait                \<comment> \<open>at the second lock\<close>
  | Release             \<comment> \<open>behind the second lock\<close>
  | Idle
  | Faulted kerror

record ('l, 'd) smp =
  smem :: "'l kstate"
  kernel_mappings :: "'l page_table"
  core_init_lock :: 'l
  logical_processor_cnt :: nat
  locales :: "ptr \<Rightarrow> start_local option"
  parameters :: "u64 list"
  gdts :: "u8 \<Rightarrow> (gdt \<times> tss) option"
  devs :: "u8 \<Rightarrow> 'd"
  pcs :: "u8 \<Rightarrow> core_pc"

text \<open>
  The list of processors from the MADT and the addresses the linker, the slab allocator and the stack frames
  determine; \<open>raw_gdt\<close> and \<open>raw_tss\<close> are the contents of the memory \<^verbatim>\<open>gdt_init\<close> gets.
\<close>

record smp_env =
  madt_ent0s :: "madt_ent0 list"
  bootstrap_addr :: u64
  locales_addr :: ptr
  sizeof_cpu_local :: u64
  idtr_addr :: "u8 \<Rightarrow> ptr"
  leaf_7_rcx :: u64
  syscall_addr :: u64
  hpet_addr :: ptr
  raw_gdt :: gdt
  raw_tss :: tss
  tss_addr_of :: "u8 \<Rightarrow> ptr"

definition bootable_processor_cnt :: "smp_env \<Rightarrow> nat" where
  "bootable_processor_cnt E = length (madt_ent0s E)"

definition local_at :: "smp_env \<Rightarrow> nat \<Rightarrow> ptr" where
  "local_at E i = locales_addr E + of_nat i * sizeof_cpu_local E"

definition set_pc :: "u8 \<Rightarrow> core_pc \<Rightarrow> ('l, 'd) smp \<Rightarrow> ('l, 'd) smp" where
  "set_pc c pc s = s\<lparr>pcs := (pcs s)(c := pc)\<rparr>"

definition set_dev :: "u8 \<Rightarrow> 'd \<Rightarrow> ('l, 'd) smp \<Rightarrow> ('l, 'd) smp" where
  "set_dev c d s = s\<lparr>devs := (devs s)(c := d)\<rparr>"

section \<open>The code between the locks\<close>

definition x86_fpu_init :: "start_local \<Rightarrow> start_local" where
  "x86_fpu_init L = L\<lparr>fpu_context_size := 512\<rparr>"

text \<open>\<^verbatim>\<open>chain_aps\<close> up to its first lock. The call of itself for the core's own entry is the position \<open>Chain\<close> again.\<close>

definition chain_head :: "'l fayt \<Rightarrow> 'd bus \<Rightarrow> smp_env \<Rightarrow> u8 \<Rightarrow> ('l, 'd) smp \<Rightarrow> (core_pc \<times> ('l, 'd) smp) outcome" where
  "chain_head F B E c s =
     (let i = logical_processor_cnt s; vma = HIGH_VMA (smem s) in
      if bootable_processor_cnt E \<le> i then
        obind (unmap_page F (smem s) (kernel_mappings s) 0) (\<lambda>(_, pt, m). Ret (Idle, s\<lparr>smem := m, kernel_mappings := pt\<rparr>))
      else let madt0 = madt_ent0s E ! i; p = local_at E i in
        obind (pmm_alloc F (smem s) 4 1) (\<lambda>(a, m).
        obind (deref (locales s) p) (\<lambda>L.
        let L = L\<lparr>start_stack := a + HIGH_VMA m + 0x4000, start_apic_id := ucast (apic_id0 madt0)\<rparr>;
            s = s\<lparr>smem := m, locales := (locales s)(p \<mapsto> L)\<rparr> in
        if start_apic_id L = drop_bit 24 (xapic_read B vma 0x20 (devs s c)) then
          let s = s\<lparr>locales := (locales s)(p \<mapsto> x86_fpu_init L)\<rparr>;
              s = set_dev c (wrmsr B MSR_GS_BASE p (devs s c)) s
          in Ret (Chain, s\<lparr>logical_processor_cnt := Suc i\<rparr>)
        else Ret (Acquire i, s))))"

text \<open>Behind the first lock: the parameters and the interrupts that start the processor.\<close>

definition start_parameters :: "smp_env \<Rightarrow> u8 \<Rightarrow> nat \<Rightarrow> start_local \<Rightarrow> ('l, 'd) smp \<Rightarrow> u64 list" where
  "start_parameters E c i L s = [start_stack L, pmlt (kernel_mappings s) - HIGH_VMA (smem s), bootstrap_addr E, local_at E i,
     idtr_addr E c, if leaf_7_rcx E AND push_bit 16 1 \<noteq> 0 then 1 else 0]"

definition send_start :: "'d bus \<Rightarrow> u64 \<Rightarrow> u8 \<Rightarrow> 'd \<Rightarrow> 'd" where
  "send_start B vma apic_id d =
     (let d = xapic_write B vma 0x310 (push_bit 24 (ucast apic_id)) d;
          d = xapic_write B vma 0x300 0x500 d;
          d = xapic_write B vma 0x310 (push_bit 24 (ucast apic_id)) d
      in xapic_write B vma 0x300 (0x600 OR 0x80) d)"

definition chain_start :: "'l fayt \<Rightarrow> 'd bus \<Rightarrow> smp_env \<Rightarrow> u8 \<Rightarrow> nat \<Rightarrow> ('l, 'd) smp \<Rightarrow> ('l, 'd) smp outcome" where
  "chain_start F B E c i s =
     (let madt0 = madt_ent0s E ! i in
      obind (of_opt (spinlock F (core_init_lock s))) (\<lambda>l.
      obind (deref (locales s) (local_at E i)) (\<lambda>L.
      let s = s\<lparr>core_init_lock := l, parameters := start_parameters E c i L s\<rparr>;
          s = set_dev c (send_start B (HIGH_VMA (smem s)) (apic_id0 madt0) (devs s c)) s
      in Ret (set_pc (apic_id0 madt0) Starting (set_pc c Wait s)))))"

definition bootstrap_head :: "'l fayt \<Rightarrow> 'd bus \<Rightarrow> smp_env \<Rightarrow> u8 \<Rightarrow> ('l, 'd) smp \<Rightarrow> ('l, 'd) smp outcome" where
  "bootstrap_head F B E c s =
     (let s = set_dev c (x86_system_init B (syscall_addr E) (devs s c)) s in
      obind (gdt_init F (smem s) (raw_gdt E) (raw_tss E) (tss_addr_of E c)) (\<lambda>(g, t, m).
      Ret (s\<lparr>smem := m, gdts := (gdts s)(c \<mapsto> (g, t)), core_init_lock := spinrelease F (core_init_lock s)\<rparr>)))"

definition bootstrap_tail :: "'d bus \<Rightarrow> smp_env \<Rightarrow> u8 \<Rightarrow> ptr \<Rightarrow> ('l, 'd) smp \<Rightarrow> ('l, 'd) smp outcome" where
  "bootstrap_tail B E c p s =
     obind (deref (locales s) p) (\<lambda>L.
     let s = s\<lparr>locales := (locales s)(p \<mapsto> x86_fpu_init L)\<rparr>; vma = HIGH_VMA (smem s);
         d = wrmsr B MSR_GS_BASE p (devs s c);
         d = xapic_write B vma 0x80 0 d;
         d = xapic_write B vma 0xf0 (xapic_read B vma 0xf0 d OR 0x1ff) d in
     obind (apic_timer_init B vma (hpet_addr E) 20 d) (\<lambda>d.
     let s = set_dev c (cr_write B 8 0 d) s in
     Ret (s\<lparr>logical_processor_cnt := Suc (logical_processor_cnt s)\<rparr>)))"

section \<open>Steps\<close>

inductive smp_step :: "'l fayt \<Rightarrow> 'd bus \<Rightarrow> smp_env \<Rightarrow> ('l, 'd) smp \<Rightarrow> ('l, 'd) smp \<Rightarrow> bool" for F B E where
  head: "pcs s c = Chain \<Longrightarrow> chain_head F B E c s = Ret (pc, s') \<Longrightarrow> smp_step F B E s (set_pc c pc s')"
| start: "pcs s c = Acquire i \<Longrightarrow> chain_start F B E c i s = Ret s' \<Longrightarrow> smp_step F B E s s'"
| enter: "pcs s c = Starting \<Longrightarrow> smp_step F B E s (set_pc c (Entry (parameters s ! 0) (parameters s ! 3)) s)"
| boot: "pcs s c = Entry q p \<Longrightarrow> bootstrap_head F B E c s = Ret s' \<Longrightarrow> smp_step F B E s (set_pc c (Init p) s')"
| up: "pcs s c = Init p \<Longrightarrow> bootstrap_tail B E c p s = Ret s' \<Longrightarrow> smp_step F B E s (set_pc c Chain s')"
| head_fault: "pcs s c = Chain \<Longrightarrow> chain_head F B E c s = Fault e \<Longrightarrow> smp_step F B E s (set_pc c (Faulted e) s)"
| start_fault: "pcs s c = Acquire i \<Longrightarrow> chain_start F B E c i s = Fault e \<Longrightarrow> smp_step F B E s (set_pc c (Faulted e) s)"
| boot_fault: "pcs s c = Entry q p \<Longrightarrow> bootstrap_head F B E c s = Fault e \<Longrightarrow> smp_step F B E s (set_pc c (Faulted e) s)"
| up_fault: "pcs s c = Init p \<Longrightarrow> bootstrap_tail B E c p s = Fault e \<Longrightarrow> smp_step F B E s (set_pc c (Faulted e) s)"
| wait: "pcs s c = Wait \<Longrightarrow> spinlock F (core_init_lock s) = Some l \<Longrightarrow> smp_step F B E s (set_pc c Release (s\<lparr>core_init_lock := l\<rparr>))"
| release: "pcs s c = Release \<Longrightarrow> smp_step F B E s (set_pc c Idle (s\<lparr>core_init_lock := spinrelease F (core_init_lock s)\<rparr>))"

text \<open>
  \<^verbatim>\<open>boot_aps\<close> on the first core: the low 2 MiB are mapped for the start-up code, the blob is copied there and the
  array of local blocks is allocated, one more than there are processors.
\<close>

definition boot_aps :: "'l fayt \<Rightarrow> smp_env \<Rightarrow> start_local \<Rightarrow> u8 \<Rightarrow> ('l, 'd) smp \<Rightarrow> ('l, 'd) smp outcome" where
  "boot_aps F E raw c s =
     obind (map_page F (smem s) (kernel_mappings s) 0 0 (X86_FLAGS_P OR X86_FLAGS_RW OR X86_FLAGS_PS)) (\<lambda>(_, pt, m).
     Ret (set_pc c Chain (s\<lparr>smem := m, kernel_mappings := pt,
       locales := (\<lambda>p. if p \<in> local_at E ` {..bootable_processor_cnt E} then Some raw else locales s p)\<rparr>)))"

section \<open>The invariant\<close>

definition ids :: "smp_env \<Rightarrow> u8 list" where
  "ids E = map apic_id0 (madt_ent0s E)"

definition own_id :: "'d bus \<Rightarrow> u64 \<Rightarrow> 'd \<Rightarrow> u32" where
  "own_id B vma d = drop_bit 24 (xapic_read B vma 0x20 d)"

text \<open>The identification register of a core reads the same whatever the core does to its other registers.\<close>

definition id_law :: "'d bus \<Rightarrow> u64 \<Rightarrow> bool" where
  "id_law B vma \<longleftrightarrow> (\<forall>a x d. own_id B vma (mmio_write32 B a x d) = own_id B vma d) \<and>
     (\<forall>m v d. m \<noteq> 0x1b \<longrightarrow> own_id B vma (msr_write B m v d) = own_id B vma d) \<and>
     (\<forall>r v d. own_id B vma (cr_write B r v d) = own_id B vma d) \<and>
     (\<forall>p v d. own_id B vma (outb B p v d) = own_id B vma d) \<and> (\<forall>d. own_id B vma (pause B d) = own_id B vma d)"

definition timer_law :: "'d bus \<Rightarrow> ptr \<Rightarrow> bool" where
  "timer_law B hp \<longleftrightarrow> counter_runs B hp \<and> (\<forall>d. (ucast (drop_bit 32 (capabilities B hp d)) :: u32) \<noteq> 0)"

definition resting :: "core_pc \<Rightarrow> bool" where
  "resting pc \<longleftrightarrow> pc \<in> {Off, Wait, Release, Idle}"

definition holder :: "core_pc \<Rightarrow> bool" where
  "holder pc \<longleftrightarrow> pc = Release \<or> pc = Starting \<or> (\<exists>q p. pc = Entry q p)"

text \<open>Exactly the first \<open>k\<close> processors have been started.\<close>

definition started :: "smp_env \<Rightarrow> ('l, 'd) smp \<Rightarrow> nat \<Rightarrow> bool" where
  "started E s k \<longleftrightarrow> (\<forall>c. pcs s c \<noteq> Off \<longleftrightarrow> c \<in> set (take k (ids E)))"

definition block_ready :: "smp_env \<Rightarrow> ('l, 'd) smp \<Rightarrow> nat \<Rightarrow> u64 \<Rightarrow> bool" where
  "block_ready E s i q \<longleftrightarrow> (\<exists>L. locales s (local_at E i) = Some L \<and> start_stack L = q \<and> start_apic_id L = ucast (ids E ! i))"

text \<open>Where the one core is that is neither off nor waiting nor done, and what it has prepared.\<close>

fun phase :: "smp_env \<Rightarrow> ('l, 'd) smp \<Rightarrow> u8 \<Rightarrow> core_pc \<Rightarrow> bool" where
  "phase E s t Chain \<longleftrightarrow> (let k = logical_processor_cnt s in
     k = 0 \<and> t = ids E ! 0 \<and> started E s 1 \<or> 0 < k \<and> t = ids E ! (k - 1) \<and> started E s k)"
| "phase E s t (Acquire i) \<longleftrightarrow> (let k = logical_processor_cnt s in
     i = k \<and> 0 < k \<and> k < length (ids E) \<and> t = ids E ! (k - 1) \<and> started E s k \<and> (\<exists>q. block_ready E s k q))"
| "phase E s t Starting \<longleftrightarrow> (let k = logical_processor_cnt s in
     0 < k \<and> k < length (ids E) \<and> t = ids E ! k \<and> started E s (Suc k) \<and> block_ready E s k (parameters s ! 0) \<and> parameters s ! 3 = local_at E k)"
| "phase E s t (Entry q p) \<longleftrightarrow> (let k = logical_processor_cnt s in
     0 < k \<and> k < length (ids E) \<and> t = ids E ! k \<and> started E s (Suc k) \<and> block_ready E s k q \<and> p = local_at E k)"
| "phase E s t (Init p) \<longleftrightarrow> (let k = logical_processor_cnt s in
     0 < k \<and> k < length (ids E) \<and> t = ids E ! k \<and> started E s (Suc k) \<and> (\<exists>q. block_ready E s k q) \<and> p = local_at E k)"
| "phase E s t Idle \<longleftrightarrow> logical_processor_cnt s = length (ids E) \<and> started E s (length (ids E)) \<and>
     view Pml4Ops (smem s) (kernel_mappings s) 0 = None"
| "phase E s t _ \<longleftrightarrow> False"

definition mem_ok :: "'l fayt \<Rightarrow> u64 \<Rightarrow> ('l, 'd) smp \<Rightarrow> bool" where
  "mem_ok F vma s \<longleftrightarrow> pmm_inv F (smem s) \<and> pt_ok F Pml4Ops (smem s) (kernel_mappings s) \<and> HIGH_VMA (smem s) = vma"

definition blocks_ok :: "smp_env \<Rightarrow> ('l, 'd) smp \<Rightarrow> bool" where
  "blocks_ok E s \<longleftrightarrow> (\<forall>i \<le> length (ids E). locales s (local_at E i) \<noteq> None) \<and>
     (\<forall>i < logical_processor_cnt s. \<exists>L. locales s (local_at E i) = Some L \<and> start_apic_id L = ucast (ids E ! i) \<and> fpu_context_size L = 512)"

definition lock_ok :: "'l fayt \<Rightarrow> ('l, 'd) smp \<Rightarrow> bool" where
  "lock_ok F s \<longleftrightarrow> (\<forall>c c'. holder (pcs s c) \<longrightarrow> holder (pcs s c') \<longrightarrow> c = c') \<and>
     (lock_free F (core_init_lock s) \<longleftrightarrow> (\<forall>c. \<not> holder (pcs s c)))"

definition smp_inv :: "'l fayt \<Rightarrow> 'd bus \<Rightarrow> smp_env \<Rightarrow> u64 \<Rightarrow> ('l, 'd) smp \<Rightarrow> bool" where
  "smp_inv F B E vma s \<longleftrightarrow> mem_ok F vma s \<and> blocks_ok E s \<and> lock_ok F s \<and> logical_processor_cnt s \<le> length (ids E) \<and>
     (\<forall>c. own_id B vma (devs s c) = ucast c) \<and>
     (\<exists>t. (\<forall>c. c \<noteq> t \<longrightarrow> resting (pcs s c)) \<and> phase E s t (pcs s t))"

definition env_ok :: "smp_env \<Rightarrow> bool" where
  "env_ok E \<longleftrightarrow> madt_ent0s E \<noteq> [] \<and> distinct (ids E) \<and> inj_on (local_at E) {..length (ids E)}"

subsection \<open>Accessors\<close>

lemma set_pc_simps [simp]:
  "smem (set_pc c pc s) = smem s" "kernel_mappings (set_pc c pc s) = kernel_mappings s" "core_init_lock (set_pc c pc s) = core_init_lock s"
  "logical_processor_cnt (set_pc c pc s) = logical_processor_cnt s" "locales (set_pc c pc s) = locales s"
  "parameters (set_pc c pc s) = parameters s" "devs (set_pc c pc s) = devs s" "pcs (set_pc c pc s) = (pcs s)(c := pc)"
  by (simp_all add: set_pc_def)

lemma set_dev_simps [simp]:
  "smem (set_dev c d s) = smem s" "kernel_mappings (set_dev c d s) = kernel_mappings s" "core_init_lock (set_dev c d s) = core_init_lock s"
  "logical_processor_cnt (set_dev c d s) = logical_processor_cnt s" "locales (set_dev c d s) = locales s"
  "parameters (set_dev c d s) = parameters s" "gdts (set_dev c d s) = gdts s" "devs (set_dev c d s) = (devs s)(c := d)" "pcs (set_dev c d s) = pcs s"
  by (simp_all add: set_dev_def)

lemma length_ids [simp]: "length (madt_ent0s E) = length (ids E)" "bootable_processor_cnt E = length (ids E)"
  by (simp_all add: ids_def bootable_processor_cnt_def)

lemma env_pos: "env_ok E \<Longrightarrow> 0 < length (ids E)"
  unfolding env_ok_def by (metis length_greater_0_conv length_ids(1))

lemma nth_ids: "i < length (ids E) \<Longrightarrow> apic_id0 (madt_ent0s E ! i) = ids E ! i"
  unfolding ids_def by simp

lemma in_started: "started E s k \<Longrightarrow> j < k \<Longrightarrow> j < length (ids E) \<Longrightarrow> pcs s (ids E ! j) \<noteq> Off"
  by (auto simp: started_def in_set_conv_nth)

lemma not_started: "env_ok E \<Longrightarrow> started E s k \<Longrightarrow> k \<le> j \<Longrightarrow> j < length (ids E) \<Longrightarrow> pcs s (ids E ! j) = Off"
proof (rule ccontr)
  assume a: "env_ok E" "started E s k" "k \<le> j" "j < length (ids E)" "pcs s (ids E ! j) \<noteq> Off"
  then have "ids E ! j \<in> set (take k (ids E))" by (simp add: started_def)
  then obtain i where i: "i < k" "i < length (ids E)" "ids E ! i = ids E ! j" by (auto simp: in_set_conv_nth)
  then have "i = j" using a by (simp add: env_ok_def nth_eq_iff_index_eq)
  then show False using i a by simp
qed

lemma started_next:
  assumes "env_ok E" "started E s k" "k < length (ids E)" "pc \<noteq> Off"
  shows "started E (set_pc (ids E ! k) pc s) (Suc k)"
  using assms by (auto simp: started_def take_Suc_conv_app_nth)

lemma started_set: "started E s k \<Longrightarrow> pcs s c \<noteq> Off \<Longrightarrow> pc \<noteq> Off \<Longrightarrow> started E (set_pc c pc s) k"
  by (auto simp: started_def)

lemma started_pcs: "pcs s' = pcs s \<Longrightarrow> started E s' k = started E s k"
  by (simp add: started_def)

subsection \<open>The identification of a core\<close>

lemma own_id_simps [simp]:
  assumes "id_law B vma"
  shows "own_id B vma (xapic_write B v r x d) = own_id B vma d" "own_id B vma (outb B p y d) = own_id B vma d"
    "own_id B vma (cr_write B k z d) = own_id B vma d" "m \<noteq> 0x1b \<Longrightarrow> own_id B vma (wrmsr B m w d) = own_id B vma d"
    "own_id B vma (pause B d) = own_id B vma d"
  using assms by (simp_all add: id_law_def xapic_write_def wrmsr_def)

lemma own_id_system_init [simp]: "id_law B vma \<Longrightarrow> own_id B vma (x86_system_init B a d) = own_id B vma d"
  by (simp add: x86_system_init_def serial_init_def Let_def)

lemma own_id_send_start [simp]: "id_law B vma \<Longrightarrow> own_id B vma (send_start B v a d) = own_id B vma d"
  by (simp add: send_start_def Let_def)

lemma hpet_wait_id:
  assumes "hpet_wait B hp ticks d = Some d'" "id_law B vma"
  shows "own_id B vma d' = own_id B vma d"
proof -
  have "id_law B vma \<longrightarrow> own_id B vma d' = own_id B vma d"
  proof (rule hpet_wait.raw_induct [OF _ assms(1)])
    fix f :: "'a bus \<Rightarrow> u64 \<Rightarrow> u64 \<Rightarrow> 'a \<Rightarrow> 'a option" and B :: "'a bus" and hp ticks d y
    assume "\<And>B hp ticks d y. f B hp ticks d = Some y \<Longrightarrow> id_law B vma \<longrightarrow> own_id B vma y = own_id B vma d"
      and "(if counter_value B hp d < ticks then f B hp ticks (pause B d) else Some d) = Some y"
    then show "id_law B vma \<longrightarrow> own_id B vma y = own_id B vma d" 
      by (cases "counter_value B hp d < ticks") auto
  qed
  then show ?thesis using assms(2) by blast
qed

lemma timer_init_id:
  assumes "id_law B vma" "timer_law B hp"
  shows "\<exists>d'. apic_timer_init B v hp n d = Ret d' \<and> own_id B vma d' = own_id B vma d"
proof -
  let ?d = "xapic_write B v 0x380 (- 1) (xapic_write B v 0x3e0 0x3 d)"
  define ticks where "ticks = counter_value B hp ?d + ucast n * (1000000000000 div ucast (ucast (drop_bit 32 (capabilities B hp ?d)) :: u32))"
  obtain d1 where w: "hpet_wait B hp ticks ?d = Some d1" using hpet_wait_ends [of B hp ticks ?d] assms(2) by (auto simp: timer_law_def)
  have "own_id B vma d1 = own_id B vma d" using hpet_wait_id [OF w assms(1)] assms(1) by simp
  moreover have "hpet_msleep B hp (ucast n) ?d = Ret d1"
    using w assms(2) by (simp add: hpet_msleep_def hpet_sleep_def Let_def timer_law_def ticks_def)
  ultimately show ?thesis using assms(1) by (simp add: apic_timer_init_def Let_def)
qed

subsection \<open>Memory\<close>

lemma gdt_init_keeps:
  assumes "fayt_laws F" "pmm_inv F s" "pt_ok F m s pt"
  shows "\<exists>g' t' s'. gdt_init F s g t a = Ret (g', t', s') \<and> pmm_inv F s' \<and> pt_ok F m s' pt \<and> HIGH_VMA s' = HIGH_VMA s"
proof -
  note al = alloc_keeps_tables [OF assms(1), of _ m pt 4, simplified]
  obtain a1 s1 where 1: "pmm_alloc F s 4 1 = Ret (a1, s1)" "pmm_inv F s1" "pt_ok F m s1 pt" "HIGH_VMA s1 = HIGH_VMA s" using al assms by blast
  obtain a2 s2 where 2: "pmm_alloc F s1 4 1 = Ret (a2, s2)" "pmm_inv F s2" "pt_ok F m s2 pt" "HIGH_VMA s2 = HIGH_VMA s1" using al 1 by blast
  obtain a3 s3 where 3: "pmm_alloc F s2 4 1 = Ret (a3, s3)" "pmm_inv F s3" "pt_ok F m s3 pt" "HIGH_VMA s3 = HIGH_VMA s2" using al 2 by blast
  show ?thesis using 1 2 3 by (simp add: gdt_init_def Let_def)
qed

lemma unmap_first:
  assumes "fayt_laws F" "pmm_inv F s" "pt_ok F Pml4Ops s pt"
  shows "\<exists>n pt' s'. unmap_page F s pt 0 = Ret (n, pt', s') \<and> pt_ok F Pml4Ops s' pt' \<and> pmm_inv F s' \<and> HIGH_VMA s' = HIGH_VMA s \<and>
    view Pml4Ops s' pt' 0 = None"
proof -
  obtain n pt' s' c where u: "unmap_page F s pt 0 = Ret (n, pt', s')" "s' = s\<lparr>memory := c\<rparr>" "pt_ok F Pml4Ops s' pt'" "pmlt pt' = pmlt pt"
    "unmapped Pml4Ops s s' (pmlt pt) 0 n"
    using pml4_unmap_correct [OF assms] by blast
  have "view Pml4Ops s' pt' 0 = None" using u(5) unfolding unmapped_def u(4) by auto
  then show ?thesis using u assms(2) by (auto simp: pmm_inv_def)
qed

subsection \<open>Progress is counted\<close>

fun weight :: "core_pc \<Rightarrow> nat" where
  "weight Off = 8" | "weight Starting = 7" | "weight (Entry q p) = 6" | "weight (Init p) = 5" | "weight Chain = 4"
| "weight (Acquire i) = 3" | "weight Wait = 2" | "weight Release = 1" | "weight Idle = 0" | "weight (Faulted e) = 0"

definition work :: "smp_env \<Rightarrow> ('l, 'd) smp \<Rightarrow> nat" where
  "work E s = (\<Sum>c \<in> set (ids E). weight (pcs s c)) + (length (ids E) - logical_processor_cnt s)"

lemma sum_weight_upd:
  assumes "c \<in> set (ids E)"
  shows "(\<Sum>x \<in> set (ids E). weight ((f(c := v)) x)) + weight (f c) = (\<Sum>x \<in> set (ids E). weight (f x)) + weight v"
proof -
  have "(\<Sum>x \<in> set (ids E) - {c}. weight ((f(c := v)) x)) = (\<Sum>x \<in> set (ids E) - {c}. weight (f x))" by (rule sum.cong) auto
  then show ?thesis
    using sum.remove [OF finite_set assms, of "\<lambda>x. weight ((f(c := v)) x)"] sum.remove [OF finite_set assms, of "\<lambda>x. weight (f x)"] by simp
qed

lemma work_set_pc:
  assumes "c \<in> set (ids E)" "pcs s' = pcs s" "logical_processor_cnt s \<le> logical_processor_cnt s'" "weight pc < weight (pcs s c)"
  shows "work E (set_pc c pc s') < work E s"
  using sum_weight_upd [OF assms(1), of "pcs s" pc] assms by (simp add: work_def)

lemma work_head:
  assumes "c \<in> set (ids E)" "pcs s' = pcs s" "pcs s c = Chain"
    and "logical_processor_cnt s' = Suc (logical_processor_cnt s) \<and> logical_processor_cnt s < length (ids E) \<and> pc = Chain \<or>
      logical_processor_cnt s' = logical_processor_cnt s \<and> weight pc < 4"
  shows "work E (set_pc c pc s') < work E s"
  using sum_weight_upd [OF assms(1), of "pcs s" pc] assms(2-4) by (auto simp: work_def)

lemma ucast_id_inj: "inj (ucast :: u8 \<Rightarrow> u32)"
proof (rule injI)
  fix x y :: u8 assume e: "(ucast x :: u32) = ucast y"
  have "unat (ucast z :: u32) = unat z" for z :: u8
    using unsigned_less [of z, where ?'a = nat] by (simp add: unsigned_ucast_eq take_bit_nat_eq_self)
  then show "x = y" using e by (metis word_eq_of_unat)
qed

subsection \<open>The lock\<close>

lemma lock_ok_same:
  assumes "lock_ok F s" "\<not> holder (pcs s c)" "\<not> holder pc" "pcs s' = pcs s" "core_init_lock s' = core_init_lock s"
  shows "lock_ok F (set_pc c pc s')"
  using assms unfolding lock_ok_def by (simp add: fun_upd_apply) metis

lemma lock_ok_take:
  assumes "fayt_laws F" "lock_ok F s" "spinlock F (core_init_lock s) = Some l" "pcs s' = (pcs s)(b := pb)" "\<not> holder pb"
    and "core_init_lock s' = l" "holder pc"
  shows "lock_ok F (set_pc c pc s')"
proof -
  have "lock_free F (core_init_lock s)" using assms(3) by (simp add: lock_free_def)
  then have "\<not> holder (pcs s x)" for x using assms(2) by (simp add: lock_ok_def)
  moreover have "\<not> lock_free F l" using spinlock_held [OF assms(1,3)] by (simp add: lock_free_def)
  ultimately show ?thesis using assms(4-7) by (auto simp: lock_ok_def intro: exI [of _ c])
qed

lemma lock_ok_drop:
  assumes "fayt_laws F" "lock_ok F s" "holder (pcs s c)" "pcs s' = pcs s" "core_init_lock s' = spinrelease F l" "\<not> holder pc"
  shows "lock_ok F (set_pc c pc s')"
  using assms by (auto simp: lock_ok_def)

lemma lock_ok_keep:
  assumes "lock_ok F s" "holder (pcs s c)" "holder pc"
  shows "lock_ok F (set_pc c pc s)"
  using assms unfolding lock_ok_def by (simp add: fun_upd_apply) metis

subsection \<open>Blocks\<close>

lemma local_at_eq: "env_ok E \<Longrightarrow> i \<le> length (ids E) \<Longrightarrow> j \<le> length (ids E) \<Longrightarrow> local_at E i = local_at E j \<longleftrightarrow> i = j"
  by (auto simp: env_ok_def dest: inj_onD)

lemma inv_token:
  assumes "smp_inv F B E vma s" "\<not> resting (pcs s c)"
  shows "phase E s c (pcs s c)" "\<And>c'. c' \<noteq> c \<Longrightarrow> resting (pcs s c')"
  using assms unfolding smp_inv_def by metis+

lemma phase_started: "phase E s t pc \<Longrightarrow> \<exists>k. started E s k"
  by (cases pc) (auto simp: Let_def)

lemma inv_member: "smp_inv F B E vma s \<Longrightarrow> pcs s c \<noteq> Off \<Longrightarrow> c \<in> set (ids E)"
  unfolding smp_inv_def using phase_started in_set_takeD by (metis started_def)

subsection \<open>One step\<close>

text \<open>What a step of a core at a position does in a state with the invariant: it exists, keeps the invariant and uses up work.\<close>

definition good_step :: "'l fayt \<Rightarrow> 'd bus \<Rightarrow> smp_env \<Rightarrow> u64 \<Rightarrow> ('l, 'd) smp \<Rightarrow> ('l, 'd) smp \<Rightarrow> bool" where
  "good_step F B E vma s s' \<longleftrightarrow> smp_inv F B E vma s' \<and> work E s' < work E s"

text \<open>The hypotheses of all steps.\<close>

definition laws :: "'l fayt \<Rightarrow> 'd bus \<Rightarrow> smp_env \<Rightarrow> u64 \<Rightarrow> bool" where
  "laws F B E vma \<longleftrightarrow> fayt_laws F \<and> id_law B vma \<and> timer_law B (hpet_addr E) \<and> env_ok E"

lemma good_stepI:
  assumes "mem_ok F vma s'" "blocks_ok E s'" "lock_ok F s'" "logical_processor_cnt s' \<le> length (ids E)"
    and "\<forall>c. own_id B vma (devs s' c) = ucast c" "\<forall>c. c \<noteq> t \<longrightarrow> resting (pcs s' c)" "phase E s' t (pcs s' t)" "work E s' < work E s"
  shows "good_step F B E vma s s'"
  using assms unfolding good_step_def smp_inv_def by blast

lemma invD:
  assumes "smp_inv F B E vma s"
  shows "mem_ok F vma s" "blocks_ok E s" "lock_ok F s" "logical_processor_cnt s \<le> length (ids E)" "\<forall>c. own_id B vma (devs s c) = ucast c"
  using assms by (simp_all add: smp_inv_def)

lemma lawsD:
  assumes "laws F B E vma"
  shows "fayt_laws F" "id_law B vma" "timer_law B (hpet_addr E)" "env_ok E"
  using assms by (simp_all add: laws_def)

lemma memD: "mem_ok F vma s \<Longrightarrow> pmm_inv F (smem s)" "mem_ok F vma s \<Longrightarrow> pt_ok F Pml4Ops (smem s) (kernel_mappings s)"
  "mem_ok F vma s \<Longrightarrow> HIGH_VMA (smem s) = vma"
  by (simp_all add: mem_ok_def)

lemma ok_set_pc [simp]: "mem_ok F vma (set_pc c pc s) = mem_ok F vma s" "blocks_ok E (set_pc c pc s) = blocks_ok E s"
  "block_ready E (set_pc c pc s) = block_ready E s"
  by (simp_all add: mem_ok_def blocks_ok_def block_ready_def fun_eq_iff)

lemma ok_lock [simp]: "mem_ok F vma (s\<lparr>core_init_lock := l\<rparr>) = mem_ok F vma s" "blocks_ok E (s\<lparr>core_init_lock := l\<rparr>) = blocks_ok E s"
  "block_ready E (s\<lparr>core_init_lock := l\<rparr>) = block_ready E s" "started E (s\<lparr>core_init_lock := l\<rparr>) = started E s"
  by (simp_all add: mem_ok_def blocks_ok_def block_ready_def started_def fun_eq_iff)

lemma phase_other:
  assumes "phase E s t pc" "pcs s c \<noteq> Off" "pc' \<noteq> Off"
  shows "phase E (set_pc c pc' (s\<lparr>core_init_lock := l\<rparr>)) t pc"
proof -
  have "started E (set_pc c pc' (s\<lparr>core_init_lock := l\<rparr>)) k" if "started E s k" for k
    using started_set [of E "s\<lparr>core_init_lock := l\<rparr>" k c pc'] that assms(2,3) by simp
  then show ?thesis using assms(1) by (cases pc) (simp_all add: Let_def, blast+)
qed

lemma waiting_not_token:
  assumes "smp_inv F B E vma s" "pcs s c = Wait \<or> pcs s c = Release"
  shows "\<exists>t. t \<noteq> c \<and> (\<forall>c. c \<noteq> t \<longrightarrow> resting (pcs s c)) \<and> phase E s t (pcs s t)"
proof -
  obtain t where t: "\<forall>c. c \<noteq> t \<longrightarrow> resting (pcs s c)" "phase E s t (pcs s t)" using assms(1) unfolding smp_inv_def by blast
  have "t \<noteq> c" using t(2) assms(2) by (cases "t = c") auto
  then show ?thesis using t by blast
qed

lemma release_step:
  assumes "laws F B E vma" "smp_inv F B E vma s" "pcs s c = Release"
  shows "good_step F B E vma s (set_pc c Idle (s\<lparr>core_init_lock := spinrelease F (core_init_lock s)\<rparr>))" (is "good_step _ _ _ _ _ ?s")
proof -
  obtain t where t: "t \<noteq> c" "\<forall>c. c \<noteq> t \<longrightarrow> resting (pcs s c)" "phase E s t (pcs s t)" using waiting_not_token [OF assms(2)] assms(3) by blast
  show ?thesis
  proof (rule good_stepI [of _ _ _ _ _ t])
    show "lock_ok F ?s"
      by (rule lock_ok_drop [OF lawsD(1) [OF assms(1)] invD(3) [OF assms(2)], of c]) (simp_all add: assms(3) holder_def)
    show "phase E ?s t (pcs ?s t)" using phase_other [OF t(3), of c Idle] t(1) assms(3) by simp
    show "work E ?s < work E s" using assms(3) inv_member [OF assms(2), of c] by (intro work_set_pc) simp_all
    show "\<forall>c. c \<noteq> t \<longrightarrow> resting (pcs ?s c)" using t(2) by (simp add: resting_def)
  qed (use invD [OF assms(2)] in simp_all)
qed

lemma wait_step:
  assumes "laws F B E vma" "smp_inv F B E vma s" "pcs s c = Wait" "spinlock F (core_init_lock s) = Some l"
  shows "good_step F B E vma s (set_pc c Release (s\<lparr>core_init_lock := l\<rparr>))" (is "good_step _ _ _ _ _ ?s")
proof -
  obtain t where t: "t \<noteq> c" "\<forall>c. c \<noteq> t \<longrightarrow> resting (pcs s c)" "phase E s t (pcs s t)" using waiting_not_token [OF assms(2)] assms(3) by blast
  show ?thesis
  proof (rule good_stepI [of _ _ _ _ _ t])
    show "lock_ok F ?s"
      by (rule lock_ok_take [OF lawsD(1) [OF assms(1)] invD(3) [OF assms(2)] assms(4), of _ c Wait]) (simp_all add: assms(3) holder_def fun_upd_idem)
    show "phase E ?s t (pcs ?s t)" using phase_other [OF t(3), of c Release] t(1) assms(3) by simp
    show "work E ?s < work E s" using assms(3) inv_member [OF assms(2), of c] by (intro work_set_pc) simp_all
    show "\<forall>c. c \<noteq> t \<longrightarrow> resting (pcs ?s c)" using t(2) by (simp add: resting_def)
  qed (use invD [OF assms(2)] in simp_all)
qed

lemma enter_step:
  assumes "laws F B E vma" "smp_inv F B E vma s" "pcs s c = Starting"
  shows "good_step F B E vma s (set_pc c (Entry (parameters s ! 0) (parameters s ! 3)) s)" (is "good_step _ _ _ _ _ ?s")
proof -
  have nr: "\<not> resting (pcs s c)" using assms(3) by (simp add: resting_def)
  note tk = inv_token [OF assms(2) nr]
  show ?thesis
  proof (rule good_stepI [of _ _ _ _ _ c])
    show "lock_ok F ?s" by (rule lock_ok_keep [OF invD(3) [OF assms(2)]]) (simp_all add: assms(3) holder_def)
    have "started E ?s k" if "started E s k" for k using started_set [OF that, of c] assms(3) by simp
    then show "phase E ?s c (pcs ?s c)" using tk(1) assms(3) by (simp add: Let_def)
    show "work E ?s < work E s" using assms(3) inv_member [OF assms(2), of c] by (intro work_set_pc) simp_all
  qed (use invD [OF assms(2)] tk(2) in simp_all)
qed

lemma bootstrap_head_runs:
  assumes "fayt_laws F" "id_law B vma" "mem_ok F vma s"
  shows "\<exists>s'. bootstrap_head F B E c s = Ret s' \<and> mem_ok F vma s' \<and> locales s' = locales s \<and> parameters s' = parameters s \<and> pcs s' = pcs s \<and>
    logical_processor_cnt s' = logical_processor_cnt s \<and> (\<forall>x. own_id B vma (devs s' x) = own_id B vma (devs s x)) \<and>
    core_init_lock s' = spinrelease F (core_init_lock s)"
proof -
  obtain g t m where m: "gdt_init F (smem s) (raw_gdt E) (raw_tss E) (tss_addr_of E c) = Ret (g, t, m)" "pmm_inv F m"
    "pt_ok F Pml4Ops m (kernel_mappings s)" "HIGH_VMA m = HIGH_VMA (smem s)"
    using gdt_init_keeps [OF assms(1) memD(1,2) [OF assms(3)]] by blast
  then show ?thesis using assms(2,3) by (simp add: bootstrap_head_def Let_def mem_ok_def)
qed

lemma boot_step:
  assumes "laws F B E vma" "smp_inv F B E vma s" "pcs s c = Entry q p"
  shows "\<exists>s'. bootstrap_head F B E c s = Ret s' \<and> good_step F B E vma s (set_pc c (Init p) s')"
proof -
  have nr: "\<not> resting (pcs s c)" using assms(3) by (simp add: resting_def)
  note tk = inv_token [OF assms(2) nr] and L = lawsD [OF assms(1)] and I = invD [OF assms(2)]
  obtain s' where r: "bootstrap_head F B E c s = Ret s'" and mo: "mem_ok F vma s'" and f: "locales s' = locales s" "parameters s' = parameters s"
    "pcs s' = pcs s" "logical_processor_cnt s' = logical_processor_cnt s" "\<forall>x. own_id B vma (devs s' x) = own_id B vma (devs s x)"
    "core_init_lock s' = spinrelease F (core_init_lock s)"
    using bootstrap_head_runs [OF L(1,2) I(1)] by blast
  have "good_step F B E vma s (set_pc c (Init p) s')" (is "good_step _ _ _ _ _ ?s")
  proof (rule good_stepI [of _ _ _ _ _ c])
    show "lock_ok F ?s" by (rule lock_ok_drop [OF L(1) I(3), of c _ "core_init_lock s"]) (simp_all add: assms(3) holder_def f)
    have "started E ?s k" if "started E s k" for k
      using started_set [of E s' k c "Init p"] that assms(3) f(3) started_pcs [OF f(3), of E k] by simp
    moreover have "block_ready E s' = block_ready E s" by (simp add: block_ready_def fun_eq_iff f)
    ultimately show "phase E ?s c (pcs ?s c)" using tk(1) assms(3) f by (auto simp: Let_def)
    show "work E ?s < work E s" using assms(3) inv_member [OF assms(2), of c] f by (intro work_set_pc) simp_all
    show "blocks_ok E ?s" using I(2) by (simp add: blocks_ok_def f)
  qed (use I tk(2) f mo in simp_all)
  then show ?thesis using r by blast
qed

lemma block_update:
  assumes "env_ok E" "blocks_ok E s" "k \<le> length (ids E)" "locales s' = (locales s)(local_at E k \<mapsto> L)"
    and "logical_processor_cnt s' = logical_processor_cnt s \<and> logical_processor_cnt s \<le> k \<or>
      k = logical_processor_cnt s \<and> logical_processor_cnt s' = Suc k \<and> k < length (ids E) \<and> start_apic_id L = ucast (ids E ! k) \<and> fpu_context_size L = 512"
    and "logical_processor_cnt s \<le> length (ids E)"
  shows "blocks_ok E s'"
proof -
  have o: "locales s' (local_at E i) = (if i = k then Some L else locales s (local_at E i))" if "i \<le> length (ids E)" for i
    using local_at_eq [OF assms(1) that assms(3)] assms(4) by auto
  have "locales s' (local_at E i) \<noteq> None" if "i \<le> length (ids E)" for i using o [OF that] assms(2) that by (simp add: blocks_ok_def)
  moreover have "\<exists>L. locales s' (local_at E i) = Some L \<and> start_apic_id L = ucast (ids E ! i) \<and> fpu_context_size L = 512"
    if "i < logical_processor_cnt s'" for i
  proof (cases "i = k")
    case True
    then show ?thesis using o [of i] that assms(5) by auto
  next
    case False
    then have "i < logical_processor_cnt s" using that assms(5) by auto
    then show ?thesis using o [of i] False assms(2,6) by (simp add: blocks_ok_def)
  qed
  ultimately show ?thesis by (simp add: blocks_ok_def)
qed

lemma bootstrap_tail_runs:
  assumes "id_law B vma" "timer_law B (hpet_addr E)" "locales s p = Some l"
  shows "\<exists>s'. bootstrap_tail B E c p s = Ret s' \<and> smem s' = smem s \<and> kernel_mappings s' = kernel_mappings s \<and> pcs s' = pcs s \<and>
    locales s' = (locales s)(p \<mapsto> x86_fpu_init l) \<and> logical_processor_cnt s' = Suc (logical_processor_cnt s) \<and>
    (\<forall>x. own_id B vma (devs s' x) = own_id B vma (devs s x)) \<and> core_init_lock s' = core_init_lock s"
proof -
  let ?v = "HIGH_VMA (smem s)"
  define d1 where "d1 = xapic_write B ?v 0x80 0 (wrmsr B MSR_GS_BASE p (devs s c))"
  define d2 where "d2 = xapic_write B ?v 0xf0 (xapic_read B ?v 0xf0 d1 OR 0x1ff) d1"
  obtain d3 where d3: "apic_timer_init B ?v (hpet_addr E) 20 d2 = Ret d3" "own_id B vma d3 = own_id B vma d2"
    using timer_init_id [OF assms(1,2)] by blast
  have "own_id B vma (cr_write B 8 0 d3) = own_id B vma (devs s c)" using d3(2) assms(1) by (simp add: d2_def d1_def)
  then show ?thesis using assms(3) d3(1) by (simp add: bootstrap_tail_def Let_def d1_def d2_def)
qed

lemma up_step:
  assumes "laws F B E vma" "smp_inv F B E vma s" "pcs s c = Init p"
  shows "\<exists>s'. bootstrap_tail B E c p s = Ret s' \<and> good_step F B E vma s (set_pc c Chain s')"
proof -
  have nr: "\<not> resting (pcs s c)" using assms(3) by (simp add: resting_def)
  note tk = inv_token [OF assms(2) nr] and L = lawsD [OF assms(1)] and I = invD [OF assms(2)]
  define k where "k = logical_processor_cnt s"
  have k: "0 < k" "k < length (ids E)" "c = ids E ! k" "started E s (Suc k)" "p = local_at E k"
    using tk(1) assms(3) by (simp_all add: Let_def k_def)
  obtain l where l: "locales s p = Some l" "start_apic_id l = ucast (ids E ! k)"
    using tk(1) assms(3) by (auto simp: Let_def block_ready_def k_def)
  obtain s' where r: "bootstrap_tail B E c p s = Ret s'" and f: "smem s' = smem s" "kernel_mappings s' = kernel_mappings s" "pcs s' = pcs s"
    "locales s' = (locales s)(p \<mapsto> x86_fpu_init l)" "logical_processor_cnt s' = Suc k" "\<forall>x. own_id B vma (devs s' x) = own_id B vma (devs s x)"
    "core_init_lock s' = core_init_lock s"
    using bootstrap_tail_runs [of B vma E, OF L(2,3) l(1)] unfolding k_def by blast
  have "good_step F B E vma s (set_pc c Chain s')" (is "good_step _ _ _ _ _ ?s")
  proof (rule good_stepI [of _ _ _ _ _ c])
    show "lock_ok F ?s" by (rule lock_ok_same [OF I(3)]) (simp_all add: assms(3) holder_def f)
    have "started E ?s (Suc k)" using started_set [of E s' "Suc k" c Chain] k(4) assms(3) f(3) started_pcs [OF f(3), of E "Suc k"] by simp
    then show "phase E ?s c (pcs ?s c)" using k f by simp
    show "work E ?s < work E s" using assms(3) inv_member [OF assms(2), of c] f by (intro work_set_pc) (simp_all add: k_def)
    show "mem_ok F vma ?s" using I(1) by (simp add: mem_ok_def f)
    have "blocks_ok E s'"
      by (rule block_update [OF L(4) I(2), of k _ "x86_fpu_init l"]) (use k l f I(4) in \<open>simp_all add: x86_fpu_init_def k_def\<close>)
    then show "blocks_ok E ?s" by simp
  qed (use I tk(2) f k in simp_all)
  then show ?thesis using r by blast
qed

lemma start_step:
  assumes "laws F B E vma" "smp_inv F B E vma s" "pcs s c = Acquire i" "lock_free F (core_init_lock s)"
  shows "\<exists>s'. chain_start F B E c i s = Ret s' \<and> good_step F B E vma s s'"
proof -
  have nr: "\<not> resting (pcs s c)" using assms(3) by (simp add: resting_def)
  note tk = inv_token [OF assms(2) nr] and L = lawsD [OF assms(1)] and I = invD [OF assms(2)]
  have k: "i = logical_processor_cnt s" "0 < i" "i < length (ids E)" "c = ids E ! (i - 1)" "started E s i"
    using tk(1) assms(3) by (auto simp: Let_def)
  obtain b where b: "locales s (local_at E i) = Some b" "start_apic_id b = ucast (ids E ! i)"
    using tk(1) assms(3) by (auto simp: Let_def block_ready_def)
  obtain l where l: "spinlock F (core_init_lock s) = Some l" using assms(4) by (auto simp: lock_free_def)
  let ?t = "ids E ! i"
  have off: "pcs s ?t = Off" using not_started [OF L(4) k(5)] k(3) by simp
  have tc: "?t \<noteq> c" using off assms(3) by auto
  define s1 where "s1 = set_dev c (send_start B (HIGH_VMA (smem s)) ?t (devs s c)) (s\<lparr>core_init_lock := l, parameters := start_parameters E c i b s\<rparr>)"
  have f: "smem s1 = smem s" "kernel_mappings s1 = kernel_mappings s" "locales s1 = locales s" "pcs s1 = pcs s"
    "logical_processor_cnt s1 = i" "devs s1 = (devs s)(c := send_start B (HIGH_VMA (smem s)) ?t (devs s c))" "core_init_lock s1 = l"
    "parameters s1 ! 0 = start_stack b" "parameters s1 ! 3 = local_at E i"
    by (simp_all add: s1_def start_parameters_def k(1))
  let ?s = "set_pc ?t Starting (set_pc c Wait s1)"
  have "good_step F B E vma s ?s"
  proof (rule good_stepI [of _ _ _ _ _ ?t])
    show "lock_ok F ?s" by (rule lock_ok_take [OF L(1) I(3) l, of _ c Wait]) (simp_all add: holder_def f)
    have "started E (set_pc c Wait s1) i"
      using started_set [of E s1 i c Wait] k(5) assms(3) f(4) started_pcs [OF f(4), of E i] by simp
    from started_next [OF L(4) this k(3), of Starting] have "started E ?s (Suc i)" by simp
    moreover have "block_ready E s1 i (start_stack b)" using b by (simp add: block_ready_def f)
    ultimately show "phase E ?s ?t (pcs ?s ?t)" using k f by simp
    have m: "c \<in> set (ids E)" "?t \<in> set (ids E)" using k by auto
    have "work E (set_pc c Wait s1) < work E s" using m(1) f assms(3) k(1) by (intro work_set_pc) simp_all
    moreover have "work E ?s < work E (set_pc c Wait s1)" using m(2) tc off f by (intro work_set_pc) simp_all
    ultimately show "work E ?s < work E s" by simp
    show "mem_ok F vma ?s" using I(1) by (simp add: mem_ok_def f)
    show "blocks_ok E ?s" using I(2) k(1) by (simp add: blocks_ok_def f)
    show "\<forall>c. own_id B vma (devs ?s c) = ucast c" using I(5) L(2) by (simp add: f)
    show "\<forall>x. x \<noteq> ?t \<longrightarrow> resting (pcs ?s x)" using tk(2) by (simp add: f resting_def)
  qed (use k f in simp_all)
  moreover have "chain_start F B E c i s = Ret ?s"
    using l b(1) nth_ids [OF k(3)] by (simp add: chain_start_def Let_def s1_def start_parameters_def)
  ultimately show ?thesis by blast
qed

lemma head_last:
  assumes "laws F B E vma" "smp_inv F B E vma s" "pcs s c = Chain" "length (ids E) \<le> logical_processor_cnt s"
  shows "\<exists>pc s'. chain_head F B E c s = Ret (pc, s') \<and> good_step F B E vma s (set_pc c pc s')"
proof -
  have nr: "\<not> resting (pcs s c)" using assms(3) by (simp add: resting_def)
  note tk = inv_token [OF assms(2) nr] and L = lawsD [OF assms(1)] and I = invD [OF assms(2)]
  have n: "logical_processor_cnt s = length (ids E)" "0 < length (ids E)" using assms(4) I(4) env_pos [OF L(4)] by simp_all
  then have st: "started E s (length (ids E))" using tk(1) assms(3) by (simp add: Let_def)
  obtain r pt m where u: "unmap_page F (smem s) (kernel_mappings s) 0 = Ret (r, pt, m)" "pt_ok F Pml4Ops m pt" "pmm_inv F m"
    "HIGH_VMA m = HIGH_VMA (smem s)" "view Pml4Ops m pt 0 = None"
    using unmap_first [OF L(1) memD(1,2) [OF I(1)]] by blast
  let ?s = "set_pc c Idle (s\<lparr>smem := m, kernel_mappings := pt\<rparr>)"
  have "good_step F B E vma s ?s"
  proof (rule good_stepI [of _ _ _ _ _ c])
    show "lock_ok F ?s" by (rule lock_ok_same [OF I(3)]) (simp_all add: assms(3) holder_def)
    have "started E (s\<lparr>smem := m, kernel_mappings := pt\<rparr>) (length (ids E))" using st by (simp add: started_def)
    from started_set [OF this, of c Idle] have "started E ?s (length (ids E))" using assms(3) by simp
    then show "phase E ?s c (pcs ?s c)" using n u(5) by simp
    show "work E ?s < work E s" using assms(3) inv_member [OF assms(2), of c] by (intro work_set_pc) simp_all
    show "mem_ok F vma ?s" using I(1) u by (simp add: mem_ok_def)
    show "blocks_ok E ?s" using I(2) by (simp add: blocks_ok_def)
  qed (use I tk(2) in simp_all)
  moreover have "chain_head F B E c s = Ret (Idle, s\<lparr>smem := m, kernel_mappings := pt\<rparr>)"
    using u(1) n by (simp add: chain_head_def Let_def)
  ultimately show ?thesis by blast
qed

lemma head_more:
  assumes "laws F B E vma" "smp_inv F B E vma s" "pcs s c = Chain" "logical_processor_cnt s < length (ids E)"
  shows "\<exists>pc s'. chain_head F B E c s = Ret (pc, s') \<and> good_step F B E vma s (set_pc c pc s')"
proof -
  have nr: "\<not> resting (pcs s c)" using assms(3) by (simp add: resting_def)
  note tk = inv_token [OF assms(2) nr] and L = lawsD [OF assms(1)] and I = invD [OF assms(2)]
  define k where "k = logical_processor_cnt s"
  let ?p = "local_at E k"
  obtain a m where m: "pmm_alloc F (smem s) 4 1 = Ret (a, m)" "pmm_inv F m" "pt_ok F Pml4Ops m (kernel_mappings s)" "HIGH_VMA m = HIGH_VMA (smem s)"
    using alloc_keeps_tables [OF L(1) memD(1,2) [OF I(1)], of 4] by auto
  obtain b0 where b0: "locales s ?p = Some b0" using I(2) assms(4) unfolding blocks_ok_def k_def by (meson less_imp_le not_None_eq)
  define b where "b = b0\<lparr>start_stack := a + HIGH_VMA m + 0x4000, start_apic_id := ucast (ids E ! k)\<rparr>"
  have same: "ucast (ids E ! k) = drop_bit 24 (xapic_read B (HIGH_VMA (smem s)) 0x20 (devs s c)) \<longleftrightarrow> ids E ! k = c"
    using I(5) memD(3) [OF I(1)] by (simp add: own_id_def inj_eq [OF ucast_id_inj])
  define pc where "pc = (if k = 0 then Chain else Acquire k)"
  define s' where "s' = (if k = 0
    then set_dev c (wrmsr B MSR_GS_BASE ?p (devs s c)) (s\<lparr>smem := m, locales := (locales s)(?p \<mapsto> x86_fpu_init b)\<rparr>)\<lparr>logical_processor_cnt := 1\<rparr>
    else s\<lparr>smem := m, locales := (locales s)(?p \<mapsto> b)\<rparr>)"
  have f: "smem s' = m" "kernel_mappings s' = kernel_mappings s" "pcs s' = pcs s" "core_init_lock s' = core_init_lock s"
    "logical_processor_cnt s' = (if k = 0 then 1 else k)" "locales s' = (locales s)(?p \<mapsto> (if k = 0 then x86_fpu_init b else b))"
    "own_id B vma (devs s' x) = own_id B vma (devs s x)" for x
    using L(2) by (simp_all add: s'_def k_def)
  have t: "k = 0 \<and> c = ids E ! 0 \<and> started E s 1 \<or> 0 < k \<and> c = ids E ! (k - 1) \<and> started E s k"
    using tk(1) assms(3) by (simp add: Let_def k_def)
  have self: "ids E ! k = c \<longleftrightarrow> k = 0"
    using t assms(4) L(4) unfolding k_def [symmetric] by (auto simp: env_ok_def nth_eq_iff_index_eq)
  let ?s = "set_pc c pc s'"
  have st: "started E ?s (if k = 0 then 1 else k)"
    using started_set [of E s' _ c pc] started_pcs [OF f(3), of E] assms(3) f(3) t by (auto simp: pc_def)
  have "good_step F B E vma s ?s"
  proof (rule good_stepI [of _ _ _ _ _ c])
    show "lock_ok F ?s" by (rule lock_ok_same [OF I(3)]) (simp_all add: assms(3) holder_def f pc_def)
    have "block_ready E s' k (start_stack b)" if "k \<noteq> 0" using that by (simp add: block_ready_def f b_def)
    then show "phase E ?s c (pcs ?s c)" using st t f assms(4) by (auto simp: pc_def k_def [symmetric])
    show "work E ?s < work E s"
      by (rule work_head [OF inv_member [OF assms(2)]]) (use assms(3,4) f(3,5) in \<open>auto simp: pc_def k_def\<close>)
    show "mem_ok F vma ?s" using I(1) m by (simp add: mem_ok_def f)
    have "blocks_ok E s'"
      by (rule block_update [OF L(4) I(2), of k]) (use assms(4) f in \<open>auto simp: k_def x86_fpu_init_def b_def\<close>)
    then show "blocks_ok E ?s" by simp
    show "\<forall>c. own_id B vma (devs ?s c) = ucast c" using I(5) by (simp add: f)
  qed (use tk(2) assms(4) f in \<open>simp_all add: k_def Suc_leI\<close>)
  moreover have "chain_head F B E c s = Ret (pc, s')"
    using assms(4) m(1) b0 same self nth_ids [of k E]
    by (cases "k = 0") (simp_all add: chain_head_def Let_def k_def [symmetric] b_def pc_def s'_def)
  ultimately show ?thesis by blast
qed

section \<open>All runs\<close>

lemma step_good:
  assumes "laws F B E vma" "smp_inv F B E vma s" "smp_step F B E s s'"
  shows "good_step F B E vma s s'"
  using assms(3)
proof cases
  case (head c pc s2)
  then show ?thesis using head_last [OF assms(1,2), of c] head_more [OF assms(1,2), of c] by (metis not_less outcome.inject(1) prod.inject)
next
  case (start c i)
  then have "lock_free F (core_init_lock s)" by (auto simp: chain_start_def lock_free_def Let_def)
  then show ?thesis using start_step [OF assms(1,2)] start by (metis outcome.inject(1))
next
  case (enter c)
  then show ?thesis using enter_step [OF assms(1,2)] by simp
next
  case (boot c q p s2)
  then show ?thesis using boot_step [OF assms(1,2)] by (metis outcome.inject(1))
next
  case (up c p s2)
  then show ?thesis using up_step [OF assms(1,2)] by (metis outcome.inject(1))
next
  case (head_fault c e)
  then show ?thesis using head_last [OF assms(1,2), of c] head_more [OF assms(1,2), of c] by (metis not_less outcome.distinct(1))
next
  case (start_fault c i e)
  then have "lock_free F (core_init_lock s)" by (cases "spinlock F (core_init_lock s)") (auto simp: chain_start_def lock_free_def Let_def)
  then show ?thesis using start_step [OF assms(1,2)] start_fault by (metis outcome.distinct(1))
next
  case (boot_fault c q p e)
  then show ?thesis using boot_step [OF assms(1,2)] by (metis outcome.distinct(1))
next
  case (up_fault c p e)
  then show ?thesis using up_step [OF assms(1,2)] by (metis outcome.distinct(1))
next
  case (wait c l)
  then show ?thesis using wait_step [OF assms(1,2)] by simp
next
  case (release c)
  then show ?thesis using release_step [OF assms(1,2)] by simp
qed

lemma inv_no_fault: "smp_inv F B E vma s \<Longrightarrow> pcs s c \<noteq> Faulted e"
  using inv_token(1) [of F B E vma s c] by (cases "pcs s c = Faulted e") (simp_all add: resting_def)

text \<open>A state in which no step is possible is one in which every processor is up.\<close>

lemma stuck_done:
  assumes "laws F B E vma" "smp_inv F B E vma s" "\<And>s'. \<not> smp_step F B E s s'"
  shows "logical_processor_cnt s = length (ids E) \<and> (\<forall>c \<in> set (ids E). pcs s c = Idle) \<and> view Pml4Ops (smem s) (kernel_mappings s) 0 = None \<and>
    lock_free F (core_init_lock s)"
proof -
  have no: "pcs s c \<noteq> Release" "pcs s c \<noteq> Starting" "pcs s c \<noteq> Entry q p" "pcs s c \<noteq> Init p" "pcs s c \<noteq> Chain" for c q p
    using assms(3) release enter boot boot_step [OF assms(1,2)] up up_step [OF assms(1,2)] head head_last [OF assms(1,2)] head_more [OF assms(1,2)]
    by (metis not_less)+
  then have free: "lock_free F (core_init_lock s)" using invD(3) [OF assms(2)] by (simp add: lock_ok_def holder_def)
  moreover from this obtain l where "spinlock F (core_init_lock s) = Some l" by (auto simp: lock_free_def)
  ultimately have nw: "pcs s c \<noteq> Wait" "pcs s c \<noteq> Acquire i" for c i
    using assms(3) wait start start_step [OF assms(1,2)] by metis+
  have r: "pcs s c = Off \<or> pcs s c = Idle" for c using no nw inv_no_fault [OF assms(2)] by (cases "pcs s c") auto
  obtain t where "phase E s t (pcs s t)" using assms(2) by (auto simp: smp_inv_def)
  then have p: "phase E s t Idle" using r [of t] by auto
  then have "pcs s c = Idle" if "c \<in> set (ids E)" for c using r [of c] that by (auto simp: started_def)
  then show ?thesis using p free by simp
qed

lemma run_inv: "laws F B E vma \<Longrightarrow> smp_inv F B E vma s \<Longrightarrow> (smp_step F B E)\<^sup>*\<^sup>* s s' \<Longrightarrow> smp_inv F B E vma s'"
  by (rotate_tac 2, induction rule: rtranclp_induct) (auto dest: step_good simp: good_step_def)

lemma run_work: "laws F B E vma \<Longrightarrow> smp_inv F B E vma s \<Longrightarrow> (smp_step F B E ^^ n) s s' \<Longrightarrow> n + work E s' \<le> work E s"
proof (induction n arbitrary: s')
  case (Suc n)
  then obtain x where x: "(smp_step F B E ^^ n) s x" "smp_step F B E x s'" by auto
  then have "smp_inv F B E vma x" using run_inv Suc.prems(1,2) by (metis relpowp_imp_rtranclp)
  then have "work E s' < work E x" using step_good [OF Suc.prems(1)] x(2) by (auto simp: good_step_def)
  then show ?case using Suc.IH [OF Suc.prems(1,2) x(1)] by simp
qed simp

text \<open>Every run can be continued until no step is possible.\<close>

lemma run_ends: "laws F B E vma \<Longrightarrow> smp_inv F B E vma s \<Longrightarrow> \<exists>s'. (smp_step F B E)\<^sup>*\<^sup>* s s' \<and> (\<forall>s''. \<not> smp_step F B E s' s'')"
proof (induction "work E s" arbitrary: s rule: less_induct)
  case less
  show ?case
  proof (cases "\<exists>s1. smp_step F B E s s1")
    case True
    then obtain s1 where s1: "smp_step F B E s s1" by blast
    then obtain s' where "(smp_step F B E)\<^sup>*\<^sup>* s1 s'" "\<forall>s''. \<not> smp_step F B E s' s''"
      using less step_good [OF less.prems s1] by (auto simp: good_step_def)
    then show ?thesis using s1 by (meson converse_rtranclp_into_rtranclp)
  qed blast
qed

text \<open>The state \<^verbatim>\<open>boot_aps\<close> leaves has the invariant.\<close>

lemma boot_aps_runs:
  assumes "fayt_laws F" "mem_ok F vma s" "pmm_room F (modules (smem s)) (levels Pml4Ops)"
  shows "\<exists>s0. boot_aps F E raw b s = Ret s0 \<and> mem_ok F vma s0 \<and> (\<forall>i \<le> length (ids E). locales s0 (local_at E i) = Some raw) \<and>
    devs s0 = devs s \<and> pcs s0 = (pcs s)(b := Chain) \<and> logical_processor_cnt s0 = logical_processor_cnt s \<and> core_init_lock s0 = core_init_lock s"
proof -
  have room: "pmm_room F (modules (smem s)) (levels Pml4Ops + 0)" using assms(3) by simp
  have fl: "map_flags 0x83" "huge 0x83" by (simp_all add: map_flags_def present_def huge_def)
  obtain pt m where m: "map_page F (smem s) (kernel_mappings s) 0 0 0x83 = Ret (None, pt, m)" "pmm_inv F m" "pt_ok F Pml4Ops m pt" "HIGH_VMA m = vma"
    using map_page_huge [OF assms(1) memD(1) [OF assms(2)] room memD(2) [OF assms(2)] fl, of 0 0] memD(3) [OF assms(2)] by auto
  then show ?thesis by (simp add: boot_aps_def mem_ok_def)
qed

lemma boot_aps_inv:
  assumes "laws F B E vma" "mem_ok F vma s" "pmm_room F (modules (smem s)) (levels Pml4Ops)" "lock_free F (core_init_lock s)"
    and "\<forall>c. own_id B vma (devs s c) = ucast c" "pcs s = (\<lambda>_. Off)" "logical_processor_cnt s = 0" "b = ids E ! 0"
  shows "\<exists>s0. boot_aps F E raw b s = Ret s0 \<and> smp_inv F B E vma s0 \<and> work E s0 = 9 * length (ids E) - 4"
proof -
  note L = lawsD [OF assms(1)]
  obtain s0 where s0: "boot_aps F E raw b s = Ret s0" "mem_ok F vma s0" "\<forall>i \<le> length (ids E). locales s0 (local_at E i) = Some raw"
    "devs s0 = devs s" "pcs s0 = (\<lambda>_. Off)(b := Chain)" "logical_processor_cnt s0 = 0" "core_init_lock s0 = core_init_lock s"
    using boot_aps_runs [OF L(1) assms(2,3), of E raw b] assms(6,7) by auto
  have b: "b \<in> set (ids E)" using env_pos [OF L(4)] assms(8) by simp
  have take1: "take 1 (ids E) = [b]" using env_pos [OF L(4)] assms(8) by (simp add: take_Suc_conv_app_nth)
  have "phase E s0 b Chain" using take1 s0(5,6) assms(8) by (auto simp: started_def)
  moreover have "blocks_ok E s0" using s0(3,6) by (simp add: blocks_ok_def)
  moreover have "lock_ok F s0" using assms(4) s0(5,7) by (simp add: lock_ok_def holder_def)
  ultimately have "smp_inv F B E vma s0" using s0(2,4-6) assms(5) by (auto simp: smp_inv_def resting_def intro!: exI [of _ b])
  moreover have "card (set (ids E)) = length (ids E)" using L(4) by (simp add: env_ok_def distinct_card)
  then have "work E s0 = 9 * length (ids E) - 4"
    using sum_weight_upd [OF b, of "\<lambda>_. Off" Chain] s0(5,6) env_pos [OF L(4)] by (simp add: work_def)
  ultimately show ?thesis using s0(1) by blast
qed

section \<open>Properties\<close>

text \<open>
  C16. Start-up is free of races: when the boot processor is the first of the table, identifiers are
  distinct and the kernel's tables have four levels, then in every interleaving of the cores a core that enters
  \<^verbatim>\<open>core_bootstrap\<close> has been given its own local block and the stack recorded there, although all cores are started
  through the same parameter page; never are two cores inside the section the lock protects, and no core runs into an error.
\<close>

theorem smp_start_safe:
  assumes "laws F B E vma" "mem_ok F vma s" "pmm_room F (modules (smem s)) (levels Pml4Ops)" "lock_free F (core_init_lock s)"
    and "\<forall>c. own_id B vma (devs s c) = ucast c" "pcs s = (\<lambda>_. Off)" "logical_processor_cnt s = 0" "b = ids E ! 0"
    and "boot_aps F E raw b s = Ret s0" "(smp_step F B E)\<^sup>*\<^sup>* s0 s'"
  shows "(\<forall>c q p. pcs s' c = Entry q p \<longrightarrow> (\<exists>i < length (ids E). \<exists>L. ids E ! i = c \<and> p = local_at E i \<and> locales s' p = Some L \<and>
      start_stack L = q \<and> start_apic_id L = ucast c)) \<and>
    (\<forall>c c'. holder (pcs s' c) \<longrightarrow> holder (pcs s' c') \<longrightarrow> c = c') \<and> (\<forall>c e. pcs s' c \<noteq> Faulted e) \<and> pmm_inv F (smem s')"
proof -
  have inv: "smp_inv F B E vma s'" using boot_aps_inv [OF assms(1-8), of raw] run_inv [OF assms(1) _ assms(10)] assms(9) by auto
  have "\<exists>i < length (ids E). \<exists>L. ids E ! i = c \<and> p = local_at E i \<and> locales s' p = Some L \<and> start_stack L = q \<and> start_apic_id L = ucast c"
    if e: "pcs s' c = Entry q p" for c q p
  proof -
    have "phase E s' c (Entry q p)" using inv_token(1) [OF inv, of c] e by (simp add: resting_def)
    then show ?thesis by (auto simp: Let_def block_ready_def)
  qed
  then show ?thesis using invD(3) [OF inv] memD(1) [OF invD(1) [OF inv]] inv_no_fault [OF inv] unfolding lock_ok_def by blast
qed

text \<open>
  C15. Start-up completes: under the same conditions no interleaving is longer than nine steps per
  processor, and one that cannot go on has every processor of the table idle, counted, with a local
  block of its own, the low memory unmapped again and the lock free.
\<close>

theorem smp_start_completes:
  assumes "laws F B E vma" "mem_ok F vma s" "pmm_room F (modules (smem s)) (levels Pml4Ops)" "lock_free F (core_init_lock s)"
    and "\<forall>c. own_id B vma (devs s c) = ucast c" "pcs s = (\<lambda>_. Off)" "logical_processor_cnt s = 0" "b = ids E ! 0"
  shows "\<exists>s0. boot_aps F E raw b s = Ret s0 \<and> (\<forall>n s'. (smp_step F B E ^^ n) s0 s' \<longrightarrow> n \<le> 9 * length (ids E)) \<and>
    (\<forall>s'. (smp_step F B E)\<^sup>*\<^sup>* s0 s' \<longrightarrow> (\<forall>s''. \<not> smp_step F B E s' s'') \<longrightarrow>
      logical_processor_cnt s' = length (ids E) \<and> view Pml4Ops (smem s') (kernel_mappings s') 0 = None \<and>
      lock_free F (core_init_lock s') \<and>
      (\<forall>i < length (ids E). pcs s' (ids E ! i) = Idle \<and>
        (\<exists>L. locales s' (local_at E i) = Some L \<and> start_apic_id L = ucast (ids E ! i) \<and> fpu_context_size L = 512)))"
proof -
  obtain s0 where s0: "boot_aps F E raw b s = Ret s0" "smp_inv F B E vma s0" "work E s0 = 9 * length (ids E) - 4"
    using boot_aps_inv [OF assms, of raw] by blast
  have "n \<le> 9 * length (ids E)" if "(smp_step F B E ^^ n) s0 s'" for n s'
    using run_work [OF assms(1) s0(2) that] s0(3) by simp
  moreover have "logical_processor_cnt s' = length (ids E) \<and> view Pml4Ops (smem s') (kernel_mappings s') 0 = None \<and>
      lock_free F (core_init_lock s') \<and>
      (\<forall>i < length (ids E). pcs s' (ids E ! i) = Idle \<and>
        (\<exists>L. locales s' (local_at E i) = Some L \<and> start_apic_id L = ucast (ids E ! i) \<and> fpu_context_size L = 512))"
    if "(smp_step F B E)\<^sup>*\<^sup>* s0 s'" "\<forall>s''. \<not> smp_step F B E s' s''" for s'
  proof -
    note inv = run_inv [OF assms(1) s0(2) that(1)]
    show ?thesis using stuck_done [OF assms(1) inv] that(2) invD(2) [OF inv] by (simp add: blocks_ok_def)
  qed
  ultimately show ?thesis using s0(1) by blast
qed

text \<open>Two processors with identifiers 0 and 1 and a timer that advances while one waits.\<close>

definition demo_cores :: "(u8 \<times> u64) bus" where
  "demo_cores = \<lparr>mmio_write32 = (\<lambda>_ _ d. d), mmio_read32 = (\<lambda>a d. if a = 0xffff8000fee00020 then push_bit 24 (ucast (fst d)) else 0),
     mmio_write64 = (\<lambda>_ _ d. d), mmio_read64 = (\<lambda>a d. if a = 0xf0 then snd d else 0x5f5e10000000000), outb = (\<lambda>_ _ d. d), inb = (\<lambda>_ _. 0),
     msr_read = (\<lambda>_ _. (0xfee00900, 0)), msr_write = (\<lambda>_ _ d. d), cr_read = (\<lambda>_ _. 0), cr_write = (\<lambda>_ _ d. d),
     pause = (\<lambda>d. if snd d = - 1 then d else (fst d, snd d + 1))\<rparr>"

definition demo_env :: "u8 list \<Rightarrow> smp_env" where
  "demo_env is = \<lparr>madt_ent0s = map (\<lambda>i. \<lparr>acpi_id0 = i, apic_id0 = i, flags0 = 1\<rparr>) is, bootstrap_addr = 0xffffffff80002000, locales_addr = 0x9000,
     sizeof_cpu_local = 0x60, idtr_addr = (\<lambda>_. 0xa000), leaf_7_rcx = 0, syscall_addr = 0xffffffff80001000, hpet_addr = 0,
     raw_gdt = undefined, raw_tss = \<lparr>rsp0 = 0, rsp1 = 0, rsp2 = 0\<rparr>, tss_addr_of = (\<lambda>_. 0xb000)\<rparr>"

definition demo_smp :: "(bool, u8 \<times> u64) smp" where
  "demo_smp = \<lparr>smem = demo 4096, kernel_mappings = demo_pt Pml4Ops, core_init_lock = False, logical_processor_cnt = 0, locales = Map.empty,
     parameters = [], gdts = Map.empty, devs = (\<lambda>c. (c, 0)), pcs = (\<lambda>_. Off)\<rparr>"

definition demo_local :: start_local where
  "demo_local = \<lparr>start_stack = 0, start_apic_id = 0, fpu_context_size = 0\<rparr>"

lemma demo_own_id: "own_id demo_cores 0xffff800000000000 d = ucast (fst d)"
proof -
  have "drop_bit 24 (push_bit 24 (ucast x :: u32)) = ucast x" for x :: u8
    by (rule bit_word_eqI) (auto simp: bit_simps dest: bit_imp_le_length)
  then show ?thesis by (simp add: own_id_def xapic_read_def lapic_base_def rdmsr_def demo_cores_def)
qed

lemma demo_ids [simp]: "ids (demo_env is) = is"
  by (simp add: ids_def demo_env_def comp_def)

lemma demo_local_inj: "length is < 256 \<Longrightarrow> inj_on (local_at (demo_env is)) {..length is}"
proof (rule inj_onI)
  fix i j assume l: "length is < 256" "i \<in> {..length is}" "j \<in> {..length is}" and e: "local_at (demo_env is) i = local_at (demo_env is) j"
  have "unat (of_nat k * 0x60 :: u64) = k * 0x60" if "k \<le> length is" for k using that l(1) by (subst unat_mult_exact) simp_all
  moreover have "(of_nat i * 0x60 :: u64) = of_nat j * 0x60" using e by (simp add: local_at_def demo_env_def)
  ultimately have "i * 0x60 = j * 0x60" using l(2,3) by (metis atMost_iff)
  then show "i = j" by simp
qed

lemma demo_smp_laws:
  assumes "is \<noteq> []" "distinct is" "length is < 256"
  shows "laws fayt_ref demo_cores (demo_env is) 0xffff800000000000" "mem_ok fayt_ref 0xffff800000000000 demo_smp"
    "pmm_room fayt_ref (modules (smem demo_smp)) (levels Pml4Ops)" "lock_free fayt_ref (core_init_lock demo_smp)"
    "\<forall>c. own_id demo_cores 0xffff800000000000 (devs demo_smp c) = ucast c" "pcs demo_smp = (\<lambda>_. Off)" "logical_processor_cnt demo_smp = 0"
proof -
  have "id_law demo_cores 0xffff800000000000" by (simp add: id_law_def demo_own_id) (simp add: demo_cores_def)
  moreover have "d < d + 1" if "d \<noteq> - 1" for d :: u64
    using that unat_plus_one_less [of d "- 1"] by (simp add: word_less_nat_alt word_order.not_eq_extremum)
  then have "timer_law demo_cores 0"
    by (simp add: timer_law_def counter_runs_def counter_value_def capabilities_def demo_cores_def)
  ultimately show "laws fayt_ref demo_cores (demo_env is) 0xffff800000000000"
    using assms demo_local_inj [OF assms(3)] fayt_laws_ref by (simp add: laws_def env_ok_def) (simp add: demo_env_def)
  show "mem_ok fayt_ref 0xffff800000000000 demo_smp" using demo_ready(1) demo_ready(2) [of Pml4Ops] by (simp add: mem_ok_def demo_smp_def demo_def)
  show "pmm_room fayt_ref (modules (smem demo_smp)) (levels Pml4Ops)" using demo_ready(3) [of 3] by (simp add: demo_smp_def)
  show "\<forall>c. own_id demo_cores 0xffff800000000000 (devs demo_smp c) = ucast c" by (simp add: demo_own_id demo_smp_def)
qed (simp_all add: demo_smp_def lock_free_def fayt_ref_def)

lemma demo_smp_ends:
  "\<exists>s0 s'. boot_aps fayt_ref (demo_env [0, 1]) demo_local 0 demo_smp = Ret s0 \<and>
     (smp_step fayt_ref demo_cores (demo_env [0, 1]))\<^sup>*\<^sup>* s0 s' \<and> (\<forall>s''. \<not> smp_step fayt_ref demo_cores (demo_env [0, 1]) s' s'')"
proof -
  have d: "[0, 1 :: u8] \<noteq> []" "distinct [0, 1 :: u8]" "length [0, 1 :: u8] < 256" "(0 :: u8) = ids (demo_env [0, 1]) ! 0" by simp_all
  show ?thesis using boot_aps_inv [OF demo_smp_laws [OF d(1-3)] d(4), of demo_local] run_ends [OF demo_smp_laws(1) [OF d(1-3)]] by blast
qed

theorem smp_start_completes_witness:
  "\<exists>s0 s'. boot_aps fayt_ref (demo_env [0, 1]) demo_local 0 demo_smp = Ret s0 \<and>
    (smp_step fayt_ref demo_cores (demo_env [0, 1]))\<^sup>*\<^sup>* s0 s' \<and> logical_processor_cnt s' = 2 \<and> pcs s' 1 = Idle \<and>
    lock_free fayt_ref (core_init_lock s')"
proof -
  have d: "[0, 1 :: u8] \<noteq> []" "distinct [0, 1 :: u8]" "length [0, 1 :: u8] < 256" "(0 :: u8) = ids (demo_env [0, 1]) ! 0" by simp_all
  obtain s0 s' where s: "boot_aps fayt_ref (demo_env [0, 1]) demo_local 0 demo_smp = Ret s0"
    "(smp_step fayt_ref demo_cores (demo_env [0, 1]))\<^sup>*\<^sup>* s0 s'" "\<forall>s''. \<not> smp_step fayt_ref demo_cores (demo_env [0, 1]) s' s''"
    using demo_smp_ends by blast
  have "logical_processor_cnt s' = length (ids (demo_env [0, 1]))" "lock_free fayt_ref (core_init_lock s')"
    "\<forall>i < length (ids (demo_env [0, 1])). pcs s' (ids (demo_env [0, 1]) ! i) = Idle"
    using smp_start_completes [OF demo_smp_laws [OF d(1-3)] d(4), of demo_local] s by auto
  then have "logical_processor_cnt s' = 2" "pcs s' 1 = Idle" "lock_free fayt_ref (core_init_lock s')" by (auto dest: spec [of _ 1])
  then show ?thesis using s(1,2) by blast
qed

theorem smp_start_safe_witness:
  "\<exists>s0 s'. boot_aps fayt_ref (demo_env [0, 1]) demo_local 0 demo_smp = Ret s0 \<and>
     (smp_step fayt_ref demo_cores (demo_env [0, 1]))\<^sup>*\<^sup>* s0 s' \<and> (\<forall>s''. \<not> smp_step fayt_ref demo_cores (demo_env [0, 1]) s' s'') \<and>
     (\<forall>c e. pcs s' c \<noteq> Faulted e) \<and> pmm_inv fayt_ref (smem s')"
proof -
  have d: "[0, 1 :: u8] \<noteq> []" "distinct [0, 1 :: u8]" "length [0, 1 :: u8] < 256" "(0 :: u8) = ids (demo_env [0, 1]) ! 0" by simp_all
  obtain s0 s' where s: "boot_aps fayt_ref (demo_env [0, 1]) demo_local 0 demo_smp = Ret s0"
    "(smp_step fayt_ref demo_cores (demo_env [0, 1]))\<^sup>*\<^sup>* s0 s'" "\<forall>s''. \<not> smp_step fayt_ref demo_cores (demo_env [0, 1]) s' s''"
    using demo_smp_ends by blast
  then show ?thesis using smp_start_safe [OF demo_smp_laws [OF d(1-3)] d(4) s(1,2)] by blast
qed

section \<open>A boot processor that is not the first\<close>

lemma chain_head_other:
  assumes "fayt_laws F" "mem_ok F vma s" "i = logical_processor_cnt s" "i < length (ids E)" "locales s (local_at E i) = Some b0"
    and "own_id B vma (devs s c) = ucast c" "ids E ! i \<noteq> c"
  shows "\<exists>m L. chain_head F B E c s = Ret (Acquire i, s\<lparr>smem := m, locales := (locales s)(local_at E i \<mapsto> L)\<rparr>) \<and> mem_ok F vma (s\<lparr>smem := m\<rparr>)"
proof -
  obtain a m where m: "pmm_alloc F (smem s) 4 1 = Ret (a, m)" "pmm_inv F m" "pt_ok F Pml4Ops m (kernel_mappings s)" "HIGH_VMA m = HIGH_VMA (smem s)"
    using alloc_keeps_tables [OF assms(1) memD(1,2) [OF assms(2)], of 4] by auto
  have "ucast (ids E ! i) \<noteq> drop_bit 24 (xapic_read B (HIGH_VMA (smem s)) 0x20 (devs s c))"
    using assms(6,7) memD(3) [OF assms(2)] by (simp add: own_id_def inj_eq [OF ucast_id_inj])
  then have "chain_head F B E c s = Ret (Acquire i, s\<lparr>smem := m, locales := (locales s)(local_at E i \<mapsto>
      b0\<lparr>start_stack := a + HIGH_VMA m + 0x4000, start_apic_id := ucast (ids E ! i)\<rparr>)\<rparr>)"
    using m(1) assms(3-5) nth_ids [OF assms(4)] by (simp add: chain_head_def Let_def)
  moreover have "mem_ok F vma (s\<lparr>smem := m\<rparr>)" using m assms(2) by (simp add: mem_ok_def)
  ultimately show ?thesis by blast
qed

lemma chain_start_runs:
  assumes "spinlock F (core_init_lock s) = Some l" "locales s (local_at E i) = Some L" "i < length (ids E)"
  shows "chain_start F B E c i s = Ret (set_pc (ids E ! i) Starting (set_pc c Wait
    (set_dev c (send_start B (HIGH_VMA (smem s)) (ids E ! i) (devs s c)) (s\<lparr>core_init_lock := l, parameters := start_parameters E c i L s\<rparr>))))"
  using assms nth_ids [OF assms(3)] by (simp add: chain_start_def Let_def start_parameters_def)

text \<open>Two processors, of which the second is the boot processor: it starts the first and waits, and the first comes up.\<close>

lemma first_core_up:
  assumes "laws F B E vma" "mem_ok F vma s" "pmm_room F (modules (smem s)) (levels Pml4Ops)" "lock_free F (core_init_lock s)"
    and "\<forall>c. own_id B vma (devs s c) = ucast c" "pcs s = (\<lambda>_. Off)" "logical_processor_cnt s = 0" "ids E = [a, b]"
  shows "\<exists>s0 s7. boot_aps F E raw b s = Ret s0 \<and> (smp_step F B E)\<^sup>*\<^sup>* s0 s7 \<and> mem_ok F vma s7 \<and> pcs s7 = (\<lambda>_. Off)(b := Wait, a := Chain) \<and>
    locales s7 (local_at E 1) = Some raw \<and> logical_processor_cnt s7 = 1 \<and> (\<forall>c. own_id B vma (devs s7 c) = ucast c) \<and> lock_free F (core_init_lock s7)"
proof -
  note L = lawsD [OF assms(1)]
  have ab: "a \<noteq> b" using L(4) assms(8) by (simp add: env_ok_def)
  have loc: "local_at E 0 \<noteq> local_at E 1" using local_at_eq [OF L(4), of 0 1] assms(8) by simp
  obtain s0 where s0: "boot_aps F E raw b s = Ret s0" "mem_ok F vma s0" "locales s0 (local_at E 0) = Some raw" "locales s0 (local_at E 1) = Some raw"
    "devs s0 = devs s" "pcs s0 = (\<lambda>_. Off)(b := Chain)" "logical_processor_cnt s0 = 0" "core_init_lock s0 = core_init_lock s"
    using boot_aps_runs [OF L(1) assms(2,3), of E raw b] assms(6,7,8) by auto
  obtain m L1 where 1: "chain_head F B E b s0 = Ret (Acquire 0, s0\<lparr>smem := m, locales := (locales s0)(local_at E 0 \<mapsto> L1)\<rparr>)"
      "mem_ok F vma (s0\<lparr>smem := m\<rparr>)"
    using chain_head_other [OF L(1) s0(2), of 0 E raw B b] s0 assms(5,8) ab by auto
  let ?s1 = "set_pc b (Acquire 0) (s0\<lparr>smem := m, locales := (locales s0)(local_at E 0 \<mapsto> L1)\<rparr>)"
  have e1: "smp_step F B E s0 ?s1" by (rule head [OF _ 1(1)]) (simp add: s0)
  obtain l where l: "spinlock F (core_init_lock s) = Some l" using assms(4) by (auto simp: lock_free_def)
  have "chain_start F B E b 0 ?s1 = Ret (set_pc a Starting (set_pc b Wait
      (set_dev b (send_start B (HIGH_VMA m) a (devs s b)) (?s1\<lparr>core_init_lock := l, parameters := start_parameters E b 0 L1 ?s1\<rparr>))))"
    using chain_start_runs [of F ?s1 l E 0 L1 B b] l assms(8) s0 by simp
  then obtain s2 where e2: "smp_step F B E ?s1 s2" and 2: "mem_ok F vma s2" "locales s2 = (locales s0)(local_at E 0 \<mapsto> L1)"
      "\<forall>c. own_id B vma (devs s2 c) = ucast c" "pcs s2 = (\<lambda>_. Off)(b := Wait, a := Starting)" "logical_processor_cnt s2 = 0"
      "parameters s2 ! 3 = local_at E 0"
    using start [of ?s1 b 0 F B E] 1(2) L(2) s0 assms(5) by (fastforce simp: mem_ok_def start_parameters_def fun_upd_twist)
  let ?s3 = "set_pc a (Entry (parameters s2 ! 0) (local_at E 0)) s2"
  have e3: "smp_step F B E s2 ?s3" using enter [of s2 a F B E] 2(4,6) by simp
  have "mem_ok F vma ?s3" using 2(1) by simp
  from bootstrap_head_runs [OF L(1,2) this, of E a] obtain s4 where 4: "bootstrap_head F B E a ?s3 = Ret s4" "mem_ok F vma s4" "locales s4 = locales s2"
      "pcs s4 = (pcs s2)(a := Entry (parameters s2 ! 0) (local_at E 0))" "logical_processor_cnt s4 = 0"
      "\<forall>c. own_id B vma (devs s4 c) = ucast c" "lock_free F (core_init_lock s4)"
    using 2(3,5) L(1) by auto
  let ?s5 = "set_pc a (Init (local_at E 0)) s4"
  have e4: "smp_step F B E ?s3 ?s5" by (rule boot [OF _ 4(1)]) simp
  have "locales ?s5 (local_at E 0) = Some L1" using 4(3) 2(2) by simp
  from bootstrap_tail_runs [OF L(2,3) this, of a] obtain s6 where 6: "bootstrap_tail B E a (local_at E 0) ?s5 = Ret s6" "mem_ok F vma s6"
      "locales s6 (local_at E 1) = Some raw" "pcs s6 = pcs ?s5" "logical_processor_cnt s6 = 1"
      "\<forall>c. own_id B vma (devs s6 c) = ucast c" "lock_free F (core_init_lock s6)"
    using 4 2(2) s0(4) loc by (auto simp: mem_ok_def)
  let ?s7 = "set_pc a Chain s6"
  have e6: "smp_step F B E ?s5 ?s7" by (rule up [OF _ 6(1)]) simp
  have "(smp_step F B E)\<^sup>*\<^sup>* s0 ?s7"
    using e1 e2 e3 e4 e6 by (meson converse_rtranclp_into_rtranclp rtranclp.rtrancl_refl)
  moreover have "pcs ?s7 = (\<lambda>_. Off)(b := Wait, a := Chain)" using 6(4) 4(4) 2(4) by simp
  ultimately show ?thesis using s0(1) 6 by (intro exI [of _ s0] exI [of _ ?s7]) simp
qed

text \<open>
  When the boot processor is not the first of the table, it is reset: with two processors of which the
  second is the boot processor, there is a run in which the boot processor starts the other one and
  that one sends the boot processor the start-up interrupts while it waits.
\<close>

theorem smp_resets_boot_processor:
  assumes "laws F B E vma" "mem_ok F vma s" "pmm_room F (modules (smem s)) (levels Pml4Ops)" "lock_free F (core_init_lock s)"
    and "\<forall>c. own_id B vma (devs s c) = ucast c" "pcs s = (\<lambda>_. Off)" "logical_processor_cnt s = 0" "ids E = [a, b]"
  shows "\<exists>s0 s1 s2. boot_aps F E raw b s = Ret s0 \<and> (smp_step F B E)\<^sup>*\<^sup>* s0 s1 \<and> pcs s1 b = Wait \<and> smp_step F B E s1 s2 \<and> pcs s2 b = Starting"
proof -
  note L = lawsD [OF assms(1)]
  have ab: "a \<noteq> b" using L(4) assms(8) by (simp add: env_ok_def)
  obtain s0 s7 where 7: "boot_aps F E raw b s = Ret s0" "(smp_step F B E)\<^sup>*\<^sup>* s0 s7" "mem_ok F vma s7" "pcs s7 = (\<lambda>_. Off)(b := Wait, a := Chain)"
    "locales s7 (local_at E 1) = Some raw" "logical_processor_cnt s7 = 1" "\<forall>c. own_id B vma (devs s7 c) = ucast c" "lock_free F (core_init_lock s7)"
    using first_core_up [OF assms] by blast
  obtain m8 L8 where h: "chain_head F B E a s7 = Ret (Acquire 1, s7\<lparr>smem := m8, locales := (locales s7)(local_at E 1 \<mapsto> L8)\<rparr>)"
    using chain_head_other [OF L(1) 7(3), of 1 E raw B a] 7 assms(8) ab by auto
  let ?s8 = "set_pc a (Acquire 1) (s7\<lparr>smem := m8, locales := (locales s7)(local_at E 1 \<mapsto> L8)\<rparr>)"
  have e: "smp_step F B E s7 ?s8" by (rule head [OF _ h]) (simp add: 7(4))
  obtain l8 where l8: "spinlock F (core_init_lock s7) = Some l8" using 7(8) by (auto simp: lock_free_def)
  have "\<exists>s9. chain_start F B E a 1 ?s8 = Ret s9 \<and> pcs s9 b = Starting"
    using chain_start_runs [of F ?s8 l8 E 1 L8 B a] l8 assms(8) by simp
  then obtain s9 where "smp_step F B E ?s8 s9" "pcs s9 b = Starting" using start [of ?s8 a 1 F B E] by auto
  moreover have "(smp_step F B E)\<^sup>*\<^sup>* s0 ?s8" using 7(2) e by (rule rtranclp.rtrancl_into_rtrancl)
  moreover have "pcs ?s8 b = Wait" using 7(4) ab by simp
  ultimately show ?thesis using 7(1) by blast
qed

theorem smp_resets_boot_processor_witness:
  "\<exists>s0 s1 s2. boot_aps fayt_ref (demo_env [1, 0]) demo_local 0 demo_smp = Ret s0 \<and> (smp_step fayt_ref demo_cores (demo_env [1, 0]))\<^sup>*\<^sup>* s0 s1 \<and>
     pcs s1 0 = Wait \<and> smp_step fayt_ref demo_cores (demo_env [1, 0]) s1 s2 \<and> pcs s2 0 = Starting"
  using smp_resets_boot_processor [OF demo_smp_laws [of "[1, 0]"], of 1 0 demo_local] by simp

end
