(* ===== verification/Boot.thy ===== *)
theory Boot
  imports Pmm_Init Smp
begin

unbundle bit_operations_syntax

text \<open>
  The boot sequence, \<^verbatim>\<open>kernel/main.c\<close> with \<^verbatim>\<open>vmm_init\<close> and \<^verbatim>\<open>x86_system_tables\<close>: the initialisers of the other
  theories in the order the kernel calls them, on one state. The boot loader's answers are parameters, as is
  \<^verbatim>\<open>slab_cache_create\<close>, which gets its pages from \<open>spalloc\<close>.
\<close>

section \<open>Memory\<close>

text \<open>\<^verbatim>\<open>pmm_init\<close> clips and carves the entries of the memory map in place; this is the map it leaves.\<close>

definition boot_map :: "'l fayt \<Rightarrow> u64 \<Rightarrow> u64 \<Rightarrow> limine_memmap_entry list \<Rightarrow> limine_memmap_entry list" where
  "boot_map F module_size vma mmap =
     (let (buffer_size, mmap) = pmm_init_size F module_size mmap 0 in snd (pmm_init_carve F vma buffer_size mmap))"

definition vmm_init ::
  "'l fayt \<Rightarrow> 'd bus \<Rightarrow> boot_info \<Rightarrow> 'l page_table \<Rightarrow> 'l kstate \<Rightarrow> 'd \<Rightarrow> ('l page_table \<times> 'l kstate \<times> 'd) outcome" where
  "vmm_init F B bi raw s d =
     obind (vmm_default_table F bi s raw) (\<lambda>(pt, s). Ret (pt, s, cr_write B 3 (pmlt pt - HIGH_VMA s) d))"

text \<open>The page allocator of the slab caches.\<close>

definition spalloc :: "'l fayt \<Rightarrow> 'l kstate \<Rightarrow> u64 \<Rightarrow> (ptr \<times> 'l kstate) outcome" where
  "spalloc F s n = obind (pmm_alloc F s n 1) (\<lambda>(a, s). Ret (a + HIGH_VMA s, s))"

definition spfree :: "'l fayt \<Rightarrow> 'l kstate \<Rightarrow> ptr \<Rightarrow> u64 \<Rightarrow> 'l kstate outcome" where
  "spfree F s addr n = pmm_free F s (addr - HIGH_VMA s) n"

type_synonym 'l slab_create = "('l kstate \<Rightarrow> u64 \<Rightarrow> (ptr \<times> 'l kstate) outcome) \<Rightarrow> string \<Rightarrow> u64 \<Rightarrow> 'l kstate \<Rightarrow> 'l kstate outcome"

definition slab_caches :: "(string \<times> u64) list" where
  "slab_caches = [(''CACHE32'', 32), (''CACHE64'', 64), (''CACHE128'', 128), (''CACHE256'', 256), (''CACHE512'', 512), (''CACHE1024'', 1024),
     (''CACHE2048'', 2048), (''CACHE4096'', 4096), (''CACHE8192'', 8192), (''CACHE16384'', 16384), (''CACHE32768'', 32768), (''CACHE65536'', 65536)]"

fun create_caches :: "(string \<Rightarrow> u64 \<Rightarrow> 's \<Rightarrow> 's outcome) \<Rightarrow> (string \<times> u64) list \<Rightarrow> 's \<Rightarrow> 's outcome" where
  "create_caches create [] s = Ret s"
| "create_caches create ((name, sz) # caches) s = obind (create name sz s) (create_caches create caches)"

record boot_answers =
  hhdm_offset :: "u64 option"
  boot_memmap :: "limine_memmap_entry list"
  kernel_virtual_base :: u64
  kernel_physical_base :: u64
  boot_leaf_7_rcx :: u64
  boot_syscall_main :: u64
  pmm_module_size :: u64
  rsdp_addr :: ptr

definition boot_memory ::
  "'l fayt \<Rightarrow> 'd bus \<Rightarrow> 'l slab_create \<Rightarrow> (u64 \<Rightarrow> u8) \<Rightarrow> 'l page_table \<Rightarrow> boot_answers \<Rightarrow> 'l kstate \<Rightarrow> 'd \<Rightarrow>
   ('l page_table \<times> 'l kstate \<times> 'd) outcome" where
  "boot_memory F B slab_cache_create found raw A s d =
     (let s = (case hhdm_offset A of None \<Rightarrow> s | Some off \<Rightarrow> s\<lparr>HIGH_VMA := off\<rparr>);
          d = x86_system_init B (boot_syscall_main A) d;
          bi = \<lparr>virtual_base = kernel_virtual_base A, physical_base = kernel_physical_base A,
            memmap = boot_map F (pmm_module_size A) (HIGH_VMA s) (boot_memmap A), cpuid_7_rcx = boot_leaf_7_rcx A\<rparr>;
          s = pmm_init F found (pmm_module_size A) (boot_memmap A) s in
      obind (vmm_init F B bi raw s d) (\<lambda>(pt, s, d).
      obind (create_caches (slab_cache_create (spalloc F)) slab_caches s) (\<lambda>s. Ret (pt, s, d))))"

section \<open>Tables and devices\<close>

record rsdp =
  rsdp_revision :: u8
  rsdt_addr :: u32
  xsdt_addr :: u64

definition parse_rsdp :: "u8 list \<Rightarrow> rsdp" where
  "parse_rsdp bs = \<lparr>rsdp_revision = field 15 1 bs, rsdt_addr = field 16 4 bs, xsdt_addr = field 24 8 bs\<rparr>"

definition acpi_init :: "byte_mem \<Rightarrow> u64 \<Rightarrow> ptr \<Rightarrow> (acpi_roots \<times> ptr) outcome" where
  "acpi_init bm vma p =
     obind (rd bm p 36) (\<lambda>bs. let r = parse_rsdp bs;
       R = (if xsdt_addr r \<noteq> 0 then \<lparr>xsdt = xsdt_addr r + vma, rsdt = NULL\<rparr> else \<lparr>xsdt = NULL, rsdt = ucast (rsdt_addr r) + vma\<rparr>)
     in obind (acpi_find_sdt bm vma R [0x46, 0x41, 0x43, 0x50]) (\<lambda>fadt. Ret (R, fadt)))"

definition x86_system_tables ::
  "'l fayt \<Rightarrow> 'd bus \<Rightarrow> vectors \<Rightarrow> byte_mem \<Rightarrow> acpi_roots \<Rightarrow> smp_env \<Rightarrow> start_local \<Rightarrow> (nat \<Rightarrow> u64) \<Rightarrow> u64 \<Rightarrow> u8 \<Rightarrow>
   interrupts \<Rightarrow> ('l, 'd) smp \<Rightarrow> (smp_env \<times> ioapic list \<times> interrupts \<times> ('l, 'd) smp) outcome" where
  "x86_system_tables F B V bm R E raw isr reschedule_addr c I s =
     obind (gdt_init F (smem s) (raw_gdt E) (raw_tss E) (tss_addr_of E c)) (\<lambda>(g, t, m).
     let s = s\<lparr>smem := m, gdts := (gdts s)(c \<mapsto> (g, t))\<rparr>; I = idt_init isr reschedule_addr I in
     obind (hpet_init B bm (HIGH_VMA (smem s)) R (devs s c)) (\<lambda>(hp, d).
     obind (apic_init F B V bm R (smem s, kernel_mappings s, d)) (\<lambda>(l, ios, m, pt, d).
     obind (apic_timer_init B (HIGH_VMA m) hp 20 d) (\<lambda>d.
     let E = E\<lparr>madt_ent0s := madt_ent0_list l, hpet_addr := hp\<rparr>;
         s = set_dev c d (s\<lparr>smem := m, kernel_mappings := pt\<rparr>) in
     obind (boot_aps F E raw c s) (\<lambda>s. Ret (E, ios, I, s))))))"

text \<open>
  \<^verbatim>\<open>dufay_entry\<close> up to the start of the other processors. The servers are launched after that, by \<open>launch_servers\<close> of theory
  \<open>Server\<close>, while the other processors start.
\<close>

definition dufay_start ::
  "'l fayt \<Rightarrow> 'd bus \<Rightarrow> 'l slab_create \<Rightarrow> (u64 \<Rightarrow> u8) \<Rightarrow> 'l page_table \<Rightarrow> boot_answers \<Rightarrow> vectors \<Rightarrow> byte_mem \<Rightarrow> smp_env \<Rightarrow> start_local \<Rightarrow>
   (nat \<Rightarrow> u64) \<Rightarrow> u64 \<Rightarrow> u8 \<Rightarrow> interrupts \<Rightarrow> ('l, 'd) smp \<Rightarrow> (smp_env \<times> ioapic list \<times> interrupts \<times> ('l, 'd) smp) outcome" where
  "dufay_start F B slab_cache_create found raw_pt A V bm E raw isr reschedule_addr c I s =
     obind (boot_memory F B slab_cache_create found raw_pt A (smem s) (devs s c)) (\<lambda>(pt, m, d).
     let s = set_dev c d (s\<lparr>smem := m, kernel_mappings := pt\<rparr>) in
     obind (acpi_init bm (HIGH_VMA m) (rsdp_addr A)) (\<lambda>(R, fadt).
     x86_system_tables F B V bm R E raw isr reschedule_addr c I s))"

section \<open>Properties\<close>

text \<open>What creating a cache may do to the kernel's memory: get pages, and nothing else that concerns the tables.\<close>

definition cache_law :: "'l fayt \<Rightarrow> 'l slab_create \<Rightarrow> bool" where
  "cache_law F create \<longleftrightarrow> (\<forall>name sz s m pt. pmm_inv F s \<longrightarrow> pt_ok F m s pt \<longrightarrow>
     (\<exists>s'. create (spalloc F) name sz s = Ret s' \<and> pmm_inv F s' \<and> pt_ok F m s' pt \<and> HIGH_VMA s' = HIGH_VMA s \<and> view m s' pt = view m s pt))"

lemma create_caches_keeps:
  assumes "cache_law F create"
  shows "pmm_inv F s \<Longrightarrow> pt_ok F m s pt \<Longrightarrow>
    \<exists>s'. create_caches (create (spalloc F)) caches s = Ret s' \<and> pmm_inv F s' \<and> pt_ok F m s' pt \<and> HIGH_VMA s' = HIGH_VMA s \<and> view m s' pt = view m s pt"
proof (induction caches arbitrary: s)
  case (Cons c caches)
  obtain name sz where c: "c = (name, sz)" by fastforce
  obtain s1 where 1: "create (spalloc F) name sz s = Ret s1" "pmm_inv F s1" "pt_ok F m s1 pt" "HIGH_VMA s1 = HIGH_VMA s" "view m s1 pt = view m s pt"
    using assms Cons.prems unfolding cache_law_def by blast
  show ?case using Cons.IH [OF 1(2,3)] 1 c by auto
qed simp

text \<open>
  C5. The kernel boots into a sound memory: from a memory map whose usable entries are whole, disjoint
  frames clear of the 1 MiB line, with one entry that holds the allocator's metadata and one with frames
  enough for the tables, the first half of \<^verbatim>\<open>dufay_entry\<close> returns. The frame allocator then has its
  invariant; the kernel's tables lie in frames it owns; they map the low 4 GiB at \<^verbatim>\<open>HIGH_VMA\<close>; and \<^verbatim>\<open>cr3\<close> has
  been loaded with their physical address.
\<close>

theorem boot_memory_ready:
  assumes F: "fayt_laws F" and cl: "cache_law F create" and hv: "vma = (case hhdm_offset A of None \<Rightarrow> HIGH_VMA s | Some off \<Rightarrow> off)" "4096 dvd unat vma"
    and mm: "list_all Pmm_Init.entry_ok (boot_memmap A)" "list_all off_the_line (boot_memmap A)" "sorted_wrt (\<lambda>a b. region a \<inter> region b = {}) (boot_memmap A)"
    and p1: "pmm_init_size F (pmm_module_size A) (boot_memmap A) 0 = (bs, es)" and p2: "pmm_init_carve F vma bs es = (meta, fs)"
    and fit: "\<exists>e \<in> set es. usable e \<and> bs \<le> me_length e"
    and room: "f \<in> set fs" "usable f" "4096 * Suc ((0x6C00 + memmap_pages F fs) * levels m) \<le> unat (me_length f)"
    and tb: "lock_free F (pt_lock raw)" "m = x86_paging_init (boot_leaf_7_rcx A)" "4096 dvd unat (kernel_physical_base A)" "memmap_low F fs"
  shows "\<exists>pt s' d'. boot_memory F B create found raw A s d = Ret (pt, s', cr_write B 3 (pmlt pt - vma) d') \<and>
    pmm_inv F s' \<and> pt_ok F m s' pt \<and> HIGH_VMA s' = vma \<and>
    (\<forall>i < 0x800. view m s' pt (vma + of_nat i * 0x200000) = Some (of_nat i * 0x200000 OR 0x187))"
proof -
  define s0 where "s0 = (case hhdm_offset A of None \<Rightarrow> s | Some off \<Rightarrow> s\<lparr>HIGH_VMA := off\<rparr>)"
  have h0: "HIGH_VMA s0 = vma" using hv(1) by (simp add: s0_def split: option.splits)
  define s1 where "s1 = pmm_init F found (pmm_module_size A) (boot_memmap A) s0"
  have h1: "HIGH_VMA s1 = vma" by (simp add: s1_def pmm_init_def split_beta Let_def h0)
  have p2': "pmm_init_carve F (HIGH_VMA s0) bs es = (meta, fs)" using p2 h0 by simp
  have left: "\<exists>f \<in> set fs. usable f \<and> me_length f \<noteq> 0" using room by (intro bexI [of _ f]) auto
  have "4096 dvd unat (HIGH_VMA s0)" using hv(2) h0 by simp
  from pmm_init_correct [OF F this mm p1 p2' fit left, of found]
  have inv: "pmm_inv F s1" by (simp add: s1_def Let_def)
  have rm: "pmm_room F (modules s1) (Suc ((0x6C00 + memmap_pages F fs) * levels m))"
    using pmm_init_room [OF F mm p1 p2' room] by (simp add: s1_def)
  define bi where "bi = \<lparr>virtual_base = kernel_virtual_base A, physical_base = kernel_physical_base A, memmap = fs, cpuid_7_rcx = boot_leaf_7_rcx A\<rparr>"
  have bm: "boot_map F (pmm_module_size A) vma (boot_memmap A) = fs" by (simp add: boot_map_def p1 p2)
  obtain pt s2 where t: "vmm_default_table F bi s1 raw = Ret (pt, s2)" "pmm_inv F s2" "pt_ok F m s2 pt" "HIGH_VMA s2 = vma"
    "\<forall>i < 0x800. view m s2 pt (vma + of_nat i * 0x200000) = Some (of_nat i * 0x200000 OR 0x187)"
    using vmm_default_table_ready [OF F inv tb(1), of bi m] rm tb h1 by (auto simp: bi_def)
  obtain s3 where c: "create_caches (create (spalloc F)) slab_caches s2 = Ret s3" "pmm_inv F s3" "pt_ok F m s3 pt" "HIGH_VMA s3 = vma" "view m s3 pt = view m s2 pt"
    using create_caches_keeps [OF cl t(2,3)] t(4) by auto
  have "boot_memory F B create found raw A s d = Ret (pt, s3, cr_write B 3 (pmlt pt - vma) (x86_system_init B (boot_syscall_main A) d))"
    unfolding boot_memory_def s0_def [symmetric] Let_def h0 bm bi_def [symmetric] s1_def [symmetric]
    using t(1,4) c(1) by (simp add: vmm_init_def)
  moreover have "\<forall>i < 0x800. view m s3 pt (vma + of_nat i * 0x200000) = Some (of_nat i * 0x200000 OR 0x187)"
    using t(5) c(5) by simp
  ultimately show ?thesis using c(2-4) by blast
qed

definition demo_answers :: boot_answers where
  "demo_answers = \<lparr>hhdm_offset = Some 0xffff800000000000, boot_memmap = [\<lparr>me_base = 0x100000, me_length = 0x40000000, me_type = 0\<rparr>],
     kernel_virtual_base = 0xffffffff80000000, kernel_physical_base = 0x2000000, boot_leaf_7_rcx = 0, boot_syscall_main = 0xffffffff80001000,
     pmm_module_size = 64, rsdp_addr = 0xffff8000000e0000\<rparr>"

text \<open>A cache that takes one page.\<close>

definition demo_create :: "bool slab_create" where
  "demo_create al name sz s = obind (al s 1) (\<lambda>(_, s). Ret s)"

lemma demo_cache_law: "cache_law fayt_ref demo_create"
  unfolding cache_law_def
proof (intro allI impI)
  fix s m pt assume "pmm_inv fayt_ref s" "pt_ok fayt_ref m s pt"
  from alloc_keeps_tables [OF fayt_laws_ref this, of 1]
  show "\<exists>s'. demo_create (spalloc fayt_ref) name sz s = Ret s' \<and> pmm_inv fayt_ref s' \<and> pt_ok fayt_ref m s' pt \<and> HIGH_VMA s' = HIGH_VMA s \<and>
    view m s' pt = view m s pt" for name sz
    by (auto simp: demo_create_def spalloc_def)
qed

theorem boot_memory_ready_witness:
  "\<exists>pt s' d'. boot_memory fayt_ref demo_cores demo_create (\<lambda>_. 0xff) (demo_pt Pml4Ops) demo_answers (demo 64) (0, 0) = Ret (pt, s', d') \<and>
     pmm_inv fayt_ref s' \<and> view Pml4Ops s' pt 0xffff800000600000 = Some 0x600187"
proof -
  let ?f = "\<lparr>me_base = 0x109000, me_length = 0x3fff7000, me_type = 0\<rparr>"
  have p1: "pmm_init_size fayt_ref (pmm_module_size demo_answers) (boot_memmap demo_answers) 0 = (32896, boot_memmap demo_answers)"
    by (simp add: demo_answers_def entry_meta_def clip_entry_def LIMINE_MEMMAP_USABLE_def fayt_ref_def)
  have p2: "pmm_init_carve fayt_ref 0xffff800000000000 32896 (boot_memmap demo_answers) = (0xffff800000100000, [?f])"
    by (simp add: demo_answers_def carve_entry_def LIMINE_MEMMAP_USABLE_def fayt_ref_def)
  have mm: "list_all Pmm_Init.entry_ok (boot_memmap demo_answers)" "list_all off_the_line (boot_memmap demo_answers)"
    "sorted_wrt (\<lambda>a b. region a \<inter> region b = {}) (boot_memmap demo_answers)"
    "\<exists>e \<in> set (boot_memmap demo_answers). usable e \<and> 32896 \<le> me_length e"
    by (simp_all add: demo_answers_def Pmm_Init.entry_ok_def off_the_line_def LIMINE_MEMMAP_USABLE_def)
  have a: "hhdm_offset demo_answers = Some 0xffff800000000000" "boot_leaf_7_rcx demo_answers = 0" "kernel_physical_base demo_answers = 0x2000000"
    by (simp_all add: demo_answers_def)
  have n: "memmap_pages fayt_ref [?f] = 512" by (simp add: memmap_pages_def LIMINE_MEMMAP_USABLE_def fayt_ref_def)
  have lw: "memmap_low fayt_ref [?f]" by (simp add: memmap_low_def fayt_ref_def)
  have room: "?f \<in> set [?f]" "usable ?f" "4096 * Suc ((0x6C00 + memmap_pages fayt_ref [?f]) * levels Pml4Ops) \<le> unat (me_length ?f)"
    using n by (simp_all add: LIMINE_MEMMAP_USABLE_def)
  have lk: "lock_free fayt_ref (pt_lock (demo_pt Pml4Ops))" by (simp add: lock_free_def demo_pt_def fayt_ref_def)
  have vma: "0xffff800000000000 = (case hhdm_offset demo_answers of None \<Rightarrow> HIGH_VMA (demo 64) | Some off \<Rightarrow> off)" "4096 dvd unat (0xffff800000000000 :: u64)"
    "Pml4Ops = x86_paging_init (boot_leaf_7_rcx demo_answers)" "4096 dvd unat (kernel_physical_base demo_answers)"
    using a by (simp_all add: x86_paging_init_def)
  obtain pt s' d' where r: "boot_memory fayt_ref demo_cores demo_create (\<lambda>_. 0xff) (demo_pt Pml4Ops) demo_answers (demo 64) (0, 0) = Ret (pt, s', d')"
    "pmm_inv fayt_ref s'" and v: "\<forall>i < 0x800. view Pml4Ops s' pt (0xffff800000000000 + of_nat i * 0x200000) = Some (of_nat i * 0x200000 OR 0x187)"
    using boot_memory_ready [OF fayt_laws_ref demo_cache_law vma(1,2) mm(1-3) p1 p2 mm(4) room lk vma(3,4) lw, of demo_cores "\<lambda>_. 0xff" "(0, 0)"] by blast
  show ?thesis using r v [rule_format, of 3] by auto
qed

end
