(* ===== verification/Startup.thy ===== *)
theory Startup
  imports Syscall Sched Server Boot
begin

unbundle bit_operations_syntax

text \<open>
  Start-up of the servers: \<^verbatim>\<open>servers/sched/init.c\<close> and \<^verbatim>\<open>sched\<close> of \<^verbatim>\<open>servers/sched/sched.c\<close>, \<^verbatim>\<open>servers/fs/vfs\<close> and
  \<^verbatim>\<open>servers/io/nvme\<close>. A server runs on a kernel state \<open>'k\<close> it can only change by system calls; the call
  stubs, \<^verbatim>\<open>as_allocate\<close>, \<^verbatim>\<open>slab_cache_create\<close> and the formatter are from \<open>fayt\<close> and are fields of the parameter
  \<open>server_lib\<close>. A server never returns: the result is the state in which it enters its last loop. At the end the servers
  run on the kernel of the other theories: every call goes through \<open>syscall_handler\<close> and \<open>syscall_handles\<close>, with the
  structures passed by address written to user memory before and read from it afterwards.
\<close>

section \<open>What a server is linked with\<close>

record address_space =
  as_current :: u64
  as_base :: u64
  as_limit :: u64

definition initial_address_space :: address_space where
  "initial_address_space = \<lparr>as_current = 0xa0000000, as_base = 0xa0000000, as_limit = 0x0000fffffffff0ff\<rparr>"

record 'k process =
  kernel_of :: 'k
  address_space_of :: address_space

record 'k calls =
  call_log :: "u8 \<Rightarrow> 'k \<Rightarrow> (s32 \<times> 'k) outcome"
  call_portal :: "portal_req \<Rightarrow> portal_resp \<Rightarrow> 'k \<Rightarrow> (s32 \<times> portal_resp \<times> 'k) outcome"
  call_yield :: "'k \<Rightarrow> (s32 \<times> 'k) outcome"
  call_action :: "s32 \<Rightarrow> notification_action \<Rightarrow> 'k \<Rightarrow> (s32 \<times> 'k) outcome"
  call_define_stack :: "u64 \<Rightarrow> u64 \<Rightarrow> 'k \<Rightarrow> (s32 \<times> 'k) outcome"
  call_unmute :: "'k \<Rightarrow> (s32 \<times> 'k) outcome"

record 'k server_lib =
  calls :: "'k calls"
  as_allocate :: "u64 \<Rightarrow> 'k process \<Rightarrow> (s32 \<times> u64 \<times> 'k process) outcome"
  create_cache :: "(u64 \<Rightarrow> 'k process \<Rightarrow> (ptr \<times> 'k process) outcome) \<Rightarrow> string \<Rightarrow> u64 \<Rightarrow> 'k process \<Rightarrow> 'k process outcome"
  format :: "(u8 \<Rightarrow> 'k \<Rightarrow> 'k outcome) \<Rightarrow> message \<Rightarrow> 'k \<Rightarrow> (s32 \<times> 'k) outcome"

definition on_kernel :: "('k \<Rightarrow> ('a \<times> 'k) outcome) \<Rightarrow> 'k process \<Rightarrow> ('a \<times> 'k process) outcome" where
  "on_kernel f st = obind (f (kernel_of st)) (\<lambda>(x, k). Ret (x, st\<lparr>kernel_of := k\<rparr>))"

section \<open>Output and memory\<close>

definition log_write :: "'k server_lib \<Rightarrow> u8 \<Rightarrow> 'k \<Rightarrow> 'k outcome" where
  "log_write U c k = obind (call_log (calls U) c k) (\<lambda>(_, k). Ret k)"

abbreviation newline :: string where
  "newline \<equiv> [char_of (10 :: nat)]"

text \<open>The writer of the stream is never null, so the second test of \<^verbatim>\<open>print\<close> has no effect.\<close>

definition server_print :: "'k server_lib \<Rightarrow> message \<Rightarrow> 'k process \<Rightarrow> 'k process outcome" where
  "server_print U msg st =
     obind (format U (log_write U) msg (kernel_of st)) (\<lambda>(ret, k).
     obind (if ret = - 1 then log_write U 0x64 k else Ret k) (\<lambda>k. Ret (st\<lparr>kernel_of := k\<rparr>)))"

definition server_panic :: "'k server_lib \<Rightarrow> string \<Rightarrow> message \<Rightarrow> 'k process \<Rightarrow> 'a outcome" where
  "server_panic U tag msg st =
     obind (server_print U (''DUFAY: '' @ tag @ '': PANIC < '', []) st) (\<lambda>st.
     obind (format U (log_write U) msg (kernel_of st)) (\<lambda>(_, k).
     obind (server_print U ('' >'' @ newline, []) (st\<lparr>kernel_of := k\<rparr>)) (\<lambda>_. NoReturn)))"

definition server_spalloc :: "'k server_lib \<Rightarrow> u64 \<Rightarrow> 'k process \<Rightarrow> (ptr \<times> 'k process) outcome" where
  "server_spalloc U s st =
     obind (as_allocate U (s * PAGE_SIZE) st) (\<lambda>(ret, addr, st). Ret (if ret = - 1 then NULL else addr, st))"

definition server_spfree :: "ptr \<Rightarrow> u64 \<Rightarrow> 'k process \<Rightarrow> 'k process" where
  "server_spfree addr s st = st"

section \<open>The common part of the servers\<close>

definition server_caches :: "(string \<times> u64) list" where
  "server_caches = [(''CACHE32'', 32), (''CACHE64'', 64), (''CACHE128'', 128), (''CACHE256'', 256), (''CACHE512'', 512), (''CACHE1024'', 1024)]"

abbreviation NOTIFICATION_STACK_SIZE :: u64 where
  "NOTIFICATION_STACK_SIZE \<equiv> 0x10000"

abbreviation LINK_RAW :: s32 where
  "LINK_RAW \<equiv> 4"

abbreviation say :: "'k server_lib \<Rightarrow> string \<Rightarrow> string \<Rightarrow> u64 list \<Rightarrow> 'k process \<Rightarrow> 'k process outcome" where
  "say U tag text args \<equiv> server_print U (''DUFAY: '' @ tag @ '': '' @ text @ newline, args)"

text \<open>The loop over the notification stacks; the result tells whether it was left by \<^verbatim>\<open>goto failure\<close>.\<close>

fun define_stacks :: "'k server_lib \<Rightarrow> string \<Rightarrow> nat \<Rightarrow> u64 \<Rightarrow> 'k process \<Rightarrow> (bool \<times> 'k process) outcome" where
  "define_stacks U tag 0 i st = Ret (True, st)"
| "define_stacks U tag (Suc n) i st =
     obind (as_allocate U NOTIFICATION_STACK_SIZE st) (\<lambda>(ret, addr, st).
     if ret = - 1 then obind (say U tag ''Failed to allocate address for stack'' [] st) (\<lambda>st. Ret (False, st))
     else
       obind (on_kernel (call_define_stack (calls U) (addr + NOTIFICATION_STACK_SIZE) NOTIFICATION_STACK_SIZE) st) (\<lambda>(ret, st).
       obind (if ret = - 1 then say U tag ''failed to allocate notification stack'' [] st
              else say U tag ''Allocated notificaton stack #%d [%x:%x]'' [i, addr, NOTIFICATION_STACK_SIZE] st) (\<lambda>st.
       define_stacks U tag n (i + 1) st)))"

text \<open>
  \<^verbatim>\<open>main\<close> from the creation of the caches to the last allocation: the address, or \<open>None\<close> for \<^verbatim>\<open>goto failure\<close>.
\<close>

definition server_boot :: "'k server_lib \<Rightarrow> string \<Rightarrow> 'k process \<Rightarrow> (u64 option \<times> 'k process) outcome" where
  "server_boot U tag st =
     obind (create_caches (create_cache U (server_spalloc U)) server_caches st) (\<lambda>st.
     obind (say U tag ''Slab cache directory initialised'' [] st) (\<lambda>st.
     obind (define_stacks U tag 4 0 st) (\<lambda>(fine, st).
     if \<not> fine then Ret (None, st)
     else obind (as_allocate U 0x10000 st) (\<lambda>(ret, addr, st).
       if ret = - 1 then obind (say U tag ''Failed to allocate address'' [] st) (\<lambda>st. Ret (None, st))
       else Ret (Some addr, st)))))"

text \<open>Where a server stays.\<close>

datatype rest = Failed | Serving

definition idle_server :: "'k server_lib \<Rightarrow> string \<Rightarrow> string \<Rightarrow> 'k process \<Rightarrow> (rest \<times> 'k process) outcome" where
  "idle_server U tag greeting st =
     obind (say U tag ''booting server'' [] st) (\<lambda>st.
     obind (server_boot U tag st) (\<lambda>(addr, st).
     case addr of None \<Rightarrow> Ret (Failed, st)
     | Some _ \<Rightarrow> obind (say U tag greeting [] st) (\<lambda>st. Ret (Serving, st))))"

definition vfs_main :: "'k server_lib \<Rightarrow> 'k process \<Rightarrow> (rest \<times> 'k process) outcome" where
  "vfs_main U = idle_server U ''VFS'' ''Hi from the VFS''"

definition nvme_main :: "'k server_lib \<Rightarrow> 'k process \<Rightarrow> (rest \<times> 'k process) outcome" where
  "nvme_main U = idle_server U ''NVME'' ''Hi''"

section \<open>The scheduling server\<close>

definition link_request :: "string \<Rightarrow> s32 \<Rightarrow> u64 \<Rightarrow> portal_req" where
  "link_request name kind addr = \<lparr>req_type = PORTAL_REQ_SHARE OR PORTAL_REQ_ANON, req_prot = PORTAL_PROT_READ OR PORTAL_PROT_WRITE,
     req_length = 44, req_identifier = name, share_type = kind, share_create = 0, morph_addr = addr, morph_length = 0x10000, morph_paddr = []\<rparr>"

text \<open>The handlers' addresses and the numbers of the two notifications; \<open>junk\<close> is what uninitialised locals hold.\<close>

record sched_image =
  enqueue_entry :: u64
  dequeue_entry :: u64
  SCHED_NOTIFY_ENQUEUE :: s32
  SCHED_NOTIFY_DEQUEUE :: s32
  junk_addr :: u64
  junk_resp :: portal_resp

text \<open>
  \<^verbatim>\<open>sched\<close> up to its loop: \<open>None\<close> for \<^verbatim>\<open>return -1\<close>, or the address of the link to the other schedulers. A failed
  allocation or request is only reported.
\<close>

definition sched_init :: "'k server_lib \<Rightarrow> sched_image \<Rightarrow> ptr \<Rightarrow> 'k process \<Rightarrow> (ptr option \<times> 'k process) outcome" where
  "sched_init U I link st =
     (let quit = (\<lambda>text st. obind (say U ''SCHEDULER'' text [] st) (\<lambda>st. Ret (None, st))) in
      if link = NULL then Ret (None, st)
      else obind (on_kernel (call_action (calls U) (SCHED_NOTIFY_ENQUEUE I) \<lparr>action_handler = enqueue_entry I\<rparr>) st) (\<lambda>(ret, st).
      if ret = - 1 then quit ''Failure to set notification'' st
      else obind (on_kernel (call_action (calls U) (SCHED_NOTIFY_DEQUEUE I) \<lparr>action_handler = dequeue_entry I\<rparr>) st) (\<lambda>(ret, st).
      if ret = - 1 then quit ''Failure to set notification'' st
      else obind (say U ''SCHEDULER'' ''Initialised enqueue and dequeue notifications'' [] st) (\<lambda>st.
      obind (as_allocate U 0x10000 st) (\<lambda>(ret, addr, st).
      let addr = (if ret = - 1 then junk_addr I else addr) in
      obind (if ret = - 1 then say U ''SCHEDULER'' ''Failed to allocate address'' [] st else Ret st) (\<lambda>st.
      obind (call_portal (calls U) (link_request ''SCHEDULER META'' LINK_RAW addr) (junk_resp I) (kernel_of st)) (\<lambda>(ret, resp, k).
      let st = st\<lparr>kernel_of := k\<rparr> in
      obind (if ret = - 1 then say U ''SCHEDULER'' ''Failed to establish link'' [] st else Ret st) (\<lambda>st.
      obind (on_kernel (call_unmute (calls U)) st) (\<lambda>(ret, st).
      if ret = - 1 then quit ''Failed to activate notification queue'' st
      else Ret (Some (resp_base resp), st))))))))))"

text \<open>
  One turn of the loop of \<^verbatim>\<open>sched\<close>; the notification handlers may have changed the tree since the last one.
  \<open>None\<close> for the queue is \<^verbatim>\<open>return -1\<close>.
\<close>

type_synonym push = "thread option list \<Rightarrow> thread option \<Rightarrow> thread option list option"

definition sched_turn ::
  "'k server_lib \<Rightarrow> sched_deps \<Rightarrow> push \<Rightarrow> sched_descriptor \<Rightarrow> thread tree \<Rightarrow> thread option list \<Rightarrow> 'k process \<Rightarrow>
   (thread option list option \<times> 'k process) outcome" where
  "sched_turn U E push desc thread_tree q st =
     (case refill E push thread_tree (nat (sint (queue_default_refill desc))) q of
        None \<Rightarrow> obind (say U ''SCHEDULER'' ''Failued to push onto the share queue'' [] st) (\<lambda>st. Ret (None, st))
      | Some q \<Rightarrow> obind (on_kernel (call_yield (calls U)) st) (\<lambda>(_, st). Ret (Some q, st)))"

fun sched_turns ::
  "'k server_lib \<Rightarrow> sched_deps \<Rightarrow> push \<Rightarrow> sched_descriptor \<Rightarrow> thread tree list \<Rightarrow> thread option list \<Rightarrow> 'k process \<Rightarrow>
   (thread option list option \<times> 'k process) outcome" where
  "sched_turns U E push desc [] q st = Ret (Some q, st)"
| "sched_turns U E push desc (t # ts) q st =
     obind (sched_turn U E push desc t q st) (\<lambda>(r, st). case r of None \<Rightarrow> Ret (None, st) | Some q \<Rightarrow> sched_turns U E push desc ts q st)"

text \<open>\<^verbatim>\<open>main\<close> up to the loop: the addresses of both links.\<close>

definition sched_main ::
  "'k server_lib \<Rightarrow> sched_image \<Rightarrow> sched_descriptor \<Rightarrow> 'k process \<Rightarrow> ((ptr \<times> ptr) option \<times> 'k process) outcome" where
  "sched_main U I desc st =
     (let fail = (\<lambda>text st. obind (say U ''SCHEDULER'' text [] st) (\<lambda>st. Ret (None, st))) in
      obind (say U ''SCHEDULER'' ''booting server {processor_id=%x}'' [scast (processor_id desc)] st) (\<lambda>st.
      obind (server_boot U ''SCHEDULER'' st) (\<lambda>(addr, st).
      case addr of None \<Rightarrow> Ret (None, st)
      | Some addr \<Rightarrow>
          obind (call_portal (calls U) (link_request ''SCHEDULER CORE0'' LINK_CIRCULAR addr) (junk_resp I) (kernel_of st)) (\<lambda>(ret, resp, k).
          let st = st\<lparr>kernel_of := k\<rparr> in
          if ret = - 1 then fail ''Failed to estabilish link with kernel'' st
          else obind (say U ''SCHEDULER'' ''Has established link with kernel'' [] st) (\<lambda>st.
          obind (sched_init U I (resp_base resp) st) (\<lambda>(meta, st).
          case meta of None \<Rightarrow> fail ''Internal critical failure'' st
          | Some meta \<Rightarrow> Ret (Some (resp_base resp, meta), st)))))))"

section \<open>What the library promises\<close>

text \<open>The formatter changes nothing but by writing; the allocator of addresses may make requests to the kernel that neither map pages nor
  create a share point, and gives out each address once;
  a cache gets its pages from the allocator it is given.\<close>

definition format_law :: "'k server_lib \<Rightarrow> bool" where
  "format_law U \<longleftrightarrow> (\<forall>P w m k. (\<forall>c k. P k \<longrightarrow> (\<exists>k'. w c k = Ret k' \<and> P k')) \<longrightarrow> P k \<longrightarrow> (\<exists>e k'. format U w m k = Ret (e, k') \<and> P k'))"

abbreviation current :: "'k process \<Rightarrow> nat" where
  "current st \<equiv> unat (as_current (address_space_of st))"

definition allocate_law :: "'k server_lib \<Rightarrow> bool" where
  "allocate_law U \<longleftrightarrow> (\<forall>P n st. (\<forall>q r k. mild q \<longrightarrow> P k \<longrightarrow> (\<exists>e r' k'. call_portal (calls U) q r k = Ret (e, r', k') \<and> P k')) \<longrightarrow> P (kernel_of st) \<longrightarrow>
     (\<exists>ret addr st'. as_allocate U n st = Ret (ret, addr, st') \<and> P (kernel_of st') \<and> current st \<le> current st' \<and>
        (ret \<noteq> - 1 \<longrightarrow> current st \<le> unat addr \<and> unat addr + unat n \<le> current st')))"

definition server_cache_law :: "'k server_lib \<Rightarrow> bool" where
  "server_cache_law U \<longleftrightarrow> (\<forall>P al name sz st. (\<forall>n st. P st \<longrightarrow> (\<exists>p st'. al n st = Ret (p, st') \<and> P st')) \<longrightarrow> P st \<longrightarrow>
     (\<exists>st'. create_cache U al name sz st = Ret st' \<and> P st'))"

lemma format_lawD:
  "format_law U \<Longrightarrow> (\<And>c k. P k \<Longrightarrow> \<exists>k'. w c k = Ret k' \<and> P k') \<Longrightarrow> P k \<Longrightarrow> \<exists>e k'. format U w m k = Ret (e, k') \<and> P k'"
  by (cases m) (simp add: format_law_def)

lemma allocate_lawD:
  "allocate_law U \<Longrightarrow> (\<And>q r k. mild q \<Longrightarrow> P k \<Longrightarrow> \<exists>e r' k'. call_portal (calls U) q r k = Ret (e, r', k') \<and> P k') \<Longrightarrow> P (kernel_of st) \<Longrightarrow>
   \<exists>ret addr st'. as_allocate U n st = Ret (ret, addr, st') \<and> P (kernel_of st') \<and> current st \<le> current st' \<and>
     (ret \<noteq> - 1 \<longrightarrow> current st \<le> unat addr \<and> unat addr + unat n \<le> current st')"
  by (simp add: allocate_law_def)

lemma cache_lawD:
  "server_cache_law U \<Longrightarrow> (\<And>n st. P st \<Longrightarrow> \<exists>p st'. al n st = Ret (p, st') \<and> P st') \<Longrightarrow> P st \<Longrightarrow> \<exists>st'. create_cache U al name sz st = Ret st' \<and> P st'"
  by (simp add: server_cache_law_def)

definition linked :: "'k calls \<Rightarrow> 'k server_lib \<Rightarrow> bool" where
  "linked K U \<longleftrightarrow> calls U = K \<and> format_law U \<and> allocate_law U \<and> server_cache_law U"

section \<open>Servers on any kernel that keeps their stacks\<close>

text \<open>The addresses of a stack that is given by its upper end and its size.\<close>

definition area :: "u64 \<times> u64 \<Rightarrow> nat set" where
  "area r = {unat (fst r) - unat (snd r)..<unat (fst r)}"

definition laid_out :: "nat \<Rightarrow> nat \<Rightarrow> (u64 \<times> u64) list \<Rightarrow> bool" where
  "laid_out a b rs \<longleftrightarrow> a \<le> b \<and> (\<forall>r \<in> set rs. snd r = NOTIFICATION_STACK_SIZE \<and> card (area r) = 0x10000 \<and> area r \<subseteq> {a..<b}) \<and>
     sorted_wrt (\<lambda>r r'. area r \<inter> area r' = {}) rs"

lemma laid_out_nil [simp]: "laid_out a b [] \<longleftrightarrow> a \<le> b"
  by (simp add: laid_out_def)

lemma laid_out_snoc:
  assumes "a \<le> unat addr" "unat addr + 0x10000 \<le> b" "b < 2 ^ 64" "laid_out b c rs"
  shows "laid_out a c (rs @ [(addr + 0x10000, 0x10000)])"
proof -
  have "unat (addr + 0x10000) = unat addr + 0x10000" using assms(2,3) by (simp add: unat_word_ariths)
  then have r: "area (addr + 0x10000, 0x10000) = {unat addr..<unat addr + 0x10000}" by (simp add: area_def)
  have rs: "area r \<subseteq> {b..<c}" if "r \<in> set rs" for r using assms(4) that by (simp add: laid_out_def)
  have "area r \<inter> {unat addr..<unat addr + 0x10000} = {}" if "r \<in> set rs" for r
    using rs [OF that] assms(2) by fastforce
  moreover have "area r \<subseteq> {a..<c}" if "r \<in> set rs" for r using rs [OF that] assms(1,2) by fastforce
  ultimately show ?thesis using assms r by (auto simp: laid_out_def sorted_wrt_append)
qed

lemma laid_out_wider: "laid_out a b rs \<Longrightarrow> a' \<le> a \<Longrightarrow> b \<le> b' \<Longrightarrow> laid_out a' b' rs"
  by (fastforce simp: laid_out_def)

text \<open>
  The kernel as the servers see it. Whatever output and requests leave alone, most of a server's start-up leaves alone.
\<close>

locale quiet_kernel =
  fixes K :: "'k calls" and has :: "'x \<Rightarrow> 'k \<Rightarrow> bool"
  assumes log: "has x k \<Longrightarrow> \<exists>e k'. call_log K ch k = Ret (e, k') \<and> has x k'"
    and portal: "mild q \<Longrightarrow> has x k \<Longrightarrow> \<exists>e r' k'. call_portal K q r k = Ret (e, r', k') \<and> has x k'"
begin

lemma log_write_keeps: "linked K U \<Longrightarrow> has x k \<Longrightarrow> \<exists>k'. log_write U c k = Ret k' \<and> has x k'"
  using log by (fastforce simp: log_write_def linked_def)

lemma print_keeps:
  assumes U: "linked K U" and "has x (kernel_of st)"
  shows "\<exists>st'. server_print U m st = Ret st' \<and> has x (kernel_of st') \<and> address_space_of st' = address_space_of st"
proof -
  obtain e k where f: "format U (log_write U) m (kernel_of st) = Ret (e, k)" "has x k"
    using format_lawD [of U "\<lambda>k. has x k" "log_write U" "kernel_of st" m] U [unfolded linked_def] log_write_keeps [OF U] assms(2) by blast
  obtain k' where "log_write U 0x64 k = Ret k'" "has x k'" using log_write_keeps [OF U f(2)] by blast
  with f show ?thesis by (simp add: server_print_def)
qed

lemma allocate_keeps:
  assumes U: "linked K U" and "has x (kernel_of st)"
  shows "\<exists>ret addr st'. as_allocate U z st = Ret (ret, addr, st') \<and> has x (kernel_of st') \<and> current st \<le> current st' \<and>
    (ret \<noteq> - 1 \<longrightarrow> current st \<le> unat addr \<and> unat addr + unat z \<le> current st')"
  using U [unfolded linked_def] allocate_lawD [of U "\<lambda>k. has x k" st z] portal assms(2) by blast

lemma caches_keep:
  assumes U: "linked K U"
  shows "has x (kernel_of st) \<Longrightarrow> \<exists>st'. create_caches (create_cache U (server_spalloc U)) caches st = Ret st' \<and> has x (kernel_of st') \<and> current st \<le> current st'"
proof (induction caches arbitrary: st)
  case (Cons c caches)
  obtain name sz where c: "c = (name, sz)" by fastforce
  have "\<exists>p st''. server_spalloc U m st' = Ret (p, st'') \<and> has x (kernel_of st'') \<and> current st \<le> current st''"
    if "has x (kernel_of st') \<and> current st \<le> current st'" for m st'
    using allocate_keeps [OF U, of x st' "m * PAGE_SIZE"] that by (fastforce simp: server_spalloc_def)
  then obtain st1 where 1: "create_cache U (server_spalloc U) name sz st = Ret st1" "has x (kernel_of st1)" "current st \<le> current st1"
    using cache_lawD [of U "\<lambda>st'. has x (kernel_of st') \<and> current st \<le> current st'"] U [unfolded linked_def] Cons.prems by blast
  obtain st2 where "create_caches (create_cache U (server_spalloc U)) caches st1 = Ret st2" "has x (kernel_of st2)" "current st1 \<le> current st2"
    using Cons.IH [OF 1(2)] by blast
  then show ?case using 1 c by auto
qed simp

end

text \<open>As long as there is room, a new notification stack is put in front of those the caller has.\<close>

locale notifying_kernel = quiet_kernel K has
  for K :: "'k calls" and has :: "nat \<times> (u64 \<times> u64) list \<Rightarrow> 'k \<Rightarrow> bool" +
  assumes define_stack: "has (Suc n, fs) k \<Longrightarrow> \<exists>k'. call_define_stack K p z k = Ret (0, k') \<and> has (n, (p, z) # fs) k'"
begin

lemma define_stacks_keep:
  assumes U: "linked K U"
  shows "has (n + m, fs) (kernel_of st) \<Longrightarrow>
   \<exists>b st' rs. define_stacks U tag n i st = Ret (b, st') \<and> length rs \<le> n \<and> (b \<longrightarrow> length rs = n) \<and>
     has (n + m - length rs, rs @ fs) (kernel_of st') \<and> laid_out (current st) (current st') rs"
proof (induction n arbitrary: i st fs)
  case 0
  then show ?case by (auto intro: exI [of _ "[]"])
next
  case (Suc n)
  obtain ret addr st1 where a: "as_allocate U 0x10000 st = Ret (ret, addr, st1)" "has (Suc n + m, fs) (kernel_of st1)" "current st \<le> current st1"
    "ret \<noteq> - 1 \<Longrightarrow> current st \<le> unat addr \<and> unat addr + 0x10000 \<le> current st1"
    using allocate_keeps [OF U Suc.prems, of "0x10000"] by auto
  show ?case
  proof (cases "ret = - 1")
    case True
    obtain st2 where "say U tag ''Failed to allocate address for stack'' [] st1 = Ret st2" "has (Suc n + m, fs) (kernel_of st2)"
      "address_space_of st2 = address_space_of st1" using print_keeps [OF U a(2)] by blast
    then show ?thesis using a True by (intro exI [of _ False] exI [of _ st2] exI [of _ "[]"]) simp
  next
    case False
    let ?r = "(addr + 0x10000, 0x10000)"
    obtain k where d: "call_define_stack K (addr + 0x10000) 0x10000 (kernel_of st1) = Ret (0, k)" "has (n + m, ?r # fs) k"
      using define_stack [of "n + m" fs "kernel_of st1"] a(2) by force
    obtain st2 where p: "say U tag ''Allocated notificaton stack #%d [%x:%x]'' [i, addr, 0x10000] (st1\<lparr>kernel_of := k\<rparr>) = Ret st2"
      "has (n + m, ?r # fs) (kernel_of st2)" "address_space_of st2 = address_space_of st1"
      using print_keeps [OF U, of "(n + m, ?r # fs)" "st1\<lparr>kernel_of := k\<rparr>"] d(2) by fastforce
    obtain b st3 rs where r: "define_stacks U tag n (i + 1) st2 = Ret (b, st3)" "length rs \<le> n" "b \<longrightarrow> length rs = n"
      "has (n + m - length rs, rs @ ?r # fs) (kernel_of st3)" "laid_out (current st2) (current st3) rs"
      using Suc.IH [OF p(2)] by blast
    have "laid_out (current st) (current st3) (rs @ [?r])"
      using a(4) [OF False] r(5) p(3) by (intro laid_out_snoc [of _ _ "current st1"]) (use unsigned_less [of "as_current (address_space_of st1)"] in auto)
    then show ?thesis using a(1) False d(1) p(1) r
      by (intro exI [of _ b] exI [of _ st3] exI [of _ "rs @ [?r]"]) (simp add: on_kernel_def U [unfolded linked_def])
  qed
qed

lemma server_boot_keeps:
  assumes U: "linked K U" and "has (4 + m, fs) (kernel_of st)"
  shows "\<exists>a st' rs. server_boot U tag st = Ret (a, st') \<and> length rs \<le> 4 \<and> has (4 + m - length rs, rs @ fs) (kernel_of st') \<and>
    laid_out (current st) (current st') rs \<and>
    (\<forall>addr. a = Some addr \<longrightarrow> length rs = 4 \<and> (\<exists>b \<le> unat addr. laid_out (current st) b rs \<and> unat addr + 0x10000 \<le> current st'))"
proof -
  obtain st1 where 1: "create_caches (create_cache U (server_spalloc U)) server_caches st = Ret st1" "has (4 + m, fs) (kernel_of st1)"
    "current st \<le> current st1" using caches_keep [OF U assms(2)] by blast
  obtain st2 where 2: "say U tag ''Slab cache directory initialised'' [] st1 = Ret st2" "has (4 + m, fs) (kernel_of st2)"
    "address_space_of st2 = address_space_of st1" using print_keeps [OF U 1(2)] by blast
  obtain b st3 rs where 3: "define_stacks U tag 4 0 st2 = Ret (b, st3)" "length rs \<le> 4" "b \<longrightarrow> length rs = 4"
    "has (4 + m - length rs, rs @ fs) (kernel_of st3)" "laid_out (current st2) (current st3) rs"
    using define_stacks_keep [OF U 2(2)] by blast
  have l: "laid_out (current st) (current st3) rs" using laid_out_wider [OF 3(5), of "current st"] 1(3) 2(3) by simp
  obtain ret addr st4 where 4: "as_allocate U 0x10000 st3 = Ret (ret, addr, st4)" "has (4 + m - length rs, rs @ fs) (kernel_of st4)"
    "current st3 \<le> current st4" "ret \<noteq> - 1 \<longrightarrow> current st3 \<le> unat addr \<and> unat addr + 0x10000 \<le> current st4"
    using allocate_keeps [OF U 3(4), of "0x10000"] by auto
  have l4: "laid_out (current st) (current st4) rs" using laid_out_wider [OF l _ 4(3)] by simp
  obtain st5 where 5: "say U tag ''Failed to allocate address'' [] st4 = Ret st5" "has (4 + m - length rs, rs @ fs) (kernel_of st5)"
    "address_space_of st5 = address_space_of st4" using print_keeps [OF U 4(2)] by blast
  consider "\<not> b" | "b" "ret = - 1" | "b" "ret \<noteq> - 1" by blast
  then show ?thesis
  proof cases
    case 1
    then show ?thesis using \<open>create_caches _ _ _ = _\<close> 2(1) 3 l
      by (intro exI [of _ None] exI [of _ st3] exI [of _ rs]) (simp add: server_boot_def)
  next
    case 2
    then show ?thesis using 1(1) \<open>say _ _ _ _ st1 = _\<close> 3 4(1) 5 l4
      by (intro exI [of _ None] exI [of _ st5] exI [of _ rs]) (simp add: server_boot_def)
  next
    case 3
    then show ?thesis using 1(1) 2(1) \<open>define_stacks _ _ _ _ _ = _\<close> \<open>b \<longrightarrow> _\<close> 4 l l4
      by (intro exI [of _ "Some addr"] exI [of _ st4] exI [of _ rs]) (auto simp: server_boot_def)
  qed
qed

lemma idle_server_keeps:
  assumes U: "linked K U" and "has (4 + m, fs) (kernel_of st)"
  shows "\<exists>r st' rs. idle_server U tag greeting st = Ret (r, st') \<and> length rs \<le> 4 \<and> (r = Serving \<longrightarrow> length rs = 4) \<and>
    has (4 + m - length rs, rs @ fs) (kernel_of st') \<and> laid_out (current st) (current st') rs"
proof -
  obtain st1 where 1: "say U tag ''booting server'' [] st = Ret st1" "has (4 + m, fs) (kernel_of st1)"
    "address_space_of st1 = address_space_of st" using print_keeps [OF U assms(2)] by blast
  obtain a st2 rs where 2: "server_boot U tag st1 = Ret (a, st2)" "length rs \<le> 4" "has (4 + m - length rs, rs @ fs) (kernel_of st2)"
    "laid_out (current st) (current st2) rs" "a \<noteq> None \<longrightarrow> length rs = 4"
    using server_boot_keeps [OF U 1(2)] 1(3) by (metis not_Some_eq)
  obtain st3 where 3: "say U tag greeting [] st2 = Ret st3" "has (4 + m - length rs, rs @ fs) (kernel_of st3)"
    "address_space_of st3 = address_space_of st2" using print_keeps [OF U 2(3)] by blast
  show ?thesis
  proof (cases a)
    case None
    then show ?thesis using 1(1) 2 by (intro exI [of _ Failed] exI [of _ st2] exI [of _ rs]) (simp add: idle_server_def)
  next
    case (Some x)
    then show ?thesis using 1(1) 2 3 by (intro exI [of _ Serving] exI [of _ st3] exI [of _ rs]) (simp add: idle_server_def)
  qed
qed

end

section \<open>The servers on this kernel\<close>

text \<open>A system call of the current context, by its place in the table; a call that resumes another frame does not come back.\<close>

definition kernel_call :: "('l, 'h, 'm, 'd, 'u) sys_env \<Rightarrow> u64 \<Rightarrow> u64 \<Rightarrow> u64 \<Rightarrow> u64 \<Rightarrow> ('l, 'f, 'b, 'c, 'h, 'm, 'd, 'u) sys_state \<Rightarrow> (s32 \<times> ('l, 'f, 'b, 'c, 'h, 'm, 'd, 'u) sys_state) outcome" where
  "kernel_call E idx x y z S =
     obind (syscall_handler of_nat E (syscall_handles E) S (zero_registers\<lparr>rax := idx, rdi := x, rsi := y, rdx := z\<rparr>)) (\<lambda>(r, S).
     case r of Inl v \<Rightarrow> Ret (ucast v, S) | Inr _ \<Rightarrow> NoReturn)"

text \<open>Where the server keeps the structures it passes.\<close>

record user_frame =
  action_at :: ptr
  request_at :: ptr
  response_at :: ptr

definition kernel_calls :: "('l, 'h, 'm, 'd, 'u) sys_env \<Rightarrow> user_frame \<Rightarrow> ('l, 'f, 'b, 'c, 'h, 'm, 'd, 'u) sys_state calls" where
  "kernel_calls E V = (let M = user_of E in \<lparr>
     call_log = (\<lambda>c. kernel_call E 0 (ucast c) 0 0),
     call_portal = (\<lambda>q r S.
       let S = S\<lparr>user := write_req M (request_at V) q (write_resp M (response_at V) r (user S))\<rparr> in
       obind (kernel_call E 1 (request_at V) (response_at V) 0 S) (\<lambda>(e, S). Ret (e, read_resp M (user S) (response_at V), S))),
     call_yield = kernel_call E 2 0 0 0,
     call_action = (\<lambda>n a S. kernel_call E 3 (scast n) (action_at V) 0 (S\<lparr>user := write_action M (action_at V) a (user S)\<rparr>)),
     call_define_stack = (\<lambda>p z. kernel_call E 4 p z 0),
     call_unmute = kernel_call E 6 0 0 0\<rparr>)"

text \<open>The notification stacks of a context, newest first, none of them in use.\<close>

fun stack_chain :: "(ptr \<Rightarrow> ustack option) \<Rightarrow> ptr \<Rightarrow> (u64 \<times> u64) list \<Rightarrow> bool" where
  "stack_chain h p [] \<longleftrightarrow> p = NULL"
| "stack_chain h p (f # fs) \<longleftrightarrow> p \<noteq> NULL \<and>
     (\<exists>S. h p = Some S \<and> ustack_active S = 0 \<and> sp (uuser_stack S) = fst f \<and> stack_size (uuser_stack S) = snd f \<and> stack_chain h (ustack_next S) fs)"

lemma stack_chain_new: "stack_chain h p fs \<Longrightarrow> h q = None \<Longrightarrow> stack_chain (h(q \<mapsto> S)) p fs"
  by (induction fs arbitrary: p) auto

text \<open>The slab allocator takes addresses without an object from a pool, as long as there are any.\<close>

definition slab_pool :: "'l slab \<Rightarrow> ptr set \<Rightarrow> bool" where
  "slab_pool A pool \<longleftrightarrow> finite pool \<and> (\<forall>k. (\<exists>p \<in> pool. \<not> used k p) \<longrightarrow> slab_laws A k \<and> alloc_addr A k \<in> pool)"

text \<open>What is read from user memory is what was written there last; where the server keeps its structures is not null.\<close>

definition user_law :: "'u user_memory \<Rightarrow> user_frame \<Rightarrow> bool" where
  "user_law M V \<longleftrightarrow> (\<forall>p a u. read_action M (write_action M p a u) p = a) \<and> (\<forall>p q u. read_req M (write_req M p q u) p = q) \<and>
     (\<forall>p r u. read_resp M (write_resp M p r u) p = r) \<and> action_at V \<noteq> NULL \<and> request_at V \<noteq> NULL \<and> response_at V \<noteq> NULL"

text \<open>The laws of the code the kernel is linked with, of the serial line and of user memory.\<close>

definition sys_laws :: "('l, 'h, 'm, 'd, 'u) sys_env \<Rightarrow> user_frame \<Rightarrow> ptr set \<Rightarrow> bool" where
  "sys_laws E V pool \<longleftrightarrow> fayt_laws (fayt_of E) \<and> slab_pool (slab_of E) pool \<and> (\<exists>sent. line_law (bus_of E) sent) \<and>
     (\<exists>render. renders (printer E) render) \<and> user_law (user_of E) V"

lemma sys_lawsD:
  assumes "sys_laws E V pool"
  shows "fayt_laws (fayt_of E)" "slab_pool (slab_of E) pool" "\<exists>sent. line_law (bus_of E) sent" "\<exists>render. renders (printer E) render" "user_law (user_of E) V"
  using assms by (simp_all add: sys_laws_def)

text \<open>
  The kernel with a current context \<open>c\<close> that may make every call, has a page table, the actions \<open>acts\<close>, the notification stacks \<open>fs\<close> and room
  for \<open>n\<close> more; nobody holds the console. \<open>m\<close> is the share map.
\<close>

fun kernel_has :: "('l, 'h, 'm, 'd, 'u) sys_env \<Rightarrow> ptr set \<Rightarrow> ptr \<Rightarrow> 'm \<Rightarrow> notification_action list \<Rightarrow> nat \<times> (u64 \<times> u64) list \<Rightarrow> ('l, 'f, 'b, 'c, 'h, 'm, 'd, 'u) sys_state \<Rightarrow> bool" where
  "kernel_has E pool c m acts (n, fs) S \<longleftrightarrow> pmm_inv (fayt_of E) (mem (kernel_in S)) \<and> current_context (core (kernel_in S)) = c \<and> c \<noteq> NULL \<and>
     n \<le> card {p \<in> pool. \<not> used (kernel_in S) p} \<and> lock_free (fayt_of E) (fst (console S)) \<and> share_map S = m \<and>
     shares_known (portal_lib E) (share_map S) (share_point_at S) \<and>
     (\<exists>C Q pt. contexts (kernel_in S) c = Some C \<and> (\<forall>i < 8. \<not> bit (sysperm C) i) \<and> stack_chain (ustacks (kernel_in S)) (stacks C) fs \<and>
        actions C = acts \<and> lock_free (fayt_of E) (notification_lock C) \<and> nqueue C \<noteq> NULL \<and> queues (kernel_in S) (nqueue C) = Some Q \<and>
        page_table_of C \<noteq> NULL \<and> tables (machine_of S) (page_table_of C) = Some pt)"

text \<open>A property of a context that may make every call, which does not depend on what output and mild requests change.\<close>

definition calm :: "('l, 'h, 'm, 'd, 'u) sys_env \<Rightarrow> ptr \<Rightarrow> (('l, 'f, 'b, 'c, 'h, 'm, 'd, 'u) sys_state \<Rightarrow> bool) \<Rightarrow> bool" where
  "calm E c P \<longleftrightarrow> (\<forall>S. P S \<longrightarrow> current_context (core (kernel_in S)) = c \<and> c \<noteq> NULL \<and> lock_free (fayt_of E) (fst (console S)) \<and>
       shares_known (portal_lib E) (share_map S) (share_point_at S) \<and>
       (\<exists>C pt. contexts (kernel_in S) c = Some C \<and> (\<forall>i < 8. \<not> bit (sysperm C) i) \<and>
          page_table_of C \<noteq> NULL \<and> tables (machine_of S) (page_table_of C) = Some pt)) \<and>
     (\<forall>S l d. P S \<longrightarrow> lock_free (fayt_of E) l \<longrightarrow> P (S\<lparr>console := (l, d)\<rparr>)) \<and> (\<forall>S t. P S \<longrightarrow> P (S\<lparr>portal_roots := t\<rparr>)) \<and>
     (\<forall>S u. P S \<longrightarrow> P (S\<lparr>user := u\<rparr>)) \<and> (\<forall>S e. P S \<longrightarrow> P (set_error e S))"

lemma calmD:
  assumes "calm E c P" "P S"
  shows "lock_free (fayt_of E) l \<Longrightarrow> P (S\<lparr>console := (l, d)\<rparr>)" "P (S\<lparr>portal_roots := t\<rparr>)" "P (S\<lparr>user := u\<rparr>)" "P (set_error e S)"
    "current_context (core (kernel_in S)) = c" "c \<noteq> NULL" "lock_free (fayt_of E) (fst (console S))"
    "shares_known (portal_lib E) (share_map S) (share_point_at S)"
    "\<exists>C pt. contexts (kernel_in S) c = Some C \<and> (\<forall>i < 8. \<not> bit (sysperm C) i) \<and>
      page_table_of C \<noteq> NULL \<and> tables (machine_of S) (page_table_of C) = Some pt"
  using assms unfolding calm_def by blast+

lemma set_kernel_simps [simp]:
  "kernel_in (set_kernel k S) = k" "console (set_kernel k S) = console S" "share_map (set_kernel k S) = share_map S"
  "share_point_at (set_kernel k S) = share_point_at S" "tables (machine_of (set_kernel k S)) = tables (machine_of S)"
  by (simp_all add: set_kernel_def)

lemma calm_kernel_has: "calm E c (kernel_has E pool c m acts x)"
  by (cases x) (auto simp: calm_def used_def set_error_def)

lemma ucast_scast: "ucast (scast e :: u64) = (e :: s32)"
  by (rule bit_word_eqI) (auto simp: bit_simps)

lemma kernel_call_runs:
  assumes "calm E c P" "P S" "idx < 8" "syscall_handles E ! idx = Some f"
  shows "kernel_call E (of_nat idx) x y z S =
    obind (f S (zero_registers\<lparr>rax := of_nat idx, rdi := x, rsi := y, rdx := z\<rparr>)) (\<lambda>(v, S).
      case v of Code e \<Rightarrow> Ret (e, set_error e S) | Resume g \<Rightarrow> NoReturn)"
proof -
  note c = calmD [OF assms(1,2)]
  obtain C where C: "contexts (kernel_in S) c = Some C" "\<not> bit (sysperm C) idx" using c(9) assms(3) by blast
  let ?r = "zero_registers\<lparr>rax := of_nat idx, rdi := x, rsi := y, rdx := z\<rparr>"
  have i: "sint (ucast (rax ?r) :: s32) = int idx"
  proof -
    have "idx \<in> {0, 1, 2, 3, 4, 5, 6, 7}" using assms(3) by auto
    then show ?thesis by auto
  qed
  have "syscall_handler of_nat E (syscall_handles E) S ?r = obind (f S ?r) (\<lambda>(x, S'). case x of
      Code e \<Rightarrow> Ret (Inl (scast e), set_error e S') | Resume g \<Rightarrow> Ret (Inr g, S'))"
    using handler_accepts [of of_nat "syscall_handles E" ?r idx f S c C E, OF _ _ i _ assms(4) c(5,6) C(1)] assms(3) C(2) by simp
  then show ?thesis by (cases "f S ?r") (auto simp: kernel_call_def ucast_scast split: sysresult.split)
qed

subsection \<open>Output\<close>

lemma syscall_log_returns:
  assumes "fayt_laws F" "line_law B sent" "renders stream_print render" "lock_free F l"
  shows "\<exists>l' d'. syscall_log F stream_print B r (l, d) = Ret (0, l', d') \<and> lock_free F l'"
proof -
  obtain l1 where l1: "spinlock F l = Some l1" using assms(4) by (auto simp: lock_free_def)
  let ?m = "(''%c'', [ucast (ucast (rdi r) :: u8)])"
  obtain d1 where "write_all (serial_write B) (render ?m) d = Ret d1" using write_all_sent [OF assms(2)] by blast
  then show ?thesis using l1 assms(1) by (simp add: syscall_log_def print_def rendersD [OF assms(3)])
qed

lemma kernel_log:
  assumes "sys_laws E V pool" "calm E c P" "P S"
  shows "\<exists>e S'. kernel_call E 0 x y z S = Ret (e, S') \<and> P S'"
proof -
  let ?r = "zero_registers\<lparr>rax := of_nat 0, rdi := x, rsi := y, rdx := z\<rparr>"
  obtain sent render where lw: "line_law (bus_of E) sent" "renders (printer E) render" using sys_lawsD(3,4) [OF assms(1)] by blast
  obtain l d where ld: "console S = (l, d)" by fastforce
  have "lock_free (fayt_of E) l" using calmD(7) [OF assms(2,3)] ld by simp
  then obtain l' d' where r: "syscall_log (fayt_of E) (printer E) (bus_of E) ?r (l, d) = Ret (0, l', d')" "lock_free (fayt_of E) l'"
    using syscall_log_returns [OF sys_lawsD(1) [OF assms(1)] lw] by blast
  have "handle_log E S ?r = Ret (Code 0, S\<lparr>console := (l', d')\<rparr>)" using r(1) ld by (simp add: handle_log_def)
  moreover have "P (set_error 0 (S\<lparr>console := (l', d')\<rparr>))" using calmD(1,4) assms(2,3) r(2) by metis
  moreover have h: "syscall_handles E ! 0 = Some (handle_log E)" by (simp add: syscall_handles_def)
  ultimately show ?thesis using kernel_call_runs [OF assms(2,3) _ h, of x y z] by simp
qed

subsection \<open>Requests\<close>

lemma portal_update_root:
  "tables (machine_of S) t = Some pt \<Longrightarrow> portal_update t ((portal_view t pt S)\<lparr>portal_root := r\<rparr>) S = S\<lparr>portal_roots := (portal_roots S)(t := r)\<rparr>"
  by (simp add: portal_update_def portal_view_def fun_upd_idem)

lemma user_set_error [simp]: "user (set_error e S) = user S"
  by (simp add: set_error_def set_kernel_def)

text \<open>A request that changes the tree of portals only, from the server's structures to the response in them.\<close>

lemma portal_runs:
  assumes "sys_laws E V pool" "calm E c P" "P S"
    and rq: "\<And>st. portal_share_map st = share_map S \<Longrightarrow> shares_known (portal_lib E) (portal_share_map st) (share_points st) \<Longrightarrow>
      \<exists>ret resp t. portal_request (fayt_of E) (portal_lib E) (raw_portal_of E) st q = Ret (ret, resp, st\<lparr>portal_root := t\<rparr>) \<and> Q ret resp"
  shows "\<exists>ret r' S'. call_portal (kernel_calls E V) q r S = Ret (ret, r', S') \<and> Q ret r' \<and> P S'"
proof -
  let ?M = "user_of E" and ?r = "zero_registers\<lparr>rax := of_nat 1, rdi := request_at V, rsi := response_at V, rdx := 0\<rparr>"
  define S1 where "S1 = S\<lparr>user := write_req ?M (request_at V) q (write_resp ?M (response_at V) r (user S))\<rparr>"
  have P1: "P S1" unfolding S1_def by (rule calmD(3) [OF assms(2,3)])
  note c = calmD(5-9) [OF assms(2) P1]
  have u: "request_at V \<noteq> NULL" "response_at V \<noteq> NULL" "read_req ?M (user S1) (request_at V) = q" "read_resp ?M (write_resp ?M p x w) p = x" for p x w
    using sys_lawsD(5) [OF assms(1)] by (simp_all add: user_law_def S1_def)
  obtain C pt where C: "contexts (kernel_in S1) c = Some C" "page_table_of C \<noteq> NULL" "tables (machine_of S1) (page_table_of C) = Some pt"
    using c(5) by blast
  let ?t = "page_table_of C"
  have "shares_known (portal_lib E) (portal_share_map (portal_view ?t pt S1)) (share_points (portal_view ?t pt S1))"
    "portal_share_map (portal_view ?t pt S1) = share_map S"
    using c(4) by (simp_all add: portal_view_def S1_def)
  from rq [OF this(2,1)] obtain ret resp tr where q:
    "portal_request (fayt_of E) (portal_lib E) (raw_portal_of E) (portal_view ?t pt S1) q = Ret (ret, resp, (portal_view ?t pt S1)\<lparr>portal_root := tr\<rparr>)"
    "Q ret resp" by blast
  let ?S2 = "S1\<lparr>portal_roots := (portal_roots S1)(?t := tr)\<rparr>"
  let ?S3 = "?S2\<lparr>user := write_resp ?M (response_at V) resp (user ?S2)\<rparr>"
  have "portal_call E S1 (request_at V) (response_at V) = Ret (ret, Some resp, ?S2)"
    using u c(1,2) C q(1) portal_update_root [OF C(3)] by (simp add: portal_call_def portal_table_def Let_def)
  then have "handle_portal E S1 ?r = Ret (Code ret, ?S3)" by (simp add: handle_portal_def Let_def)
  moreover have h: "syscall_handles E ! 1 = Some (handle_portal E)" by (simp add: syscall_handles_def)
  ultimately have "kernel_call E 1 (request_at V) (response_at V) 0 S1 = Ret (ret, set_error ret ?S3)"
    using kernel_call_runs [OF assms(2) P1 _ h, of "request_at V" "response_at V" 0] by simp
  then have "call_portal (kernel_calls E V) q r S = Ret (ret, resp, set_error ret ?S3)"
    by (simp add: kernel_calls_def Let_def S1_def [symmetric] u(4))
  moreover have "P (set_error ret ?S3)" by (intro calmD(4) [OF assms(2)] calmD(3) [OF assms(2)] calmD(2) [OF assms(2)] P1)
  ultimately show ?thesis using q(2) by blast
qed

lemma kernel_portal:
  assumes "sys_laws E V pool" "calm E c P" "P S" "mild q"
  shows "\<exists>e r' S'. call_portal (kernel_calls E V) q r S = Ret (e, r', S') \<and> P S'"
  using portal_runs [OF assms(1-3), of q "\<lambda>_ _. True" r] request_mild [OF assms(4)] by blast

text \<open>A request for a link is granted exactly when the kernel has made the link.\<close>

lemma request_link:
  assumes "shares_known D (portal_share_map st) (share_points st)" "portal_share_map st = m"
  shows "\<exists>ret resp t. portal_request F D raw st (link_request name kind addr) = Ret (ret, resp, st\<lparr>portal_root := t\<rparr>) \<and>
    (if search_share D m name = NULL then ret = - 1 else ret = 0 \<and> resp_base resp = addr)"
proof (cases "search_share D m name = NULL")
  case True
  then show ?thesis using assms(2)
    by (intro exI exI [of _ "portal_root st"] conjI) (simp_all add: portal_request_def link_request_def guarded_def portal_handle_anon_def portal_handle_share_def Let_def)
next
  case False
  then obtain x where "share_points st (search_share D m name) = Some x" using assms unfolding shares_known_def by blast
  then have "\<exists>resp t. portal_request F D raw st (link_request name kind addr) = Ret (0, resp, st\<lparr>portal_root := t\<rparr>) \<and> resp_base resp = addr"
    using False assms(2) by (simp add: portal_request_def link_request_def guarded_def portal_handle_anon_def portal_handle_share_def Let_def) blast
  then show ?thesis using False by auto
qed

lemma kernel_link:
  assumes "sys_laws E V pool" "kernel_has E pool c m acts x S"
  shows "\<exists>ret r' S'. call_portal (kernel_calls E V) (link_request name kind addr) r S = Ret (ret, r', S') \<and>
    (if search_share (portal_lib E) m name = NULL then ret = - 1 else ret = 0 \<and> resp_base r' = addr) \<and> kernel_has E pool c m acts x S'"
proof -
  have m: "share_map S = m" using assms(2) by (cases x) simp
  show ?thesis
    by (rule portal_runs [OF assms(1) calm_kernel_has assms(2), where Q = "\<lambda>ret r'. if search_share (portal_lib E) m name = NULL then ret = - 1 else ret = 0 \<and> resp_base r' = addr"])
      (use request_link m in metis)
qed

subsection \<open>Stacks, actions and the queue\<close>

text \<open>What the state has for the context, to be used in the calls that change the kernel.\<close>

lemma kernel_hasE:
  assumes "kernel_has E pool c m acts (n, fs) S"
  obtains C Q pt where "contexts (kernel_in S) c = Some C" "\<forall>i < 8. \<not> bit (sysperm C) i" "stack_chain (ustacks (kernel_in S)) (stacks C) fs"
    "actions C = acts" "lock_free (fayt_of E) (notification_lock C)" "nqueue C \<noteq> NULL" "queues (kernel_in S) (nqueue C) = Some Q"
    "page_table_of C \<noteq> NULL" "tables (machine_of S) (page_table_of C) = Some pt"
    "pmm_inv (fayt_of E) (mem (kernel_in S))" "current_context (core (kernel_in S)) = c" "c \<noteq> NULL" "n \<le> card {p \<in> pool. \<not> used (kernel_in S) p}"
    "lock_free (fayt_of E) (fst (console S))" "share_map S = m" "shares_known (portal_lib E) (share_map S) (share_point_at S)"
  using assms by auto

lemma kernel_define_stack:
  assumes laws: "sys_laws E V pool" and S: "kernel_has E pool c m acts (Suc n, fs) S"
  shows "\<exists>S'. kernel_call E 4 p z 0 S = Ret (0, S') \<and> kernel_has E pool c m acts (n, (p, z) # fs) S'"
proof -
  let ?k = "kernel_in S" and ?F = "fayt_of E" and ?A = "slab_of E"
  obtain C Q pt where C: "contexts ?k c = Some C" "\<forall>i < 8. \<not> bit (sysperm C) i" "stack_chain (ustacks ?k) (stacks C) fs"
    "actions C = acts" "lock_free ?F (notification_lock C)" "nqueue C \<noteq> NULL" "queues ?k (nqueue C) = Some Q"
    "page_table_of C \<noteq> NULL" "tables (machine_of S) (page_table_of C) = Some pt"
    and c: "pmm_inv ?F (mem ?k)" "current_context (core ?k) = c" "c \<noteq> NULL" "Suc n \<le> card {p \<in> pool. \<not> used ?k p}"
    and o: "lock_free ?F (fst (console S))" "share_map S = m" "shares_known (portal_lib E) (share_map S) (share_point_at S)"
    using kernel_hasE [OF S] by blast
  note L = sys_lawsD [OF laws]
  let ?a = "alloc_addr ?A ?k"
  have "{p \<in> pool. \<not> used ?k p} \<noteq> {}" using c(4) by (intro notI) (simp only: card.empty)
  then have a: "\<not> used ?k ?a" "?a \<in> pool" using L(2) by (auto simp: slab_pool_def slab_laws_def)
  then have n: "?a \<noteq> NULL" "ustacks ?k ?a = None" by (auto simp: used_def)
  obtain b s where al: "pmm_alloc ?F (mem ?k) (DIV_ROUNDUP ?F CONTEXT_DEFAULT_STACK_SIZE PAGE_SIZE) 1 = Ret (b, s)" "pmm_inv ?F s"
    using define_stack_memory [OF L(1) c(1)] by blast
  obtain k' U where r: "syscall_notification_define_stack ?F ?A ?k p z = Ret (0, k')" "k' = ?k\<lparr>mem := s, ustacks := (ustacks ?k)(?a \<mapsto> U),
      contexts := (contexts ?k)(c \<mapsto> C\<lparr>stacks := ?a\<rparr>)\<rparr>"
    "ustack_active U = 0" "sp (uuser_stack U) = p" "stack_size (uuser_stack U) = z" "ustack_next U = stacks C"
    using c(2,3) C(1) al(1) by (simp add: syscall_notification_define_stack_def Let_def)
  have "{q \<in> pool. \<not> used k' q} = {q \<in> pool. \<not> used ?k q} - {?a}" using C(1) by (auto simp: r(2) used_def split: if_splits)
  moreover have "card ({q \<in> pool. \<not> used ?k q} - {?a}) = card {q \<in> pool. \<not> used ?k q} - 1" using a by (simp add: card_Diff_singleton)
  ultimately have "n \<le> card {q \<in> pool. \<not> used k' q}" using c(4) by simp
  moreover have "stack_chain (ustacks k') ?a ((p, z) # fs)" using stack_chain_new [OF C(3) n(2), of U] n(1) r by simp
  ultimately have "kernel_has E pool c m acts (n, (p, z) # fs) (set_kernel k' S)" using c C(2,4-) o al(2) by (simp add: r(2))
  note calmD(4) [OF calm_kernel_has this, of 0]
  moreover have h: "syscall_handles E ! 4 = Some (handle_define_stack E)" by (simp add: syscall_handles_def)
  ultimately show ?thesis using kernel_call_runs [OF calm_kernel_has S _ h, of p z 0] r(1)
    by (simp add: handle_define_stack_def code_def del: kernel_has.simps)
qed

interpretation rock: quiet_kernel "kernel_calls E V" "\<lambda>P S. sys_laws E V pool \<and> calm E c P \<and> P S"
  for E :: "('l, 'h, 'm, 'd, 'u) sys_env" and V pool c
proof (unfold_locales, goal_cases)
  case (1 P S ch)
  then show ?case using kernel_log [of E V pool c P S] by (fastforce simp: kernel_calls_def Let_def)
next
  case (2 q P S r)
  then show ?case using kernel_portal [of E V pool c P S q r] by fastforce
qed

interpretation rock_stacks: notifying_kernel "kernel_calls E V" "\<lambda>x S. sys_laws E V pool \<and> kernel_has E pool c m acts x S"
  for E :: "('l, 'h, 'm, 'd, 'u) sys_env" and V pool c m acts
proof (unfold_locales, goal_cases)
  case (1 x S ch)
  then have "sys_laws E V pool" "kernel_has E pool c m acts x S" by simp_all
  from kernel_log [OF this(1) calm_kernel_has this(2), of "ucast ch" 0 0] this(1) show ?case by (auto simp: kernel_calls_def Let_def simp del: kernel_has.simps)
next
  case (2 q x S r)
  then have "sys_laws E V pool" "kernel_has E pool c m acts x S" "mild q" by simp_all
  from kernel_portal [OF this(1) calm_kernel_has this(2,3)] this(1) show ?case by blast
next
  case (3 n fs S p z)
  then show ?case using kernel_define_stack [of E V pool c m acts n fs S] by (fastforce simp: kernel_calls_def Let_def)
qed

text \<open>The calls of the scheduling server: an action is stored, and the queue is made active.\<close>

lemma kernel_action:
  fixes n :: s32
  assumes laws: "sys_laws E V pool" and S: "kernel_has E pool c m acts x S"
    and n: "1 \<le> sint n" "nat (sint n) < length acts" "length acts = NOTIFICATION_MAX"
  shows "\<exists>S'. call_action (kernel_calls E V) n a S = Ret (0, S') \<and> kernel_has E pool c m (acts[nat (sint n) := a]) x S'"
proof -
  define S1 where "S1 = S\<lparr>user := write_action (user_of E) (action_at V) a (user S)\<rparr>"
  let ?k = "kernel_in S1" and ?F = "fayt_of E"
  obtain i fs where x: "x = (i, fs)" by fastforce
  have S1: "kernel_has E pool c m acts (i, fs) S1" unfolding S1_def using calmD(3) [OF calm_kernel_has S] x by blast
  obtain C Q pt where C: "contexts ?k c = Some C" "\<forall>i < 8. \<not> bit (sysperm C) i" "stack_chain (ustacks ?k) (stacks C) fs"
    "actions C = acts" "lock_free ?F (notification_lock C)" "nqueue C \<noteq> NULL" "queues ?k (nqueue C) = Some Q"
    "page_table_of C \<noteq> NULL" "tables (machine_of S1) (page_table_of C) = Some pt"
    and c: "pmm_inv ?F (mem ?k)" "current_context (core ?k) = c" "c \<noteq> NULL" "i \<le> card {p \<in> pool. \<not> used ?k p}"
    and o: "lock_free ?F (fst (console S1))" "share_map S1 = m" "shares_known (portal_lib E) (share_map S1) (share_point_at S1)"
    using kernel_hasE [OF S1] by blast
  obtain l where l: "spinlock ?F (notification_lock C) = Some l" using C(5) by (auto simp: lock_free_def)
  let ?k' = "?k\<lparr>contexts := (contexts ?k)(c \<mapsto> C\<lparr>actions := acts[nat (sint n) := a], notification_lock := spinrelease ?F l\<rparr>)\<rparr>"
  have v: "notification_is_valid n \<noteq> - 1" using n by (simp add: notification_is_valid_def)
  have "syscall_notification_action ?F ?k n (Some a) False = Ret (0, None, ?k')"
    using c(2,3) C(1,4) l v n by (simp add: syscall_notification_action_def Let_def)
  moreover have "action_at V \<noteq> NULL" "read_action (user_of E) (user S1) (action_at V) = a"
    using sys_lawsD(5) [OF laws] by (simp_all add: user_law_def S1_def)
  ultimately have hd: "handle_action E S1 (zero_registers\<lparr>rax := of_nat 3, rdi := scast n, rsi := action_at V, rdx := 0\<rparr>) = Ret (Code 0, set_kernel ?k' S1)"
    by (simp add: handle_action_def ucast_scast Let_def)
  have "used ?k' q = used ?k q" for q using C(1) by (auto simp: used_def)
  then have "kernel_has E pool c m (acts[nat (sint n) := a]) x (set_kernel ?k' S1)" using C c o x sys_lawsD(1) [OF laws] by auto
  from calmD(4) [OF calm_kernel_has this, of 0]
  have "kernel_has E pool c m (acts[nat (sint n) := a]) x (set_error 0 (set_kernel ?k' S1))" .
  moreover have h: "syscall_handles E ! 3 = Some (handle_action E)" by (simp add: syscall_handles_def)
  ultimately show ?thesis using kernel_call_runs [OF calm_kernel_has S1 _ h, of "scast n" "action_at V" 0] hd
    by (simp add: kernel_calls_def Let_def S1_def [symmetric] del: kernel_has.simps)
qed

definition listening :: "ptr \<Rightarrow> ('l, 'f, 'b, 'c, 'h, 'm, 'd, 'u) sys_state \<Rightarrow> bool" where
  "listening c S \<longleftrightarrow> (\<exists>C Q. contexts (kernel_in S) c = Some C \<and> queues (kernel_in S) (nqueue C) = Some Q \<and> active Q)"

lemma kernel_unmute:
  assumes S: "kernel_has E pool c m acts x S"
  shows "\<exists>S'. call_unmute (kernel_calls E V) S = Ret (0, S') \<and> kernel_has E pool c m acts x S' \<and> listening c S'"
proof -
  let ?k = "kernel_in S"
  obtain i fs where x: "x = (i, fs)" by fastforce
  obtain C Q where C: "contexts ?k c = Some C" "nqueue C \<noteq> NULL" "queues ?k (nqueue C) = Some Q" "c \<noteq> NULL" "current_context (core ?k) = c"
    using S x by auto
  let ?k' = "?k\<lparr>queues := (queues ?k)(nqueue C \<mapsto> Q\<lparr>active := True\<rparr>)\<rparr>"
  have "used ?k' p = used ?k p" for p using C by (auto simp: used_def)
  then have "kernel_has E pool c m acts x (set_kernel ?k' S)" using S x C by auto
  from calmD(4) [OF calm_kernel_has this, of 0] have "kernel_has E pool c m acts x (set_error 0 (set_kernel ?k' S))" .
  moreover have "listening c (set_error 0 (set_kernel ?k' S))" using C by (simp add: listening_def set_error_def)
  moreover have "handle_unmute S r = Ret (Code 0, set_kernel ?k' S)" for r
    using C by (simp add: handle_unmute_def syscall_notification_unmute_def set_active_def Let_def code_def)
  moreover have h: "syscall_handles E ! 6 = Some handle_unmute" by (simp add: syscall_handles_def)
  ultimately show ?thesis using kernel_call_runs [OF calm_kernel_has S _ h, of 0 0 0]
    by (simp add: kernel_calls_def Let_def del: kernel_has.simps)
qed

text \<open>What the scheduling server's image has to satisfy.\<close>

definition image_ok :: "sched_image \<Rightarrow> bool" where
  "image_ok I \<longleftrightarrow> 1 \<le> sint (SCHED_NOTIFY_ENQUEUE I) \<and> sint (SCHED_NOTIFY_ENQUEUE I) < 64 \<and>
     1 \<le> sint (SCHED_NOTIFY_DEQUEUE I) \<and> sint (SCHED_NOTIFY_DEQUEUE I) < 64 \<and> SCHED_NOTIFY_ENQUEUE I \<noteq> SCHED_NOTIFY_DEQUEUE I"

definition registered :: "sched_image \<Rightarrow> notification_action list \<Rightarrow> notification_action list" where
  "registered I acts = acts[nat (sint (SCHED_NOTIFY_ENQUEUE I)) := \<lparr>action_handler = enqueue_entry I\<rparr>,
     nat (sint (SCHED_NOTIFY_DEQUEUE I)) := \<lparr>action_handler = dequeue_entry I\<rparr>]"

lemma kernel_says:
  assumes "sys_laws E V pool" "linked (kernel_calls E V) U" "kernel_has E pool c m acts x (kernel_of s)"
  shows "\<exists>s'. server_print U msg s = Ret s' \<and> kernel_has E pool c m acts x (kernel_of s') \<and> address_space_of s' = address_space_of s"
  using rock.print_keeps [where x = "kernel_has E pool c m acts x" and E = E and V = V and pool = pool and c = c,
      OF assms(2) conjI [OF assms(1) conjI [OF calm_kernel_has assms(3)]], of msg] by blast

lemma sched_init_registers:
  assumes laws: "sys_laws E V pool" "image_ok I" "length acts = NOTIFICATION_MAX" and U: "linked (kernel_calls E V) U"
    and k: "kernel_has E pool c m acts x (kernel_of st)" and link: "link \<noteq> NULL"
  shows "\<exists>meta st'. sched_init U I link st = Ret (Some meta, st') \<and> kernel_has E pool c m (registered I acts) x (kernel_of st') \<and>
    listening c (kernel_of st') \<and> current st \<le> current st'"
proof -
  let ?K = "kernel_calls E V" and ?e = "SCHED_NOTIFY_ENQUEUE I" and ?d = "SCHED_NOTIFY_DEQUEUE I"
  let ?ea = "\<lparr>action_handler = enqueue_entry I\<rparr>" and ?da = "\<lparr>action_handler = dequeue_entry I\<rparr>"
  have K: "calls U = ?K" using U by (simp add: linked_def)
  have e: "1 \<le> sint ?e" "nat (sint ?e) < 64" "1 \<le> sint ?d" "nat (sint ?d) < 64" using laws(2) by (auto simp: image_ok_def)
  obtain k1 where 1: "call_action ?K ?e ?ea (kernel_of st) = Ret (0, k1)" "kernel_has E pool c m (acts[nat (sint ?e) := ?ea]) x k1"
    using kernel_action [OF laws(1) k e(1) _ laws(3)] e(2) laws(3) by auto
  have l: "length (acts[nat (sint ?e) := ?ea]) = NOTIFICATION_MAX" using laws(3) by simp
  obtain k2 where 2: "call_action ?K ?d ?da k1 = Ret (0, k2)" "kernel_has E pool c m (registered I acts) x k2"
    using kernel_action [OF laws(1) 1(2) e(3) _ l, of ?da] e(4) l by (auto simp: registered_def)
  let ?P = "kernel_has E pool c m (registered I acts) x"
  note pr = kernel_says [OF laws(1) U]
  have "?P (kernel_of (st\<lparr>kernel_of := k2\<rparr>))" using 2(2) by simp
  from pr [OF this] obtain st3 where 3: "say U ''SCHEDULER'' ''Initialised enqueue and dequeue notifications'' [] (st\<lparr>kernel_of := k2\<rparr>) = Ret st3"
    "?P (kernel_of st3)" "address_space_of st3 = address_space_of st" by fastforce
  obtain ret addr st4 where 4: "as_allocate U 0x10000 st3 = Ret (ret, addr, st4)" "?P (kernel_of st4)" "current st3 \<le> current st4"
    using rock.allocate_keeps [where x = ?P and E = E and V = V and pool = pool and c = c,
        OF U conjI [OF laws(1) conjI [OF calm_kernel_has 3(2)]], of "0x10000"] by blast
  obtain st5 where 5: "(if ret = - 1 then say U ''SCHEDULER'' ''Failed to allocate address'' [] st4 else Ret st4) = Ret st5" "?P (kernel_of st5)"
    "address_space_of st5 = address_space_of st4"
    using pr [OF 4(2)] 4(2) by (cases "ret = - 1") auto
  let ?q = "link_request ''SCHEDULER META'' LINK_RAW (if ret = - 1 then junk_addr I else addr)"
  obtain ret2 resp k6 where 6: "call_portal ?K ?q (junk_resp I) (kernel_of st5) = Ret (ret2, resp, k6)" "?P k6"
    using kernel_link [OF laws(1) 5(2)] by blast
  have k6: "?P (kernel_of (st5\<lparr>kernel_of := k6\<rparr>))" using 6(2) by simp
  obtain st7 where 7: "(if ret2 = - 1 then say U ''SCHEDULER'' ''Failed to establish link'' [] (st5\<lparr>kernel_of := k6\<rparr>) else Ret (st5\<lparr>kernel_of := k6\<rparr>)) = Ret st7"
    "?P (kernel_of st7)" "address_space_of st7 = address_space_of st5"
    using pr [OF k6] 6(2) by (cases "ret2 = - 1") fastforce+
  obtain k8 where 8: "call_unmute ?K (kernel_of st7) = Ret (0, k8)" "?P k8" "listening c k8"
    using kernel_unmute [OF 7(2)] by blast
  have "sched_init U I link st = Ret (Some (resp_base resp), st7\<lparr>kernel_of := k8\<rparr>)"
    using link 1(1) 2(1) 3(1) 4(1) 5(1) 6(1) 7(1) 8(1) by (simp add: sched_init_def Let_def on_kernel_def K)
  then show ?thesis using 3(3) 4(3) 5(3) 7(3) 8(2,3) by auto
qed

text \<open>The part of \<^verbatim>\<open>main\<close> after the stacks are defined.\<close>

abbreviation linked_core :: "('l, 'h, 'm, 'd, 'u) sys_env \<Rightarrow> 'm \<Rightarrow> bool" where
  "linked_core E m \<equiv> search_share (portal_lib E) m ''SCHEDULER CORE0'' \<noteq> NULL"

lemma sched_link_registers:
  assumes laws: "sys_laws E V pool" "image_ok I" "length acts = NOTIFICATION_MAX" and U: "linked (kernel_calls E V) U"
    and st1: "say U ''SCHEDULER'' ''booting server {processor_id=%x}'' [scast (processor_id desc)] st = Ret st1"
    and st2: "server_boot U ''SCHEDULER'' st1 = Ret (Some addr, st2)" "kernel_has E pool c m acts (n, fs) (kernel_of st2)"
  shows "\<exists>r st'. sched_main U I desc st = Ret (r, st') \<and> (r \<noteq> None \<longleftrightarrow> linked_core E m \<and> addr \<noteq> NULL) \<and>
    (r \<noteq> None \<longrightarrow> listening c (kernel_of st') \<and> current st2 \<le> current st' \<and> kernel_has E pool c m (registered I acts) (n, fs) (kernel_of st'))"
proof -
  note pr = kernel_says [OF laws(1) U]
  obtain ret resp k3 where 3: "call_portal (calls U) (link_request ''SCHEDULER CORE0'' LINK_CIRCULAR addr) (junk_resp I) (kernel_of st2) = Ret (ret, resp, k3)"
    "kernel_has E pool c m acts (n, fs) k3" "if linked_core E m then ret = 0 \<and> resp_base resp = addr else ret = - 1"
    using kernel_link [OF laws(1) st2(2), of "''SCHEDULER CORE0''" LINK_CIRCULAR addr "junk_resp I"] U
    by (auto simp: linked_def simp del: kernel_has.simps)
  let ?st = "st2\<lparr>kernel_of := k3\<rparr>"
  have "kernel_has E pool c m acts (n, fs) (kernel_of ?st)" using 3(2) by (simp del: kernel_has.simps)
  note p3 = pr [OF this]
  obtain st4 where 4: "say U ''SCHEDULER'' ''Has established link with kernel'' [] ?st = Ret st4" "kernel_has E pool c m acts (n, fs) (kernel_of st4)"
    "address_space_of st4 = address_space_of ?st" using p3 by blast
  obtain st5 where 5: "say U ''SCHEDULER'' ''Failed to estabilish link with kernel'' [] ?st = Ret st5" using p3 by blast
  obtain st6 where 6: "say U ''SCHEDULER'' ''Internal critical failure'' [] st4 = Ret st6" using pr [OF 4(2)] by blast
  note run = st1 st2(1) 3(1) 4(1) 5 6
  consider "\<not> linked_core E m" "ret = - 1" | "linked_core E m" "ret = 0" "resp_base resp = addr" "addr = NULL"
    | "linked_core E m" "ret = 0" "resp_base resp = addr" "addr \<noteq> NULL" using 3(3) by (auto split: if_splits)
  then show ?thesis
  proof cases
    case 1
    then have "sched_main U I desc st = Ret (None, st5)" using run by (simp add: sched_main_def Let_def)
    then show ?thesis using 1 by simp
  next
    case 2
    then have "sched_main U I desc st = Ret (None, st6)" using run by (simp add: sched_main_def sched_init_def Let_def)
    then show ?thesis using 2 by simp
  next
    case 3
    obtain meta st7 where 7: "sched_init U I addr st4 = Ret (Some meta, st7)"
      "kernel_has E pool c m (registered I acts) (n, fs) (kernel_of st7)" "listening c (kernel_of st7)" "current st4 \<le> current st7"
      using sched_init_registers [OF laws U 4(2) 3(4)] by blast
    have "sched_main U I desc st = Ret (Some (addr, meta), st7)" using run 3 7(1) by (simp add: sched_main_def Let_def)
    then show ?thesis using 3 7(2-) 4(3) by (auto simp del: kernel_has.simps)
  qed
qed

lemma sched_main_registers:
  assumes laws: "sys_laws E V pool" "image_ok I" "length acts = NOTIFICATION_MAX" and U: "linked (kernel_calls E V) U"
    and k: "kernel_has E pool c m acts (4 + n, fs) (kernel_of st)"
  shows "\<exists>r st'. sched_main U I desc st = Ret (r, st') \<and> (r \<noteq> None \<longrightarrow> linked_core E m \<and> listening c (kernel_of st') \<and>
    (\<exists>rs. length rs = 4 \<and> laid_out (current st) (current st') rs \<and> kernel_has E pool c m (registered I acts) (n, rs @ fs) (kernel_of st')))"
proof -
  obtain st1 where 1: "say U ''SCHEDULER'' ''booting server {processor_id=%x}'' [scast (processor_id desc)] st = Ret st1"
    "kernel_has E pool c m acts (4 + n, fs) (kernel_of st1)" "address_space_of st1 = address_space_of st"
    using kernel_says [OF laws(1) U k] by blast
  have "sys_laws E V pool \<and> kernel_has E pool c m acts (4 + n, fs) (kernel_of st1)" using laws(1) 1(2) by (rule conjI)
  from rock_stacks.server_boot_keeps [OF U this, of "''SCHEDULER''"]
  obtain a st2 rs where 2: "server_boot U ''SCHEDULER'' st1 = Ret (a, st2)" "kernel_has E pool c m acts (4 + n - length rs, rs @ fs) (kernel_of st2)"
    "laid_out (current st1) (current st2) rs" "\<forall>addr. a = Some addr \<longrightarrow> length rs = 4" by blast
  show ?thesis
  proof (cases a)
    case None
    then have "sched_main U I desc st = Ret (None, st2)" using 1(1) 2(1) by (simp add: sched_main_def Let_def)
    then show ?thesis by simp
  next
    case (Some addr)
    then have n: "length rs = 4" using 2(4) by simp
    then have "kernel_has E pool c m acts (n, rs @ fs) (kernel_of st2)" using 2(2) by (simp del: kernel_has.simps)
    note sched_link_registers [OF laws U 1(1) 2(1) [unfolded Some] this]
    moreover have "laid_out (current st) (current st') rs" if "current st2 \<le> current st'" for st'
      using laid_out_wider [OF 2(3), of "current st" "current st'"] 1(3) that by simp
    ultimately show ?thesis using n by blast
  qed
qed

section \<open>Properties\<close>

text \<open>
  C21. The file system and device servers start on this kernel: when their context may make every call and has a page table, there is
  room for the stacks, nobody holds the console and every share point in the share map exists, their \<^verbatim>\<open>main\<close> reaches its last loop; its
  calls go through the kernel's own table of handlers. When it reaches the loop that serves, the kernel has four
  more notification stacks for the context, none in use, each of 64 KiB, disjoint from each other and in the part
  of the address space that start-up took; the allocator's invariant holds and the registered actions are unchanged.
  The library the server is linked with is assumed to output through the log call and to make only requests that neither map pages nor create share points.
\<close>

theorem idle_servers_ready:
  assumes "sys_laws E V pool" "linked (kernel_calls E V) U"
    and "kernel_has E pool c m acts (4 + n, fs) (kernel_of st)" "main = vfs_main \<or> main = nvme_main"
  shows "\<exists>r st' rs. main U st = Ret (r, st') \<and> (r = Serving \<longrightarrow> length rs = 4) \<and> length rs \<le> 4 \<and>
    kernel_has E pool c m acts (4 + n - length rs, rs @ fs) (kernel_of st') \<and> laid_out (current st) (current st') rs"
proof -
  note k = rock_stacks.idle_server_keeps [OF assms(2) conjI [OF assms(1,3)]]
  show ?thesis using assms(4) k [of "''VFS''" "''Hi from the VFS''"] k [of "''NVME''" "''Hi''"] unfolding vfs_main_def nvme_main_def by blast
qed

text \<open>
  C22. The scheduling server starts on this kernel, under the same conditions: its \<^verbatim>\<open>main\<close> reaches the loop of \<^verbatim>\<open>sched\<close> or the one behind
  \<^verbatim>\<open>failure\<close>, and the latter if the kernel has not made the link \<^verbatim>\<open>SCHEDULER CORE0\<close>. In \<^verbatim>\<open>sched\<close> the kernel has its four
  notification stacks, the enqueue and dequeue handlers are stored under their numbers and under no other, and the notification
  queue is active.
\<close>

theorem sched_server_ready:
  assumes "sys_laws E V pool" "image_ok I" "length acts = NOTIFICATION_MAX"
    and "linked (kernel_calls E V) U" "kernel_has E pool c m acts (4 + n, fs) (kernel_of st)"
  shows "\<exists>r st'. sched_main U I desc st = Ret (r, st') \<and> (r \<noteq> None \<longrightarrow> linked_core E m \<and> listening c (kernel_of st') \<and>
    (\<exists>rs. length rs = 4 \<and> laid_out (current st) (current st') rs \<and> kernel_has E pool c m (registered I acts) (n, rs @ fs) (kernel_of st')))"
  using sched_main_registers [OF assms] .

text \<open>
  C39. Every notification reaches the handler of another number: when the scheduling server has reached its loop and the kernel,
  with the actions as they then are, delivers number \<open>i\<close> to it, the enqueue handler is entered exactly when \<open>i\<close> is one more than \<^verbatim>\<open>SCHED_NOTIFY_ENQUEUE\<close>.
\<close>

theorem sched_notifications_shifted:
  assumes "sys_laws E V pool" "image_ok I" "length acts = NOTIFICATION_MAX"
    and "linked (kernel_calls E V) U" "kernel_has E pool c m acts (4 + n, fs) (kernel_of st)" "sched_main U I desc st = Ret (Some both, st')"
    and "map_option actions (contexts k0 c) = map_option actions (contexts (kernel_in (kernel_of st')) c)"
    and "deliver k0 c u ust nt i = Ret k'" "1 \<le> i" "i \<le> 64" "enqueue_entry I \<notin> action_handler ` set acts" "enqueue_entry I \<noteq> dequeue_entry I"
  shows "\<exists>X. uctxs k' u = Some X \<and> (rip (ucontext_regs X) = enqueue_entry I \<longleftrightarrow> i = sint (SCHED_NOTIFY_ENQUEUE I) + 1)"
proof -
  let ?e = "nat (sint (SCHED_NOTIFY_ENQUEUE I))" and ?d = "nat (sint (SCHED_NOTIFY_DEQUEUE I))"
  have e: "?e < 64" "?d < 64" "?e \<noteq> ?d" "int ?e = sint (SCHED_NOTIFY_ENQUEUE I)"
    using assms(2) by (auto simp: image_ok_def nat_eq_iff2 dest: signed_word_eqI)
  obtain rs where "kernel_has E pool c m (registered I acts) (n, rs @ fs) (kernel_of st')"
    using sched_main_registers [OF assms(1-5), of desc] assms(6) by auto
  then obtain C where C: "contexts k0 c = Some C" "actions C = registered I acts" using assms(7) by auto
  obtain X where X: "uctxs k' u = Some X" "rip (ucontext_regs X) = action_handler (registered I acts ! nat (i - 1))"
    using assms(8-10) C by (auto simp: deliver_def slot_valid split: if_splits)
  have "acts ! nat (i - 1) \<in> set acts" using assms(3,9,10) by (intro nth_mem) simp
  then have "action_handler (acts ! nat (i - 1)) \<noteq> enqueue_entry I" using assms(11) by (auto simp: image_iff)
  then have "action_handler (registered I acts ! nat (i - 1)) = enqueue_entry I \<longleftrightarrow> nat (i - 1) = ?e"
    using assms(3,9,10,12) e(1-3) by (auto simp: registered_def nth_list_update)
  moreover have "nat (i - 1) = ?e \<longleftrightarrow> i = sint (SCHED_NOTIFY_ENQUEUE I) + 1" using e(4) assms(9) by linarith
  ultimately show ?thesis using X by simp
qed

text \<open>The descriptor as the server reads it from its argument: the kernel's has no \<^verbatim>\<open>cid\<close>, so the last field is what follows it.\<close>

definition parse_sched_descriptor :: "u8 list \<Rightarrow> sched_descriptor" where
  "parse_sched_descriptor bs = \<lparr>processor_id = field 0 4 bs, queue_default_refill = field 4 4 bs, load = field 8 4 bs, d_cid = field 12 4 bs\<rparr>"

lemma sched_turns_queued:
  assumes "link_opens E" "\<And>q x. push q x = Some (q @ [x])" "\<And>k. P k \<Longrightarrow> (\<exists>e. call_yield (calls U) k = Ret (e, y k)) \<and> P (y k)"
    and "P (kernel_of st)"
  shows "sched_turns U E push desc ts q st =
    Ret (Some (q @ concat (map (\<lambda>t. replicate (nat (sint (queue_default_refill desc))) (traverse t)) ts)), st\<lparr>kernel_of := (y ^^ length ts) (kernel_of st)\<rparr>)"
  using assms(4)
proof (induction ts arbitrary: q st)
  case (Cons t ts)
  let ?n = "nat (sint (queue_default_refill desc))"
  obtain e where e: "call_yield (calls U) (kernel_of st) = Ret (e, y (kernel_of st))" "P (y (kernel_of st))" using assms(3) Cons.prems by blast
  have "refill E push t ?n q = Some (q @ replicate ?n (traverse t))" by (rule refill_repeats [OF assms(1,2)])
  then have "sched_turn U E push desc t q st = Ret (Some (q @ replicate ?n (traverse t)), st\<lparr>kernel_of := y (kernel_of st)\<rparr>)"
    using e(1) by (simp add: sched_turn_def on_kernel_def)
  then show ?case using Cons.IH [of "st\<lparr>kernel_of := y (kernel_of st)\<rparr>"] e(2) by (simp add: funpow_swap1)
qed simp

lemma parse_refill:
  "queue_default_refill (parse_sched_descriptor (enc 4 a @ enc 4 (unat r) @ rest)) = r" for r :: s32
  using field_enc [of 4 r rest] by (simp add: parse_sched_descriptor_def field_def)


section \<open>A concrete system\<close>

text \<open>
  A library with an allocator that hands out addresses in order, caches that take one page, and a formatter that
  writes the format string; an address pool of four.
\<close>

definition bump :: "u64 \<Rightarrow> 'k process \<Rightarrow> (s32 \<times> u64 \<times> 'k process) outcome" where
  "bump n st = (let S = address_space_of st in
     if unat (as_current S) + unat n \<le> unat (as_limit S)
     then Ret (0, as_current S, st\<lparr>address_space_of := S\<lparr>as_current := as_current S + n\<rparr>\<rparr>) else Ret (- 1, 0, st))"

definition demo_lib :: "'k calls \<Rightarrow> 'k server_lib" where
  "demo_lib K = \<lparr>calls = K, as_allocate = bump, create_cache = (\<lambda>al name sz st. obind (al 1 st) (\<lambda>(_, st). Ret st)),
     format = (\<lambda>w m k. obind (write_all w (plain m) k) (\<lambda>k. Ret (0, k)))\<rparr>"

lemma write_all_keeps: "(\<And>c k. P k \<Longrightarrow> \<exists>k'. w c k = Ret k' \<and> P k') \<Longrightarrow> P k \<Longrightarrow> \<exists>k'. write_all w xs k = Ret k' \<and> P k'"
proof (induction xs arbitrary: k)
  case (Cons c xs)
  obtain k1 where "w c k = Ret k1" "P k1" using Cons.prems by blast
  then show ?case using Cons.IH [OF Cons.prems(1)] by auto
qed auto

lemma demo_linked: "linked K (demo_lib K)"
proof -
  have "format_law (demo_lib K)" unfolding format_law_def
  proof (intro allI impI)
    fix P m and w :: "u8 \<Rightarrow> 'a \<Rightarrow> 'a outcome" and k :: 'a
    assume "\<forall>c k. P k \<longrightarrow> (\<exists>k'. w c k = Ret k' \<and> P k')" "P k"
    then show "\<exists>e k'. format (demo_lib K) w m k = Ret (e, k') \<and> P k'"
      using write_all_keeps [of P w k "plain m"] by (auto simp: demo_lib_def)
  qed
  moreover have "server_cache_law (demo_lib K)" by (fastforce simp: server_cache_law_def demo_lib_def)
  moreover have "allocate_law (demo_lib K)" unfolding allocate_law_def
  proof (intro allI impI)
    fix P n and st :: "'a process"
    let ?S = "address_space_of st"
    assume "P (kernel_of st)"
    moreover have "unat (as_current ?S + n) = unat (as_current ?S) + unat n" if "unat (as_current ?S) + unat n \<le> unat (as_limit ?S)"
      using that unsigned_less [of "as_limit ?S", where ?'a = nat] by (simp add: unat_word_ariths)
    ultimately show "\<exists>ret addr st'. as_allocate (demo_lib K) n st = Ret (ret, addr, st') \<and> P (kernel_of st') \<and> current st \<le> current st' \<and>
        (ret \<noteq> - 1 \<longrightarrow> current st \<le> unat addr \<and> unat addr + unat n \<le> current st')"
      by (simp add: demo_lib_def bump_def Let_def)
  qed
  ultimately show ?thesis by (simp add: linked_def demo_lib_def)
qed

definition pool_slab :: "'l slab" where
  "pool_slab = (slab_ref 0)\<lparr>alloc_addr := (\<lambda>k. if \<not> used k 0x70 then 0x70 else if \<not> used k 0x80 then 0x80 else if \<not> used k 0x90 then 0x90 else 0xa0)\<rparr>"

lemma pool_slab_law: "slab_pool pool_slab {0x70, 0x80, 0x90, 0xa0}"
  by (auto simp: slab_pool_def slab_laws_def pool_slab_def slab_ref_def)

text \<open>The system of \<open>Syscall\<close> with a context that has a queue and a page table, and with the link the kernel makes for the first core.\<close>

abbreviation demo_kenv :: "(bool, (u64 \<times> page) list, (string \<times> ptr) list, u8 list, demo_user) sys_env" where
  "demo_kenv \<equiv> demo_sys_env\<lparr>slab_of := pool_slab\<rparr>"

definition demo_frame :: user_frame where
  "demo_frame = \<lparr>action_at = 0x20000, request_at = 0x20100, response_at = 0x20200\<rparr>"

abbreviation demo_shares :: "(string \<times> ptr) list" where
  "demo_shares \<equiv> [(''SCHEDULER CORE0'', 0x40)]"

definition demo_start ::
  "(bool, nat, nat, s32 \<Rightarrow> ptr, (u64 \<times> page) list, (string \<times> ptr) list, u8 list, demo_user) sys_state" where
  "demo_start = (demo_sys (demo_machine\<lparr>kern := demo_kernel\<lparr>contexts := [0x10 \<mapsto> demo_context\<lparr>page_table_of := 0x80, fpu_context := 0x90\<rparr>]\<rparr>\<rparr>))
     \<lparr>share_map := demo_shares, share_point_at := [0x40 \<mapsto> \<lparr>sp_identifier = ''SCHEDULER CORE0'', sp_length = 56, sp_paddr = []\<rparr>]\<rparr>"

definition demo_sched_image :: sched_image where
  "demo_sched_image = \<lparr>enqueue_entry = 0x402000, dequeue_entry = 0x403000, SCHED_NOTIFY_ENQUEUE = 1, SCHED_NOTIFY_DEQUEUE = 2, junk_addr = 0,
     junk_resp = \<lparr>resp_base = 0, resp_limit = 0, resp_flags = 0\<rparr>\<rparr>"

lemma demo_sys_laws: "sys_laws demo_kenv demo_frame {0x70, 0x80, 0x90, 0xa0}"
proof -
  have "user_law demo_um demo_frame" by (auto simp: user_law_def demo_um_def demo_frame_def split: prod.split)
  moreover have "renders (\<lambda>w msg. write_all w (plain msg)) plain" by (simp add: renders_def)
  ultimately show ?thesis using fayt_laws_ref pool_slab_law demo_line_law unfolding sys_laws_def by (auto simp: demo_sys_env_def)
qed

abbreviation demo_holds ::
  "notification_action list \<Rightarrow> nat \<times> (u64 \<times> u64) list \<Rightarrow>
   (bool, nat, nat, s32 \<Rightarrow> ptr, (u64 \<times> page) list, (string \<times> ptr) list, u8 list, demo_user) sys_state \<Rightarrow> bool" where
  "demo_holds \<equiv> kernel_has demo_kenv {0x70, 0x80, 0x90, 0xa0} 0x10 demo_shares"

lemma demo_has: "demo_holds (actions demo_context) (4 + 0, [(0x30000, 0x10000)]) demo_start"
proof -
  let ?k = "kernel_in demo_start"
  have "{p \<in> {0x70, 0x80, 0x90, 0xa0}. \<not> used ?k p} = {0x70, 0x80, 0x90, 0xa0}" by (auto simp: used_def demo_kernel_def demo_start_def demo_sys_def)
  then have "4 \<le> card {p \<in> {0x70, 0x80, 0x90, 0xa0}. \<not> used ?k p}" by simp
  moreover have "shares_known deps_ref demo_shares (share_point_at demo_start)" by (simp add: shares_known_def deps_ref_def demo_start_def)
  moreover have "fayt_of demo_kenv = fayt_ref" "portal_lib demo_kenv = deps_ref" by (simp_all add: demo_sys_env_def)
  moreover have "lock_free fayt_ref False" by (simp add: lock_free_def fayt_ref_def)
  ultimately show ?thesis using demo_inv [of 64] by (simp add: demo_start_def demo_sys_def demo_kernel_def demo_context_def demo_queue_def demo_ustack_def demo_stack_def demo_machine_def)
qed

lemma demo_sched_image_ok: "image_ok demo_sched_image" "length (actions demo_context) = NOTIFICATION_MAX"
  by (simp_all add: image_ok_def demo_sched_image_def demo_context_def)

text \<open>The run of the servers on this system: they get as far as their loops.\<close>

abbreviation demo_user_lib ::
  "(bool, nat, nat, s32 \<Rightarrow> ptr, (u64 \<times> page) list, (string \<times> ptr) list, u8 list, demo_user) sys_state server_lib" where
  "demo_user_lib \<equiv> demo_lib (kernel_calls demo_kenv demo_frame)"

definition demo_at :: "'k \<Rightarrow> u64 \<Rightarrow> 'k process" where
  "demo_at k a = \<lparr>kernel_of = k, address_space_of = initial_address_space\<lparr>as_current := a\<rparr>\<rparr>"

lemma demo_at_simps [simp]: "kernel_of (demo_at k a) = k" "address_space_of (demo_at k a) = initial_address_space\<lparr>as_current := a\<rparr>"
  "(demo_at k a)\<lparr>kernel_of := k'\<rparr> = demo_at k' a" "current (demo_at k a) = unat a"
  by (simp_all add: demo_at_def)

lemma demo_atI: "kernel_of st = k \<Longrightarrow> address_space_of st = initial_address_space\<lparr>as_current := a\<rparr> \<Longrightarrow> st = demo_at k a"
  by (cases st) (simp add: demo_at_def)

lemma demo_bump: "unat a + unat n < 0xf00000000000 \<Longrightarrow> as_allocate (demo_lib K) n (demo_at k a) = Ret (0, a, demo_at k (a + n))"
  by (simp add: demo_lib_def bump_def Let_def initial_address_space_def demo_at_def)

lemma demo_caches:
  "unat a + length caches * 0x1000 < 0xf00000000000 \<Longrightarrow>
   create_caches (create_cache (demo_lib K) (server_spalloc (demo_lib K))) caches (demo_at k a) = Ret (demo_at k (a + of_nat (length caches) * 0x1000))"
proof (induction caches arbitrary: a)
  case (Cons c caches)
  have a: "unat (a + 0x1000) = unat a + 0x1000" using Cons.prems by (simp add: unat_add_exact)
  have "server_spalloc (demo_lib K) 1 (demo_at k a) = Ret (a, demo_at k (a + 0x1000))"
    using demo_bump [of a "0x1000" K k] Cons.prems by (simp add: server_spalloc_def)
  then have "create_cache (demo_lib K) (server_spalloc (demo_lib K)) (fst c) (snd c) (demo_at k a) = Ret (demo_at k (a + 0x1000))"
    by (simp add: demo_lib_def)
  moreover have "unat (a + 0x1000) + length caches * 0x1000 < 0xf00000000000" using Cons.prems a by simp
  ultimately show ?case using Cons.IH [of "a + 0x1000"] by (cases c) (simp add: algebra_simps)
qed simp

lemma demo_say:
  assumes "demo_holds acts x k"
  shows "\<exists>k'. server_print demo_user_lib msg (demo_at k a) = Ret (demo_at k' a) \<and> demo_holds acts x k'"
proof -
  have "demo_holds acts x (kernel_of (demo_at k a))" using assms by (simp del: kernel_has.simps)
  from kernel_says [OF demo_sys_laws demo_linked this, of msg]
  obtain s' where "server_print demo_user_lib msg (demo_at k a) = Ret s'" "demo_holds acts x (kernel_of s')"
    "address_space_of s' = address_space_of (demo_at k a)" by blast
  then show ?thesis using demo_atI [of s' "kernel_of s'" a] by (intro exI [of _ "kernel_of s'"]) simp
qed

lemma demo_stacks:
  "demo_holds acts (n + r, fs) k \<Longrightarrow> unat a + n * 0x10000 < 0xf00000000000 \<Longrightarrow>
   \<exists>k' fs'. define_stacks demo_user_lib tag n i (demo_at k a) = Ret (True, demo_at k' (a + of_nat n * 0x10000)) \<and> demo_holds acts (r, fs') k'"
proof (induction n arbitrary: i k a fs)
  case (Suc n)
  let ?U = demo_user_lib
  have a: "unat (a + 0x10000) = unat a + 0x10000" using Suc.prems(2) by (simp add: unat_add_exact)
  have al: "as_allocate ?U 0x10000 (demo_at k a) = Ret (0, a, demo_at k (a + 0x10000))" using demo_bump [of a "0x10000"] Suc.prems(2) by simp
  have "demo_holds acts (Suc (n + r), fs) k" using Suc.prems(1) by (simp del: kernel_has.simps)
  from kernel_define_stack [OF demo_sys_laws this, of "a + 0x10000" "0x10000"]
  obtain k1 where k1: "kernel_call demo_kenv 4 (a + 0x10000) 0x10000 0 k = Ret (0, k1)" "demo_holds acts (n + r, (a + 0x10000, 0x10000) # fs) k1" by blast
  have d: "on_kernel (call_define_stack (calls ?U) (a + 0x10000) 0x10000) (demo_at k (a + 0x10000)) = Ret (0, demo_at k1 (a + 0x10000))"
    using k1(1) by (simp add: on_kernel_def kernel_calls_def Let_def demo_lib_def)
  obtain k2 where k2: "say ?U tag ''Allocated notificaton stack #%d [%x:%x]'' [i, a, 0x10000] (demo_at k1 (a + 0x10000)) = Ret (demo_at k2 (a + 0x10000))"
    "demo_holds acts (n + r, (a + 0x10000, 0x10000) # fs) k2" using demo_say [OF k1(2)] by blast
  have "unat (a + 0x10000) + n * 0x10000 < 0xf00000000000" using Suc.prems(2) a by simp
  from Suc.IH [OF k2(2) this, of "i + 1"] obtain k' fs' where
    "define_stacks ?U tag n (i + 1) (demo_at k2 (a + 0x10000)) = Ret (True, demo_at k' (a + 0x10000 + of_nat n * 0x10000))" "demo_holds acts (r, fs') k'" by blast
  then show ?case using al d k2(1) by (auto simp: algebra_simps simp del: kernel_has.simps)
qed auto

abbreviation demo_process ::
  "(bool, nat, nat, s32 \<Rightarrow> ptr, (u64 \<times> page) list, (string \<times> ptr) list, u8 list, demo_user) sys_state process" where
  "demo_process \<equiv> demo_at demo_start 0xa0000000"

lemma demo_boots:
  assumes "demo_holds acts (4 + 0, fs) k"
  shows "\<exists>k' fs'. server_boot demo_user_lib tag (demo_at k 0xa0000000) = Ret (Some 0xa0046000, demo_at k' 0xa0056000) \<and> demo_holds acts (0, fs') k'"
proof -
  have c: "create_caches (create_cache demo_user_lib (server_spalloc demo_user_lib)) server_caches (demo_at k 0xa0000000) = Ret (demo_at k 0xa0006000)"
    using demo_caches [of "0xa0000000" server_caches "kernel_calls demo_kenv demo_frame" k] by (simp add: server_caches_def del: create_caches.simps)
  obtain k1 where 1: "say demo_user_lib tag ''Slab cache directory initialised'' [] (demo_at k 0xa0006000) = Ret (demo_at k1 0xa0006000)"
    "demo_holds acts (4 + 0, fs) k1" using demo_say [OF assms] by blast
  obtain k2 fs' where 2: "define_stacks demo_user_lib tag 4 0 (demo_at k1 0xa0006000) = Ret (True, demo_at k2 0xa0046000)" "demo_holds acts (0, fs') k2"
    using demo_stacks [OF 1(2), of "0xa0006000" tag 0] by auto
  have "as_allocate demo_user_lib 0x10000 (demo_at k2 0xa0046000) = Ret (0, 0xa0046000, demo_at k2 0xa0056000)" using demo_bump [of "0xa0046000" "0x10000"] by simp
  then have "server_boot demo_user_lib tag (demo_at k 0xa0000000) = Ret (Some 0xa0046000, demo_at k2 0xa0056000)"
    using c 1(1) 2(1) by (simp add: server_boot_def)
  then show ?thesis using 2(2) by blast
qed

lemma demo_vfs_runs: "\<exists>k'. vfs_main demo_user_lib demo_process = Ret (Serving, demo_at k' 0xa0056000)"
proof -
  obtain k1 where 1: "say demo_user_lib ''VFS'' ''booting server'' [] demo_process = Ret (demo_at k1 0xa0000000)" "demo_holds (actions demo_context) (4 + 0, [(0x30000, 0x10000)]) k1"
    using demo_say [OF demo_has] by blast
  obtain k2 fs where 2: "server_boot demo_user_lib ''VFS'' (demo_at k1 0xa0000000) = Ret (Some 0xa0046000, demo_at k2 0xa0056000)" "demo_holds (actions demo_context) (0, fs) k2"
    using demo_boots [OF 1(2)] by blast
  obtain k3 where "say demo_user_lib ''VFS'' ''Hi from the VFS'' [] (demo_at k2 0xa0056000) = Ret (demo_at k3 0xa0056000)" using demo_say [OF 2(2)] by blast
  then show ?thesis using 1(1) 2(1) by (intro exI [of _ k3]) (simp add: vfs_main_def idle_server_def)
qed

lemma demo_sched_runs: "\<exists>both st'. sched_main demo_user_lib demo_sched_image desc demo_process = Ret (Some both, st')"
proof -
  obtain k1 where 1: "say demo_user_lib ''SCHEDULER'' ''booting server {processor_id=%x}'' [scast (processor_id desc)] demo_process = Ret (demo_at k1 0xa0000000)"
    "demo_holds (actions demo_context) (4 + 0, [(0x30000, 0x10000)]) k1"
    using demo_say [OF demo_has] by blast
  obtain k2 fs where 2: "server_boot demo_user_lib ''SCHEDULER'' (demo_at k1 0xa0000000) = Ret (Some 0xa0046000, demo_at k2 0xa0056000)"
    "demo_holds (actions demo_context) (0, fs) (kernel_of (demo_at k2 0xa0056000))"
    using demo_boots [OF 1(2), of "''SCHEDULER''"] unfolding demo_at_simps by blast
  have "linked_core demo_kenv demo_shares" by (simp add: demo_sys_env_def deps_ref_def)
  then show ?thesis using sched_link_registers [OF demo_sys_laws demo_sched_image_ok demo_linked 1(1) 2] by (auto simp del: kernel_has.simps)
qed

lemma demo_process_has: "demo_holds (actions demo_context) (4 + 0, [(0x30000, 0x10000)]) (kernel_of demo_process)"
  using demo_has by (simp del: kernel_has.simps)

theorem idle_servers_ready_witness:
  "\<exists>st' rs. vfs_main demo_user_lib demo_process = Ret (Serving, st') \<and> length rs = 4 \<and> laid_out 0xa0000000 (current st') rs \<and>
     demo_holds (actions demo_context) (0, rs @ [(0x30000, 0x10000)]) (kernel_of st')"
  using idle_servers_ready [OF demo_sys_laws demo_linked demo_process_has, of vfs_main] demo_vfs_runs
  by (auto simp del: kernel_has.simps)

theorem sched_server_ready_witness:
  "\<exists>both st'. sched_main demo_user_lib demo_sched_image \<lparr>processor_id = 0, queue_default_refill = 0, load = 0, d_cid = 0\<rparr> demo_process
     = Ret (Some both, st') \<and> listening 0x10 (kernel_of st')"
proof -
  let ?d = "\<lparr>processor_id = 0, queue_default_refill = 0, load = 0, d_cid = 0\<rparr>"
  obtain both st' where s: "sched_main demo_user_lib demo_sched_image ?d demo_process = Ret (Some both, st')" using demo_sched_runs by blast
  then show ?thesis using sched_server_ready [OF demo_sys_laws demo_sched_image_ok demo_linked demo_process_has, of ?d] by (auto simp del: kernel_has.simps)
qed

theorem sched_notifications_shifted_witness:
  "\<exists>(k0 :: bool kernel) k' X. deliver k0 0x10 0x50 0x40 0x30 2 = Ret k' \<and> uctxs k' 0x50 = Some X \<and> rip (ucontext_regs X) = enqueue_entry demo_sched_image \<and>
     SCHED_NOTIFY_ENQUEUE demo_sched_image = 1"
proof -
  obtain both st' where s: "sched_main demo_user_lib demo_sched_image desc demo_process = Ret (Some both, st')" using demo_sched_runs by blast
  obtain rs where "demo_holds (registered demo_sched_image (actions demo_context)) (0, rs) (kernel_of st')"
    using sched_main_registers [OF demo_sys_laws demo_sched_image_ok demo_linked demo_process_has, of desc] s by (auto simp del: kernel_has.simps)
  then obtain C where C: "contexts (kernel_in (kernel_of st')) 0x10 = Some C" "length (actions C) = 64" by (auto simp: registered_def demo_context_def)
  define k0 where "k0 = demo_kernel\<lparr>contexts := contexts (kernel_in (kernel_of st'))\<rparr>"
  obtain k' where k': "deliver k0 0x10 0x50 0x40 0x30 2 = Ret k'"
    using C by (simp add: deliver_def slot_index_def k0_def demo_kernel_def)
  have "\<exists>X. uctxs k' 0x50 = Some X \<and>
      (rip (ucontext_regs X) = enqueue_entry demo_sched_image \<longleftrightarrow> 2 = sint (SCHED_NOTIFY_ENQUEUE demo_sched_image) + 1)"
    by (rule sched_notifications_shifted [OF demo_sys_laws demo_sched_image_ok demo_linked demo_process_has s _ k'])
      (auto simp: k0_def demo_sched_image_def demo_context_def dest!: set_update_subset_insert [THEN subsetD])
  then obtain X where X: "uctxs k' 0x50 = Some X" "rip (ucontext_regs X) = enqueue_entry demo_sched_image" by (auto simp: demo_sched_image_def)
  have "SCHED_NOTIFY_ENQUEUE demo_sched_image = 1" by (simp add: demo_sched_image_def)
  with k' X show ?thesis by blast
qed

text \<open>The loop on this kernel, where a yield finds nothing to switch to and comes back: a tree with one thread and an empty one, and a refill of two.\<close>

definition demo_yielded ::
  "(bool, nat, nat, s32 \<Rightarrow> ptr, (u64 \<times> page) list, (string \<times> ptr) list, u8 list, demo_user) sys_state \<Rightarrow>
   (bool, nat, nat, s32 \<Rightarrow> ptr, (u64 \<times> page) list, (string \<times> ptr) list, u8 list, demo_user) sys_state" where
  "demo_yielded S = set_error 0 (S\<lparr>machine_of := (machine_of S)\<lparr>reschedule_lock := False, eois := Suc (eois (machine_of S))\<rparr>\<rparr>)"

definition demo_idle ::
  "(bool, nat, nat, s32 \<Rightarrow> ptr, (u64 \<times> page) list, (string \<times> ptr) list, u8 list, demo_user) sys_state \<Rightarrow> bool" where
  "demo_idle S \<longleftrightarrow> (\<exists>C. contexts (kernel_in S) 0x10 = Some C \<and> \<not> bit (sysperm C) 2) \<and> current_context (core (kernel_in S)) = 0x10 \<and>
     \<not> reschedule_lock (machine_of S) \<and> delivery_stack (core (kernel_in S)) = [] \<and> thread_queue (core (kernel_in S)) = [] \<and>
     scheduling_server (core (kernel_in S)) = NULL"

lemma demo_yields:
  assumes "demo_idle S"
  shows "call_yield (calls demo_user_lib) S = Ret (0, demo_yielded S)" "demo_idle (demo_yielded S)"
proof -
  let ?r = "zero_registers\<lparr>rax := 2, rdi := 0, rsi := 0, rdx := 0\<rparr>"
  obtain C where C: "contexts (kernel_in S) 0x10 = Some C" "\<not> bit (sysperm C) 2" "current_context (core (kernel_in S)) = 0x10" "(0x10 :: ptr) \<noteq> NULL"
    using assms by (auto simp: demo_idle_def)
  have l: "spinlock (fayt_of demo_kenv) (reschedule_lock (machine_of S)) = Some True" "spinrelease (fayt_of demo_kenv) True = False"
    "vector_pop_law (slab_of demo_kenv)"
    using assms by (simp_all add: demo_idle_def demo_sys_env_def fayt_ref_def vector_pop_law_def pool_slab_def slab_ref_def)
  have "handle_yield demo_kenv S ?r = Ret (Code 0, S\<lparr>machine_of := (machine_of S)\<lparr>reschedule_lock := False, eois := Suc (eois (machine_of S))\<rparr>\<rparr>)"
    using yield_idle [OF l(3,1), of ?r] assms l(2) by (simp add: demo_idle_def)
  then have "syscall_handler of_nat demo_kenv (syscall_handles demo_kenv) S ?r = Ret (Inl 0, demo_yielded S)"
    using yield_runs [of of_nat S "0x10" C ?r demo_kenv, OF _ C(3,4,1,2)] by (simp add: demo_yielded_def)
  then show "call_yield (calls demo_user_lib) S = Ret (0, demo_yielded S)"
    by (simp add: demo_lib_def kernel_calls_def kernel_call_def Let_def)
  show "demo_idle (demo_yielded S)" using assms by (simp add: demo_idle_def demo_yielded_def set_error_def set_kernel_def)
qed


end
