(* ===== verification/Loading.thy ===== *)
theory Loading
  imports Elf
begin

unbundle bit_operations_syntax

text \<open>
  An executable with page-aligned segments of a page at least (\<^verbatim>\<open>elf64_file_load\<close>): all its \<^verbatim>\<open>PT_LOAD\<close> segments and its \<^verbatim>\<open>.bss\<close> section are in memory at the
  end, because loading one segment disturbs none of the frames the earlier ones were loaded into.
\<close>

section \<open>Frames that stay as they are\<close>

definition frame_byte :: "'l kstate \<Rightarrow> u64 \<Rightarrow> nat \<Rightarrow> u8" where
  "frame_byte s a i = cell_byte (memory s) (a + HIGH_VMA s + of_nat i)"

lemma frame_byte_cell:
  assumes "4096 dvd unat (a + HIGH_VMA s)" "i < 4096"
  shows "frame_byte s a i = ucast (drop_bit (8 * (i mod 8)) (pml_read s (a + HIGH_VMA s) (of_nat (i div 8))))"
proof -
  define t where "t = a + HIGH_VMA s"
  define j where "j = (of_nat (i div 8) :: u16)"
  have jn: "unat j = i div 8" using assms(2) by (simp add: j_def unat_of_nat take_bit_nat_eq_self)
  then have j: "j < 512" using assms(2) by (simp add: word_less_nat_alt)
  have u: "(ucast j :: u64) = of_nat (i div 8)" by (simp flip: jn)
  have al: "8 dvd unat (slot t j)" using slot_aligned [of t j] j assms(1) by (simp add: t_def)
  have "of_nat i = (of_nat (8 * (i div 8)) + of_nat (i mod 8) :: u64)" by (metis mult_div_mod_eq of_nat_add)
  then have "t + of_nat i = slot t j + of_nat (i mod 8)" by (simp add: slot_def u)
  then show ?thesis using cell_byte_at [OF al, of "i mod 8" "memory s"]
    by (simp add: frame_byte_def pml_read_def t_def [symmetric] j_def [symmetric])
qed

lemma small_index: "i < 4096 \<Longrightarrow> (of_nat (i div 8) :: u16) < 512"
  by (simp add: word_less_nat_alt unat_of_nat take_bit_nat_eq_self)

lemma frame_byte_agree:
  assumes "agree_on D s s'" "frames_aligned D s" "a \<in> D" "i < 4096"
  shows "frame_byte s' a i = frame_byte s a i"
  using assms table_aligned [OF assms(2), of "a + HIGH_VMA s"] frame_byte_cell [of a s i] frame_byte_cell [of a s' i] small_index [OF assms(4)]
  by (simp add: agree_on_def)

lemma zero_frame_byte:
  assumes "zero_frame s a" "frames_aligned D s" "a \<in> D" "i < 4096"
  shows "frame_byte s a i = 0"
  using assms table_aligned [OF assms(2), of "a + HIGH_VMA s"] frame_byte_cell [of a s i] small_index [OF assms(4)]
  by (simp add: zero_frame_def)

section \<open>Segments\<close>

definition seg_cnt :: "elf64_phdr \<Rightarrow> nat" where
  "seg_cnt p = (unat (p_filesz p) + 4095) div 4096"

definition seg_page :: "elf64_file \<Rightarrow> elf64_phdr \<Rightarrow> nat \<Rightarrow> u64" where
  "seg_page f p j = range_addr (p_vaddr p + load_offset f) 0x1000 j"

definition seg_vpns :: "pt_ops \<Rightarrow> elf64_file \<Rightarrow> elf64_phdr \<Rightarrow> u64 set" where
  "seg_vpns m f p = (\<lambda>j. vpn m (seg_page f p j)) ` {..<seg_cnt p}"

text \<open>The segments the loader handles: page aligned, of a page at least, inside the file.\<close>

definition seg_ok :: "u8 list \<Rightarrow> elf64_phdr \<Rightarrow> bool" where
  "seg_ok bs p \<longleftrightarrow> 4096 dvd unat (p_vaddr p) \<and> 4096 \<le> unat (p_filesz p) \<and> unat (p_offset p) + unat (p_filesz p) \<le> length bs"

text \<open>A segment is loaded into frames of \<open>D\<close>: its pages are translated to them, with its protections, and they hold its bytes.\<close>

definition seg_loaded :: "pt_ops \<Rightarrow> elf64_file \<Rightarrow> u8 list \<Rightarrow> u64 set \<Rightarrow> 'l kstate \<Rightarrow> 'l page_table \<Rightarrow> elf64_phdr \<Rightarrow> bool" where
  "seg_loaded m f bs D s pt p \<longleftrightarrow> (\<exists>as. length as = seg_cnt p \<and> distinct as \<and> set as \<subseteq> D \<and>
     (\<forall>j < seg_cnt p. view m s pt (seg_page f p j) = Some (as ! j OR load_flags (ucast (p_flags p)))) \<and>
     (\<forall>i < unat (p_filesz p). frame_byte s (as ! (i div 4096)) (i mod 4096) = bs ! (unat (p_offset p) + i)))"

lemma seg_index: "i < unat (p_filesz p) \<Longrightarrow> i div 4096 < seg_cnt p"
  using roundup_nat(1) [of "unat (p_filesz p)"] by (simp add: seg_cnt_def div_less_iff_less_mult)

lemma seg_loaded_keep:
  assumes l: "seg_loaded m f bs D s pt p" and ag: "agree_on D s s'" "frames_aligned D s" "D \<subseteq> D'"
    and vw: "\<And>w. vpn m w \<in> seg_vpns m f p \<Longrightarrow> view m s' pt' w = view m s pt w"
  shows "seg_loaded m f bs D' s' pt' p"
proof -
  obtain as where as: "length as = seg_cnt p" "distinct as" "set as \<subseteq> D"
    "\<forall>j < seg_cnt p. view m s pt (seg_page f p j) = Some (as ! j OR load_flags (ucast (p_flags p)))"
    "\<forall>i < unat (p_filesz p). frame_byte s (as ! (i div 4096)) (i mod 4096) = bs ! (unat (p_offset p) + i)"
    using l by (auto simp: seg_loaded_def)
  have "frame_byte s' (as ! (i div 4096)) (i mod 4096) = bs ! (unat (p_offset p) + i)" if "i < unat (p_filesz p)" for i
  proof -
    have "as ! (i div 4096) \<in> D" using as(1,3) seg_index [OF that] by (metis nth_mem subsetD)
    then show ?thesis using frame_byte_agree [OF ag(1,2)] as(5) that by simp
  qed
  moreover have "view m s' pt' (seg_page f p j) = Some (as ! j OR load_flags (ucast (p_flags p)))" if "j < seg_cnt p" for j
    using vw [of "seg_page f p j"] as(4) that by (auto simp: seg_vpns_def)
  ultimately show ?thesis unfolding seg_loaded_def using as(1-3) ag(3) by (intro exI [of _ as]) auto
qed

abbreviation loads :: "elf64_phdr list \<Rightarrow> elf64_phdr list" where
  "loads ps \<equiv> filter (\<lambda>p. p_type p = 1) ps"

definition segs_cost :: "elf64_phdr list \<Rightarrow> nat" where
  "segs_cost ps = sum_list (map seg_cnt (loads ps))"

context frame_budget
begin

lemma load_segment_loaded:
  assumes apart: "tables_apart F m D s pt" and mc: "memcpy_law memcpy" and f: "file_of f bs" and p: "seg_ok bs p"
    and room: "budget s (seg_cnt p * Suc (levels m) + k)" and new: "\<forall>w. vpn m w \<in> seg_vpns m f p \<longrightarrow> view m s pt w = None"
  shows "\<exists>E pt' s'. load_segment F memcpy f s pt p = Ret (pt', s') \<and> tables_apart F m (D \<union> E) s' pt' \<and> E \<inter> pmm_owned F s = {} \<and>
    pmm_owned F s \<subseteq> pmm_owned F s' \<and> budget s' k \<and> HIGH_VMA s' = HIGH_VMA s \<and> agree_on D s s' \<and> seg_loaded m f bs (D \<union> E) s' pt' p \<and>
    (\<forall>w. vpn m w \<notin> seg_vpns m f p \<longrightarrow> view m s' pt' w = view m s pt w)"
proof -
  have q: "4096 dvd unat (p_vaddr p)" "4096 \<le> unat (p_filesz p)" "unat (p_offset p) + unat (p_filesz p) \<le> length bs"
    using p by (simp_all add: seg_ok_def)
  have "small_range (view m s pt) (p_vaddr p + load_offset f) 0x1000 (seg_cnt p)"
    using new unfolding small_range_def seg_vpns_def seg_page_def by force
  from load_segment_exact [OF apart mc f q(1) refl q(2) refl q(3) seg_cnt_def room this]
  obtain as pt' s' where l: "load_segment F memcpy f s pt p = Ret (pt', s')" "tables_apart F m (D \<union> set as) s' pt'" "length as = seg_cnt p"
    "distinct as" "set as \<inter> pmm_owned F s = {}" "pmm_owned F s \<subseteq> pmm_owned F s'" "budget s' k" "HIGH_VMA s' = HIGH_VMA s" "agree_on D s s'"
    and v: "\<forall>j < seg_cnt p. view m s' pt' (range_addr (p_vaddr p + load_offset f) 0x1000 j) = Some (as ! j OR load_flags (ucast (p_flags p)))"
      "\<forall>w. (\<forall>j < seg_cnt p. vpn m w \<noteq> vpn m (range_addr (p_vaddr p + load_offset f) 0x1000 j)) \<longrightarrow> view m s' pt' w = view m s pt w"
      "\<forall>i < unat (p_filesz p). cell_byte (memory s') (as ! (i div 4096) + HIGH_VMA s' + of_nat (i mod 4096)) = bs ! (unat (p_offset p) + i)"
    by blast
  have "seg_loaded m f bs (D \<union> set as) s' pt' p"
    unfolding seg_loaded_def seg_page_def frame_byte_def using l(3,4) v(1,3) by (intro exI [of _ as]) simp
  moreover have "\<forall>w. vpn m w \<notin> seg_vpns m f p \<longrightarrow> view m s' pt' w = view m s pt w"
    using v(2) by (auto simp: seg_vpns_def seg_page_def)
  ultimately show ?thesis using l by blast
qed

lemma load_segments_loaded:
  assumes "tables_apart F m D s pt" and mc: "memcpy_law memcpy" and f: "file_of f bs" and "\<forall>p \<in> set (loads ps). seg_ok bs p"
    and "sorted_wrt (\<lambda>p q. seg_vpns m f p \<inter> seg_vpns m f q = {}) (loads ps)" "budget s (segs_cost ps * Suc (levels m) + k)"
    and "\<forall>p \<in> set (loads ps). \<forall>w. vpn m w \<in> seg_vpns m f p \<longrightarrow> view m s pt w = None"
  shows "\<exists>E pt' s'. load_segments F memcpy f s pt ps = Ret (pt', s') \<and> tables_apart F m (D \<union> E) s' pt' \<and> E \<inter> pmm_owned F s = {} \<and>
    pmm_owned F s \<subseteq> pmm_owned F s' \<and> budget s' k \<and> HIGH_VMA s' = HIGH_VMA s \<and> agree_on D s s' \<and>
    (\<forall>p \<in> set (loads ps). seg_loaded m f bs (D \<union> E) s' pt' p) \<and>
    (\<forall>w. vpn m w \<notin> \<Union> (seg_vpns m f ` set (loads ps)) \<longrightarrow> view m s' pt' w = view m s pt w)"
  using assms(1,4-7)
proof (induction ps arbitrary: D s pt)
  case Nil
  then show ?case by (intro exI [of _ "{}"]) (simp add: segs_cost_def)
next
  case (Cons p ps)
  show ?case
  proof (cases "p_type p = 1")
    case False
    then show ?thesis using Cons.IH [OF Cons.prems(1)] Cons.prems(2-5) by (simp add: segs_cost_def)
  next
    case True
    have room: "budget s (seg_cnt p * Suc (levels m) + (segs_cost ps * Suc (levels m) + k))"
      using Cons.prems(4) True by (simp add: segs_cost_def algebra_simps)
    obtain E1 pt1 s1 where 1: "load_segment F memcpy f s pt p = Ret (pt1, s1)" "tables_apart F m (D \<union> E1) s1 pt1" "E1 \<inter> pmm_owned F s = {}"
      "pmm_owned F s \<subseteq> pmm_owned F s1" "budget s1 (segs_cost ps * Suc (levels m) + k)" "HIGH_VMA s1 = HIGH_VMA s" "agree_on D s s1"
      "seg_loaded m f bs (D \<union> E1) s1 pt1 p" and v1: "\<forall>w. vpn m w \<notin> seg_vpns m f p \<longrightarrow> view m s1 pt1 w = view m s pt w"
      using load_segment_loaded [OF Cons.prems(1) mc f _ room] Cons.prems(2,5) True by auto
    have dis: "seg_vpns m f p \<inter> seg_vpns m f q = {}" if "q \<in> set (loads ps)" for q using Cons.prems(3) True that by simp
    have new: "\<forall>q \<in> set (loads ps). \<forall>w. vpn m w \<in> seg_vpns m f q \<longrightarrow> view m s1 pt1 w = None"
    proof (intro ballI allI impI)
      fix q w assume q: "q \<in> set (loads ps)" "vpn m w \<in> seg_vpns m f q"
      then have "vpn m w \<notin> seg_vpns m f p" "view m s pt w = None" using dis [OF q(1)] Cons.prems(5) True by auto
      then show "view m s1 pt1 w = None" using v1 by simp
    qed
    have ok: "\<forall>q \<in> set (loads ps). seg_ok bs q" "sorted_wrt (\<lambda>p q. seg_vpns m f p \<inter> seg_vpns m f q = {}) (loads ps)"
      using Cons.prems(2,3) True by simp_all
    obtain E2 pt2 s2 where 2: "load_segments F memcpy f s1 pt1 ps = Ret (pt2, s2)" "tables_apart F m ((D \<union> E1) \<union> E2) s2 pt2"
      "E2 \<inter> pmm_owned F s1 = {}" "pmm_owned F s1 \<subseteq> pmm_owned F s2" "budget s2 k" "HIGH_VMA s2 = HIGH_VMA s1" "agree_on (D \<union> E1) s1 s2"
      "\<forall>q \<in> set (loads ps). seg_loaded m f bs ((D \<union> E1) \<union> E2) s2 pt2 q"
      and v2: "\<forall>w. vpn m w \<notin> \<Union> (seg_vpns m f ` set (loads ps)) \<longrightarrow> view m s2 pt2 w = view m s1 pt1 w"
      using Cons.IH [OF 1(2) ok 1(5) new] by (elim exE conjE) (rule that)
    have "seg_loaded m f bs ((D \<union> E1) \<union> E2) s2 pt2 p"
      by (rule seg_loaded_keep [OF 1(8) 2(7) apart_frames_aligned [OF 1(2)]]) (use v2 dis in blast)+
    moreover have "agree_on D s s2" by (rule agree_on_trans [OF 1(7) 2(7)]) simp
    moreover have "(E1 \<union> E2) \<inter> pmm_owned F s = {}" using 1(3,4) 2(3) by blast
    moreover have "(D \<union> E1) \<union> E2 = D \<union> (E1 \<union> E2)" by auto
    moreover have "\<forall>w. vpn m w \<notin> \<Union> (seg_vpns m f ` set (loads (p # ps))) \<longrightarrow> view m s2 pt2 w = view m s pt w" using v1 v2 True by simp
    moreover have "load_segments F memcpy f s pt (p # ps) = Ret (pt2, s2)" using 1(1) 2(1) True by simp
    ultimately show ?thesis using 1(4,6) 2(2,4-6,8) True by (intro exI [of _ "E1 \<union> E2"] exI [of _ pt2] exI [of _ s2]) auto
  qed
qed

end

section \<open>The \<^verbatim>\<open>.bss\<close> section\<close>

definition names_ok :: "elf64_file \<Rightarrow> bool" where
  "names_ok f \<longleftrightarrow> (\<forall>sh \<in> set (shdr f). unat (sh_name sh) + 4 \<le> length (strtab f))"

definition is_bss :: "'l fayt \<Rightarrow> elf64_file \<Rightarrow> elf64_shdr \<Rightarrow> bool" where
  "is_bss F f sh \<longleftrightarrow> take 4 (drop (unat (sh_name sh)) (strtab f)) = [0x2e, 0x62, 0x73, 0x73] \<and>
     load_page_cnt F (sh_addr sh AND (PAGE_SIZE - 1)) (sh_size sh) \<noteq> 0"

definition bss_of :: "'l fayt \<Rightarrow> elf64_file \<Rightarrow> elf64_shdr option" where
  "bss_of F f = find (is_bss F f) (shdr f)"

definition bss_cnt :: "'l fayt \<Rightarrow> elf64_file \<Rightarrow> nat" where
  "bss_cnt F f = (case bss_of F f of None \<Rightarrow> 0 | Some sh \<Rightarrow> unat (load_page_cnt F (sh_addr sh AND (PAGE_SIZE - 1)) (sh_size sh)))"

definition bss_page :: "elf64_file \<Rightarrow> elf64_shdr \<Rightarrow> nat \<Rightarrow> u64" where
  "bss_page f sh j = range_addr (sh_addr sh + load_offset f - (sh_addr sh AND (PAGE_SIZE - 1))) 0x1000 j"

definition bss_vpns :: "pt_ops \<Rightarrow> 'l fayt \<Rightarrow> elf64_file \<Rightarrow> u64 set" where
  "bss_vpns m F f = (case bss_of F f of None \<Rightarrow> {} | Some sh \<Rightarrow> (\<lambda>j. vpn m (bss_page f sh j)) ` {..<bss_cnt F f})"

definition bss_loaded :: "pt_ops \<Rightarrow> 'l fayt \<Rightarrow> elf64_file \<Rightarrow> u64 set \<Rightarrow> 'l kstate \<Rightarrow> 'l page_table \<Rightarrow> bool" where
  "bss_loaded m F f D s pt \<longleftrightarrow> (\<forall>sh. bss_of F f = Some sh \<longrightarrow> (\<exists>as. length as = bss_cnt F f \<and> distinct as \<and> set as \<subseteq> D \<and>
     (\<forall>j < bss_cnt F f. view m s pt (bss_page f sh j) = Some (as ! j OR load_flags (sh_flags sh)) \<and> zero_frame s (as ! j))))"

lemma bss_loaded_keep:
  assumes l: "bss_loaded m F f D s pt" and ag: "agree_on D s s'" "D \<subseteq> D'"
    and vw: "\<And>w. vpn m w \<in> bss_vpns m F f \<Longrightarrow> view m s' pt' w = view m s pt w"
  shows "bss_loaded m F f D' s' pt'"
  unfolding bss_loaded_def
proof (intro allI impI)
  fix sh assume b: "bss_of F f = Some sh"
  obtain as where as: "length as = bss_cnt F f" "distinct as" "set as \<subseteq> D"
    "\<forall>j < bss_cnt F f. view m s pt (bss_page f sh j) = Some (as ! j OR load_flags (sh_flags sh)) \<and> zero_frame s (as ! j)"
    using l b by (auto simp: bss_loaded_def)
  have "view m s' pt' (bss_page f sh j) = Some (as ! j OR load_flags (sh_flags sh)) \<and> zero_frame s' (as ! j)" if "j < bss_cnt F f" for j
  proof -
    have "as ! j \<in> D" using as(1,3) that by (metis nth_mem subsetD)
    then show ?thesis using vw [of "bss_page f sh j"] as(4) that b zero_frame_agree [OF _ ag(1)] by (auto simp: bss_vpns_def)
  qed
  then show "\<exists>as. length as = bss_cnt F f \<and> distinct as \<and> set as \<subseteq> D' \<and>
     (\<forall>j < bss_cnt F f. view m s' pt' (bss_page f sh j) = Some (as ! j OR load_flags (sh_flags sh)) \<and> zero_frame s' (as ! j))"
    using as(1-3) ag(2) by (intro exI [of _ as]) auto
qed

lemma section_named_bss:
  "unat (sh_name sh) + 4 \<le> length (strtab f) \<Longrightarrow> section_named f sh [0x2e, 0x62, 0x73, 0x73] =
    Ret (take 4 (drop (unat (sh_name sh)) (strtab f)) = [0x2e, 0x62, 0x73, 0x73])"
  by (simp add: section_named_def eval_nat_numeral)

lemma load_section_find:
  assumes "\<forall>sh \<in> set shs. unat (sh_name sh) + 4 \<le> length (strtab f)"
  shows "load_section_from F f s pt [0x2e, 0x62, 0x73, 0x73] shs = (case find (is_bss F f) shs of None \<Rightarrow> Ret (pt, s)
    | Some sh \<Rightarrow> obind (load_pages F s pt (sh_addr sh + load_offset f - (sh_addr sh AND (PAGE_SIZE - 1))) (load_flags (sh_flags sh))
        (unat (load_page_cnt F (sh_addr sh AND (PAGE_SIZE - 1)) (sh_size sh)))) (\<lambda>(_, pt, s). Ret (pt, s)))"
  using assms by (induction shs) (auto simp: section_named_bss is_bss_def Let_def)

context frame_budget
begin

lemma load_bss:
  assumes apart: "tables_apart F m D s pt" and names: "names_ok f" and n: "bss_cnt F f \<le> 2 ^ 36"
    and room: "budget s (bss_cnt F f * Suc (levels m) + k)" and new: "\<forall>w. vpn m w \<in> bss_vpns m F f \<longrightarrow> view m s pt w = None"
  shows "\<exists>E pt' s'. elf64_load_section F f s pt [0x2e, 0x62, 0x73, 0x73] = Ret (pt', s') \<and> tables_apart F m (D \<union> E) s' pt' \<and>
    E \<inter> pmm_owned F s = {} \<and> pmm_owned F s \<subseteq> pmm_owned F s' \<and> budget s' k \<and> HIGH_VMA s' = HIGH_VMA s \<and> agree_on D s s' \<and>
    bss_loaded m F f (D \<union> E) s' pt' \<and> (\<forall>w. vpn m w \<notin> bss_vpns m F f \<longrightarrow> view m s' pt' w = view m s pt w)"
proof (cases "bss_of F f")
  case None
  then have "elf64_load_section F f s pt [0x2e, 0x62, 0x73, 0x73] = Ret (pt, s)"
    using load_section_find [of "shdr f" f F s pt] names by (simp add: elf64_load_section_def names_ok_def bss_of_def)
  moreover have "budget s k" by (rule budget_mono [OF room]) simp
  ultimately show ?thesis using None apart by (intro exI [of _ "{}"]) (simp add: bss_loaded_def)
next
  case (Some sh)
  define v where "v = sh_addr sh + load_offset f - (sh_addr sh AND (PAGE_SIZE - 1))"
  define c where "c = bss_cnt F f"
  have vp: "bss_vpns m F f = (\<lambda>j. vpn m (range_addr v 0x1000 j)) ` {..<c}" and pg: "bss_page f sh = range_addr v 0x1000"
    using Some by (simp_all add: bss_vpns_def bss_page_def v_def c_def fun_eq_iff)
  have sm: "small_range (view m s pt) v 0x1000 c" using new vp by (force simp: small_range_def)
  obtain as pt' s' where l: "load_pages F s pt v (load_flags (sh_flags sh)) c = Ret (as, pt', s')" "tables_apart F m (D \<union> set as) s' pt'"
    "budget s' k" "HIGH_VMA s' = HIGH_VMA s" "length as = c" "distinct as" "set as \<inter> pmm_owned F s = {}" "pmm_owned F s \<subseteq> pmm_owned F s'"
    "agree_on D s s'" "\<forall>a \<in> set as. zero_frame s' a" and vw: "view m s' pt' = fresh_view (vpn m) 0x1000 (load_flags (sh_flags sh)) as v (view m s pt)"
    using load_pages_apart [OF apart room [folded c_def] load_flags_ok sm] by blast
  have inj: "inj_on (\<lambda>i. vpn m (range_addr v 0x1000 i)) {..<length as}" using vpn_range_inj [OF n] l(5) by (simp add: c_def)
  have "view m s' pt' (range_addr v 0x1000 j) = Some (as ! j OR load_flags (sh_flags sh)) \<and> zero_frame s' (as ! j)" if "j < c" for j
    using fresh_view_at [OF inj] l(5,10) that unfolding vw by simp
  then have "bss_loaded m F f (D \<union> set as) s' pt'"
    unfolding bss_loaded_def using l(5,6) Some pg by (auto simp: c_def [symmetric] intro!: exI [of _ as])
  moreover have "view m s' pt' w = view m s pt w" if "vpn m w \<notin> bss_vpns m F f" for w
    unfolding vw by (rule fresh_view_other) (use that vp l(5) in auto)
  moreover have "elf64_load_section F f s pt [0x2e, 0x62, 0x73, 0x73] = Ret (pt', s')"
    using load_section_find [of "shdr f" f F s pt] names Some l(1)
    by (simp add: elf64_load_section_def names_ok_def bss_of_def [symmetric] v_def c_def bss_cnt_def)
  ultimately show ?thesis using l(2-4,7-9) by blast
qed

end

section \<open>The whole file\<close>

definition image_vpns :: "pt_ops \<Rightarrow> 'l fayt \<Rightarrow> elf64_file \<Rightarrow> u64 set" where
  "image_vpns m F f = bss_vpns m F f \<union> \<Union> (seg_vpns m f ` set (loads (phdr f)))"

text \<open>An executable the loader can handle: names inside the string table, sound segments, no page used twice.\<close>

definition image_ok :: "pt_ops \<Rightarrow> 'l fayt \<Rightarrow> elf64_file \<Rightarrow> u8 list \<Rightarrow> bool" where
  "image_ok m F f bs \<longleftrightarrow> file_of f bs \<and> names_ok f \<and> bss_cnt F f \<le> 2 ^ 36 \<and> (\<forall>p \<in> set (loads (phdr f)). seg_ok bs p) \<and>
     sorted_wrt (\<lambda>p q. seg_vpns m f p \<inter> seg_vpns m f q = {}) (loads (phdr f)) \<and>
     (\<forall>p \<in> set (loads (phdr f)). seg_vpns m f p \<inter> bss_vpns m F f = {})"

definition image_cost :: "'l fayt \<Rightarrow> elf64_file \<Rightarrow> nat" where
  "image_cost F f = bss_cnt F f + segs_cost (phdr f)"

definition image_loaded :: "pt_ops \<Rightarrow> 'l fayt \<Rightarrow> elf64_file \<Rightarrow> u8 list \<Rightarrow> u64 set \<Rightarrow> 'l kstate \<Rightarrow> 'l page_table \<Rightarrow> bool" where
  "image_loaded m F f bs D s pt \<longleftrightarrow> bss_loaded m F f D s pt \<and> (\<forall>p \<in> set (loads (phdr f)). seg_loaded m f bs D s pt p)"

lemma image_loaded_keep:
  assumes "image_loaded m F f bs D s pt" "agree_on D s s'" "frames_aligned D s" "D \<subseteq> D'"
    and "\<And>w. vpn m w \<in> image_vpns m F f \<Longrightarrow> view m s' pt' w = view m s pt w"
  shows "image_loaded m F f bs D' s' pt'"
proof -
  have "bss_loaded m F f D' s' pt'" by (rule bss_loaded_keep [OF _ assms(2,4)]) (use assms(1,5) in \<open>simp_all add: image_loaded_def image_vpns_def\<close>)
  moreover have "seg_loaded m f bs D' s' pt' p" if "p \<in> set (loads (phdr f))" for p
    by (rule seg_loaded_keep [OF _ assms(2-4)]) (use assms(1,5) that in \<open>auto simp: image_loaded_def image_vpns_def\<close>)
  ultimately show ?thesis by (simp add: image_loaded_def)
qed

context frame_budget
begin

lemma load_image:
  assumes apart: "tables_apart F m D s pt" and mc: "memcpy_law memcpy" and ok: "image_ok m F f bs"
    and room: "budget s (image_cost F f * Suc (levels m) + k)" and new: "\<forall>w. vpn m w \<in> image_vpns m F f \<longrightarrow> view m s pt w = None"
  shows "\<exists>E pt' s'. elf64_file_load F memcpy f s pt = Ret (0, pt', s') \<and> tables_apart F m (D \<union> E) s' pt' \<and>
    E \<inter> pmm_owned F s = {} \<and> pmm_owned F s \<subseteq> pmm_owned F s' \<and> budget s' k \<and> HIGH_VMA s' = HIGH_VMA s \<and> agree_on D s s' \<and>
    image_loaded m F f bs (D \<union> E) s' pt' \<and> (\<forall>w. vpn m w \<notin> image_vpns m F f \<longrightarrow> view m s' pt' w = view m s pt w)"
proof -
  have o: "file_of f bs" "names_ok f" "bss_cnt F f \<le> 2 ^ 36" "\<forall>p \<in> set (loads (phdr f)). seg_ok bs p"
    "sorted_wrt (\<lambda>p q. seg_vpns m f p \<inter> seg_vpns m f q = {}) (loads (phdr f))" and dis: "\<forall>p \<in> set (loads (phdr f)). seg_vpns m f p \<inter> bss_vpns m F f = {}"
    using ok by (simp_all add: image_ok_def)
  have r: "budget s (bss_cnt F f * Suc (levels m) + (segs_cost (phdr f) * Suc (levels m) + k))" using room by (simp add: image_cost_def algebra_simps)
  have nb: "\<forall>w. vpn m w \<in> bss_vpns m F f \<longrightarrow> view m s pt w = None" using new by (simp add: image_vpns_def)
  obtain E1 pt1 s1 where 1: "elf64_load_section F f s pt [0x2e, 0x62, 0x73, 0x73] = Ret (pt1, s1)" "tables_apart F m (D \<union> E1) s1 pt1"
    "E1 \<inter> pmm_owned F s = {}" "pmm_owned F s \<subseteq> pmm_owned F s1" "budget s1 (segs_cost (phdr f) * Suc (levels m) + k)" "HIGH_VMA s1 = HIGH_VMA s"
    "agree_on D s s1" "bss_loaded m F f (D \<union> E1) s1 pt1" and v1: "\<forall>w. vpn m w \<notin> bss_vpns m F f \<longrightarrow> view m s1 pt1 w = view m s pt w"
    using load_bss [OF apart o(2,3) r nb] by (elim exE conjE) (rule that)
  have ns: "\<forall>p \<in> set (loads (phdr f)). \<forall>w. vpn m w \<in> seg_vpns m f p \<longrightarrow> view m s1 pt1 w = None"
  proof (intro ballI allI impI)
    fix p w assume p: "p \<in> set (loads (phdr f))" "vpn m w \<in> seg_vpns m f p"
    then have "vpn m w \<notin> bss_vpns m F f" "vpn m w \<in> image_vpns m F f" using dis by (auto simp: image_vpns_def)
    then show "view m s1 pt1 w = None" using v1 new by simp
  qed
  obtain E2 pt2 s2 where 2: "load_segments F memcpy f s1 pt1 (phdr f) = Ret (pt2, s2)" "tables_apart F m ((D \<union> E1) \<union> E2) s2 pt2"
    "E2 \<inter> pmm_owned F s1 = {}" "pmm_owned F s1 \<subseteq> pmm_owned F s2" "budget s2 k" "HIGH_VMA s2 = HIGH_VMA s1" "agree_on (D \<union> E1) s1 s2"
    "\<forall>p \<in> set (loads (phdr f)). seg_loaded m f bs ((D \<union> E1) \<union> E2) s2 pt2 p"
    and v2: "\<forall>w. vpn m w \<notin> \<Union> (seg_vpns m f ` set (loads (phdr f))) \<longrightarrow> view m s2 pt2 w = view m s1 pt1 w"
    using load_segments_loaded [OF 1(2) mc o(1,4,5) 1(5) ns] by (elim exE conjE) (rule that)
  have "bss_loaded m F f ((D \<union> E1) \<union> E2) s2 pt2" by (rule bss_loaded_keep [OF 1(8) 2(7)]) (use v2 dis in blast)+
  then have "image_loaded m F f bs (D \<union> (E1 \<union> E2)) s2 pt2" using 2(8) by (simp add: image_loaded_def Un_assoc)
  moreover have "agree_on D s s2" by (rule agree_on_trans [OF 1(7) 2(7)]) simp
  moreover have "(E1 \<union> E2) \<inter> pmm_owned F s = {}" using 1(3,4) 2(3) by blast
  moreover have "tables_apart F m (D \<union> (E1 \<union> E2)) s2 pt2" using 2(2) by (simp add: Un_assoc)
  moreover have "\<forall>w. vpn m w \<notin> image_vpns m F f \<longrightarrow> view m s2 pt2 w = view m s pt w" using v1 v2 by (simp add: image_vpns_def)
  moreover have "elf64_file_load F memcpy f s pt = Ret (0, pt2, s2)" using 1(1) 2(1) by (simp add: elf64_file_load_def)
  moreover have "pmm_owned F s \<subseteq> pmm_owned F s2" "HIGH_VMA s2 = HIGH_VMA s" using 1(4,6) 2(4,6) by auto
  ultimately show ?thesis using 2(5) by blast
qed

end

section \<open>A concrete executable\<close>

text \<open>One segment of a page at \<^verbatim>\<open>0x400000\<close> and one section, whose name is \<^verbatim>\<open>.bss\<close>, at \<^verbatim>\<open>0x600000\<close>.\<close>

definition demo_head :: "u8 list" where
  "demo_head =
     [0x7f, 0x45, 0x4c, 0x46, 2, 1, 1, 0, 0, 0, 0, 0, 0, 0, 0, 0,
      2, 0, 0x3e, 0, 1, 0, 0, 0, 0x10, 0, 0x40, 0, 0, 0, 0, 0,
      64, 0, 0, 0, 0, 0, 0, 0, 120, 0, 0, 0, 0, 0, 0, 0,
      0, 0, 0, 0, 64, 0, 56, 0, 1, 0, 64, 0, 1, 0, 0, 0,
      1, 0, 0, 0, 5, 0, 0, 0, 189, 0, 0, 0, 0, 0, 0, 0,
      0, 0, 0x40, 0, 0, 0, 0, 0, 0, 0, 0, 0, 0, 0, 0, 0,
      0, 0x10, 0, 0, 0, 0, 0, 0, 0, 0x10, 0, 0, 0, 0, 0, 0,
      0, 0x10, 0, 0, 0, 0, 0, 0,
      0, 0, 0, 0, 3, 0, 0, 0, 3, 0, 0, 0, 0, 0, 0, 0,
      0, 0, 0x60, 0, 0, 0, 0, 0, 184, 0, 0, 0, 0, 0, 0, 0,
      5, 0, 0, 0, 0, 0, 0, 0, 0, 0, 0, 0, 0, 0, 0, 0,
      1, 0, 0, 0, 0, 0, 0, 0, 0, 0, 0, 0, 0, 0, 0, 0,
      0x2e, 0x62, 0x73, 0x73, 0]"

definition demo_server :: "u8 list" where
  "demo_server = demo_head @ replicate 4096 7"

definition demo_server_file :: elf64_file where
  "demo_server_file = \<lparr>hdr = \<lparr>ident = [0x7f, 0x45, 0x4c, 0x46, 2, 1, 1, 0, 0, 0, 0, 0, 0, 0, 0, 0], e_type = 2, machine = 0x3e, e_version = 1,
       e_entry = 0x400010, phoff = 64, shoff = 120, e_flags = 0, hdr_size = 64, phdr_size = 56, ph_num = 1, shdr_size = 64, sh_num = 1, shstrndx = 0\<rparr>,
     phdr = [\<lparr>p_type = 1, p_flags = 5, p_offset = 189, p_vaddr = 0x400000, p_paddr = 0, p_filesz = 0x1000, p_memsz = 0x1000, p_align = 0x1000\<rparr>],
     shdr = [\<lparr>sh_name = 0, sh_type = 3, sh_flags = 3, sh_addr = 0x600000, sh_offset = 184, sh_size = 5, sh_link = 0, sh_info = 0,
       sh_addr_align = 1, sh_entsize = 0\<rparr>],
     strtab = [0x2e, 0x62, 0x73, 0x73, 0], data_buffer = Some demo_server, data_length = 4285, load_offset = 0\<rparr>"

lemma demo_head_length: "length demo_head = 189" by (simp add: demo_head_def)

lemma demo_server_length: "length demo_server = 4285" by (simp add: demo_server_def demo_head_length)

lemma demo_server_slice: "n + k \<le> 189 \<Longrightarrow> take k (drop n demo_server) = take k (drop n demo_head)"
  by (simp add: demo_server_def demo_head_length)

lemma demo_server_init: "elf64_file_init (demo_elf demo_server) = Ret (0, demo_server_file)"
proof -
  have rd: "read_exact g off cnt = Ret (Some (take (unat cnt) (drop (unat off) demo_head)))"
    if "data_buffer g = Some demo_server" "data_length g = 4285" "unat off + unat cnt \<le> 189" for g off cnt
    using read_exact_in [of g demo_server off cnt] that demo_server_slice [of "unat off" "unat cnt"]
    by (simp add: file_of_def demo_server_length)
  have d: "data_buffer (demo_elf demo_server) = Some demo_server" "data_length (demo_elf demo_server) = 4285"
    by (simp_all add: demo_elf_def demo_server_length)
  have h: "parse_hdr (take 64 demo_head) = hdr demo_server_file"
    by (simp add: parse_hdr_def demo_head_def field_def demo_server_file_def)
  have sh: "parse_array parse_shdr 64 (Suc 0) (take 64 (drop 120 demo_head)) = shdr demo_server_file"
    by (simp add: parse_array_def parse_shdr_def field_def demo_head_def demo_server_file_def)
  have ph: "parse_array parse_phdr 56 (Suc 0) (take 56 (drop 64 demo_head)) = phdr demo_server_file"
    by (simp add: parse_array_def parse_phdr_def field_def demo_head_def demo_server_file_def)
  have st: "take 5 (drop 184 demo_head) = strtab demo_server_file" by (simp add: demo_head_def demo_server_file_def)
  have v: "elf64_validate (hdr demo_server_file) = 0" by (simp add: elf64_validate_def demo_server_file_def)
  have e: "shoff (hdr demo_server_file) = 120" "sh_num (hdr demo_server_file) = 1" "phoff (hdr demo_server_file) = 64" "ph_num (hdr demo_server_file) = 1"
    "shstrndx (hdr demo_server_file) = 0" "length (shdr demo_server_file) = 1" "sh_offset (shdr demo_server_file ! 0) = 184" "sh_size (shdr demo_server_file ! 0) = 5"
    by (simp_all add: demo_server_file_def)
  show ?thesis unfolding elf64_file_init_def
    by (simp add: rd d h sh ph st v e Let_def) (simp add: demo_server_file_def demo_elf_def demo_server_length)
qed

lemma demo_server_image: "image_ok m fayt_ref demo_server_file demo_server" "image_cost fayt_ref demo_server_file = 2"
  "image_vpns m fayt_ref demo_server_file = {vpn m 0x400000, vpn m 0x600000}"
proof -
  let ?f = demo_server_file
  have c: "load_page_cnt fayt_ref (sh_addr sh AND (PAGE_SIZE - 1)) (sh_size sh) = 1" if "sh \<in> set (shdr ?f)" for sh
    using that by (simp add: demo_server_file_def load_page_cnt_def fayt_ref_def)
  have b: "bss_of fayt_ref ?f = Some (shdr ?f ! 0)" using c [of "shdr ?f ! 0"] by (simp add: bss_of_def is_bss_def demo_server_file_def)
  then have bc: "bss_cnt fayt_ref ?f = 1" using c [of "shdr ?f ! 0"] by (simp add: bss_cnt_def demo_server_file_def)
  have s: "seg_cnt (phdr ?f ! 0) = 1" "loads (phdr ?f) = [phdr ?f ! 0]" by (simp_all add: seg_cnt_def demo_server_file_def)
  have sv: "seg_vpns m ?f (phdr ?f ! 0) = {vpn m 0x400000}" unfolding seg_vpns_def s by (simp add: seg_page_def demo_server_file_def lessThan_Suc)
  have bv: "bss_vpns m fayt_ref ?f = {vpn m 0x600000}" unfolding bss_vpns_def b option.case bc by (simp add: bss_page_def demo_server_file_def lessThan_Suc)
  have "vpn m 0x400000 \<noteq> vpn m 0x600000" by (cases m) (simp_all add: vpn_def)
  moreover have "seg_ok demo_server (phdr ?f ! 0)" by (simp add: seg_ok_def demo_server_length demo_server_file_def)
  moreover have "file_of ?f demo_server" "names_ok ?f" by (simp_all add: file_of_def names_ok_def demo_server_length demo_server_file_def)
  ultimately show "image_ok m fayt_ref ?f demo_server" by (simp add: image_ok_def s(2) bc sv bv)
  show "image_cost fayt_ref ?f = 2" by (simp add: image_cost_def segs_cost_def bc s)
  show "image_vpns m fayt_ref ?f = {vpn m 0x400000, vpn m 0x600000}" by (simp add: image_vpns_def s(2) sv bv insert_commute)
qed

lemma demo_server_code:
  assumes "seg_loaded m demo_server_file demo_server E s pt (phdr demo_server_file ! 0)"
  shows "\<exists>a. view m s pt 0x400000 = Some (a OR load_flags 5) \<and> frame_byte s a 100 = 7"
proof -
  let ?f = demo_server_file and ?p = "phdr demo_server_file ! 0"
  have "seg_cnt ?p = 1" "seg_page ?f ?p 0 = 0x400000" "ucast (p_flags ?p) = (5 :: u64)" "unat (p_filesz ?p) = 4096" "unat (p_offset ?p) = 189"
    by (simp_all add: seg_cnt_def seg_page_def demo_server_file_def)
  moreover have "demo_server ! (189 + 100) = 7" by (simp add: demo_server_def nth_append demo_head_length)
  ultimately show ?thesis using assms unfolding seg_loaded_def by (elim exE conjE) (auto dest!: spec [of _ 0] spec [of _ 100])
qed

section \<open>Properties\<close>

text \<open>
  C25. Loading an executable whose \<^verbatim>\<open>PT_LOAD\<close> segments start at a page boundary and have at least 4096 bytes in the file,
  all of them inside it, are disjoint from each other and from \<^verbatim>\<open>.bss\<close>, and whose section names lie in the string table,
  into an address space with none of the pages mapped: \<^verbatim>\<open>elf64_file_load\<close> returns 0. Then every page that holds bytes of
  a \<^verbatim>\<open>PT_LOAD\<close> segment (the pages are counted by \<^verbatim>\<open>p_filesz\<close>; \<^verbatim>\<open>p_memsz\<close> is never read) is translated to a frame
  of its own that nobody owned, with the segment's protections, and the frames hold exactly the segment's bytes of the file; the
  pages of \<^verbatim>\<open>.bss\<close> are translated to zeroed frames; no other translation changes, and the allocator and the tables keep
  their invariants. Outside this class the loader divides by zero or copies other bytes.
\<close>

theorem elf64_file_load_contents:
  assumes "fayt_laws F" "pmm_inv F s" "pt_ok F m s pt" "memcpy_law memcpy" "image_ok m F f bs"
    and "pmm_room F (modules s) (image_cost F f * Suc (levels m))" "\<forall>w. vpn m w \<in> image_vpns m F f \<longrightarrow> view m s pt w = None"
  shows "\<exists>E pt' s'. elf64_file_load F memcpy f s pt = Ret (0, pt', s') \<and> pmm_inv F s' \<and> pt_ok F m s' pt' \<and>
    E \<inter> pmm_owned F s = {} \<and> E \<subseteq> pmm_owned F s' \<and> image_loaded m F f bs E s' pt' \<and>
    (\<forall>w. vpn m w \<notin> image_vpns m F f \<longrightarrow> view m s' pt' w = view m s pt w)"
proof -
  have ap: "tables_apart F m {} s pt" using assms(1-3) by (simp add: tables_apart_empty)
  have room: "pmm_room F (modules s) (image_cost F f * Suc (levels m) + 0)" using assms(6) by simp
  obtain E pt' s' where r: "elf64_file_load F memcpy f s pt = Ret (0, pt', s')" "tables_apart F m ({} \<union> E) s' pt'" "E \<inter> pmm_owned F s = {}"
    "image_loaded m F f bs ({} \<union> E) s' pt'" "\<forall>w. vpn m w \<notin> image_vpns m F f \<longrightarrow> view m s' pt' w = view m s pt w"
    using singles.load_image [OF ap assms(4,5) room assms(7)] by (elim exE conjE) (rule that)
  have "pmm_inv F s'" "pt_ok F m s' pt'" "E \<subseteq> pmm_owned F s'" using r(2) tables_apart_ok [OF r(2)] by (simp_all add: tables_apart_def)
  then show ?thesis using r by auto
qed

theorem elf64_file_load_contents_witness:
  "\<exists>a pt' s'. elf64_file_load fayt_ref memcpy_ref demo_server_file (demo 4096) (demo_pt Pml4Ops) = Ret (0, pt', s') \<and>
     view Pml4Ops s' pt' 0x400000 = Some (a OR load_flags 5) \<and> frame_byte s' a 100 = 7"
proof -
  let ?f = demo_server_file and ?p = "phdr demo_server_file ! 0"
  have r: "pmm_room fayt_ref (modules (demo 4096)) (image_cost fayt_ref ?f * Suc (levels Pml4Ops))"
    using demo_ready(3) [of 8] by (simp add: demo_server_image)
  have n: "\<forall>w. vpn Pml4Ops w \<in> image_vpns Pml4Ops fayt_ref ?f \<longrightarrow> view Pml4Ops (demo 4096) (demo_pt Pml4Ops) w = None"
    using demo_pt_empty(2) [of 4096] by simp
  obtain E pt' s' where l: "elf64_file_load fayt_ref memcpy_ref ?f (demo 4096) (demo_pt Pml4Ops) = Ret (0, pt', s')"
    "image_loaded Pml4Ops fayt_ref ?f demo_server E s' pt'"
    using elf64_file_load_contents [OF fayt_laws_ref demo_ready(1,2) memcpy_law_ref demo_server_image(1) r n] by blast
  have "?p \<in> set (loads (phdr ?f))" by (simp add: demo_server_file_def)
  then have "seg_loaded Pml4Ops ?f demo_server E s' pt' ?p" using l(2) by (simp add: image_loaded_def)
  then show ?thesis using l(1) demo_server_code by blast
qed

end
