(* ===== verification/Launch.thy ===== *)
theory Launch
  imports Server Loading
begin

unbundle bit_operations_syntax

text \<open>
  Launching a server as a whole: \<^verbatim>\<open>launch_server\<close> puts together a new context (\<open>Scheduler\<close>), an executable (\<open>Loading\<close>) and a
  stack (\<open>Server\<close>), and \<^verbatim>\<open>reschedule\<close> then enters the program.
\<close>

section \<open>A new address space with frames to spare\<close>

lemma create_blank_tail:
  assumes F: "fayt_laws F" and inv: "pmm_inv F (mem (kern m))" and raw: "lock_free F (pt_lock (raw_table D))" "\<not> active (raw_queue D)"
    and room: "tail_room F (mem (kern m)) (Suc ((0x6C00 + memmap_pages F (memmap B)) * levels mode + (16 + k)))"
    and B: "mode = x86_paging_init (cpuid_7_rcx B)" "4096 dvd unat (physical_base B)"
    and c: "c \<noteq> NULL" "contexts (kern m) c = Some C" "ucontext C = NULL"
    and t: "bitmap_alloc D (cid_bitmap m) = (0, i, b)" "push_context D (context_table m) i c = (0, t)"
  shows "\<exists>m' C' pt E. create_blank_context F B D m c = Ret (0, m') \<and> runnable m' c C' pt (raw_fpu D) \<and> regs C' = regs C \<and>
    tables_apart F mode E (mem (kern m')) pt \<and> E \<inter> pmm_owned F (mem (kern m)) = {} \<and> pmm_owned F (mem (kern m)) \<subseteq> pmm_owned F (mem (kern m')) \<and>
    tail_room F (mem (kern m')) k \<and> HIGH_VMA (mem (kern m')) = HIGH_VMA (mem (kern m)) \<and>
    view mode (mem (kern m')) pt = default_view F mode (HIGH_VMA (mem (kern m))) B \<and> reschedule_lock m' = reschedule_lock m"
proof -
  obtain pt s where d: "vmm_default_table F B (mem (kern m)) (raw_table D) = Ret (pt, s)" "pmm_inv F s" "tail_room F s (16 + k)" "pt_ok F mode s pt"
    "HIGH_VMA s = HIGH_VMA (mem (kern m))" "view mode s pt = default_view F mode (HIGH_VMA (mem (kern m))) B" "pmm_owned F (mem (kern m)) \<subseteq> pmm_owned F s"
    using tail.default_table_view [OF F inv raw(1) room B] by blast
  let ?n = "DIV_ROUNDUP F CONTEXT_DEFAULT_STACK_SIZE PAGE_SIZE"
  have cnt: "unat ?n = 16" using DIV_ROUNDUP_exact [OF F, of PAGE_SIZE CONTEXT_DEFAULT_STACK_SIZE] by simp
  obtain a s' where a: "pmm_alloc F s ?n 1 = Ret (a, s')" "a \<noteq> FAILED" "tail_room F s' k"
    using tail_room_alloc [OF F, of s ?n k] d(3) cnt by auto
  have post: "alloc_post F s 16 4096 a s'" using pmm_alloc_correct [OF F d(2), of ?n 0] a(1) cnt by auto
  have "tables_apart F mode {} s pt" using F d(2,4) by (simp add: tables_apart_empty)
  note ap = alloc_run_apart [OF this post a(2)]
  obtain m' where r: "create_blank_context F B D m c = Ret (0, m')" "mem (kern m') = s'"
    "contexts (kern m') = (contexts (kern m))(c \<mapsto> blank_context D (allocs m) (a + CONTEXT_DEFAULT_STACK_SIZE + HIGH_VMA s') i C)"
    "queues (kern m') = (queues (kern m))(alloc_at D (allocs m + 2) \<mapsto> raw_queue D)" "tables m' = (tables m)(alloc_at D (allocs m) \<mapsto> pt)"
    "fpu_areas m' = (fpu_areas m)(alloc_at D (allocs m + 3) \<mapsto> raw_fpu D)" "reschedule_lock m' = reschedule_lock m"
    using create_blank_steps [OF d(1) a(1) c(1,2) t] by blast
  let ?C = "blank_context D (allocs m) (a + CONTEXT_DEFAULT_STACK_SIZE + HIGH_VMA s') i C"
  have "runnable m' c ?C pt (raw_fpu D)" "regs ?C = regs C" using r c raw(2) by (simp_all add: runnable_def quiet_def blank_context_def)
  moreover have "HIGH_VMA s' = HIGH_VMA s" using post by (simp add: alloc_post_def)
  moreover have "run_frames a 16 \<inter> pmm_owned F (mem (kern m)) = {}" "pmm_owned F (mem (kern m)) \<subseteq> pmm_owned F s'" using ap(4,5) d(7) by auto
  ultimately show ?thesis using r(1,2,7) ap(1,2) a(3) d(5,6)
    by (intro exI [of _ m'] exI [of _ ?C] exI [of _ pt] exI [of _ "run_frames a 16"]) simp
qed

section \<open>The steps of the launch\<close>

lemma aux_entry: "at_entry (elf64_file_aux f) = load_offset f + e_entry (hdr f)"
proof -
  have "at_entry (foldl (\<lambda>a p. if p_type p = 6 then a\<lparr>at_phdr := load_offset f + p_vaddr p\<rparr> else a) x ps) = at_entry x" for x :: aux and ps :: "elf64_phdr list"
    by (induction ps arbitrary: x) auto
  then show ?thesis by (simp add: elf64_file_aux_def)
qed

text \<open>The registers a server starts with.\<close>

definition start_regs :: "u64 \<Rightarrow> u64 option \<Rightarrow> u64 \<Rightarrow> registers \<Rightarrow> registers" where
  "start_regs entry arg stack r =
     (let r = r\<lparr>rip := entry, cs := 0x43, rflags := 0x202, ss := 0x3b\<rparr> in
      (case arg of None \<Rightarrow> r | Some x \<Rightarrow> r\<lparr>rdi := x\<rparr>)\<lparr>rsp := stack\<rparr>)"

lemma launch_steps:
  assumes "srv \<noteq> NULL" "srvs srv = Some S" "server_file S = Some file"
    and "elf64_file_init ((raw_elf L)\<lparr>data_buffer := file_address file, data_length := ucast (file_size file)\<rparr>) = Ret (0, elf)"
    and "c = alloc_at D (Suc (allocs m))" "m1 = set_context c (raw_context L) (m\<lparr>allocs := Suc (Suc (allocs m))\<rparr>)"
    and "create_blank_context F B D m1 c = Ret (0, m2)" "runnable m2 c C pt f"
    and "elf64_file_load F memcpy elf (mem (kern m2)) pt = Ret (0, pt3, s3)" "launch_stack F memcpy s3 pt3 arg = Ret (rdi', rsp', pt4, s4)"
  shows "\<exists>m' C'. launch_server F memcpy B D L srvs m srv arg = Ret (0, m') \<and> mem (kern m') = s4 \<and> runnable m' c C' pt4 f \<and>
    regs C' = start_regs (load_offset elf + e_entry (hdr elf)) rdi' rsp' (regs C) \<and> server_contexts m' srv = Some c \<and>
    reschedule_lock m' = reschedule_lock m2"
proof -
  let ?C = "C\<lparr>regs := start_regs (load_offset elf + e_entry (hdr elf)) rdi' rsp' (regs C),
    user_stack := (user_stack C)\<lparr>sp := SERVER_DEFAULT_STACK_LOCATION + SERVER_DEFAULT_STACK_SIZE, stack_size := SERVER_DEFAULT_STACK_SIZE\<rparr>\<rparr>"
  let ?m = "set_context c ?C (m2\<lparr>kern := (kern m2)\<lparr>mem := s4\<rparr>, tables := (tables m2)(page_table_of C \<mapsto> pt4),
    server_contexts := (server_contexts m2)(srv \<mapsto> c)\<rparr>)"
  have "launch_server F memcpy B D L srvs m srv arg = Ret (0, ?m)"
    using assms by (cases rdi') (simp_all add: launch_server_def alloc_def runnable_def aux_entry start_regs_def Let_def)
  moreover have "runnable ?m c ?C pt4 f" using assms(8) by (auto simp: runnable_def quiet_def set_context_def)
  ultimately show ?thesis by (intro exI [of _ ?m] exI [of _ ?C]) (simp add: set_context_def)
qed

section \<open>Entering the server\<close>

lemma enter_server:
  assumes "fayt_laws F" "vector_pop_law A" "lock_free F (reschedule_lock m)" "runnable m c C pt f" "server_contexts m srv = Some c" "srv \<noteq> NULL"
    and "current_context (core (kern m)) = NULL" "delivery_stack (core (kern m)) = []" "thread_queue (core (kern m)) = []"
      "scheduling_server (core (kern m)) = srv"
  shows "\<exists>m'. reschedule F A m r = Ret (Some (regs C), m') \<and> cr3 m' = pmlt pt - HIGH_VMA (mem (kern m)) \<and> fpu m' = f \<and>
    current_context (core (kern m')) = c \<and> mem (kern m') = mem (kern m)"
proof -
  obtain l where l: "spinlock F (reschedule_lock m) = Some l" using assms(3) by (auto simp: lock_free_iff)
  let ?m = "m\<lparr>reschedule_lock := l\<rparr>"
  have cn: "c \<noteq> NULL" using assms(4) by (simp add: runnable_def)
  have nx: "next_context A ?m = Ret (Some c, ?m)"
    using assms(5-10) cn vector_pop_Nil [OF assms(2)] by (simp add: next_context_def Let_def)
  have "notification_dispatch F A (kern ?m) c = Ret (- 1, kern ?m)"
    by (rule dispatch_quiet) (use assms(4) in \<open>auto simp: runnable_def quiet_def\<close>)
  then show ?thesis using l nx assms(4,7)
    by (simp add: reschedule_def save_current_def switch_to_def fpu_area_def active_regs_def x86_swap_tables_def fpu_rstor_def runnable_def SWAP_TLS_def Let_def)
qed

section \<open>Properties\<close>

definition stack_vpns :: "pt_ops \<Rightarrow> u64 set" where
  "stack_vpns m = (\<lambda>i. vpn m (range_addr 0x30000 (- 0x1000) i)) ` {..<16}"

definition launch_cost :: "'l fayt \<Rightarrow> boot_info \<Rightarrow> pt_ops \<Rightarrow> elf64_file \<Rightarrow> nat" where
  "launch_cost F B mode f = Suc ((0x6C00 + memmap_pages F (memmap B)) * levels mode +
     (16 + (image_cost F f * Suc (levels mode) + (48 + 16 * levels mode))))"

text \<open>The pages of an executable in the lower half, clear of the stack.\<close>

definition image_user :: "pt_ops \<Rightarrow> 'l fayt \<Rightarrow> elf64_file \<Rightarrow> bool" where
  "image_user m F f \<longleftrightarrow> (\<forall>w. vpn m w \<in> image_vpns m F f \<longrightarrow> \<not> upper_half m w \<and> vpn m w \<notin> stack_vpns m)"

lemma stack_low: "vpn m w \<in> stack_vpns m \<Longrightarrow> \<not> upper_half m w"
proof -
  assume "vpn m w \<in> stack_vpns m"
  then obtain i where i: "i < 16" "vpn m w = vpn m (range_addr 0x30000 (- 0x1000) i)" by (auto simp: stack_vpns_def)
  have "range_addr 0x30000 (- 0x1000) i = of_nat (0x20000 + (16 - i) * 0x1000)"
    using range_addr_down [of i 16 "0x20000" "0x1000"] i(1) by (simp add: range_addr_def)
  then have "unat (range_addr 0x30000 (- 0x1000) i) = 0x20000 + (16 - i) * 0x1000" using i(1) by (simp only:) (subst unat_of_nat_u64, auto)
  then have "\<not> upper_half m (range_addr 0x30000 (- 0x1000) i)" unfolding upper_half_unat using i(1) by (cases m) simp_all
  then show ?thesis using upper_half_page [OF i(2)] by simp
qed

lemma launch_memory:
  assumes ok: "tables_apart F m D s pt" and mc: "memcpy_law memcpy" and im: "image_ok m F f bs" "image_user m F f"
    and room: "tail_room F s (image_cost F f * Suc (levels m) + (48 + 16 * levels m))" and low: "\<forall>w. \<not> upper_half m w \<longrightarrow> view m s pt w = None"
    and n: "n = (case arg of None \<Rightarrow> 0 | Some as \<Rightarrow> length as)" "n \<le> 0x10000"
  shows "\<exists>pt3 s3 a rsp pt' s' E. elf64_file_load F memcpy f s pt = Ret (0, pt3, s3) \<and>
    launch_stack F memcpy s3 pt3 arg = Ret (map_option (\<lambda>as. 0x30000 - of_nat (length as)) arg, rsp, pt', s') \<and>
    tables_apart F m (D \<union> E) s' pt' \<and> E \<inter> pmm_owned F s = {} \<and> image_loaded m F f bs (D \<union> E) s' pt' \<and>
    16 dvd unat rsp \<and> unat (0x30000 - of_nat n - rsp) < 16 \<and>
    (\<forall>i < 16. view m s' pt' (range_addr 0x30000 (- 0x1000) i) = Some (range_addr (a + 0x10000) (- 0x1000) i OR 7)) \<and>
    (\<forall>as. arg = Some as \<longrightarrow> (\<forall>j < n. cell_byte (memory s') (a + 0x10000 + HIGH_VMA s - of_nat n + of_nat j) = as ! j)) \<and>
    (\<forall>w. vpn m w \<notin> image_vpns m F f \<union> stack_vpns m \<longrightarrow> view m s' pt' w = view m s pt w)"
proof -
  have F: "fayt_laws F" using ok by (simp add: tables_apart_def)
  have new: "\<forall>w. vpn m w \<in> image_vpns m F f \<longrightarrow> view m s pt w = None" using im(2) low by (auto simp: image_user_def)
  obtain E1 pt3 s3 where 1: "elf64_file_load F memcpy f s pt = Ret (0, pt3, s3)" "tables_apart F m (D \<union> E1) s3 pt3" "E1 \<inter> pmm_owned F s = {}"
    "pmm_owned F s \<subseteq> pmm_owned F s3" "tail_room F s3 (48 + 16 * levels m)" "HIGH_VMA s3 = HIGH_VMA s"
    "image_loaded m F f bs (D \<union> E1) s3 pt3" and v1: "\<forall>w. vpn m w \<notin> image_vpns m F f \<longrightarrow> view m s3 pt3 w = view m s pt w"
    using tail.load_image [OF ok mc im(1) room new] by (elim exE conjE) (rule that)
  obtain a s4 where a: "pmm_alloc F s3 48 1 = Ret (a, s4)" "a \<noteq> FAILED" "tail_room F s4 (16 * levels m + 0)"
    using tail_room_alloc [OF F, of s3 48 "16 * levels m"] 1(5) by auto
  have nst: "view m s3 pt3 w = None" if "vpn m w \<in> stack_vpns m" for w
    using v1 low stack_low [OF that] im(2) that by (auto simp: image_user_def)
  have sr: "small_range (view m s3 pt3) 0x30000 (- 0x1000) 16" using nst by (force simp: small_range_def stack_vpns_def)
  obtain rsp pt' s' where 2: "launch_stack F memcpy s3 pt3 arg = Ret (map_option (\<lambda>as. 0x30000 - of_nat (length as)) arg, rsp, pt', s')"
    "tables_apart F m ((D \<union> E1) \<union> run_frames a 48) s' pt'" "agree_on (D \<union> E1) s3 s'" "16 dvd unat rsp" "unat (0x30000 - of_nat n - rsp) < 16"
    and v2: "\<forall>i < 16. view m s' pt' (range_addr 0x30000 (- 0x1000) i) = Some (range_addr (a + 0x10000) (- 0x1000) i OR 7)"
      "\<forall>w. (\<forall>i < 16. vpn m w \<noteq> vpn m (range_addr 0x30000 (- 0x1000) i)) \<longrightarrow> view m s' pt' w = view m s3 pt3 w"
      "\<forall>as. arg = Some as \<longrightarrow> (\<forall>j < n. cell_byte (memory s') (a + 0x10000 + HIGH_VMA s3 - of_nat n + of_nat j) = as ! j)"
    using tail.launch_stack_apart [OF 1(2) mc a(1,2,3) sr n] by (elim exE conjE) (rule that)
  have ns: "view m s' pt' w = view m s3 pt3 w" if "vpn m w \<notin> stack_vpns m" for w using v2(2) that by (auto simp: stack_vpns_def)
  have "image_loaded m F f bs ((D \<union> E1) \<union> run_frames a 48) s' pt'"
    by (rule image_loaded_keep [OF 1(7) 2(3) apart_frames_aligned [OF 1(2)]]) (use ns im(2) in \<open>auto simp: image_user_def\<close>)
  moreover have "run_frames a 48 \<inter> pmm_owned F s = {}"
  proof -
    have "pmm_inv F s3" using 1(2) by (simp add: tables_apart_def)
    then have "alloc_post F s3 48 4096 a s4" using pmm_alloc_correct [OF F, of s3 48 0] a(1) by auto
    then show ?thesis using alloc_run_apart(4) [OF 1(2) _ a(2)] 1(4) by blast
  qed
  moreover have "\<forall>w. vpn m w \<notin> image_vpns m F f \<union> stack_vpns m \<longrightarrow> view m s' pt' w = view m s pt w" using ns v1 by simp
  moreover have "(D \<union> E1) \<union> run_frames a 48 = D \<union> (E1 \<union> run_frames a 48)" by (rule Un_assoc)
  moreover have "(E1 \<union> run_frames a 48) \<inter> pmm_owned F s = {}" if "run_frames a 48 \<inter> pmm_owned F s = {}" using that 1(3) by blast
  ultimately show ?thesis using 1(1,6) 2(1,2,4,5) v2(1,3)
    by (intro exI [of _ pt3] exI [of _ s3] exI [of _ a] exI [of _ rsp] exI [of _ pt'] exI [of _ s'] exI [of _ "E1 \<union> run_frames a 48"] conjI) simp_all
qed

text \<open>
  C8. A launched server runs its program. From a machine with memory enough at the end of a region, \<^verbatim>\<open>launch_server\<close> on a file that
  \<^verbatim>\<open>elf64_file_init\<close> accepts and whose pages lie in the lower half, clear of the stack, returns 0 and registers a new context that can
  be scheduled. In its address space every \<^verbatim>\<open>PT_LOAD\<close> segment is in place with its bytes and protections and \<^verbatim>\<open>.bss\<close> is zero, in
  frames nobody owned before; the sixteen stack pages are mapped; everything else is as in a new address space. Its registers are
  those of a user program at the entry point of the file, with \<^verbatim>\<open>rdi\<close> at the argument's bytes on top of the stack and an aligned \<^verbatim>\<open>rsp\<close>. And when a core that
  runs nothing and has the server as its scheduling server reschedules, it continues with these registers in this address space.
\<close>

theorem launched_server_runs:
  assumes "fayt_laws F" "memcpy_law memcpy" "vector_pop_law A" "lock_free F (reschedule_lock m)"
    and "pmm_inv F (mem (kern m))" "tail_room F (mem (kern m)) (launch_cost F B mode elf)"
    and "lock_free F (pt_lock (raw_table D))" "\<not> active (raw_queue D)" "ucontext (raw_context L) = NULL"
    and "mode = x86_paging_init (cpuid_7_rcx B)" "4096 dvd unat (physical_base B)" "kernel_high F mode (HIGH_VMA (mem (kern m))) B"
    and "srv \<noteq> NULL" "srvs srv = Some S" "server_file S = Some file"
    and "elf64_file_init ((raw_elf L)\<lparr>data_buffer := file_address file, data_length := ucast (file_size file)\<rparr>) = Ret (0, elf)"
    and "image_ok mode F elf bs" "image_user mode F elf"
    and "c = alloc_at D (Suc (allocs m))" "c \<noteq> NULL" "bitmap_alloc D (cid_bitmap m) = (0, i, b)" "push_context D (context_table m) i c = (0, t)"
    and "n = (case arg of None \<Rightarrow> 0 | Some as \<Rightarrow> length as)" "n \<le> 0x10000"
  shows "\<exists>m' C pt E rsp a. launch_server F memcpy B D L srvs m srv arg = Ret (0, m') \<and> runnable m' c C pt (raw_fpu D) \<and> server_contexts m' srv = Some c \<and>
    pmm_inv F (mem (kern m')) \<and> pt_ok F mode (mem (kern m')) pt \<and> E \<inter> pmm_owned F (mem (kern m)) = {} \<and> E \<subseteq> pmm_owned F (mem (kern m')) \<and>
    image_loaded mode F elf bs E (mem (kern m')) pt \<and>
    (\<forall>i < 16. view mode (mem (kern m')) pt (range_addr 0x30000 (- 0x1000) i) = Some (range_addr (a + 0x10000) (- 0x1000) i OR 7)) \<and>
    (\<forall>w. vpn mode w \<notin> image_vpns mode F elf \<union> stack_vpns mode \<longrightarrow>
      view mode (mem (kern m')) pt w = default_view F mode (HIGH_VMA (mem (kern m))) B w) \<and>
    regs C = start_regs (load_offset elf + e_entry (hdr elf)) (map_option (\<lambda>as. 0x30000 - of_nat (length as)) arg) rsp (regs (raw_context L)) \<and>
    16 dvd unat rsp \<and> unat (0x30000 - of_nat n - rsp) < 16 \<and>
    (\<forall>as. arg = Some as \<longrightarrow> (\<forall>j < n. cell_byte (memory (mem (kern m'))) (a + 0x10000 + HIGH_VMA (mem (kern m)) - of_nat n + of_nat j) = as ! j)) \<and>
    (\<forall>k r. current_context k = NULL \<longrightarrow> delivery_stack k = [] \<longrightarrow> thread_queue k = [] \<longrightarrow> scheduling_server k = srv \<longrightarrow>
      (\<exists>m''. reschedule F A (m'\<lparr>kern := (kern m')\<lparr>core := k\<rparr>\<rparr>) r = Ret (Some (regs C), m'') \<and>
        cr3 m'' = pmlt pt - HIGH_VMA (mem (kern m')) \<and> current_context (core (kern m'')) = c))"
proof -
  let ?h = "HIGH_VMA (mem (kern m))" and ?m1 = "set_context c (raw_context L) (m\<lparr>allocs := Suc (Suc (allocs m))\<rparr>)"
  have m1: "mem (kern ?m1) = mem (kern m)" "contexts (kern ?m1) c = Some (raw_context L)" "cid_bitmap ?m1 = cid_bitmap m" "context_table ?m1 = context_table m"
    "reschedule_lock ?m1 = reschedule_lock m" by (simp_all add: set_context_def)
  obtain m2 C2 pt2 E0 where 2: "create_blank_context F B D ?m1 c = Ret (0, m2)" "runnable m2 c C2 pt2 (raw_fpu D)" "regs C2 = regs (raw_context L)"
    "tables_apart F mode E0 (mem (kern m2)) pt2" "E0 \<inter> pmm_owned F (mem (kern m)) = {}" "pmm_owned F (mem (kern m)) \<subseteq> pmm_owned F (mem (kern m2))"
    "tail_room F (mem (kern m2)) (image_cost F elf * Suc (levels mode) + (48 + 16 * levels mode))" "HIGH_VMA (mem (kern m2)) = ?h"
    "view mode (mem (kern m2)) pt2 = default_view F mode ?h B" "reschedule_lock m2 = reschedule_lock m"
    using create_blank_tail [of F ?m1 D B mode _ c, unfolded m1(1,3,4,5), OF assms(1,5,7,8) assms(6) [unfolded launch_cost_def] assms(10,11,20) m1(2) assms(9,21,22)]
    by (elim exE conjE) (rule that)
  have low: "\<forall>w. \<not> upper_half mode w \<longrightarrow> view mode (mem (kern m2)) pt2 w = None"
    unfolding 2(9) using default_view_low [OF assms(12)] by simp
  obtain pt3 s3 a rsp pt' s' E1 where 3: "elf64_file_load F memcpy elf (mem (kern m2)) pt2 = Ret (0, pt3, s3)"
    "launch_stack F memcpy s3 pt3 arg = Ret (map_option (\<lambda>as. 0x30000 - of_nat (length as)) arg, rsp, pt', s')"
    "tables_apart F mode (E0 \<union> E1) s' pt'" "E1 \<inter> pmm_owned F (mem (kern m2)) = {}" "image_loaded mode F elf bs (E0 \<union> E1) s' pt'"
    "16 dvd unat rsp" "unat (0x30000 - of_nat n - rsp) < 16"
    "\<forall>i < 16. view mode s' pt' (range_addr 0x30000 (- 0x1000) i) = Some (range_addr (a + 0x10000) (- 0x1000) i OR 7)"
    "\<forall>w. vpn mode w \<notin> image_vpns mode F elf \<union> stack_vpns mode \<longrightarrow> view mode s' pt' w = view mode (mem (kern m2)) pt2 w"
    "\<forall>as. arg = Some as \<longrightarrow> (\<forall>j < n. cell_byte (memory s') (a + 0x10000 + HIGH_VMA (mem (kern m2)) - of_nat n + of_nat j) = as ! j)"
    using launch_memory [OF 2(4) assms(2,17,18) 2(7) low assms(23,24)] by (elim exE conjE) (rule that)
  obtain m' C where 4: "launch_server F memcpy B D L srvs m srv arg = Ret (0, m')" "mem (kern m') = s'" "runnable m' c C pt' (raw_fpu D)"
    "regs C = start_regs (load_offset elf + e_entry (hdr elf)) (map_option (\<lambda>as. 0x30000 - of_nat (length as)) arg) rsp (regs C2)"
    "server_contexts m' srv = Some c" "reschedule_lock m' = reschedule_lock m2"
    using launch_steps [where srvs = srvs and srv = srv, OF assms(13-16,19) refl 2(1,2) 3(1,2)] by (elim exE conjE) (rule that)
  have enter: "\<exists>m''. reschedule F A (m'\<lparr>kern := (kern m')\<lparr>core := k\<rparr>\<rparr>) r = Ret (Some (regs C), m'') \<and>
      cr3 m'' = pmlt pt' - HIGH_VMA (mem (kern m')) \<and> current_context (core (kern m'')) = c"
    if "current_context k = NULL" "delivery_stack k = []" "thread_queue k = []" "scheduling_server k = srv" for k r
    using enter_server [OF assms(1,3), of "m'\<lparr>kern := (kern m')\<lparr>core := k\<rparr>\<rparr>" c C pt' "raw_fpu D" srv r] that assms(4,13) 2(10) 4(3,5,6)
    by (auto simp: runnable_def quiet_def)
  have t: "pmm_inv F s'" "pt_ok F mode s' pt'" "E0 \<union> E1 \<subseteq> pmm_owned F s'" using 3(3) tables_apart_ok [OF 3(3)] by (simp_all add: tables_apart_def)
  have fr: "(E0 \<union> E1) \<inter> pmm_owned F (mem (kern m)) = {}" using 2(5,6) 3(4) by blast
  show ?thesis
    using 4 3(5-10) t fr enter 2(3,8,9)
    by (intro exI [of _ m'] exI [of _ C] exI [of _ pt'] exI [of _ "E0 \<union> E1"] exI [of _ rsp] exI [of _ a] conjI) simp_all
qed

definition demo_load :: "(bool, nat, nat, s32 \<Rightarrow> ptr) machine" where
  "demo_load = demo_machine\<lparr>kern := (kern demo_machine)\<lparr>mem := demo 200000\<rparr>\<rparr>"

definition demo_file :: limine_file where
  "demo_file = \<lparr>file_address = Some demo_server, file_size = 4285, cmdline = ''vfs''\<rparr>"

lemma demo_load_simps [simp]: "mem (kern demo_load) = demo 200000" "allocs demo_load = 0" "cid_bitmap demo_load = 0"
  "context_table demo_load = (\<lambda>_. NULL)" "reschedule_lock demo_load = False"
  by (simp_all add: demo_load_def demo_machine_def)

lemma demo_high: "kernel_high fayt_ref Pml4Ops (HIGH_VMA (mem (kern demo_load))) demo_boot"
  by (simp add: kernel_high_def high_range_def demo_boot_def fayt_ref_def)

lemma demo_image_user: "image_user Pml4Ops fayt_ref demo_server_file"
proof -
  have st: "vpn Pml4Ops (0x20000 + of_nat k * 0x1000) \<notin> stack_vpns Pml4Ops" if "16 < k" "k < 2 ^ 36" for k
  proof
    assume "vpn Pml4Ops (0x20000 + of_nat k * 0x1000) \<in> stack_vpns Pml4Ops"
    then obtain i where i: "i < 16" "vpn Pml4Ops (0x20000 + of_nat k * 0x1000) = vpn Pml4Ops (range_addr 0x30000 (- 0x1000) i)"
      by (auto simp: stack_vpns_def)
    have "range_addr 0x30000 (- 0x1000) i = 0x20000 + of_nat (16 - i) * 0x1000"
      using range_addr_down [of i 16 "0x20000" "0x1000"] i(1) by (simp add: range_addr_def)
    then have "k = 16 - i" by (intro vpn_inj [of Pml4Ops "0x20000"]) (use i that in simp_all)
    then show False using that by simp
  qed
  have lo: "\<not> upper_half Pml4Ops w" if "vpn Pml4Ops w = vpn Pml4Ops v" "\<not> upper_half Pml4Ops v" for v w
    using upper_half_page [OF that(1)] that(2) by simp
  show ?thesis
    using st [of 992] st [of 1504] lo [of _ "0x400000"] lo [of _ "0x600000"]
    by (auto simp: image_user_def demo_server_image upper_half_def)
qed

theorem launched_server_runs_witness:
  "\<exists>m' C pt a. launch_server fayt_ref memcpy_ref demo_boot demo_deps demo_launch
       [0x77 \<mapsto> \<lparr>server_name = ''vfs'', server_id_of = \<lparr>nid = 0, sid = 0\<rparr>, server_file = Some demo_file\<rparr>] demo_load 0x77 (Some [1, 2, 3]) = Ret (0, m') \<and>
     server_contexts m' 0x77 = Some 0x1100 \<and> runnable m' 0x1100 C pt 0 \<and> rip (regs C) = 0x400010 \<and> rdi (regs C) = 0x2fffd \<and>
     view Pml4Ops (mem (kern m')) pt 0x400000 = Some (a OR load_flags 5) \<and> frame_byte (mem (kern m')) a 100 = 7 \<and>
     (\<exists>m''. reschedule fayt_ref (slab_ref 0x70) (m'\<lparr>kern := (kern m')\<lparr>core := (core demo_kernel)\<lparr>current_context := NULL, delivery_stack := [],
        thread_queue := [], scheduling_server := 0x77\<rparr>\<rparr>\<rparr>) zero_registers = Ret (Some (regs C), m'') \<and> current_context (core (kern m'')) = 0x1100)"
proof -
  let ?f = demo_server_file and ?p = "phdr demo_server_file ! 0"
  let ?S = "\<lparr>server_name = ''vfs'', server_id_of = \<lparr>nid = 0, sid = 0\<rparr>, server_file = Some demo_file\<rparr>"
  let ?k = "(core demo_kernel)\<lparr>current_context := NULL, delivery_stack := [], thread_queue := [], scheduling_server := 0x77\<rparr>"
  have l: "lock_free fayt_ref (reschedule_lock demo_load)" "lock_free fayt_ref (pt_lock (raw_table demo_deps))" "\<not> active (raw_queue demo_deps)"
    "ucontext (raw_context demo_launch) = NULL"
    by (simp_all add: demo_deps_def demo_pt_def lock_free_def fayt_ref_def demo_launch_def demo_context_def)
  have inv: "pmm_inv fayt_ref (mem (kern demo_load))" using demo_inv [of 200000] by simp
  have "memmap_pages fayt_ref (memmap demo_boot) = 512" by (simp add: memmap_pages_def demo_boot_def fayt_ref_def)
  then have cost: "launch_cost fayt_ref demo_boot Pml4Ops ?f = 84601" by (simp add: launch_cost_def demo_server_image)
  have room: "tail_room fayt_ref (mem (kern demo_load)) (launch_cost fayt_ref demo_boot Pml4Ops ?f)" unfolding cost
  proof (rule tail_room_first [OF _ demo_wf demo_tail_free])
    show "modules (mem (kern demo_load)) = demo_module 200000 # []" by (simp add: demo_def)
    show "unat (last_free (demo_module 200000)) + 84601 \<le> mod_pages (demo_module 200000)"
      using demo_pages [of 200000] by (simp add: demo_module_def)
  qed simp_all
  have b: "Pml4Ops = x86_paging_init (cpuid_7_rcx demo_boot)" "4096 dvd unat (physical_base demo_boot)"
    by (simp_all add: x86_paging_init_def demo_boot_def)
  have s: "(0x77 :: ptr) \<noteq> NULL" "[0x77 \<mapsto> ?S] 0x77 = Some ?S" "server_file ?S = Some demo_file" by simp_all
  have e: "elf64_file_init ((raw_elf demo_launch)\<lparr>data_buffer := file_address demo_file, data_length := ucast (file_size demo_file)\<rparr>) = Ret (0, ?f)"
    using demo_server_init by (simp add: demo_launch_def demo_elf_def demo_file_def demo_server_length)
  have c: "0x1100 = alloc_at demo_deps (Suc (allocs demo_load))" "(0x1100 :: ptr) \<noteq> NULL" "bitmap_alloc demo_deps (cid_bitmap demo_load) = (0, 0, 1)"
    "push_context demo_deps (context_table demo_load) 0 0x1100 = (0, (\<lambda>_. NULL)(0 := 0x1100))" by (simp_all add: demo_deps_def)
  have n: "3 = (case Some [1, 2, 3 :: u8] of None \<Rightarrow> 0 | Some as \<Rightarrow> length as)" "(3 :: nat) \<le> 0x10000" by simp_all
  have pop: "vector_pop_law (slab_ref 0x70)" by (simp add: vector_pop_law_def slab_ref_def)
  obtain m' C pt E rsp where 1: "launch_server fayt_ref memcpy_ref demo_boot demo_deps demo_launch [0x77 \<mapsto> ?S] demo_load 0x77 (Some [1, 2, 3]) = Ret (0, m')"
    "runnable m' 0x1100 C pt (raw_fpu demo_deps)" "server_contexts m' 0x77 = Some 0x1100" "image_loaded Pml4Ops fayt_ref ?f demo_server E (mem (kern m')) pt"
    "regs C = start_regs (load_offset ?f + e_entry (hdr ?f)) (map_option (\<lambda>as. 0x30000 - of_nat (length as)) (Some [1, 2, 3 :: u8])) rsp (regs (raw_context demo_launch))"
    "\<forall>k r. current_context k = NULL \<longrightarrow> delivery_stack k = [] \<longrightarrow> thread_queue k = [] \<longrightarrow> scheduling_server k = 0x77 \<longrightarrow>
      (\<exists>m''. reschedule fayt_ref (slab_ref 0x70) (m'\<lparr>kern := (kern m')\<lparr>core := k\<rparr>\<rparr>) r = Ret (Some (regs C), m'') \<and>
        cr3 m'' = pmlt pt - HIGH_VMA (mem (kern m')) \<and> current_context (core (kern m'')) = 0x1100)"
    using launched_server_runs [where srvs = "[0x77 \<mapsto> ?S]" and srv = "0x77", OF fayt_laws_ref memcpy_law_ref pop l(1) inv room l(2-4) b demo_high s e demo_server_image(1) demo_image_user c n]
    by (elim exE conjE) (rule that)
  have "?p \<in> set (loads (phdr ?f))" by (simp add: demo_server_file_def)
  then have "seg_loaded Pml4Ops ?f demo_server E (mem (kern m')) pt ?p" using 1(4) by (simp add: image_loaded_def)
  note code = demo_server_code [OF this]
  have "rip (regs C) = 0x400010" "rdi (regs C) = 0x2fffd" unfolding 1(5) by (simp_all add: start_regs_def demo_server_file_def)
  moreover have "raw_fpu demo_deps = 0" by (simp add: demo_deps_def)
  ultimately show ?thesis using code 1(1-3) 1(6) [rule_format, of ?k zero_registers] by auto
qed

end
