(* ===== verification/Spec2Isabelle.thy ===== *)
theory Spec2Isabelle
  imports Startup Launch
begin

text \<open>
  A verification of the kernel of \<^verbatim>\<open>rock\<close> (called \<^verbatim>\<open>dufay\<close> in its own messages), a small microkernel in C
  for x86-64, and of its servers.

  \<^bold>\<open>The program.\<close> The boot loader hands over a memory map and a list of modules. \<^verbatim>\<open>kernel/main.c\<close> sets up the
  processor (\<^verbatim>\<open>arch/x86/cpu.c\<close>), builds a bitmap allocator of physical frames from the map (\<^verbatim>\<open>core/physical.c\<close>),
  page tables of four or five levels on top of it (\<^verbatim>\<open>arch/x86/paging.c\<close>, \<^verbatim>\<open>core/virtual.c\<close>), the descriptor tables and
  interrupt vectors (\<^verbatim>\<open>gdt.c\<close>, \<^verbatim>\<open>idt.c\<close>), the interrupt controllers and timers found through ACPI
  (\<^verbatim>\<open>acpi/rsdp.c\<close>, \<^verbatim>\<open>apic.c\<close>, \<^verbatim>\<open>hpet.c\<close>), starts the other processors (\<^verbatim>\<open>smp.c\<close>) and loads servers from the modules
  (\<^verbatim>\<open>core/server.c\<close>, \<^verbatim>\<open>core/elf.c\<close>). A server is a context (\<^verbatim>\<open>core/scheduler.c\<close>) with an address space of its own. Contexts
  get memory through portals (\<^verbatim>\<open>core/portal.c\<close>), which the page-fault handler serves, and talk to each
  other by notifications (\<^verbatim>\<open>core/notification.c\<close>), which \<^verbatim>\<open>reschedule\<close> delivers when it switches to their
  target. Threads are chosen by a user-space server (\<^verbatim>\<open>servers/sched\<close>); the file system and NVMe servers
  (\<^verbatim>\<open>servers/fs/vfs\<close>, \<^verbatim>\<open>servers/io/nvme\<close>) only start up so far.

  \<^bold>\<open>The model.\<close> Machine integers are words of their width. A C function becomes a function from a state to
  an \<open>outcome\<close>: \<open>Ret\<close> with a value and the new state, \<open>Fault\<close> for an access or an operation the C program
  has no defined result for, \<open>NoReturn\<close> for a call that does not return (a lock that is never released, a
  loop that cannot end). Error codes the source returns are ordinary results. Physical memory is a map from
  8-byte aligned addresses of the direct map to 64-bit cells; \<open>Bytes\<close> reads and writes it by bytes.
  Kernel objects behind pointers live in stores, partial maps from addresses to records.

  \<^bold>\<open>The theories\<close>, and the code each one translates:

  \<^item> \<open>Prelude\<close>: word, list and alignment lemmas, \<open>outcome\<close> and its bind. \<open>Fayt\<close>: the interface of the support
    library \<^verbatim>\<open>fayt\<close>, which is not part of the repository, as a record of functions with its laws
    \<open>fayt_laws\<close>, and a reference instance \<open>fayt_ref\<close> that satisfies them.
  \<^item> \<open>Pmm\<close>, \<open>Pmm_Init\<close>: \<^verbatim>\<open>core/physical.c\<close>. The invariant \<open>pmm_inv\<close> (bitmaps match their regions, regions are
    disjoint) holds after \<^verbatim>\<open>pmm_init\<close> and is kept by \<^verbatim>\<open>pmm_alloc\<close> and \<^verbatim>\<open>pmm_free\<close>; allocation is first fit from
    \<^verbatim>\<open>last_free\<close>, aligned, zeroed and disjoint from everything owned.
  \<^item> \<open>Paging\<close>, \<open>Vmm\<close>: \<^verbatim>\<open>arch/x86/paging.c\<close>, \<^verbatim>\<open>core/virtual.c\<close>. The specification is the translation function
    \<open>view\<close> that the hardware walk computes; mapping and lookup refine updates of that function for both table
    depths, unmapping for four levels only (the five-level routine uses the wrong index), each for both page sizes. \<open>Vmm\<close> also shows that the tables stay apart from the
    frames that hold data (\<open>tables_apart\<close>), and that a new address space has nothing in its lower half.
  \<^item> \<open>Context\<close>, \<open>Notification\<close>, \<open>Syscall\<close>: the kernel objects of \<^verbatim>\<open>scheduler.h\<close>, \<^verbatim>\<open>notification.h\<close>, \<^verbatim>\<open>cpu.h\<close>; sending,
    queueing and dispatching notifications; the system call table and its dispatcher. \<open>Syscall\<close> puts the parts together in
    one state, \<open>sys_state\<close> (the machine with its contexts, frames and tables, the portals, the console and user memory), and every handler
    of the table, log, portal and yield included, is a function on it.
  \<^item> \<open>Portal\<close>: requests of all kinds, the page faults that serve them, and \<^verbatim>\<open>portal_destroy\<close>, with the pages, tables and portals it
    frees, so that freeing twice and use after free are faults.
  \<^item> \<open>Descriptors\<close>: \<^verbatim>\<open>idt.c\<close>, \<^verbatim>\<open>gdt.c\<close>: gates, vectors, the common interrupt handler, segments and TSS.
  \<^item> \<open>Bytes\<close>, \<open>Acpi\<close>, \<open>Devices\<close>, \<open>Apic\<close>: decoding of packed structures, the table search, the timer, the interrupt
    controllers. Hardware is a \<open>bus\<close> parameter whose reads and writes change its own state.
  \<^item> \<open>Cpu\<close>: \<^verbatim>\<open>cpu.c\<close>, the accessors of \<^verbatim>\<open>cpu.h\<close> the kernel uses and the serial port (\<^verbatim>\<open>arch/x86/debug.c\<close>). \<open>Console\<close>:
    \<^verbatim>\<open>core/debug.c\<close>, printing, panic and the stack trace; a panic ends in a \<open>panic_end\<close> that has the state of the device.
  \<^item> \<open>Elf\<close>, \<open>Loading\<close>: \<^verbatim>\<open>core/elf.c\<close>, from the validation of a file down to the bytes that end up in the frames, for
    one segment (\<open>Elf\<close>) and for a whole executable (\<open>Loading\<close>).
  \<^item> \<open>Scheduler\<close>, \<open>Server\<close>: \<^verbatim>\<open>core/scheduler.c\<close>, \<^verbatim>\<open>core/server.c\<close>: context creation, the context switch with FPU, \<^verbatim>\<open>cr3\<close>
    and segment bases, the registry of namespaces and servers, their launch. \<open>Launch\<close> composes them: from
    \<^verbatim>\<open>launch_server\<close> to the first instruction of the server.
  \<^item> \<open>Smp\<close>: \<^verbatim>\<open>smp.c\<close> as an inductive step relation over cores that share the lock, the frames and the kernel's
    tables; every interleaving has at most nine steps per processor, and a core whose code faults is in a state of its own.
  \<^item> \<open>Boot\<close>: \<^verbatim>\<open>main.c\<close>, \<^verbatim>\<open>vmm_init\<close> and \<^verbatim>\<open>x86_system_tables\<close>: the initialisers in their order, on one state.
  \<^item> \<open>Sched\<close>, \<open>Startup\<close>: the thread tree and the handlers of the scheduling server; the start-up of all servers and
    the loop of \<^verbatim>\<open>sched\<close>. Each call of a server runs \<^verbatim>\<open>syscall_handler\<close> with the table of \<open>Syscall\<close>.
  \<^item> this theory: memory on demand, from the portal request to the interrupt that serves the fault.

  \<^bold>\<open>Interfaces.\<close> \<open>frame_allocator\<close> states what page tables need of an allocator and \<open>page_mapper\<close>, \<open>page_unmapper\<close> what the
  range loops need of page tables; they are interpreted on \<open>pmm_alloc\<close> and on \<open>map_page\<close>, \<open>unmap_page\<close>. \<open>frame_budget\<close> is an
  allocator with a number of frames that are sure to be had, interpreted on single frames anywhere (\<open>singles\<close>)
  and on a free end of a region, which also serves runs (\<open>tail\<close>); with data frames set apart it is again a
  \<open>frame_allocator\<close> and a \<open>page_mapper\<close>. Loading and launching are proved in it once. \<open>quiet_kernel\<close> and \<open>notifying_kernel\<close>
  are what a starting server needs of its system calls, interpreted on \<open>kernel_calls\<close>, that is on \<open>syscall_handler\<close> and \<open>syscall_handles\<close>.

  \<^bold>\<open>Parameters.\<close> Code outside the repository is an argument: \<open>fayt\<close> (bit operations, locks, \<^verbatim>\<open>memset\<close>,
  rounding), \<open>slab\<close> and \<open>ctx_deps\<close> (\<^verbatim>\<open>alloc\<close> and the contents of fresh memory), \<open>registry_deps\<close>, \<open>portal_deps\<close>,
  \<open>sched_deps\<close> (hash tables, bitmaps, trees, vectors), \<open>server_lib\<close> (what a server is linked with), \<^verbatim>\<open>memcpy\<close>,
  \<^verbatim>\<open>stream_print\<close> and \<^verbatim>\<open>slab_cache_create\<close>, collected in \<open>sys_env\<close> and \<open>destroy_env\<close> where a theory needs many of them; so are the boot loader's answers (\<open>boot_answers\<close>), user memory, the bus, the
  instruction \<^verbatim>\<open>cpuid\<close>, the addresses objects get (\<open>smp_env\<close>) and the entry points of assembly stubs. A theorem that
  relies on one of them has the law as a hypothesis and a witness in which the parameter is a concrete function.

  \<^bold>\<open>Loops.\<close> Loops over lists and counters are recursive functions with termination proofs. A loop that need not
  end is a partial function to \<open>option\<close>, and not ending is \<open>NoReturn\<close>: the allocator's scan, \<^verbatim>\<open>NOTIFICATION_POP\<close>, the search for a
  stack, the MADT walk, the waits for the timer and the serial port, the stack trace. Theorems show when they
  end, and for some when they do not. The endless loop of \<^verbatim>\<open>sched\<close> is a list of turns, one for each tree it meets.

  \<^bold>\<open>Abstractions.\<close> The allocator's modules and bitmaps, and the parameters of a starting core, are objects outside \<open>memory\<close>: writing them
  changes no cell, and the bitmaps that run past their buffer (a finding) do not overwrite frames. User memory that a call is
  given is readable and writable at every address. The \<^verbatim>\<open>pages\<close> pointer of a page table is not a field of it, the table of pages is part of the
  portal state. The register dump before a fatal exception halts is left out, and so is the kernel's progress output, unless a theory says that it
  is modelled.

  \<^bold>\<open>Not modelled.\<close> \<^verbatim>\<open>launch_servers\<close> runs while the other processors start; each is modelled, their interleaving
  is not. The real-mode code that starts a core is one step that reads the parameters left for it. The assembly
  entry stubs and the loading of descriptor tables appear where C code relies on their effect. Of the boot protocol header
  (\<^verbatim>\<open>limine.h\<close>, vendored) only the structures the kernel reads are kept; accessors of \<^verbatim>\<open>cpu.h\<close> and structures of
  \<^verbatim>\<open>rsdp.h\<close> and \<^verbatim>\<open>elf.h\<close> that nothing uses are left out.
\<close>

unbundle bit_operations_syntax

text \<open>
  C10. Memory on demand, from the request to the interrupt: after a request for an anonymous region by a context with a page table, the
  page-fault interrupt at an address inside the region returns, with the \<^verbatim>\<open>gs\<close> base as before and one end-of-interrupt written. The faulting page, and no
  other, is then translated to a frame that nobody owned, with the protections asked for, and the frame holds only
  zeros; the allocator and the tables keep their invariants. Each such fault consumes two frames, of which one is mapped.
\<close>

theorem anon_region_served:
  assumes "fayt_laws F" "bst_insert_law D" "\<forall>h v pg. fst (push_page D h v pg) \<noteq> - 1"
    and "portal_bst (portal_root st)" "\<forall>q\<in>set_tree (portal_root st). proper q"
    and "req_type req = PORTAL_REQ_ANON" "ptype raw = 0"
    and "p = raw\<lparr>base := morph_addr req, limit := morph_length req, prot := req_prot req, ptype := PORTAL_REQ_ANON\<rparr>"
    and "proper p" "covers p addr"
    and "\<forall>q\<in>set_tree (portal_root st). apart q p \<and> unat (base q) + unat (limit q) \<noteq> unat addr"
    and "pmm_inv F (kst st)" "pmm_room F (modules (kst st)) (levels m + 2)" "pt_ok F m (kst st) (ptab st)"
    and "view m (kst st) (ptab st) addr = None" "clean_entry F st addr"
    and "isr_number r = 0xe" "error_code r AND X86_FLAGS_P = 0" "c \<noteq> NULL" "t \<noteq> NULL"
  shows "\<exists>resp st1 st2 a b. portal_request F D raw st req = Ret (0, resp, st1) \<and>
    isr_handler_main I (\<lambda>cr2 e st. portal_resolve_fault F D c t st cr2 e) call addr r \<lparr>gs_swapped = g, eoi_writes = n, system = st1\<rparr> =
      Ret \<lparr>gs_swapped = g, eoi_writes = Suc n, system = st2\<rparr> \<and>
    pmm_inv F (kst st2) \<and> pt_ok F m (kst st2) (ptab st2) \<and>
    a \<noteq> b \<and> {a, b} \<inter> pmm_owned F (kst st) = {} \<and> {a, b} \<subseteq> pmm_owned F (kst st2) \<and> zero_frame (kst st2) b \<and>
    (\<forall>w. view m (kst st2) (ptab st2) w =
      (if vpn m w = vpn m addr then Some (b OR portal_translate_protections (req_prot req)) else view m (kst st) (ptab st) w))"
proof -
  let ?st = "st\<lparr>portal_root := BST_INSERT D (portal_root st) p\<rparr>"
  have req: "\<exists>resp. portal_request F D raw st req = Ret (0, resp, ?st)"
    using request_anon [OF assms(6), of F D raw st] assms(7,8) by (simp add: Let_def)
  have found: "find_anon addr (portal_root ?st) = Some p"
    using anon_inserted_found [OF assms(2,4,5) _ assms(9-11)] assms(8) by simp
  have p: "ptype p AND PORTAL_REQ_SHARE = 0" "prot p = req_prot req" using assms(8) by simp_all
  have cl: "clean_entry F ?st addr" using assms(16) by (simp add: clean_entry_def)
  have q: "pmm_inv F (kst ?st)" "pmm_room F (modules (kst ?st)) (levels m + 2)" "pt_ok F m (kst ?st) (ptab ?st)"
    "view m (kst ?st) (ptab ?st) addr = None" "\<forall>v pg. fst (push_page D (pages ?st) v pg) \<noteq> - 1" using assms(3,12-15) by simp_all
  obtain a b st2 where f: "portal_resolve_fault F D c t ?st addr (error_code r) = Ret (0, st2)" "pmm_inv F (kst st2)" "pt_ok F m (kst st2) (ptab st2)"
    "a \<noteq> b" "{a, b} \<inter> pmm_owned F (kst ?st) = {}" "{a, b} \<subseteq> pmm_owned F (kst st2)" "zero_frame (kst st2) b"
    and v: "view m (kst st2) (ptab st2) = map_view (vpn m) addr (b OR portal_translate_protections (prot p)) (view m (kst ?st) (ptab ?st))"
    using resolve_anon_maps [OF assms(1) q(1-3) found p(1) q(4) cl q(5) assms(18-20)] by (elim exE conjE) (rule that)
  have "isr_handler_main I (\<lambda>cr2 e st. portal_resolve_fault F D c t st cr2 e) call addr r \<lparr>gs_swapped = g, eoi_writes = n, system = ?st\<rparr> =
      Ret \<lparr>gs_swapped = g, eoi_writes = Suc n, system = st2\<rparr>"
    by (rule page_fault_resolved) (rule assms(17) f(1))+
  moreover have "\<forall>w. view m (kst st2) (ptab st2) w =
      (if vpn m w = vpn m addr then Some (b OR portal_translate_protections (req_prot req)) else view m (kst st) (ptab st) w)"
    unfolding v map_view_def p(2) by simp
  moreover have "{a, b} \<inter> pmm_owned F (kst st) = {}" using f(5) by simp
  ultimately show ?thesis using req f(2-4,6,7) by (elim exE) (intro exI conjI)
qed

theorem anon_region_served_witness:
  "\<exists>resp st1 st2 b. portal_request fayt_ref deps_ref Portal.raw_portal (demo_pstate Pml4Ops) (demo_req\<lparr>req_type := 4\<rparr>) = Ret (0, resp, st1) \<and>
     isr_handler_main demo_interrupts (\<lambda>cr2 e st. portal_resolve_fault fayt_ref deps_ref 0x10 0x80 st cr2 e) (\<lambda>h g p s. Ret s) 0x401234
       (zero_registers\<lparr>isr_number := 0xe, cs := 0x43, error_code := 6\<rparr>) \<lparr>gs_swapped = False, eoi_writes = 0, system = st1\<rparr> =
       Ret \<lparr>gs_swapped = False, eoi_writes = 1, system = st2\<rparr> \<and>
     view Pml4Ops (kst st2) (ptab st2) 0x401000 = Some (b OR 0x8000000000000007) \<and> zero_frame (kst st2) b"
proof -
  let ?r = "demo_req\<lparr>req_type := 4\<rparr>" and ?st = "demo_pstate Pml4Ops" and ?i = "zero_registers\<lparr>isr_number := 0xe, cs := 0x43, error_code := 6\<rparr>"
  let ?p = "Portal.raw_portal\<lparr>base := morph_addr ?r, limit := morph_length ?r, prot := req_prot ?r, ptype := PORTAL_REQ_ANON\<rparr>"
  have t: "\<forall>h v pg. fst (push_page deps_ref h v pg) \<noteq> - 1" "portal_bst (portal_root ?st)" "\<forall>q\<in>set_tree (portal_root ?st). proper q"
    "\<forall>q\<in>set_tree (portal_root ?st). apart q ?p \<and> unat (base q) + unat (limit q) \<noteq> unat (0x401234 :: u64)"
    by (simp_all add: demo_pstate_def portal_bst_def deps_ref_def)
  have p: "proper ?p" "covers ?p 0x401234" "req_type ?r = PORTAL_REQ_ANON" "ptype Portal.raw_portal = 0"
    by (simp_all add: proper_def covers_def demo_req_def Portal.raw_portal_def)
  have n: "(0x10 :: ptr) \<noteq> NULL" "(0x80 :: ptr) \<noteq> NULL" by simp_all
  have i: "isr_number ?i = 0xe" "error_code ?i AND X86_FLAGS_P = 0" by (simp_all add: zero_registers_def)
  have r: "pmm_room fayt_ref (modules (kst ?st)) (levels Pml4Ops + 2)" by (rule demo_pstate_ready(3)) simp
  have c: "clean_entry fayt_ref ?st 0x401234" by (simp add: clean_entry_def demo_pstate_def demo_def)
  note w = anon_region_served [OF fayt_laws_ref bst_insert_ref t(1-3) p(3,4) refl p(1,2) t(4) demo_pstate_ready(1) r demo_pstate_ready(2)
      demo_pstate_ready(4) c i n, of demo_interrupts "\<lambda>h g p s. Ret s" False 0]
  have "vpn Pml4Ops 0x401000 = vpn Pml4Ops 0x401234" by (simp add: vpn_def)
  moreover have "portal_translate_protections (req_prot ?r) = 0x8000000000000007"
    by (simp add: demo_req_def portal_translate_protections_def)
  ultimately show ?thesis using w by (elim exE conjE) (auto dest: spec [of _ "0x401000"])
qed

end
